(* ===== verification/Prelude.thy ===== *)
theory Prelude
  imports Complex_Main
begin

text \<open>
  Shared vocabulary of the development: the Python values the program passes around
  (timestamps, Unicode text, exceptions), the result type of code that may raise, decimal
  text of integers as \<^verbatim>\<open>str\<close> and \<^verbatim>\<open>int\<close> produce and read it, and the generic list
  lemmas the component theories use.

  \<^item> \<open>time\<close> is a UTC-aware \<^verbatim>\<open>datetime\<close>: microseconds since an epoch at a midnight;
    \<open>date_of\<close> is \<^verbatim>\<open>.date()\<close>.
  \<^item> \<open>ustr\<close> is a Python \<^verbatim>\<open>str\<close> as its list of code points; ASCII keys and enum
    members are \<open>string\<close>.
  \<^item> \<open>'a res\<close> is the result of code that may raise: \<open>Inl\<close> the exception.
\<close>

named_theorems inv_intros \<open>introduction facts for component invariants\<close>
named_theorems frame_simps \<open>fields an operation does not touch\<close>

subsection \<open>Values\<close>

type_synonym time = int
type_synonym ustr = "nat list"
type_synonym coord = rat

definition us_per_minute :: int where
  "us_per_minute = 60 * 1000000"

definition us_per_day :: int where
  "us_per_day = 24 * 60 * us_per_minute"

definition date_of :: "time \<Rightarrow> int" where
  "date_of t = t div us_per_day"

lemma us_per_minute_pos [simp]: "0 < us_per_minute"
  by (simp add: us_per_minute_def)

lemma us_per_day_pos [simp]: "0 < us_per_day"
  by (simp add: us_per_day_def us_per_minute_def)

lemma date_of_mono: "s \<le> t \<Longrightarrow> date_of s \<le> date_of t"
  unfolding date_of_def using us_per_day_pos by (intro zdiv_mono1)

lemma date_of_less_imp_less: "date_of s < date_of t \<Longrightarrow> s < t"
  using date_of_mono linorder_not_le by blast

subsection \<open>Exceptions and results\<close>

text \<open>
  The exceptions the modelled code raises or catches: the domain hierarchy of
  \<^verbatim>\<open>domain/errors.py\<close>, pydantic's and Python's own, and the HTTP library's
  (\<open>RequestException\<close>). \<open>OtherException\<close> is any further \<^verbatim>\<open>Exception\<close>.
\<close>

datatype exc =
    UpstreamError string
  | ParseBugError string string
  | ParserVersionMismatch
  | SessionExpiredError
  | InvalidTransitionError string string string
  | ValidationError
  | ValueError
  | KeyError
  | NotImplementedError
  | RuntimeError
  | IntegrityError
  | RequestException
  | OtherException string

type_synonym 'a res = "exc + 'a"

fun res_bind :: "'a res \<Rightarrow> ('a \<Rightarrow> 'b res) \<Rightarrow> 'b res" where
  "res_bind (Inl e) f = Inl e"
| "res_bind (Inr x) f = f x"

fun map_res :: "('a \<Rightarrow> 'b res) \<Rightarrow> 'a list \<Rightarrow> 'b list res" where
  "map_res f [] = Inr []"
| "map_res f (x # xs) =
     (case f x of Inl e \<Rightarrow> Inl e
      | Inr y \<Rightarrow> (case map_res f xs of Inl e \<Rightarrow> Inl e | Inr ys \<Rightarrow> Inr (y # ys)))"

lemma res_bind_Inr_iff: "res_bind m f = Inr y \<longleftrightarrow> (\<exists>x. m = Inr x \<and> f x = Inr y)"
  by (cases m) auto

lemma map_res_Inr_map: "(\<And>x. x \<in> set xs \<Longrightarrow> f x = Inr (g x)) \<Longrightarrow> map_res f xs = Inr (map g xs)"
  by (induction xs) auto

lemma map_res_Inl: "map_res f xs = Inl e \<Longrightarrow> \<exists>x \<in> set xs. f x = Inl e"
  by (induction xs) (auto split: sum.splits)

lemma map_res_raises: "x \<in> set xs \<Longrightarrow> f x = Inl e \<Longrightarrow> \<exists>e'. map_res f xs = Inl e'"
  by (induction xs) (auto split: sum.splits)

lemma map_res_InrD:
  "map_res f xs = Inr ys \<Longrightarrow> length ys = length xs \<and> (\<forall>i < length xs. f (xs ! i) = Inr (ys ! i))"
proof (induction xs arbitrary: ys)
  case Nil
  then show ?case by simp
next
  case (Cons x xs)
  then obtain y zs where y: "f x = Inr y" and zs: "map_res f xs = Inr zs" and "ys = y # zs"
    by (auto split: sum.splits)
  with Cons.IH [OF zs] show ?case by (auto simp: nth_Cons')
qed

subsection \<open>Clock readings\<close>

text \<open>
  A service reads its injected clock several times in one call. The clock is an arbitrary
  sequence of readings and a position in it: nothing is assumed about the readings unless a
  theorem says so.
\<close>

record clock_st =
  readings :: "nat \<Rightarrow> time"
  ticks :: nat

definition now_of :: "clock_st \<Rightarrow> time" where
  "now_of c = readings c (ticks c)"

definition tick :: "clock_st \<Rightarrow> clock_st" where
  "tick c = c\<lparr>ticks := Suc (ticks c)\<rparr>"

lemma readings_tick [simp]: "readings (tick c) = readings c"
  by (simp add: tick_def)

subsection \<open>Decimal text of integers\<close>

definition digit_char :: "nat \<Rightarrow> char" where
  "digit_char d = char_of (48 + d)"

definition is_digit :: "char \<Rightarrow> bool" where
  "is_digit c \<longleftrightarrow> 48 \<le> (of_char c :: nat) \<and> (of_char c :: nat) \<le> 57"

definition digit_val :: "char \<Rightarrow> nat" where
  "digit_val c = (of_char c :: nat) - 48"

fun str_of_nat :: "nat \<Rightarrow> string" where
  "str_of_nat n =
     (if n < 10 then [digit_char n] else str_of_nat (n div 10) @ [digit_char (n mod 10)])"

declare str_of_nat.simps [simp del]

definition str_of_int :: "int \<Rightarrow> string" where
  "str_of_int i = (if i < 0 then CHR ''-'' # str_of_nat (nat (- i)) else str_of_nat (nat i))"

text \<open>
  Python's \<^verbatim>\<open>int(s)\<close> on text of code points below 256: surrounding whitespace is dropped, one sign is
  allowed, and single underscores may separate digits. What counts as space there is less than
  for \<^verbatim>\<open>str.strip\<close>. Numbers of more than 4300 digits, which Python refuses, are not considered.
\<close>

fun scan_digits :: "nat \<Rightarrow> string \<Rightarrow> nat option"
and scan_after_underscore :: "nat \<Rightarrow> string \<Rightarrow> nat option" where
  "scan_digits a [] = Some a"
| "scan_digits a (c # cs) =
     (if is_digit c then scan_digits (10 * a + digit_val c) cs
      else if c = CHR ''_'' then scan_after_underscore a cs
      else None)"
| "scan_after_underscore a [] = None"
| "scan_after_underscore a (c # cs) =
     (if is_digit c then scan_digits (10 * a + digit_val c) cs else None)"

definition is_space :: "char \<Rightarrow> bool" where
  "is_space c \<longleftrightarrow>
     (let n = (of_char c :: nat) in (9 \<le> n \<and> n \<le> 13) \<or> (28 \<le> n \<and> n \<le> 32) \<or> n = 133 \<or> n = 160)"

definition strip :: "string \<Rightarrow> string" where
  "strip s = rev (dropWhile is_space (rev (dropWhile is_space s)))"

definition int_space :: "char \<Rightarrow> bool" where
  "int_space c \<longleftrightarrow> (let n = (of_char c :: nat) in (9 \<le> n \<and> n \<le> 13) \<or> n = 32 \<or> n = 133 \<or> n = 160)"

definition int_strip :: "string \<Rightarrow> string" where
  "int_strip s = rev (dropWhile int_space (rev (dropWhile int_space s)))"

definition int_of_str :: "string \<Rightarrow> int res" where
  "int_of_str s =
     (case int_strip s of
        [] \<Rightarrow> Inl ValueError
      | c # cs \<Rightarrow>
          (if c = CHR ''-''
           then (case scan_after_underscore 0 cs of None \<Rightarrow> Inl ValueError | Some n \<Rightarrow> Inr (- int n))
           else if c = CHR ''+''
           then (case scan_after_underscore 0 cs of None \<Rightarrow> Inl ValueError | Some n \<Rightarrow> Inr (int n))
           else (case scan_after_underscore 0 (c # cs) of
                   None \<Rightarrow> Inl ValueError | Some n \<Rightarrow> Inr (int n))))"

lemma of_char_digit_char: "d < 10 \<Longrightarrow> (of_char (digit_char d) :: nat) = 48 + d"
  by (simp add: digit_char_def of_char_of)

lemma digit_char_simps [simp]:
  assumes "d < 10"
  shows "is_digit (digit_char d)" and "digit_val (digit_char d) = d"
    and "\<not> is_space (digit_char d)" and "digit_char d \<noteq> CHR ''-''" and "digit_char d \<noteq> CHR ''+''"
proof -
  have o: "(of_char (digit_char d) :: nat) = 48 + d"
    using assms by (rule of_char_digit_char)
  show "is_digit (digit_char d)" "digit_val (digit_char d) = d" "\<not> is_space (digit_char d)"
    using o assms by (auto simp: is_digit_def digit_val_def is_space_def Let_def)
  show "digit_char d \<noteq> CHR ''-''" "digit_char d \<noteq> CHR ''+''"
    using o by (auto dest: arg_cong [where f = "of_char :: char \<Rightarrow> nat"])
qed

lemma str_of_nat_nonempty [simp]: "str_of_nat n \<noteq> []"
  by (subst str_of_nat.simps) simp

lemma str_of_nat_digits: "\<forall>c \<in> set (str_of_nat n). is_digit c"
proof (induction n rule: str_of_nat.induct)
  case (1 n)
  then show ?case by (subst str_of_nat.simps) auto
qed

lemma scan_digits_append_digit:
  "scan_digits a s = Some n \<Longrightarrow> is_digit c \<Longrightarrow> scan_digits a (s @ [c]) = Some (10 * n + digit_val c)"
  "scan_after_underscore a s = Some n \<Longrightarrow> is_digit c \<Longrightarrow>
     scan_after_underscore a (s @ [c]) = Some (10 * n + digit_val c)"
  by (induction a s and a s arbitrary: n and n rule: scan_digits_scan_after_underscore.induct)
    (auto split: if_splits)

lemma scan_str_of_nat: "scan_after_underscore 0 (str_of_nat n) = Some n"
proof (induction n rule: str_of_nat.induct)
  case (1 n)
  show ?case
  proof (cases "n < 10")
    case True
    then show ?thesis by (subst str_of_nat.simps) simp
  next
    case False
    then have "scan_after_underscore 0 (str_of_nat (n div 10)) = Some (n div 10)"
      by (rule "1.IH")
    then have "scan_after_underscore 0 (str_of_nat (n div 10) @ [digit_char (n mod 10)])
        = Some (10 * (n div 10) + n mod 10)"
      using scan_digits_append_digit(2) [of 0 _ "n div 10" "digit_char (n mod 10)"] by simp
    with False show ?thesis by (subst str_of_nat.simps) simp
  qed
qed

lemma dropWhile_none: "\<forall>c \<in> set s. \<not> P c \<Longrightarrow> dropWhile P s = s"
  by (cases s) auto

lemma strip_no_space: "\<forall>c \<in> set s. \<not> is_space c \<Longrightarrow> strip s = s"
  by (simp add: strip_def dropWhile_none)

lemma int_strip_no_space: "\<forall>c \<in> set s. \<not> is_space c \<Longrightarrow> int_strip s = s"
proof -
  assume "\<forall>c \<in> set s. \<not> is_space c"
  then have "\<forall>c \<in> set s. \<not> int_space c" by (auto simp: is_space_def int_space_def Let_def)
  then show ?thesis by (simp add: int_strip_def dropWhile_none)
qed

lemma is_digit_not_special: "is_digit c \<Longrightarrow> \<not> is_space c \<and> c \<noteq> CHR ''-'' \<and> c \<noteq> CHR ''+''"
  by (auto simp: is_digit_def is_space_def Let_def)

lemma int_of_str_of_int [simp]: "int_of_str (str_of_int i) = Inr i"
proof (cases "i < 0")
  case True
  let ?d = "str_of_nat (nat (- i))"
  have "\<forall>c \<in> set (CHR ''-'' # ?d). \<not> is_space c"
    using str_of_nat_digits is_digit_not_special by (auto simp: is_space_def)
  then have "int_strip (CHR ''-'' # ?d) = CHR ''-'' # ?d"
    by (rule int_strip_no_space)
  with True show ?thesis by (simp add: int_of_str_def str_of_int_def scan_str_of_nat)
next
  case False
  let ?d = "str_of_nat (nat i)"
  obtain c cs where d: "?d = c # cs" by (cases ?d) auto
  have dig: "\<forall>c \<in> set ?d. is_digit c" by (rule str_of_nat_digits)
  then have "int_strip ?d = ?d" using is_digit_not_special by (intro int_strip_no_space) blast
  moreover have "c \<noteq> CHR ''-''" "c \<noteq> CHR ''+''" using dig d is_digit_not_special by auto
  ultimately show ?thesis
    using False d scan_str_of_nat [of "nat i"]
    by (auto simp: int_of_str_def str_of_int_def split: option.splits)
qed

lemma str_of_int_inject [simp]: "str_of_int i = str_of_int j \<longleftrightarrow> i = j"
  by (metis int_of_str_of_int sum.inject(2))

subsection \<open>Lists\<close>

lemma find_map_key:
  "(\<And>x. key (f x) = key x) \<Longrightarrow>
   find (\<lambda>x. key x = k) (map f xs) = map_option f (find (\<lambda>x. key x = k) xs)"
  by (induction xs) auto

lemma option_case_cond:
  "(case x of None \<Rightarrow> True | Some t \<Rightarrow> P t) \<longleftrightarrow> x = None \<or> (\<exists>t. x = Some t \<and> P t)"
  by (cases x) auto

lemma find_append: "find P (xs @ ys) = (case find P xs of None \<Rightarrow> find P ys | Some x \<Rightarrow> Some x)"
  by (induction xs) auto

lemma find_SomeD: "find P xs = Some x \<Longrightarrow> x \<in> set xs \<and> P x"
  by (induction xs) (auto split: if_splits)

lemma find_None_iff_all: "find P xs = None \<longleftrightarrow> (\<forall>x \<in> set xs. \<not> P x)"
  by (auto simp: find_None_iff)

lemma find_unique:
  "distinct (map key xs) \<Longrightarrow> x \<in> set xs \<Longrightarrow> find (\<lambda>y. key y = key x) xs = Some x"
  by (induction xs) (auto simp: rev_image_eqI)

text \<open>\<^verbatim>\<open>s.split(sep)\<close> for a separator of one character.\<close>

fun split_at :: "'a \<Rightarrow> 'a list \<Rightarrow> 'a list list" where
  "split_at s [] = [[]]"
| "split_at s (c # cs) = (if c = s then [] # split_at s cs else (c # hd (split_at s cs)) # tl (split_at s cs))"

lemma split_at_nonempty [simp]: "split_at s xs \<noteq> []"
  by (cases xs) simp_all

text \<open>The same with one recursive call, which is how proofs evaluate it.\<close>

lemma split_at_step [simp]:
  "split_at s (c # cs) =
     (if c = s then [] # split_at s cs else case split_at s cs of [] \<Rightarrow> [] | p # ps \<Rightarrow> (c # p) # ps)"
  using split_at_nonempty [of s cs] by (simp split: list.split)

declare split_at.simps(2) [simp del]

end
