(* ===== verification/Domain.thy ===== *)
theory Domain
  imports Prelude
begin

text \<open>
  The domain layer: the DTOs of \<^verbatim>\<open>domain/models.py\<close> as records and datatypes, their
  validators as functions that may raise, the two conversions between them, and the diff
  of two lot snapshots (\<^verbatim>\<open>domain/diff.py\<close>).

  Field names carry the prefix of their class (\<open>lot_id\<close> is \<^verbatim>\<open>Lot.id\<close>, \<open>row_id\<close> is
  \<^verbatim>\<open>ParsedListRow.id\<close>). Coordinates are rationals: the code only stores and compares them.
  The frozen pydantic models become values; \<^verbatim>\<open>extra="forbid"\<close> and field types are
  the HOL types.
\<close>

subsection \<open>Lot\<close>

datatype json =
    JNull
  | JBool bool
  | JInt int
  | JFloat rat
  | JText ustr
  | JList "json list"
  | JDict "(ustr \<times> json) list"

datatype enrichment_status = Enrich_pending | Enrich_done | Enrich_failed | Enrich_permanent_fail

datatype inactive_reason = Status_changed | Hard_removed | List_absent

record lot =
  lot_id :: int
  lot_cadastral_no :: ustr
  lot_area_sqm :: "int option"
  lot_region :: ustr
  lot_municipality :: "ustr option"
  lot_land_category :: "ustr option"
  lot_permitted_use :: "ustr option"
  lot_ogv :: "ustr option"
  lot_status :: ustr
  lot_date_create :: time
  lot_date_update :: "time option"
  lot_date_registry :: "time option"
  lot_lat :: "coord option"
  lot_lon :: "coord option"
  lot_has_boundaries :: "bool option"
  lot_raw_json :: "(ustr \<times> json) list"
  lot_parser_version :: int
  lot_first_seen :: time
  lot_last_seen :: time
  lot_detail_fetched_at :: "time option"
  lot_enrichment_status :: "enrichment_status option"
  lot_last_seen_at :: "time option"
  lot_is_active :: bool
  lot_inactive_reason :: "inactive_reason option"
  lot_inactive_since :: "time option"
  lot_inactive_confirmed_at :: "time option"
  lot_region_id :: "int option"

datatype tier = Tier_match | Tier_silent | Tier_gone

datatype freshness = Hot | Warm | Cool | Cold

record lot_public = lot +
  lot_age_seconds :: int
  lot_tier :: tier
  lot_freshness :: freshness

subsection \<open>Parser outputs\<close>

record parsed_list_row =
  row_id :: int
  row_cadastral_no :: ustr
  row_area_sqm :: "int option"
  row_region :: ustr
  row_municipality :: "ustr option"
  row_land_category :: "ustr option"
  row_permitted_use :: "ustr option"
  row_ogv :: "ustr option"
  row_status :: ustr
  row_date_create :: time
  row_date_update :: "time option"

record parsed_list_page =
  page_rows :: "parsed_list_row list"
  page_total_count :: "int option"

record parsed_detail =
  det_lat :: "coord option"
  det_lon :: "coord option"
  det_has_boundaries :: "bool option"
  det_date_update :: "time option"
  det_date_registry :: "time option"
  det_raw_json :: "(ustr \<times> json) list"
  det_parser_version :: int

subsection \<open>Conversions\<close>

definition parsed_row_to_lot :: "parsed_list_row \<Rightarrow> time \<Rightarrow> int option \<Rightarrow> lot" where
  "parsed_row_to_lot row now region_id =
     \<lparr> lot_id = row_id row,
       lot_cadastral_no = row_cadastral_no row,
       lot_area_sqm = row_area_sqm row,
       lot_region = row_region row,
       lot_municipality = row_municipality row,
       lot_land_category = row_land_category row,
       lot_permitted_use = row_permitted_use row,
       lot_ogv = row_ogv row,
       lot_status = row_status row,
       lot_date_create = row_date_create row,
       lot_date_update = row_date_update row,
       lot_date_registry = None,
       lot_lat = None,
       lot_lon = None,
       lot_has_boundaries = None,
       lot_raw_json = [],
       lot_parser_version = 1,
       lot_first_seen = now,
       lot_last_seen = now,
       lot_detail_fetched_at = None,
       lot_enrichment_status = Some Enrich_pending,
       lot_last_seen_at = Some now,
       lot_is_active = True,
       lot_inactive_reason = None,
       lot_inactive_since = None,
       lot_inactive_confirmed_at = None,
       lot_region_id = region_id \<rparr>"

definition lot_to_public_dto :: "lot \<Rightarrow> lot_public" where
  "lot_to_public_dto l = lot.extend l (lot_public.fields 0 Tier_match Hot)"

lemma lot_to_public_dto_truncate [simp]: "lot.truncate (lot_to_public_dto l) = l"
  by (cases l) (simp add: lot_to_public_dto_def lot.defs lot_public.defs)

lemma lot_to_public_dto_sel [simp]:
  "lot_id (lot_to_public_dto l) = lot_id l"
  "lot_region_id (lot_to_public_dto l) = lot_region_id l"
  "lot_date_create (lot_to_public_dto l) = lot_date_create l"
  by (simp_all add: lot_to_public_dto_def lot.defs lot_public.defs)

lemma parsed_row_to_lot_sel [simp]:
  "lot_id (parsed_row_to_lot r t g) = row_id r"
  "lot_region_id (parsed_row_to_lot r t g) = g"
  "lot_lat (parsed_row_to_lot r t g) = None"
  "lot_lon (parsed_row_to_lot r t g) = None"
  "lot_date_create (parsed_row_to_lot r t g) = row_date_create r"
  "lot_is_active (parsed_row_to_lot r t g)"
  "lot_inactive_reason (parsed_row_to_lot r t g) = None"
  "lot_status (parsed_row_to_lot r t g) = row_status r"
  by (simp_all add: parsed_row_to_lot_def)

text \<open>A sample row and lot, for concrete instances of the theorems.\<close>

definition sample_row :: "int \<Rightarrow> parsed_list_row" where
  "sample_row i =
     \<lparr> row_id = i, row_cadastral_no = [50], row_area_sqm = Some 100, row_region = [65],
       row_municipality = None, row_land_category = None, row_permitted_use = None, row_ogv = None,
       row_status = [78], row_date_create = 0, row_date_update = None \<rparr>"

definition sample_lot :: "int \<Rightarrow> lot" where
  "sample_lot i = parsed_row_to_lot (sample_row i) 0 None"

lemma sample_lot_sel [simp]:
  "lot_id (sample_lot i) = i" "lot_region_id (sample_lot i) = None"
  "row_id (sample_row i) = i"
  by (simp_all add: sample_lot_def sample_row_def)

subsection \<open>Diff of two snapshots\<close>

text \<open>A tracked field's name is a string: the guard against unknown names is part of the code.\<close>

datatype field_value = VText ustr | VInt int | VTime time | VBool bool

record field_change =
  ch_field :: string
  ch_old :: "field_value option"
  ch_new :: "field_value option"

definition ALLOWED_TRACKED_FIELDS :: "string list" where
  "ALLOWED_TRACKED_FIELDS =
     [''status'', ''area_sqm'', ''date_update'', ''auction'', ''is_active'', ''list_presence'']"

definition UNIMPLEMENTED_FIELDS :: "string list" where
  "UNIMPLEMENTED_FIELDS = [''auction'', ''list_presence'']"

definition DEFAULT_TRACKED_FIELDS :: "string list" where
  "DEFAULT_TRACKED_FIELDS = [''status'', ''area_sqm'', ''date_update'', ''is_active'']"

text \<open>\<^verbatim>\<open>getattr(lot, field)\<close> on the implemented tracked fields.\<close>

definition lot_getattr :: "lot \<Rightarrow> string \<Rightarrow> field_value option" where
  "lot_getattr l f =
     (if f = ''status'' then Some (VText (lot_status l))
      else if f = ''area_sqm'' then map_option VInt (lot_area_sqm l)
      else if f = ''date_update'' then map_option VTime (lot_date_update l)
      else if f = ''is_active'' then Some (VBool (lot_is_active l))
      else None)"

fun check_tracked :: "string list \<Rightarrow> unit res" where
  "check_tracked [] = Inr ()"
| "check_tracked (f # fs) =
     (if f \<notin> set ALLOWED_TRACKED_FIELDS then Inl ValueError
      else if f \<in> set UNIMPLEMENTED_FIELDS then Inl NotImplementedError
      else check_tracked fs)"

fun diff_fields :: "lot \<Rightarrow> lot \<Rightarrow> string list \<Rightarrow> field_change list" where
  "diff_fields old new [] = []"
| "diff_fields old new (f # fs) =
     (if lot_getattr old f \<noteq> lot_getattr new f
      then \<lparr>ch_field = f, ch_old = lot_getattr old f, ch_new = lot_getattr new f\<rparr>
             # diff_fields old new fs
      else diff_fields old new fs)"

definition compute_changes :: "lot option \<Rightarrow> lot \<Rightarrow> string list \<Rightarrow> field_change list res" where
  "compute_changes old new tracked =
     res_bind (check_tracked tracked)
       (\<lambda>_. case old of None \<Rightarrow> Inr [] | Some o' \<Rightarrow> Inr (diff_fields o' new tracked))"

lemma check_tracked_ok_iff:
  "check_tracked fs = Inr () \<longleftrightarrow>
     (\<forall>f \<in> set fs. f \<in> {''status'', ''area_sqm'', ''date_update'', ''is_active''})"
  by (induction fs) (auto simp: ALLOWED_TRACKED_FIELDS_def UNIMPLEMENTED_FIELDS_def)

lemma check_tracked_Inl:
  "check_tracked fs = Inl e \<Longrightarrow>
     \<exists>pre f post. fs = pre @ f # post
       \<and> set pre \<subseteq> {''status'', ''area_sqm'', ''date_update'', ''is_active''}
       \<and> (if f \<in> {''auction'', ''list_presence''} then e = NotImplementedError
          else f \<notin> set ALLOWED_TRACKED_FIELDS \<and> e = ValueError)"
proof (induction fs)
  case (Cons f fs)
  show ?case
  proof (cases "f \<in> {''status'', ''area_sqm'', ''date_update'', ''is_active''}")
    case True
    with Cons.prems have "check_tracked fs = Inl e"
      by (auto simp: ALLOWED_TRACKED_FIELDS_def UNIMPLEMENTED_FIELDS_def)
    with Cons.IH obtain pre g post where "fs = pre @ g # post"
      "set pre \<subseteq> {''status'', ''area_sqm'', ''date_update'', ''is_active''}"
      "if g \<in> {''auction'', ''list_presence''} then e = NotImplementedError
          else g \<notin> set ALLOWED_TRACKED_FIELDS \<and> e = ValueError" by blast
    with True show ?thesis by (intro exI [of _ "f # pre"] exI [of _ g] exI [of _ post]) auto
  next
    case False
    have "if f \<in> {''auction'', ''list_presence''} then e = NotImplementedError
        else f \<notin> set ALLOWED_TRACKED_FIELDS \<and> e = ValueError"
    proof (cases "f \<in> set ALLOWED_TRACKED_FIELDS")
      case True
      then have "f = ''auction'' \<or> f = ''list_presence''"
        using False by (simp add: ALLOWED_TRACKED_FIELDS_def)
      then show ?thesis
        using Cons.prems True by (auto simp: UNIMPLEMENTED_FIELDS_def)
    next
      case no: False
      then have "f \<notin> {''auction'', ''list_presence''}" by (auto simp: ALLOWED_TRACKED_FIELDS_def)
      with no Cons.prems show ?thesis by simp
    qed
    then show ?thesis by (intro exI [of _ "[]"] exI [of _ f] exI [of _ fs]) simp
  qed
qed simp

lemma check_tracked_default [simp]: "check_tracked DEFAULT_TRACKED_FIELDS = Inr ()"
  by (simp add: DEFAULT_TRACKED_FIELDS_def ALLOWED_TRACKED_FIELDS_def UNIMPLEMENTED_FIELDS_def)

lemma diff_fields_names:
  "map ch_field (diff_fields old new fs) = filter (\<lambda>f. lot_getattr old f \<noteq> lot_getattr new f) fs"
  by (induction fs) auto

lemma diff_fields_values:
  "c \<in> set (diff_fields old new fs) \<Longrightarrow>
   ch_old c = lot_getattr old (ch_field c) \<and> ch_new c = lot_getattr new (ch_field c)
     \<and> ch_old c \<noteq> ch_new c"
  by (induction fs) (auto split: if_splits)

lemma diff_fields_empty_iff:
  "diff_fields old new fs = [] \<longleftrightarrow> (\<forall>f \<in> set fs. lot_getattr old f = lot_getattr new f)"
  by (induction fs) auto

subsection \<open>Upsert results, notification records, cycle results\<close>

record lot_upsert_result =
  ur_was_new :: bool
  ur_changes :: "field_change list"

definition mk_lot_upsert_result :: "bool \<Rightarrow> field_change list \<Rightarrow> lot_upsert_result res" where
  "mk_lot_upsert_result was_new changes =
     (if was_new \<and> changes \<noteq> [] then Inl ValidationError
      else Inr \<lparr>ur_was_new = was_new, ur_changes = changes\<rparr>)"

datatype notif_channel = Ch_email | Ch_browser | Ch_heartbeat

datatype notif_status = N_pending | N_sent | N_permanent_fail

record notification_record =
  nr_lot_id :: int
  nr_channel :: notif_channel
  nr_recipient :: ustr
  nr_status :: notif_status
  nr_attempt_no :: int
  nr_last_attempt_at :: "time option"
  nr_sent_at :: "time option"

datatype cycle_status = Cycle_ok | Cycle_error | Cycle_aborted

datatype id_schema_check = Schema_ok | Schema_anomaly | Schema_confirmed

record cycle_result =
  cr_id :: int
  cr_region :: int
  cr_started_at :: time
  cr_finished_at :: time
  cr_status :: cycle_status
  cr_lots_fetched :: int
  cr_new_lots :: int
  cr_error :: "string option"
  cr_id_schema_check :: id_schema_check

text \<open>The constructor's length check on the free-form \<^verbatim>\<open>error\<close> text.\<close>

definition cycle_result_ok :: "cycle_result \<Rightarrow> bool" where
  "cycle_result_ok r \<longleftrightarrow> (case cr_error r of None \<Rightarrow> True | Some e \<Rightarrow> length e \<le> 200)"

record notify_result =
  nres_ok :: bool
  nres_detail :: string
  nres_retryable :: bool

definition mk_notify_result :: "bool \<Rightarrow> string \<Rightarrow> bool \<Rightarrow> notify_result res" where
  "mk_notify_result ok' detail retryable =
     (if length detail > 500 then Inl ValidationError
      else Inr \<lparr>nres_ok = ok', nres_detail = detail, nres_retryable = retryable\<rparr>)"

record http_response =
  resp_status :: int
  resp_text :: string
  resp_final_url :: string

subsection \<open>Events on the bus\<close>

datatype error_category =
    Cat_network | Cat_http_5xx | Cat_http_4xx | Cat_redirect_login
  | Cat_timeout | Cat_parse_bug | Cat_schema_anomaly | Cat_internal_error

datatype lot_event_type = Ev_gone | Ev_changed

datatype monitor_state =
  St_active | St_warning | St_error | St_paused | St_awaiting_backfill | St_checking

datatype sse_event =
    SseCycleError time int error_category
  | SseSmtpFailed time string int error_category
  | SseSessionExpired time
  | SseLotNew lot_public bool
  | SseLotStatus int ustr lot_event_type
  | SseCycleDone time int cycle_status int int int string
  | SseCycleStarted time int
  | SseStatus time monitor_state int ustr string
  | SseLoginSucceeded time
  | SseLicenseExpired time "int option"

datatype priority = Critical | Normal

fun event_priority :: "sse_event \<Rightarrow> priority" where
  "event_priority (SseCycleError _ _ _) = Critical"
| "event_priority (SseSmtpFailed _ _ _ _) = Critical"
| "event_priority (SseSessionExpired _) = Critical"
| "event_priority (SseLicenseExpired _ _) = Critical"
| "event_priority _ = Normal"

fun event_name :: "sse_event \<Rightarrow> string" where
  "event_name (SseCycleError _ _ _) = ''cycle.error''"
| "event_name (SseSmtpFailed _ _ _ _) = ''smtp.failed''"
| "event_name (SseSessionExpired _) = ''session.expired''"
| "event_name (SseLotNew _ _) = ''lot.new''"
| "event_name (SseLotStatus _ _ _) = ''lot.status''"
| "event_name (SseCycleDone _ _ _ _ _ _ _) = ''cycle.done''"
| "event_name (SseCycleStarted _ _) = ''cycle.started''"
| "event_name (SseStatus _ _ _ _ _) = ''status''"
| "event_name (SseLoginSucceeded _) = ''login.succeeded''"
| "event_name (SseLicenseExpired _ _) = ''license.expired''"

text \<open>The fields a critical event may persist; an unknown event type gets none.\<close>

definition payload_whitelist :: "string \<Rightarrow> string list" where
  "payload_whitelist event_type =
     (if event_type = ''session.expired'' then [''timestamp'', ''event'']
      else if event_type = ''cycle.error'' then [''timestamp'', ''cycle_id'', ''error_category'']
      else if event_type = ''smtp.failed''
        then [''timestamp'', ''channel_id'', ''error_category'', ''attempt_no'']
      else if event_type = ''license.expired'' then [''event'', ''timestamp'', ''expires_at'']
      else [])"

text \<open>
  Every field of every event, by the name its class declares; \<^verbatim>\<open>priority\<close> is a class
  variable and not a field.
\<close>

fun event_fields :: "sse_event \<Rightarrow> string list" where
  "event_fields (SseCycleError _ _ _) = [''event'', ''timestamp'', ''cycle_id'', ''error_category'']"
| "event_fields (SseSmtpFailed _ _ _ _) =
     [''event'', ''timestamp'', ''channel_id'', ''attempt_no'', ''error_category'']"
| "event_fields (SseSessionExpired _) = [''timestamp'', ''event'']"
| "event_fields (SseLotNew _ _) = [''event'', ''lot'', ''fragment_template'', ''is_backfill'']"
| "event_fields (SseLotStatus _ _ _) = [''event'', ''lot_id'', ''new_status'', ''event_type'']"
| "event_fields (SseCycleDone _ _ _ _ _ _ _) =
     [''event'', ''timestamp'', ''cycle_id'', ''status'', ''lots_fetched'', ''new_lots'',
      ''duration_ms'', ''finished_at_hhmm'']"
| "event_fields (SseCycleStarted _ _) = [''event'', ''timestamp'', ''cycle_id'']"
| "event_fields (SseStatus _ _ _ _ _) =
     [''event'', ''timestamp'', ''state'', ''interval_minutes'', ''last_new_human'',
      ''expires_at_hhmm'']"
| "event_fields (SseLoginSucceeded _) = [''event'', ''timestamp'']"
| "event_fields (SseLicenseExpired _ _) = [''event'', ''timestamp'', ''expires_at'']"

lemma payload_whitelist_critical:
  "event_priority e = Critical \<Longrightarrow> payload_whitelist (event_name e) \<noteq> []
     \<and> set (payload_whitelist (event_name e)) \<subseteq> set (event_fields e)"
  by (cases e) (simp_all add: payload_whitelist_def)

lemma payload_whitelist_normal:
  "event_priority e = Normal \<Longrightarrow> payload_whitelist (event_name e) = []"
  by (cases e) (simp_all add: payload_whitelist_def)

subsection \<open>Settings\<close>

record filters_config =
  rf_subjects :: "int list"

record settings =
  set_interval_minutes :: int
  set_regions :: "int list"
  set_filters :: filters_config
  set_full_scan_time :: string
  set_email_enabled :: bool
  set_email_recipients :: "ustr list"

text \<open>The range check of \<^verbatim>\<open>interval_minutes\<close>.\<close>

definition settings_ok :: "settings \<Rightarrow> bool" where
  "settings_ok s \<longleftrightarrow> 0 \<le> set_interval_minutes s \<and> set_interval_minutes s \<le> 60"

subsection \<open>Properties\<close>

text \<open>
  The diff never reports anything for a new lot, and between two snapshots it reports
  exactly the tracked fields whose values differ, in the order they are tracked, each with
  the old and the new value; a name outside the whitelist raises \<^verbatim>\<open>ValueError\<close> and one of
  the reserved names \<^verbatim>\<open>NotImplementedError\<close>, whichever comes first.
\<close>

theorem compute_changes_spec:
  "(case compute_changes old new tracked of
      Inl e \<Rightarrow>
        (\<exists>pre f post. tracked = pre @ f # post
           \<and> set pre \<subseteq> {''status'', ''area_sqm'', ''date_update'', ''is_active''}
           \<and> (if f \<in> {''auction'', ''list_presence''} then e = NotImplementedError
              else f \<notin> set ALLOWED_TRACKED_FIELDS \<and> e = ValueError))
    | Inr changes \<Rightarrow>
        set tracked \<subseteq> {''status'', ''area_sqm'', ''date_update'', ''is_active''}
        \<and> map ch_field changes =
            (case old of None \<Rightarrow> []
             | Some o' \<Rightarrow> filter (\<lambda>f. lot_getattr o' f \<noteq> lot_getattr new f) tracked)
        \<and> (\<forall>c o'. c \<in> set changes \<and> old = Some o' \<longrightarrow>
             ch_old c = lot_getattr o' (ch_field c) \<and> ch_new c = lot_getattr new (ch_field c)))"
proof (cases "check_tracked tracked")
  case (Inl e)
  then show ?thesis using check_tracked_Inl [of tracked e] by (simp add: compute_changes_def)
next
  case (Inr u)
  then have "set tracked \<subseteq> {''status'', ''area_sqm'', ''date_update'', ''is_active''}"
    using check_tracked_ok_iff [of tracked] by auto
  with Inr diff_fields_values show ?thesis
    by (auto simp: compute_changes_def diff_fields_names split: option.splits)
qed

theorem compute_changes_spec_witness:
  "\<forall>old new. \<exists>c. compute_changes (Some old) (new\<lparr>lot_is_active := \<not> lot_is_active old\<rparr>) [''is_active''] = Inr [c]
     \<and> ch_old c = Some (VBool (lot_is_active old)) \<and> ch_new c = Some (VBool (\<not> lot_is_active old))"
proof (intro allI)
  fix old new :: lot
  let ?new = "new\<lparr>lot_is_active := \<not> lot_is_active old\<rparr>"
  let ?r = "compute_changes (Some old) ?new [''is_active'']"
  obtain cs where r: "?r = Inr cs"
    by (simp add: compute_changes_def ALLOWED_TRACKED_FIELDS_def UNIMPLEMENTED_FIELDS_def)
  with compute_changes_spec [where old = "Some old" and new = ?new and tracked = "[''is_active'']"]
  have "map ch_field cs = [''is_active'']"
    and "\<forall>c \<in> set cs. ch_old c = lot_getattr old (ch_field c) \<and> ch_new c = lot_getattr ?new (ch_field c)"
    by (simp_all add: lot_getattr_def)
  with r show "\<exists>c. ?r = Inr [c] \<and> ch_old c = Some (VBool (lot_is_active old))
      \<and> ch_new c = Some (VBool (\<not> lot_is_active old))"
    by (cases cs) (auto simp: lot_getattr_def)
qed

text \<open>
  What a critical event may persist is a non-empty subset of its own fields, the
  free-text field \<^verbatim>\<open>detail\<close> and the recipient never among them; an event of normal
  priority and an event type the schema does not know persist nothing.
\<close>

theorem payload_whitelist_fail_closed:
  "(event_priority e = Critical \<longrightarrow>
      payload_whitelist (event_name e) \<noteq> []
      \<and> set (payload_whitelist (event_name e)) \<subseteq> set (event_fields e)
      \<and> set (payload_whitelist (event_name e)) \<inter> {''recipient'', ''detail'', ''redirect_url'', ''message''} = {})
   \<and> (event_priority e = Normal \<longrightarrow> payload_whitelist (event_name e) = [])
   \<and> (\<forall>n. n \<notin> {''session.expired'', ''cycle.error'', ''smtp.failed'', ''license.expired''}
        \<longrightarrow> payload_whitelist n = [])"
  by (cases e) (simp_all add: payload_whitelist_def)

theorem payload_whitelist_fail_closed_witness:
  "payload_whitelist (event_name (SseSessionExpired 0)) \<noteq> []
   \<and> payload_whitelist (event_name (SseCycleStarted 0 1)) = [] \<and> payload_whitelist ''lot.gone'' = []"
  using payload_whitelist_fail_closed [of "SseSessionExpired 0"]
    payload_whitelist_fail_closed [of "SseCycleStarted 0 1"] by simp

end
