(* ===== verification/Regions.thy ===== *)
theory Regions
  imports Domain
begin

text \<open>
  The region catalogues of \<^verbatim>\<open>domain/regions.py\<close>, the subscription-date cutoff of
  \<^verbatim>\<open>domain/subscription_cutoff.py\<close>, and the notify-time filters of
  \<^verbatim>\<open>services/filter_matcher.py\<close>. Macro-regions are 1 and 2; RF subjects are the site
  ids 27 to 96. Display names are code points.
\<close>

subsection \<open>Macro-region slugs\<close>

definition REGION_BY_SLUG :: "(string \<times> int) list" where
  "REGION_BY_SLUG = [(''dfo'', 1), (''arctic'', 2)]"

definition REGION_SLUG_BY_ID :: "(int \<times> string) list" where
  "REGION_SLUG_BY_ID = map (\<lambda>(k, v). (v, k)) REGION_BY_SLUG"

definition REGION_TITLE_NOMINATIVE_BY_SLUG :: "(string \<times> ustr) list" where
  "REGION_TITLE_NOMINATIVE_BY_SLUG =
     [(''dfo'', [1044, 1060, 1054]),
      (''arctic'',
       [1040, 1088, 1082, 1090, 1080, 1095, 1077, 1089, 1082, 1072, 1103, 32, 1079, 1086, 1085, 1072])]"

definition slug_to_id :: "string \<Rightarrow> int res" where
  "slug_to_id slug =
     (case map_of REGION_BY_SLUG slug of None \<Rightarrow> Inl KeyError | Some i \<Rightarrow> Inr i)"

definition id_to_slug :: "int \<Rightarrow> string option" where
  "id_to_slug i = map_of REGION_SLUG_BY_ID i"

definition region_name :: "int \<Rightarrow> ustr option" where
  "region_name region_id =
     (case id_to_slug region_id of
        None \<Rightarrow> None
      | Some slug \<Rightarrow> map_of REGION_TITLE_NOMINATIVE_BY_SLUG slug)"

definition slugs_to_ids :: "string list \<Rightarrow> int list res" where
  "slugs_to_ids slugs = map_res slug_to_id slugs"

fun ids_to_slugs :: "int list \<Rightarrow> string list" where
  "ids_to_slugs [] = []"
| "ids_to_slugs (i # is) =
     (case id_to_slug i of None \<Rightarrow> ids_to_slugs is | Some slug \<Rightarrow> slug # ids_to_slugs is)"

lemma slug_to_id_iff: "slug_to_id s = Inr i \<longleftrightarrow> id_to_slug i = Some s"
  by (auto simp: slug_to_id_def id_to_slug_def REGION_BY_SLUG_def REGION_SLUG_BY_ID_def
      split: if_splits option.splits)

lemma slugs_roundtrip: "slugs_to_ids slugs = Inr is \<Longrightarrow> ids_to_slugs is = slugs"
  by (induction slugs arbitrary: "is")
    (auto simp: slugs_to_ids_def slug_to_id_iff split: sum.splits)

subsection \<open>RF subjects\<close>

definition SUBJECTS_BY_MACRO :: "(int \<times> int list) list" where
  "SUBJECTS_BY_MACRO =
     [(1, [72, 85, 87, 88, 89, 90, 91, 93, 94, 95, 96]),
      (2, [27, 28, 29, 30, 34, 68, 69, 76, 87, 96])]"

definition SUBJECT_TITLE_BY_ID :: "(int \<times> ustr) list" where
  "SUBJECT_TITLE_BY_ID =
     [(27, [1056, 1077, 1089, 1087, 1091, 1073, 1083, 1080, 1082, 1072, 32, 1050, 1072, 1088,
        1077, 1083, 1080, 1103]),
      (28, [1056, 1077, 1089, 1087, 1091, 1073, 1083, 1080, 1082, 1072, 32, 1050, 1086, 1084,
        1080]),
      (29, [1040, 1088, 1093, 1072, 1085, 1075, 1077, 1083, 1100, 1089, 1082, 1072, 1103, 32,
        1086, 1073, 1083, 1072, 1089, 1090, 1100]),
      (30, [1053, 1077, 1085, 1077, 1094, 1082, 1080, 1081, 32, 1072, 1074, 1090, 1086, 1085,
        1086, 1084, 1085, 1099, 1081, 32, 1086, 1082, 1088, 1091, 1075]),
      (34, [1052, 1091, 1088, 1084, 1072, 1085, 1089, 1082, 1072, 1103, 32, 1086, 1073, 1083,
        1072, 1089, 1090, 1100]),
      (68, [1061, 1072, 1085, 1090, 1099, 45, 1052, 1072, 1085, 1089, 1080, 1081, 1089, 1082,
        1080, 1081, 32, 1072, 1074, 1090, 1086, 1085, 1086, 1084, 1085, 1099, 1081, 32, 1086,
        1082, 1088, 1091, 1075]),
      (69, [1071, 1084, 1072, 1083, 1086, 45, 1053, 1077, 1085, 1077, 1094, 1082, 1080, 1081,
        32, 1072, 1074, 1090, 1086, 1085, 1086, 1084, 1085, 1099, 1081, 32, 1086, 1082, 1088,
        1091, 1075]),
      (72, [1056, 1077, 1089, 1087, 1091, 1073, 1083, 1080, 1082, 1072, 32, 1041, 1091, 1088,
        1103, 1090, 1080, 1103]),
      (76, [1050, 1088, 1072, 1089, 1085, 1086, 1103, 1088, 1089, 1082, 1080, 1081, 32, 1082,
        1088, 1072, 1081]),
      (85, [1047, 1072, 1073, 1072, 1081, 1082, 1072, 1083, 1100, 1089, 1082, 1080, 1081, 32,
        1082, 1088, 1072, 1081]),
      (87, [1056, 1077, 1089, 1087, 1091, 1073, 1083, 1080, 1082, 1072, 32, 1057, 1072, 1093,
        1072, 32, 40, 1071, 1082, 1091, 1090, 1080, 1103, 41]),
      (88, [1055, 1088, 1080, 1084, 1086, 1088, 1089, 1082, 1080, 1081, 32, 1082, 1088, 1072,
        1081]),
      (89, [1061, 1072, 1073, 1072, 1088, 1086, 1074, 1089, 1082, 1080, 1081, 32, 1082, 1088,
        1072, 1081]),
      (90, [1040, 1084, 1091, 1088, 1089, 1082, 1072, 1103, 32, 1086, 1073, 1083, 1072, 1089,
        1090, 1100]),
      (91, [1050, 1072, 1084, 1095, 1072, 1090, 1089, 1082, 1080, 1081, 32, 1082, 1088, 1072,
        1081]),
      (93, [1052, 1072, 1075, 1072, 1076, 1072, 1085, 1089, 1082, 1072, 1103, 32, 1086, 1073,
        1083, 1072, 1089, 1090, 1100]),
      (94, [1057, 1072, 1093, 1072, 1083, 1080, 1085, 1089, 1082, 1072, 1103, 32, 1086, 1073,
        1083, 1072, 1089, 1090, 1100]),
      (95, [1045, 1074, 1088, 1077, 1081, 1089, 1082, 1072, 1103, 32, 1072, 1074, 1090, 1086,
        1085, 1086, 1084, 1085, 1072, 1103, 32, 1086, 1073, 1083, 1072, 1089, 1090, 1100]),
      (96, [1063, 1091, 1082, 1086, 1090, 1089, 1082, 1080, 1081, 32, 1072, 1074, 1090, 1086,
        1085, 1086, 1084, 1085, 1099, 1081, 32, 1086, 1082, 1088, 1091, 1075])]"

definition TITLE_TO_SUBJECT_ID :: "(ustr \<times> int) list" where
  "TITLE_TO_SUBJECT_ID = map (\<lambda>(sid, title). (title, sid)) SUBJECT_TITLE_BY_ID"

definition subject_id_by_title :: "ustr option \<Rightarrow> int option" where
  "subject_id_by_title title =
     (case title of
        None \<Rightarrow> None
      | Some t \<Rightarrow> (if t = [] then None else map_of TITLE_TO_SUBJECT_ID t))"

text \<open>\<open>seen\<close> is the insertion-ordered dict of the code.\<close>

fun add_seen :: "int list \<Rightarrow> int list \<Rightarrow> int list" where
  "add_seen seen [] = seen"
| "add_seen seen (sid # sids) = add_seen (if sid \<in> set seen then seen else seen @ [sid]) sids"

fun add_macros :: "int list \<Rightarrow> int list \<Rightarrow> int list" where
  "add_macros seen [] = seen"
| "add_macros seen (mid # mids) =
     add_macros
       (add_seen seen (case map_of SUBJECTS_BY_MACRO mid of None \<Rightarrow> [] | Some sids \<Rightarrow> sids)) mids"

definition subjects_for_macros :: "int list \<Rightarrow> int list" where
  "subjects_for_macros macro_ids = add_macros [] macro_ids"

lemma subject_catalog_inverse:
  "\<forall>(sid, title) \<in> set SUBJECT_TITLE_BY_ID. title \<noteq> [] \<and> map_of TITLE_TO_SUBJECT_ID title = Some sid"
  by (simp add: SUBJECT_TITLE_BY_ID_def TITLE_TO_SUBJECT_ID_def)

lemma subject_id_by_title_iff:
  "subject_id_by_title (Some t) = Some sid \<longleftrightarrow> (sid, t) \<in> set SUBJECT_TITLE_BY_ID"
proof
  assume "subject_id_by_title (Some t) = Some sid"
  then have "(t, sid) \<in> set TITLE_TO_SUBJECT_ID"
    by (auto simp: subject_id_by_title_def split: if_splits dest: map_of_SomeD)
  then show "(sid, t) \<in> set SUBJECT_TITLE_BY_ID" by (auto simp: TITLE_TO_SUBJECT_ID_def)
next
  assume "(sid, t) \<in> set SUBJECT_TITLE_BY_ID"
  with subject_catalog_inverse show "subject_id_by_title (Some t) = Some sid"
    by (auto simp: subject_id_by_title_def)
qed

lemma macro_subjects_have_titles:
  "map_of SUBJECTS_BY_MACRO mid = Some sids \<Longrightarrow> sid \<in> set sids \<Longrightarrow>
     \<exists>title. map_of SUBJECT_TITLE_BY_ID sid = Some title \<and> subject_id_by_title (Some title) = Some sid"
proof -
  assume "map_of SUBJECTS_BY_MACRO mid = Some sids" "sid \<in> set sids"
  then have "sid \<in> set (map fst SUBJECT_TITLE_BY_ID)"
    by (auto simp: SUBJECTS_BY_MACRO_def SUBJECT_TITLE_BY_ID_def split: if_splits)
  then obtain title where t: "map_of SUBJECT_TITLE_BY_ID sid = Some title"
    by (metis list.set_map map_of_eq_None_iff not_None_eq)
  then have "(sid, title) \<in> set SUBJECT_TITLE_BY_ID" by (rule map_of_SomeD)
  with t show ?thesis using subject_id_by_title_iff by blast
qed

lemma add_seen_set: "set (add_seen seen sids) = set seen \<union> set sids"
  by (induction seen sids rule: add_seen.induct) auto

lemma add_seen_distinct: "distinct seen \<Longrightarrow> distinct (add_seen seen sids)"
  by (induction seen sids rule: add_seen.induct) auto

lemma add_macros_set:
  "set (add_macros seen mids) =
     set seen \<union> {sid. \<exists>mid \<in> set mids. \<exists>sids. map_of SUBJECTS_BY_MACRO mid = Some sids \<and> sid \<in> set sids}"
proof (induction seen mids rule: add_macros.induct)
  case (1 seen)
  then show ?case by simp
next
  case (2 seen mid mids)
  then show ?case by (auto simp: add_seen_set split: option.splits)
qed

lemma add_macros_distinct: "distinct seen \<Longrightarrow> distinct (add_macros seen mids)"
  by (induction seen mids rule: add_macros.induct) (auto simp: add_seen_distinct)

subsection \<open>Subscription cutoff\<close>

definition passes_subscription_cutoff :: "time \<Rightarrow> time option \<Rightarrow> int option \<Rightarrow> bool" where
  "passes_subscription_cutoff date_create subscribed_at region_id =
     (if region_id = None \<or> subscribed_at = None then True
      else date_of date_create \<ge> date_of (the subscribed_at))"

lemma passes_cutoff_antimono:
  "passes_subscription_cutoff d (Some s') g \<Longrightarrow> s \<le> s' \<Longrightarrow> passes_subscription_cutoff d (Some s) g"
  using date_of_mono [of s s'] by (auto simp: passes_subscription_cutoff_def split: if_splits)

subsection \<open>Notify-time filters\<close>

definition rf_matches :: "lot_public \<Rightarrow> filters_config \<Rightarrow> bool" where
  "rf_matches l filters =
     (if rf_subjects filters = [] then True
      else case lot_region_id l of
             None \<Rightarrow> True
           | Some g \<Rightarrow> g \<in> set (rf_subjects filters))"

fun all_match :: "(lot_public \<Rightarrow> filters_config \<Rightarrow> bool) list \<Rightarrow> lot_public \<Rightarrow> filters_config \<Rightarrow> bool" where
  "all_match [] l filters = True"
| "all_match (m # ms) l filters = (if m l filters then all_match ms l filters else False)"

lemma all_match_iff: "all_match ms l f \<longleftrightarrow> (\<forall>m \<in> set ms. m l f)"
  by (induction ms) auto

subsection \<open>Properties\<close>

text \<open>
  \<^verbatim>\<open>subjects_for_macros\<close> returns every subject of every known macro-region asked for
  and no other, without duplicates, although two subjects belong to both macro-regions;
  each returned id has a title, and that title resolves back to the id.
\<close>

theorem subjects_for_macros_spec:
  "distinct (subjects_for_macros mids)
   \<and> set (subjects_for_macros mids) =
       {sid. \<exists>mid sids. mid \<in> set mids \<and> map_of SUBJECTS_BY_MACRO mid = Some sids \<and> sid \<in> set sids}
   \<and> (\<forall>sid. sid \<in> set (subjects_for_macros mids) \<longrightarrow>
        (\<exists>title. map_of SUBJECT_TITLE_BY_ID sid = Some title \<and> subject_id_by_title (Some title) = Some sid))"
proof (intro conjI)
  show "distinct (subjects_for_macros mids)"
    unfolding subjects_for_macros_def by (rule add_macros_distinct) simp
  show s: "set (subjects_for_macros mids) =
       {sid. \<exists>mid sids. mid \<in> set mids \<and> map_of SUBJECTS_BY_MACRO mid = Some sids \<and> sid \<in> set sids}"
    unfolding subjects_for_macros_def add_macros_set by auto
  show "\<forall>sid. sid \<in> set (subjects_for_macros mids) \<longrightarrow>
        (\<exists>title. map_of SUBJECT_TITLE_BY_ID sid = Some title \<and> subject_id_by_title (Some title) = Some sid)"
    unfolding s using macro_subjects_have_titles by blast
qed

theorem subjects_for_macros_spec_witness:
  "87 \<in> set (subjects_for_macros [1, 2]) \<and> distinct (subjects_for_macros [1, 2, 9])
   \<and> (\<exists>title. map_of SUBJECT_TITLE_BY_ID 87 = Some title \<and> subject_id_by_title (Some title) = Some 87)"
proof -
  have "map_of SUBJECTS_BY_MACRO 1 = Some [72, 85, 87, 88, 89, 90, 91, 93, 94, 95, 96]"
    by (simp add: SUBJECTS_BY_MACRO_def)
  then have "87 \<in> set (subjects_for_macros [1, 2])"
    using subjects_for_macros_spec [of "[1, 2]"] by fastforce
  then show ?thesis
    using subjects_for_macros_spec [of "[1, 2]"] subjects_for_macros_spec [of "[1, 2, 9]"] by blast
qed

end
