(* ===== verification/Kv_Store.thy ===== *)
theory Kv_Store
  imports Domain
begin

text \<open>
  The \<^verbatim>\<open>state\<close> key/value table and its two repositories
  (\<^verbatim>\<open>repositories/settings.py\<close>, \<^verbatim>\<open>repositories/state.py\<close>), with the two contracts
  their clients rely on as locales: \<open>settings_repository\<close> (get and set) and
  \<open>state_repository\<close> (get, set and delete), both interpreted on the table.

  A stored text is \<open>Plain\<close> for ordinary text, \<open>Iso t\<close> for the \<^verbatim>\<open>isoformat()\<close> text of the
  UTC time \<open>t\<close>, and \<open>IsoNaive t\<close> for an ISO text without an offset (a legacy write), which
  every reader takes as UTC. \<open>Plain\<close> texts are the ones \<^verbatim>\<open>fromisoformat\<close> rejects.
\<close>

datatype stored = Plain string | Iso time | IsoNaive time

text \<open>\<^verbatim>\<open>fromisoformat\<close> followed by the readers' coercion of naive values to UTC.\<close>

fun parse_dt :: "stored \<Rightarrow> time res" where
  "parse_dt (Plain s) = Inl ValueError"
| "parse_dt (Iso t) = Inr t"
| "parse_dt (IsoNaive t) = Inr t"

type_synonym kv = "string \<rightharpoonup> (stored option \<times> time)"

definition kv_get :: "kv \<Rightarrow> string \<Rightarrow> stored option" where
  "kv_get s k = (case s k of None \<Rightarrow> None | Some (v, updated_at) \<Rightarrow> v)"

definition kv_set :: "time \<Rightarrow> string \<Rightarrow> stored \<Rightarrow> kv \<Rightarrow> kv" where
  "kv_set now k v s = s(k \<mapsto> (Some v, now))"

definition kv_delete :: "string \<Rightarrow> kv \<Rightarrow> kv" where
  "kv_delete k s = s(k := None)"

subsection \<open>Contracts\<close>

locale settings_repository =
  fixes get :: "'s \<Rightarrow> string \<Rightarrow> stored option"
    and put :: "time \<Rightarrow> string \<Rightarrow> stored \<Rightarrow> 's \<Rightarrow> 's"
  assumes get_put: "get (put now k v s) k' = (if k' = k then Some v else get s k')"
begin

lemma get_put_same [simp]: "get (put now k v s) k = Some v"
  by (simp add: get_put)

lemma get_put_other: "k' \<noteq> k \<Longrightarrow> get (put now k v s) k' = get s k'"
  by (simp add: get_put)

lemma put_idem: "get (put t k v (put t' k v s)) k' = get (put t' k v s) k'"
  by (simp add: get_put)

end

locale state_repository = settings_repository +
  fixes remove :: "string \<Rightarrow> 'a \<Rightarrow> 'a"
  assumes get_remove: "get (remove k s) k' = (if k' = k then None else get s k')"
begin

lemma get_remove_same [simp]: "get (remove k s) k = None"
  by (simp add: get_remove)

lemma remove_put: "get (remove k (put t k v s)) k' = get (remove k s) k'"
  by (simp add: get_remove get_put)

end

interpretation kv: state_repository kv_get kv_set kv_delete
  by unfold_locales (auto simp: kv_get_def kv_set_def kv_delete_def)

subsection \<open>Onboarding state of the settings repository\<close>

datatype onboarding_state =
  Not_started | Regions_set | Smtp_configured | Recipients_set | Completed

fun onboarding_value :: "onboarding_state \<Rightarrow> string" where
  "onboarding_value Not_started = ''not_started''"
| "onboarding_value Regions_set = ''regions_set''"
| "onboarding_value Smtp_configured = ''smtp_configured''"
| "onboarding_value Recipients_set = ''recipients_set''"
| "onboarding_value Completed = ''completed''"

definition ONBOARDING_KEY :: string where
  "ONBOARDING_KEY = ''onboarding_state''"

text \<open>\<^verbatim>\<open>OnboardingState(raw)\<close>: the member with that value, or \<^verbatim>\<open>ValueError\<close>.\<close>

definition onboarding_of_text :: "stored \<Rightarrow> onboarding_state res" where
  "onboarding_of_text raw =
     (case find (\<lambda>st. Plain (onboarding_value st) = raw)
             [Not_started, Regions_set, Smtp_configured, Recipients_set, Completed] of
        None \<Rightarrow> Inl ValueError
      | Some st \<Rightarrow> Inr st)"

definition get_onboarding :: "('s \<Rightarrow> string \<Rightarrow> stored option) \<Rightarrow> 's \<Rightarrow> onboarding_state res" where
  "get_onboarding get s =
     (case get s ONBOARDING_KEY of
        None \<Rightarrow> Inr Not_started
      | Some raw \<Rightarrow> onboarding_of_text raw)"

definition set_onboarding ::
  "(time \<Rightarrow> string \<Rightarrow> stored \<Rightarrow> 's \<Rightarrow> 's) \<Rightarrow> time \<Rightarrow> onboarding_state \<Rightarrow> 's \<Rightarrow> 's" where
  "set_onboarding put now st s = put now ONBOARDING_KEY (Plain (onboarding_value st)) s"

lemma onboarding_of_text_value [simp]: "onboarding_of_text (Plain (onboarding_value st)) = Inr st"
  by (cases st) (simp_all add: onboarding_of_text_def)

context settings_repository
begin

lemma get_set_onboarding [simp]: "get_onboarding get (set_onboarding put now st s) = Inr st"
  by (simp add: get_onboarding_def set_onboarding_def)

lemma get_onboarding_put_other [simp]:
  "k \<noteq> ONBOARDING_KEY \<Longrightarrow> get_onboarding get (put now k v s) = get_onboarding get s"
  by (simp add: get_onboarding_def get_put)

lemma get_set_onboarding_other [simp]:
  "k \<noteq> ONBOARDING_KEY \<Longrightarrow> get (set_onboarding put now st s) k = get s k"
  by (simp add: set_onboarding_def get_put)

end

end
