(* ===== verification/Dnd.thy ===== *)
theory Dnd
  imports Kv_Store
begin

text \<open>
  The two services that keep an \<^verbatim>\<open>until\<close> timestamp in the settings repository: do-not-disturb
  (\<^verbatim>\<open>services/dnd.py\<close>) and the dismissal of the catch-up banner
  (\<^verbatim>\<open>services/catchup_dismiss.py\<close>). Each takes the repository's operations as arguments,
  as the services take the repository; \<open>wt\<close> is the time the repository stamps the row with.
\<close>

subsection \<open>Do-not-disturb\<close>

definition DND_UNTIL_KEY :: string where "DND_UNTIL_KEY = ''dnd_until''"
definition MIN_MINUTES :: int where "MIN_MINUTES = 1"
definition MAX_MINUTES :: int where "MAX_MINUTES = 1440 * 7"

definition set_dnd_until ::
  "(time \<Rightarrow> string \<Rightarrow> stored \<Rightarrow> 's \<Rightarrow> 's) \<Rightarrow> time \<Rightarrow> 's \<Rightarrow> time \<Rightarrow> int \<Rightarrow> 's res" where
  "set_dnd_until put wt s now minutes =
     (if minutes < MIN_MINUTES \<or> minutes > MAX_MINUTES then Inl ValueError
      else Inr (put wt DND_UNTIL_KEY (Iso (now + minutes * us_per_minute)) s))"

definition dnd_until :: "('s \<Rightarrow> string \<Rightarrow> stored option) \<Rightarrow> 's \<Rightarrow> time \<Rightarrow> time option" where
  "dnd_until get s now =
     (case get s DND_UNTIL_KEY of
        None \<Rightarrow> None
      | Some raw \<Rightarrow>
          (case parse_dt raw of
             Inl _ \<Rightarrow> None
           | Inr expiry \<Rightarrow> (if now < expiry then Some expiry else None)))"

definition dnd_is_active :: "('s \<Rightarrow> string \<Rightarrow> stored option) \<Rightarrow> 's \<Rightarrow> time \<Rightarrow> bool" where
  "dnd_is_active get s now =
     (case dnd_until get s now of None \<Rightarrow> False | Some expiry \<Rightarrow> now < expiry)"

lemma dnd_is_active_antimono: "dnd_is_active get s now \<Longrightarrow> now' \<le> now \<Longrightarrow> dnd_is_active get s now'"
  by (auto simp: dnd_is_active_def dnd_until_def split: option.splits sum.splits if_splits)

lemma dnd_is_active_cong: "get s DND_UNTIL_KEY = get s' DND_UNTIL_KEY \<Longrightarrow>
    dnd_is_active get s now = dnd_is_active get s' now"
  by (simp add: dnd_is_active_def dnd_until_def)

subsection \<open>Banner dismissal\<close>

definition DISMISSED_UNTIL_KEY :: string where "DISMISSED_UNTIL_KEY = ''catchup_dismissed_until''"

definition catchup_dismiss ::
  "(time \<Rightarrow> string \<Rightarrow> stored \<Rightarrow> 's \<Rightarrow> 's) \<Rightarrow> time \<Rightarrow> 's \<Rightarrow> time \<Rightarrow> int \<Rightarrow> 's" where
  "catchup_dismiss put wt s now hours =
     put wt DISMISSED_UNTIL_KEY (Iso (now + hours * 60 * us_per_minute)) s"

definition catchup_is_dismissed :: "('s \<Rightarrow> string \<Rightarrow> stored option) \<Rightarrow> 's \<Rightarrow> time \<Rightarrow> bool" where
  "catchup_is_dismissed get s now =
     (case get s DISMISSED_UNTIL_KEY of
        None \<Rightarrow> False
      | Some raw \<Rightarrow> (case parse_dt raw of Inl _ \<Rightarrow> False | Inr until \<Rightarrow> now < until))"

subsection \<open>What the services promise over any settings repository\<close>

context settings_repository
begin

lemma dnd_window:
  assumes "set_dnd_until put wt s now minutes = Inr s'"
  shows "dnd_is_active get s' t \<longleftrightarrow> t < now + minutes * us_per_minute"
    and "dnd_until get s' t =
      (if t < now + minutes * us_per_minute then Some (now + minutes * us_per_minute) else None)"
    and "k \<noteq> DND_UNTIL_KEY \<Longrightarrow> get s' k = get s k"
    and "1 \<le> minutes \<and> minutes \<le> 10080"
  using assms
  by (auto simp: set_dnd_until_def dnd_is_active_def dnd_until_def get_put MIN_MINUTES_def
      MAX_MINUTES_def split: if_splits)

lemma dismissal_window:
  "catchup_is_dismissed get (catchup_dismiss put wt s now hours) t \<longleftrightarrow>
     t < now + hours * 60 * us_per_minute"
  by (simp add: catchup_dismiss_def catchup_is_dismissed_def)

lemma dismissal_dnd_independent:
  "dnd_is_active get (catchup_dismiss put wt s now hours) t = dnd_is_active get s t"
  by (rule dnd_is_active_cong)
    (simp add: catchup_dismiss_def get_put DISMISSED_UNTIL_KEY_def DND_UNTIL_KEY_def)

end

subsection \<open>Properties\<close>

text \<open>
  After do-not-disturb is set for an accepted duration, it is active at exactly the
  times before \<^verbatim>\<open>now + minutes\<close>, whatever was stored before, and every other key keeps its
  value; a duration outside 1 to 10080 minutes is rejected with \<^verbatim>\<open>ValueError\<close>. Dismissing
  the banner does not move the window.
\<close>

theorem dnd_window_exact:
  "(case set_dnd_until kv_set wt s now minutes of
      Inl e \<Rightarrow> (minutes < 1 \<or> 10080 < minutes) \<and> e = ValueError
    | Inr s' \<Rightarrow> 1 \<le> minutes \<and> minutes \<le> 10080
        \<and> (\<forall>t. dnd_is_active kv_get s' t \<longleftrightarrow> t < now + minutes * us_per_minute)
        \<and> (\<forall>k. k \<noteq> DND_UNTIL_KEY \<longrightarrow> kv_get s' k = kv_get s k)
        \<and> (\<forall>wt' now' hours t. dnd_is_active kv_get (catchup_dismiss kv_set wt' s' now' hours) t
             = dnd_is_active kv_get s' t))"
proof (cases "set_dnd_until kv_set wt s now minutes")
  case (Inl e)
  then show ?thesis by (auto simp: set_dnd_until_def MIN_MINUTES_def MAX_MINUTES_def split: if_splits)
next
  case (Inr s')
  from kv.dnd_window [OF this] show ?thesis
    by (auto simp: Inr kv.dismissal_dnd_independent)
qed

theorem dnd_window_exact_witness:
  "\<exists>s'. set_dnd_until kv_set 0 (kv_set 0 ''k'' (Plain ''v'') Map.empty) 1000 5 = Inr s'
     \<and> kv_get s' ''k'' = Some (Plain ''v'') \<and> dnd_is_active kv_get s' (1000 + 5 * us_per_minute - 1)"
proof -
  let ?s = "kv_set 0 ''k'' (Plain ''v'') Map.empty"
  obtain s' where s': "set_dnd_until kv_set 0 ?s 1000 5 = Inr s'"
    by (simp add: set_dnd_until_def MIN_MINUTES_def MAX_MINUTES_def)
  then show ?thesis
    using dnd_window_exact [where wt = 0 and s = ?s and now = 1000 and minutes = 5] by (simp add: DND_UNTIL_KEY_def)
qed

end
