(* ===== verification/Onboarding.thy ===== *)
theory Onboarding
  imports Kv_Store
begin

text \<open>
  The onboarding state machine (\<^verbatim>\<open>services/onboarding.py\<close>): the transition chain with its
  guards, \<^verbatim>\<open>advance\<close> and \<^verbatim>\<open>skip_email\<close> over any settings repository, and the runs the
  web routes can drive. \<open>cfg\<close> is \<^verbatim>\<open>config_source.current()\<close>, \<open>now\<close> the injected clock.
\<close>

subsection \<open>The service\<close>

definition KEY_EMAIL_SKIPPED :: string where "KEY_EMAIL_SKIPPED = ''email_skipped''"
definition KEY_SMTP_TEST_OK :: string where "KEY_SMTP_TEST_OK = ''smtp_test_last_result_ok''"
definition KEY_SMTP_TEST_AT :: string where "KEY_SMTP_TEST_AT = ''smtp_test_last_result_at''"
definition KEY_TEST_EMAIL_OK :: string where "KEY_TEST_EMAIL_OK = ''onboarding_test_email_ok''"

lemmas onboarding_keys = KEY_EMAIL_SKIPPED_def KEY_SMTP_TEST_OK_def KEY_SMTP_TEST_AT_def
  KEY_TEST_EMAIL_OK_def ONBOARDING_KEY_def

definition SMTP_TEST_OK_TTL :: int where "SMTP_TEST_OK_TTL = 5 * us_per_minute"

fun next_state :: "onboarding_state \<Rightarrow> onboarding_state option" where
  "next_state Not_started = Some Regions_set"
| "next_state Regions_set = Some Smtp_configured"
| "next_state Smtp_configured = Some Recipients_set"
| "next_state Recipients_set = Some Completed"
| "next_state Completed = None"

fun state_url :: "onboarding_state \<Rightarrow> string" where
  "state_url Not_started = ''/onboarding/regions''"
| "state_url Regions_set = ''/onboarding/smtp''"
| "state_url Smtp_configured = ''/onboarding/recipients''"
| "state_url Recipients_set = ''/onboarding/test-email''"
| "state_url Completed = ''/''"

definition is_email_skipped :: "('s \<Rightarrow> string \<Rightarrow> stored option) \<Rightarrow> 's \<Rightarrow> bool" where
  "is_email_skipped get s \<longleftrightarrow> get s KEY_EMAIL_SKIPPED = Some (Plain ''true'')"

definition smtp_test_ok_within_ttl :: "('s \<Rightarrow> string \<Rightarrow> stored option) \<Rightarrow> 's \<Rightarrow> time \<Rightarrow> bool" where
  "smtp_test_ok_within_ttl get s now =
     (if get s KEY_SMTP_TEST_OK \<noteq> Some (Plain ''true'') then False
      else case get s KEY_SMTP_TEST_AT of
             None \<Rightarrow> False
           | Some raw \<Rightarrow>
               (if raw = Plain '''' then False
                else case parse_dt raw of
                       Inl _ \<Rightarrow> False
                     | Inr recorded \<Rightarrow> now - recorded \<le> SMTP_TEST_OK_TTL))"

fun guard_satisfied ::
  "('s \<Rightarrow> string \<Rightarrow> stored option) \<Rightarrow> settings \<Rightarrow> time \<Rightarrow> 's \<Rightarrow> onboarding_state \<Rightarrow> bool" where
  "guard_satisfied get cfg now s Regions_set = (length (set_regions cfg) > 0)"
| "guard_satisfied get cfg now s Smtp_configured =
     (smtp_test_ok_within_ttl get s now \<or> is_email_skipped get s)"
| "guard_satisfied get cfg now s Recipients_set =
     (length (set_email_recipients cfg) > 0 \<or> is_email_skipped get s)"
| "guard_satisfied get cfg now s Completed =
     (get s KEY_TEST_EMAIL_OK = Some (Plain ''true'') \<or> is_email_skipped get s)"
| "guard_satisfied get cfg now s Not_started = False"

definition can_advance ::
  "('s \<Rightarrow> string \<Rightarrow> stored option) \<Rightarrow> settings \<Rightarrow> time \<Rightarrow> 's \<Rightarrow> onboarding_state \<Rightarrow> onboarding_state \<Rightarrow> bool" where
  "can_advance get cfg now s from_state to_state =
     (if next_state from_state \<noteq> Some to_state then False
      else guard_satisfied get cfg now s to_state)"

definition ob_advance ::
  "('s \<Rightarrow> string \<Rightarrow> stored option) \<Rightarrow> (time \<Rightarrow> string \<Rightarrow> stored \<Rightarrow> 's \<Rightarrow> 's) \<Rightarrow> time \<Rightarrow> settings \<Rightarrow> time \<Rightarrow>
   onboarding_state \<Rightarrow> onboarding_state \<Rightarrow> 's \<Rightarrow> 's res" where
  "ob_advance get put wt cfg now from_state to_state s =
     res_bind (get_onboarding get s)
       (\<lambda>curr.
         (if curr \<noteq> from_state \<or> \<not> can_advance get cfg now s from_state to_state
          then Inl (InvalidTransitionError (onboarding_value curr)
                      (onboarding_value from_state) (onboarding_value to_state))
          else Inr (set_onboarding put wt to_state s)))"

definition skip_email ::
  "('s \<Rightarrow> string \<Rightarrow> stored option) \<Rightarrow> (time \<Rightarrow> string \<Rightarrow> stored \<Rightarrow> 's \<Rightarrow> 's) \<Rightarrow> time \<Rightarrow> 's \<Rightarrow> 's res" where
  "skip_email get put wt s =
     res_bind (get_onboarding get s)
       (\<lambda>curr.
         (if curr \<notin> {Regions_set, Smtp_configured, Recipients_set}
          then Inl (InvalidTransitionError (onboarding_value curr)
                      ''regions_set|smtp_configured|recipients_set'' ''skip_email'')
          else Inr (put wt KEY_EMAIL_SKIPPED (Plain ''true'') s)))"

definition url_for_current_step :: "('s \<Rightarrow> string \<Rightarrow> stored option) \<Rightarrow> 's \<Rightarrow> string res" where
  "url_for_current_step get s = res_bind (get_onboarding get s) (\<lambda>st. Inr (state_url st))"

subsection \<open>Laws over any settings repository\<close>

definition ob_rank :: "onboarding_state \<Rightarrow> nat" where
  "ob_rank st = (case st of Not_started \<Rightarrow> 0 | Regions_set \<Rightarrow> 1 | Smtp_configured \<Rightarrow> 2
     | Recipients_set \<Rightarrow> 3 | Completed \<Rightarrow> 4)"

lemma next_state_rank: "next_state a = Some b \<Longrightarrow> ob_rank b = Suc (ob_rank a)"
  by (cases a) (auto simp: ob_rank_def)

lemma ob_rank_le: "ob_rank st \<le> 4"
  by (cases st) (simp_all add: ob_rank_def)

context settings_repository
begin

lemma advance_Inr_iff:
  "ob_advance get put wt cfg now a b s = Inr s' \<longleftrightarrow>
     get_onboarding get s = Inr a \<and> next_state a = Some b \<and> guard_satisfied get cfg now s b
       \<and> s' = set_onboarding put wt b s"
  by (auto simp: ob_advance_def can_advance_def res_bind_Inr_iff split: if_splits)

lemma advance_moves:
  "ob_advance get put wt cfg now a b s = Inr s' \<Longrightarrow>
     get_onboarding get s' = Inr b \<and> (\<forall>k. k \<noteq> ONBOARDING_KEY \<longrightarrow> get s' k = get s k)"
  by (auto simp: advance_Inr_iff)

lemma skip_email_Inr:
  "skip_email get put wt s = Inr s' \<Longrightarrow>
     get_onboarding get s' = get_onboarding get s \<and> is_email_skipped get s'"
  by (auto simp: skip_email_def res_bind_Inr_iff is_email_skipped_def split: if_splits)
    (simp_all add: onboarding_keys get_onboarding_def get_put)

end

subsection \<open>Runs\<close>

text \<open>
  What the routes and the other services can do to the store between two requests: an
  advance or a skip request, or a write of any other key. A rejected request leaves the
  store as it was.
\<close>

datatype ob_cmd =
    Do_advance settings time onboarding_state onboarding_state
  | Do_skip
  | Do_put string stored

fun ob_exec :: "time \<Rightarrow> ob_cmd \<Rightarrow> kv \<Rightarrow> kv" where
  "ob_exec wt (Do_advance cfg now a b) s =
     (case ob_advance kv_get kv_set wt cfg now a b s of Inl _ \<Rightarrow> s | Inr s' \<Rightarrow> s')"
| "ob_exec wt Do_skip s = (case skip_email kv_get kv_set wt s of Inl _ \<Rightarrow> s | Inr s' \<Rightarrow> s')"
| "ob_exec wt (Do_put k v) s = (if k = ONBOARDING_KEY then s else kv_set wt k v s)"

definition ob_run :: "time \<Rightarrow> ob_cmd list \<Rightarrow> kv \<Rightarrow> kv" where
  "ob_run wt cmds s = fold (ob_exec wt) cmds s"

text \<open>The steps as a relation, labelled with the transition they make, if any.\<close>

inductive ob_step :: "kv \<Rightarrow> (onboarding_state \<times> onboarding_state) option \<Rightarrow> kv \<Rightarrow> bool" where
  Step_advance: "ob_advance kv_get kv_set wt cfg now a b s = Inr s' \<Longrightarrow> ob_step s (Some (a, b)) s'"
| Step_skip: "skip_email kv_get kv_set wt s = Inr s' \<Longrightarrow> ob_step s None s'"
| Step_put: "k \<noteq> ONBOARDING_KEY \<Longrightarrow> ob_step s None (kv_set wt k v s)"
| Step_rejected: "ob_step s None s"

inductive_cases ob_step_SomeE: "ob_step s (Some (a, b)) s'"
inductive_cases ob_step_NoneE: "ob_step s None s'"

lemma ob_step_rank:
  assumes "ob_step s l s'" "get_onboarding kv_get s = Inr a"
  shows "\<exists>b. get_onboarding kv_get s' = Inr b \<and>
    (case l of None \<Rightarrow> b = a | Some (x, y) \<Rightarrow> x = a \<and> y = b \<and> next_state a = Some b)"
  using assms
proof cases
  case (Step_advance wt cfg now x y)
  with assms(2) show ?thesis
    using kv.advance_moves [OF Step_advance(2)]
    by (simp add: kv.advance_Inr_iff)
next
  case (Step_skip wt)
  with assms(2) kv.skip_email_Inr [OF Step_skip(2)] show ?thesis by simp
qed (use assms(2) in simp_all)

lemma ob_exec_step: "\<exists>l. ob_step s l (ob_exec wt c s)"
  by (cases c) (auto split: sum.splits intro: ob_step.intros)

lemma ob_run_rank_mono:
  "get_onboarding kv_get s = Inr a \<Longrightarrow>
   \<exists>b. get_onboarding kv_get (ob_run wt cmds s) = Inr b \<and> ob_rank a \<le> ob_rank b
     \<and> ob_rank b \<le> ob_rank a + length cmds"
proof (induction cmds arbitrary: s a)
  case Nil
  then show ?case by (simp add: ob_run_def)
next
  case (Cons c cmds)
  obtain l where l: "ob_step s l (ob_exec wt c s)" using ob_exec_step by blast
  obtain b where b: "get_onboarding kv_get (ob_exec wt c s) = Inr b"
    and ab: "case l of None \<Rightarrow> b = a | Some (x, y) \<Rightarrow> x = a \<and> y = b \<and> next_state a = Some b"
    using ob_step_rank [OF l Cons.prems] by blast
  have "ob_rank a \<le> ob_rank b \<and> ob_rank b \<le> Suc (ob_rank a)"
    using ab next_state_rank by (auto split: option.splits)
  with Cons.IH [OF b] show ?case by (fastforce simp: ob_run_def)
qed

subsection \<open>Properties\<close>

text \<open>
  An advance request succeeds exactly when the stored state is the one the caller
  names, the target is its immediate successor and the target's guard holds; then only the
  onboarding key changes. Every other request raises \<^verbatim>\<open>InvalidTransitionError\<close> carrying the
  three states.
\<close>

theorem advance_spec:
  "get_onboarding kv_get s = Inr cur \<Longrightarrow>
   (if cur = a \<and> next_state a = Some b \<and> guard_satisfied kv_get cfg now s b
    then \<exists>s'. ob_advance kv_get kv_set wt cfg now a b s = Inr s'
           \<and> get_onboarding kv_get s' = Inr b
           \<and> (\<forall>k. k \<noteq> ONBOARDING_KEY \<longrightarrow> kv_get s' k = kv_get s k)
    else ob_advance kv_get kv_set wt cfg now a b s =
           Inl (InvalidTransitionError (onboarding_value cur) (onboarding_value a) (onboarding_value b)))"
  by (auto simp: ob_advance_def can_advance_def)

theorem advance_spec_witness:
  "ob_advance kv_get kv_set 0
     \<lparr>set_interval_minutes = 1, set_regions = [1], set_filters = \<lparr>rf_subjects = []\<rparr>,
      set_full_scan_time = ''04:00'', set_email_enabled = True, set_email_recipients = []\<rparr>
     0 Not_started Smtp_configured Map.empty =
     Inl (InvalidTransitionError ''not_started'' ''not_started'' ''smtp_configured'')"
proof -
  have "get_onboarding kv_get Map.empty = Inr Not_started"
    by (simp add: get_onboarding_def kv_get_def)
  from advance_spec [OF this] show ?thesis by simp
qed

text \<open>
  Along any sequence of advance requests, skip requests and writes of other keys that
  starts from an empty store, the stored state is always readable and never moves back,
  and it cannot have passed more states than there were requests: none can be skipped.
\<close>

theorem onboarding_monotone:
  "\<exists>a b. get_onboarding kv_get (ob_run wt cmds Map.empty) = Inr a
     \<and> get_onboarding kv_get (ob_run wt (cmds @ cmds') Map.empty) = Inr b
     \<and> ob_rank a \<le> ob_rank b \<and> ob_rank b \<le> ob_rank a + length cmds'
     \<and> ob_rank a \<le> length cmds"
proof -
  have "get_onboarding kv_get Map.empty = Inr Not_started"
    by (simp add: get_onboarding_def kv_get_def)
  from ob_run_rank_mono [OF this, of wt cmds] obtain a where
    a: "get_onboarding kv_get (ob_run wt cmds Map.empty) = Inr a" "ob_rank a \<le> length cmds"
    by (auto simp: ob_rank_def)
  from ob_run_rank_mono [OF this(1), of wt cmds'] a show ?thesis
    by (auto simp: ob_run_def)
qed

text \<open>
  From an empty store, a configuration with at least one region lets a user without
  any mail configuration finish: advance, skip the mail steps, advance three times.
\<close>

theorem onboarding_completes_with_skip:
  "set_regions cfg \<noteq> [] \<Longrightarrow>
   get_onboarding kv_get
     (ob_run wt [Do_advance cfg t1 Not_started Regions_set, Do_skip,
                 Do_advance cfg t2 Regions_set Smtp_configured,
                 Do_advance cfg t3 Smtp_configured Recipients_set,
                 Do_advance cfg t4 Recipients_set Completed] Map.empty) = Inr Completed"
  by (simp add: ob_run_def ob_advance_def can_advance_def skip_email_def get_onboarding_def
      set_onboarding_def kv_get_def kv_set_def is_email_skipped_def onboarding_of_text_def
      ONBOARDING_KEY_def KEY_EMAIL_SKIPPED_def)

theorem onboarding_completes_with_skip_witness:
  "let cfg = \<lparr>set_interval_minutes = 1, set_regions = [1], set_filters = \<lparr>rf_subjects = []\<rparr>,
      set_full_scan_time = ''04:00'', set_email_enabled = True, set_email_recipients = []\<rparr>
   in get_onboarding kv_get
     (ob_run 0 [Do_advance cfg 1 Not_started Regions_set, Do_skip,
                 Do_advance cfg 2 Regions_set Smtp_configured,
                 Do_advance cfg 3 Smtp_configured Recipients_set,
                 Do_advance cfg 4 Recipients_set Completed] Map.empty) = Inr Completed"
  unfolding Let_def by (rule onboarding_completes_with_skip) simp

end
