(* ===== verification/Session_Email.thy ===== *)
theory Session_Email
  imports Dnd
begin

text \<open>
  The one-shot mail on session expiry (\<^verbatim>\<open>services/session_expired_email.py\<close>). The service
  keeps its guard in the state repository; the SMTP notifier is the argument \<open>send\<close>, whose
  first argument numbers the calls, so that it may answer each one differently or raise.
  The log of attempted recipients is part of the state because the claims are about it.
\<close>

definition SESSION_EXPIRED_EMAIL_SENT_KEY :: string where
  "SESSION_EXPIRED_EMAIL_SENT_KEY = ''session_expired_email_sent''"

record 's session_mail =
  sm_store :: 's
  sm_attempts :: "ustr list"

fun send_session_expired_all ::
  "(nat \<Rightarrow> ustr \<Rightarrow> notify_result res) \<Rightarrow> ustr list \<Rightarrow> bool \<Rightarrow> ustr list \<Rightarrow> ustr list \<times> (exc + bool)" where
  "send_session_expired_all send lg any_sent [] = (lg, Inr any_sent)"
| "send_session_expired_all send lg any_sent (r # rs) =
     (case send (length lg) r of
        Inl e \<Rightarrow> (lg @ [r], Inl e)
      | Inr result \<Rightarrow> send_session_expired_all send (lg @ [r]) (any_sent \<or> nres_ok result) rs)"

definition session_mail_handle ::
  "('s \<Rightarrow> string \<Rightarrow> stored option) \<Rightarrow> (time \<Rightarrow> string \<Rightarrow> stored \<Rightarrow> 's \<Rightarrow> 's) \<Rightarrow>
   (nat \<Rightarrow> ustr \<Rightarrow> notify_result res) \<Rightarrow> time \<Rightarrow> settings \<Rightarrow> time \<Rightarrow> 's session_mail \<Rightarrow>
   's session_mail \<times> unit res" where
  "session_mail_handle get put send wt cfg now st =
     (if \<not> set_email_enabled cfg then (st, Inr ())
      else if get (sm_store st) SESSION_EXPIRED_EMAIL_SENT_KEY \<noteq> None then (st, Inr ())
      else if dnd_is_active get (sm_store st) now then (st, Inr ())
      else if set_email_recipients cfg = []
        then (st\<lparr>sm_store := put wt SESSION_EXPIRED_EMAIL_SENT_KEY (Plain ''1'') (sm_store st)\<rparr>, Inr ())
      else (case send_session_expired_all send (sm_attempts st) False (set_email_recipients cfg) of
              (lg, Inl e) \<Rightarrow> (st\<lparr>sm_attempts := lg\<rparr>, Inl e)
            | (lg, Inr any_sent) \<Rightarrow>
                (if any_sent \<or> set_email_recipients cfg \<noteq> []
                 then (st\<lparr>sm_attempts := lg,
                          sm_store := put wt SESSION_EXPIRED_EMAIL_SENT_KEY (Plain ''1'')
                                        (sm_store st)\<rparr>, Inr ())
                 else (st\<lparr>sm_attempts := lg\<rparr>, Inr ()))))"

definition on_login_or_refresh_success ::
  "(string \<Rightarrow> 's \<Rightarrow> 's) \<Rightarrow> 's session_mail \<Rightarrow> 's session_mail" where
  "on_login_or_refresh_success remove st =
     st\<lparr>sm_store := remove SESSION_EXPIRED_EMAIL_SENT_KEY (sm_store st)\<rparr>"

lemma send_all_log:
  "\<exists>zs. fst (send_session_expired_all send lg b rs) = lg @ zs \<and> zs = take (length zs) rs"
proof (induction send lg b rs rule: send_session_expired_all.induct)
  case (1 send lg b)
  then show ?case by simp
next
  case (2 send lg b r rs)
  show ?case
  proof (cases "send (length lg) r")
    case (Inl e)
    then show ?thesis by (intro exI [of _ "[r]"]) simp
  next
    case (Inr res)
    from "2.IH" [OF Inr] obtain zs where
      "fst (send_session_expired_all send (lg @ [r]) (b \<or> nres_ok res) rs) = (lg @ [r]) @ zs"
      "zs = take (length zs) rs" by blast
    with Inr show ?thesis by (intro exI [of _ "r # zs"]) simp
  qed
qed

definition send_returns :: "(nat \<Rightarrow> ustr \<Rightarrow> notify_result res) \<Rightarrow> bool" where
  "send_returns send \<longleftrightarrow> (\<forall>n r. \<exists>x. send n r = Inr x)"

lemma send_all_complete:
  "send_returns send \<Longrightarrow>
   \<exists>b'. send_session_expired_all send lg b rs = (lg @ rs, Inr b')"
proof (induction rs arbitrary: lg b)
  case (Cons r rs)
  obtain x where "send (length lg) r = Inr x" using Cons.prems by (auto simp: send_returns_def)
  with Cons show ?case by (metis append.assoc append_Cons append_Nil send_session_expired_all.simps(2) sum.simps(6))
qed simp

subsection \<open>Runs: expiry events, logins and writes of other keys\<close>

datatype sm_cmd =
    Sm_expired settings time
  | Sm_login_ok
  | Sm_put string stored

fun sm_exec :: "(nat \<Rightarrow> ustr \<Rightarrow> notify_result res) \<Rightarrow> time \<Rightarrow> sm_cmd \<Rightarrow> kv session_mail \<Rightarrow> kv session_mail" where
  "sm_exec send wt (Sm_expired cfg now) st = fst (session_mail_handle kv_get kv_set send wt cfg now st)"
| "sm_exec send wt Sm_login_ok st = on_login_or_refresh_success kv_delete st"
| "sm_exec send wt (Sm_put k v) st =
     (if k = SESSION_EXPIRED_EMAIL_SENT_KEY then st
      else st\<lparr>sm_store := kv_set wt k v (sm_store st)\<rparr>)"

definition sm_run ::
  "(nat \<Rightarrow> ustr \<Rightarrow> notify_result res) \<Rightarrow> time \<Rightarrow> sm_cmd list \<Rightarrow> kv session_mail \<Rightarrow> kv session_mail" where
  "sm_run send wt cmds st = fold (sm_exec send wt) cmds st"

definition sm_guard_set :: "kv session_mail \<Rightarrow> bool" where
  "sm_guard_set st \<longleftrightarrow> kv_get (sm_store st) SESSION_EXPIRED_EMAIL_SENT_KEY \<noteq> None"

lemma sm_exec_guarded:
  "sm_guard_set st \<Longrightarrow> c \<noteq> Sm_login_ok \<Longrightarrow>
   sm_guard_set (sm_exec send wt c st) \<and> sm_attempts (sm_exec send wt c st) = sm_attempts st"
  by (cases c) (auto simp: session_mail_handle_def sm_guard_set_def kv.get_put)

lemma sm_run_guarded:
  "sm_guard_set st \<Longrightarrow> Sm_login_ok \<notin> set cmds \<Longrightarrow> sm_attempts (sm_run send wt cmds st) = sm_attempts st"
proof (induction cmds arbitrary: st)
  case (Cons c cmds)
  then show ?case using sm_exec_guarded [OF Cons.prems(1), of c] by (auto simp: sm_run_def)
qed (simp add: sm_run_def)

text \<open>Before the guard is set, a step either sends nothing or sends one batch and sets it.\<close>

lemma sm_exec_unguarded:
  assumes "send_returns send"
  shows "sm_attempts (sm_exec send wt c st) = sm_attempts st
    \<or> (\<exists>cfg now. c = Sm_expired cfg now \<and> sm_guard_set (sm_exec send wt c st)
         \<and> sm_attempts (sm_exec send wt c st) = sm_attempts st @ set_email_recipients cfg)"
proof (cases c)
  case (Sm_expired cfg now)
  obtain b' where "send_session_expired_all send (sm_attempts st) False (set_email_recipients cfg)
      = (sm_attempts st @ set_email_recipients cfg, Inr b')"
    using send_all_complete [OF assms] by blast
  with Sm_expired show ?thesis
    by (auto simp: session_mail_handle_def sm_guard_set_def)
qed (simp_all add: on_login_or_refresh_success_def)

lemma sm_run_one_batch:
  assumes "send_returns send"
  shows "Sm_login_ok \<notin> set cmds \<Longrightarrow>
    sm_attempts (sm_run send wt cmds st) = sm_attempts st
    \<or> (\<exists>cfg now. Sm_expired cfg now \<in> set cmds
         \<and> sm_attempts (sm_run send wt cmds st) = sm_attempts st @ set_email_recipients cfg)"
proof (induction cmds arbitrary: st)
  case (Cons c cmds)
  let ?st = "sm_exec send wt c st"
  from sm_exec_unguarded [OF assms, of wt c st]
  consider "sm_attempts ?st = sm_attempts st"
    | cfg now where "c = Sm_expired cfg now" "sm_guard_set ?st"
        "sm_attempts ?st = sm_attempts st @ set_email_recipients cfg" by blast
  then show ?case
  proof cases
    case 1
    have "sm_run send wt (c # cmds) st = sm_run send wt cmds ?st" by (simp add: sm_run_def)
    moreover have "Sm_login_ok \<notin> set cmds" using Cons.prems by simp
    ultimately show ?thesis using Cons.IH [of ?st] 1 by auto
  next
    case 2
    with sm_run_guarded [of ?st cmds send wt] Cons.prems show ?thesis
      by (auto simp: sm_run_def)
  qed
qed (simp add: sm_run_def)

subsection \<open>Properties\<close>

text \<open>
  C35. Between two logins at most one session-expiry mail batch goes out: along any sequence
  of expiry events and writes of other keys without a login, either no recipient was
  attempted or exactly the recipients of one of the events' configurations, once each in
  order. The mailer must answer every call (it may answer with a failure).
\<close>

theorem one_mail_batch_per_epoch:
  assumes "send_returns send" "Sm_login_ok \<notin> set cmds"
  shows "sm_attempts (sm_run send wt cmds st) = sm_attempts st
    \<or> (\<exists>cfg now. Sm_expired cfg now \<in> set cmds
         \<and> sm_attempts (sm_run send wt cmds st) = sm_attempts st @ set_email_recipients cfg)"
  using sm_run_one_batch [OF assms] .

theorem one_mail_batch_per_epoch_witness:
  "let cfg = \<lparr>set_interval_minutes = 1, set_regions = [1], set_filters = \<lparr>rf_subjects = []\<rparr>,
      set_full_scan_time = ''04:00'', set_email_enabled = True, set_email_recipients = [[97], [98]]\<rparr>;
       fail = (\<lambda>_ _. Inr \<lparr>nres_ok = False, nres_detail = ''auth'', nres_retryable = False\<rparr>);
       st = \<lparr>sm_store = Map.empty, sm_attempts = []\<rparr>
   in sm_attempts (sm_run fail 0 [Sm_expired cfg 5, Sm_expired cfg 6] st) = [[97], [98]]"
proof -
  let ?cfg = "\<lparr>set_interval_minutes = 1, set_regions = [1], set_filters = \<lparr>rf_subjects = []\<rparr>,
      set_full_scan_time = ''04:00'', set_email_enabled = True, set_email_recipients = [[97], [98]]\<rparr> :: settings"
  let ?fail = "(\<lambda>_ _. Inr \<lparr>nres_ok = False, nres_detail = ''auth'', nres_retryable = False\<rparr>)
      :: nat \<Rightarrow> ustr \<Rightarrow> notify_result res"
  let ?st = "\<lparr>sm_store = Map.empty, sm_attempts = []\<rparr> :: kv session_mail"
  let ?fin = "sm_run ?fail 0 [Sm_expired ?cfg 5, Sm_expired ?cfg 6] ?st"
  have "sm_attempts ?fin \<noteq> []"
    by (simp add: sm_run_def session_mail_handle_def kv_get_def kv_set_def dnd_is_active_def dnd_until_def
        DND_UNTIL_KEY_def SESSION_EXPIRED_EMAIL_SENT_KEY_def)
  moreover have "send_returns ?fail" by (simp add: send_returns_def)
  ultimately have "sm_attempts ?fin = [[97], [98]]"
    using one_mail_batch_per_epoch [of ?fail "[Sm_expired ?cfg 5, Sm_expired ?cfg 6]" 0 ?st] by auto
  then show ?thesis by (simp add: Let_def)
qed

end
