(* ===== verification/Notif_Repo.thy ===== *)
theory Notif_Repo
  imports Domain
begin

text \<open>
  The durable notification state machine (\<^verbatim>\<open>repositories/notifications.py\<close>): the
  \<^verbatim>\<open>notifications\<close> table as its list of rows, one function per repository method (each is
  one \<^verbatim>\<open>BEGIN IMMEDIATE\<close> transaction, so an interleaving of callers is a sequence of
  calls), and the contract \<open>notif_lifecycle\<close> the dispatcher relies on, interpreted on them.

  A key is \<open>(lot_id, channel, recipient)\<close>. The \<^verbatim>\<open>status\<close> column is the enum its CHECK
  constraint admits; the \<^verbatim>\<open>channel\<close> column is free text, which is why reading a row back
  can raise. Timestamps are compared as text in the SQL: the ISO texts of UTC times are
  ordered as the times are.
\<close>

subsection \<open>Table and methods\<close>

type_synonym nkey = "int \<times> string \<times> ustr"

record nrow =
  nk :: nkey
  n_status :: notif_status
  n_attempt_no :: int
  n_last_attempt_at :: "time option"
  n_sent_at :: "time option"

type_synonym nstore = "nrow list"

definition nr_row :: "nstore \<Rightarrow> nkey \<Rightarrow> nrow option" where
  "nr_row s k = find (\<lambda>r. nk r = k) s"

definition nr_reserve :: "nkey \<Rightarrow> nstore \<Rightarrow> nstore \<times> bool" where
  "nr_reserve k s =
     (case nr_row s k of
        Some _ \<Rightarrow> (s, False)
      | None \<Rightarrow>
          (s @ [\<lparr>nk = k, n_status = N_pending, n_attempt_no = 0,
                 n_last_attempt_at = None, n_sent_at = None\<rparr>], True))"

definition nr_status_of :: "nstore \<Rightarrow> nkey \<Rightarrow> notif_status option" where
  "nr_status_of s k = map_option n_status (nr_row s k)"

text \<open>\<^verbatim>\<open>UPDATE notifications SET ... WHERE key AND status = 'pending'\<close>.\<close>

definition update_pending :: "nkey \<Rightarrow> (nrow \<Rightarrow> nrow) \<Rightarrow> nstore \<Rightarrow> nstore" where
  "update_pending k f s = map (\<lambda>r. if nk r = k \<and> n_status r = N_pending then f r else r) s"

definition nr_mark_attempt :: "nkey \<Rightarrow> time \<Rightarrow> nstore \<Rightarrow> nstore \<times> int option" where
  "nr_mark_attempt k t s =
     (let upd = (\<lambda>r. r\<lparr>n_attempt_no := n_attempt_no r + 1, n_last_attempt_at := Some t\<rparr>)
      in (update_pending k upd s,
          map_option (\<lambda>r. n_attempt_no (upd r))
            (find (\<lambda>r. nk r = k \<and> n_status r = N_pending) s)))"

definition nr_mark_sent :: "nkey \<Rightarrow> time \<Rightarrow> nstore \<Rightarrow> nstore" where
  "nr_mark_sent k t s = update_pending k (\<lambda>r. r\<lparr>n_status := N_sent, n_sent_at := Some t\<rparr>) s"

definition nr_mark_permanent_fail :: "nkey \<Rightarrow> nstore \<Rightarrow> nstore" where
  "nr_mark_permanent_fail k s = update_pending k (\<lambda>r. r\<lparr>n_status := N_permanent_fail\<rparr>) s"

definition channel_of_text :: "string \<Rightarrow> notif_channel res" where
  "channel_of_text c =
     (if c = ''email'' then Inr Ch_email
      else if c = ''browser'' then Inr Ch_browser
      else if c = ''heartbeat'' then Inr Ch_heartbeat
      else Inl ValidationError)"

fun channel_value :: "notif_channel \<Rightarrow> string" where
  "channel_value Ch_email = ''email''"
| "channel_value Ch_browser = ''browser''"
| "channel_value Ch_heartbeat = ''heartbeat''"

definition row_to_record :: "nrow \<Rightarrow> notification_record res" where
  "row_to_record r =
     (case nk r of (lot, channel, recipient) \<Rightarrow>
        res_bind (channel_of_text channel)
          (\<lambda>ch. Inr \<lparr>nr_lot_id = lot, nr_channel = ch, nr_recipient = recipient,
                     nr_status = n_status r, nr_attempt_no = n_attempt_no r,
                     nr_last_attempt_at = n_last_attempt_at r, nr_sent_at = n_sent_at r\<rparr>))"

definition pending_older :: "time \<Rightarrow> nrow \<Rightarrow> bool" where
  "pending_older cutoff r \<longleftrightarrow>
     n_status r = N_pending
     \<and> (case n_last_attempt_at r of None \<Rightarrow> True | Some t \<Rightarrow> t < cutoff)"

definition nr_list_pending_older_than :: "time \<Rightarrow> int \<Rightarrow> nstore \<Rightarrow> notification_record list res" where
  "nr_list_pending_older_than now age s = map_res row_to_record (filter (pending_older (now - age)) s)"

definition sent_key :: "nrow \<Rightarrow> int" where
  "sent_key r = (case n_sent_at r of None \<Rightarrow> 0 | Some t \<Rightarrow> - t)"

text \<open>\<^verbatim>\<open>ORDER BY sent_at DESC LIMIT ?\<close>; a negative limit is no limit.\<close>

definition nr_list_recent :: "int \<Rightarrow> nstore \<Rightarrow> notification_record list res" where
  "nr_list_recent limit s =
     (let rows = sort_key sent_key (filter (\<lambda>r. n_status r = N_sent) s)
      in map_res row_to_record (if limit < 0 then rows else take (nat limit) rows))"

subsection \<open>Rows under updates\<close>

definition nr_inv :: "nstore \<Rightarrow> bool" where
  "nr_inv s \<longleftrightarrow> distinct (map nk s) \<and> (\<forall>r \<in> set s. 0 \<le> n_attempt_no r)"

definition nr_attempts :: "nstore \<Rightarrow> nkey \<Rightarrow> int" where
  "nr_attempts s k = (case nr_row s k of None \<Rightarrow> 0 | Some r \<Rightarrow> n_attempt_no r)"

lemma nr_row_append:
  "nr_row (s @ [r]) k = (case nr_row s k of None \<Rightarrow> if nk r = k then Some r else None | Some x \<Rightarrow> Some x)"
  by (auto simp: nr_row_def find_append split: option.splits)

lemma nr_row_Nil [simp]: "nr_row [] k = None"
  by (simp add: nr_row_def)

lemma nr_row_key: "nr_row s k = Some r \<Longrightarrow> nk r = k \<and> r \<in> set s"
  unfolding nr_row_def using find_SomeD by fast

lemma nr_row_unique: "nr_inv s \<Longrightarrow> r \<in> set s \<Longrightarrow> nr_row s (nk r) = Some r"
  unfolding nr_row_def nr_inv_def using find_unique by fast

lemma nr_row_update_pending:
  assumes "\<And>r. nk (f r) = nk r"
  shows "nr_row (update_pending k f s) k' =
    (if k' = k then map_option (\<lambda>r. if n_status r = N_pending then f r else r) (nr_row s k)
     else nr_row s k')"
proof -
  have "nr_row (update_pending k f s) k' =
      map_option (\<lambda>r. if nk r = k \<and> n_status r = N_pending then f r else r) (nr_row s k')"
    unfolding nr_row_def update_pending_def by (rule find_map_key) (simp add: assms)
  then show ?thesis by (cases "nr_row s k'") (auto dest: nr_row_key)
qed

lemma find_pending_row:
  assumes "nr_inv s"
  shows "find (\<lambda>r. nk r = k \<and> n_status r = N_pending) s =
     (case nr_row s k of None \<Rightarrow> None | Some r \<Rightarrow> if n_status r = N_pending then Some r else None)"
proof (cases "find (\<lambda>r. nk r = k \<and> n_status r = N_pending) s")
  case None
  then show ?thesis
    by (auto simp: find_None_iff_all split: option.splits dest!: nr_row_key)
next
  case (Some r)
  then have "r \<in> set s" "nk r = k" "n_status r = N_pending" by (auto dest: find_SomeD)
  with assms nr_row_unique [of s r] Some show ?thesis by simp
qed

lemma rows_set_keys:
  assumes "nr_inv s"
  shows "set (map nk (filter P s)) = {k. \<exists>r. nr_row s k = Some r \<and> P r}"
proof (rule set_eqI)
  fix k
  show "k \<in> set (map nk (filter P s)) \<longleftrightarrow> k \<in> {k. \<exists>r. nr_row s k = Some r \<and> P r}"
    using nr_row_unique [OF assms] nr_row_key [of s k] by auto
qed

lemma update_pending_inv:
  assumes "nr_inv s" "\<And>r. nk (f r) = nk r" "\<And>r. n_attempt_no r \<le> n_attempt_no (f r)"
  shows "nr_inv (update_pending k f s)"
proof -
  have "map nk (update_pending k f s) = map nk s"
    using assms(2) by (simp add: update_pending_def)
  moreover have "0 \<le> n_attempt_no (f r)" if "0 \<le> n_attempt_no r" for r
    using that assms(3) [of r] by linarith
  ultimately show ?thesis
    using assms(1) by (auto simp: nr_inv_def simp del: map_map) (auto simp: update_pending_def)
qed

lemma reserve_inv: "nr_inv s \<Longrightarrow> nr_inv (fst (nr_reserve k s))"
  by (auto simp: nr_reserve_def nr_inv_def nr_row_def find_None_iff_all split: option.splits)

subsection \<open>The contract of the state machine\<close>

locale notif_lifecycle =
  fixes inv :: "'s \<Rightarrow> bool"
    and status_of :: "'s \<Rightarrow> nkey \<Rightarrow> notif_status option"
    and attempts :: "'s \<Rightarrow> nkey \<Rightarrow> int"
    and reserve :: "nkey \<Rightarrow> 's \<Rightarrow> 's \<times> bool"
    and mark_attempt :: "nkey \<Rightarrow> time \<Rightarrow> 's \<Rightarrow> 's \<times> int option"
    and mark_sent :: "nkey \<Rightarrow> time \<Rightarrow> 's \<Rightarrow> 's"
    and mark_fail :: "nkey \<Rightarrow> 's \<Rightarrow> 's"
  assumes inv_reserve: "inv s \<Longrightarrow> inv (fst (reserve k s))"
    and inv_attempt: "inv s \<Longrightarrow> inv (fst (mark_attempt k t s))"
    and inv_sent: "inv s \<Longrightarrow> inv (mark_sent k t s)"
    and inv_fail: "inv s \<Longrightarrow> inv (mark_fail k s)"
    and reserve_fresh: "inv s \<Longrightarrow> snd (reserve k s) \<longleftrightarrow> status_of s k = None"
    and status_reserve: "inv s \<Longrightarrow> status_of (fst (reserve k s)) k' =
      (if k' = k \<and> status_of s k = None then Some N_pending else status_of s k')"
    and attempts_reserve: "inv s \<Longrightarrow> attempts (fst (reserve k s)) k' = attempts s k'"
    and attempt_result: "inv s \<Longrightarrow> snd (mark_attempt k t s) =
      (if status_of s k = Some N_pending then Some (attempts s k + 1) else None)"
    and status_attempt: "inv s \<Longrightarrow> status_of (fst (mark_attempt k t s)) k' = status_of s k'"
    and attempts_attempt: "inv s \<Longrightarrow> attempts (fst (mark_attempt k t s)) k' =
      (if k' = k \<and> status_of s k = Some N_pending then attempts s k + 1 else attempts s k')"
    and status_sent: "inv s \<Longrightarrow> status_of (mark_sent k t s) k' =
      (if k' = k \<and> status_of s k = Some N_pending then Some N_sent else status_of s k')"
    and attempts_sent: "inv s \<Longrightarrow> attempts (mark_sent k t s) k' = attempts s k'"
    and status_fail: "inv s \<Longrightarrow> status_of (mark_fail k s) k' =
      (if k' = k \<and> status_of s k = Some N_pending then Some N_permanent_fail else status_of s k')"
    and attempts_fail: "inv s \<Longrightarrow> attempts (mark_fail k s) k' = attempts s k'"
    and attempts_absent: "inv s \<Longrightarrow> status_of s k = None \<Longrightarrow> attempts s k = 0"
    and attempts_nonneg: "inv s \<Longrightarrow> 0 \<le> attempts s k"
begin

lemmas inv_ops = inv_reserve inv_attempt inv_sent inv_fail
lemmas status_ops = status_reserve status_attempt status_sent status_fail
lemmas attempts_ops = attempts_reserve attempts_attempt attempts_sent attempts_fail

end

interpretation nr: notif_lifecycle nr_inv nr_status_of nr_attempts
  nr_reserve nr_mark_attempt nr_mark_sent nr_mark_permanent_fail
proof unfold_locales
  fix s :: nstore and k k' :: nkey and t :: time
  assume inv: "nr_inv s"
  show "nr_inv (fst (nr_reserve k s))" using inv by (rule reserve_inv)
  show "nr_inv (fst (nr_mark_attempt k t s))" "nr_inv (nr_mark_sent k t s)"
    "nr_inv (nr_mark_permanent_fail k s)"
    using inv by (auto simp: nr_mark_attempt_def nr_mark_sent_def nr_mark_permanent_fail_def
        intro!: update_pending_inv)
  show "snd (nr_reserve k s) \<longleftrightarrow> nr_status_of s k = None"
    by (auto simp: nr_reserve_def nr_status_of_def split: option.splits)
  show "nr_status_of (fst (nr_reserve k s)) k' =
      (if k' = k \<and> nr_status_of s k = None then Some N_pending else nr_status_of s k')"
    and "nr_attempts (fst (nr_reserve k s)) k' = nr_attempts s k'"
    by (auto simp: nr_reserve_def nr_status_of_def nr_attempts_def nr_row_append split: option.splits)
  show "snd (nr_mark_attempt k t s) =
      (if nr_status_of s k = Some N_pending then Some (nr_attempts s k + 1) else None)"
    using inv by (auto simp: nr_mark_attempt_def nr_status_of_def nr_attempts_def find_pending_row
        split: option.splits)
  show "nr_status_of (fst (nr_mark_attempt k t s)) k' = nr_status_of s k'"
    and "nr_attempts (fst (nr_mark_attempt k t s)) k' =
      (if k' = k \<and> nr_status_of s k = Some N_pending then nr_attempts s k + 1 else nr_attempts s k')"
    and "nr_status_of (nr_mark_sent k t s) k' =
      (if k' = k \<and> nr_status_of s k = Some N_pending then Some N_sent else nr_status_of s k')"
    and "nr_attempts (nr_mark_sent k t s) k' = nr_attempts s k'"
    and "nr_status_of (nr_mark_permanent_fail k s) k' =
      (if k' = k \<and> nr_status_of s k = Some N_pending then Some N_permanent_fail else nr_status_of s k')"
    and "nr_attempts (nr_mark_permanent_fail k s) k' = nr_attempts s k'"
    by (auto simp: nr_mark_attempt_def nr_mark_sent_def nr_mark_permanent_fail_def nr_status_of_def
        nr_attempts_def nr_row_update_pending map_option_case split: option.splits)
  show "nr_attempts s k = 0" if "nr_status_of s k = None"
    using that by (auto simp: nr_status_of_def nr_attempts_def split: option.splits)
  show "0 \<le> nr_attempts s k"
    using inv by (auto simp: nr_attempts_def nr_inv_def split: option.splits dest!: nr_row_key)
qed

subsection \<open>Interleavings of callers\<close>

text \<open>A call of one of the four mutators, by whichever thread.\<close>

datatype nop = Reserve nkey | Attempt nkey time | Sent nkey time | Fail nkey

fun apply_nop ::
  "(nkey \<Rightarrow> 's \<Rightarrow> 's \<times> bool) \<Rightarrow> (nkey \<Rightarrow> time \<Rightarrow> 's \<Rightarrow> 's \<times> int option) \<Rightarrow>
   (nkey \<Rightarrow> time \<Rightarrow> 's \<Rightarrow> 's) \<Rightarrow> (nkey \<Rightarrow> 's \<Rightarrow> 's) \<Rightarrow> nop \<Rightarrow> 's \<Rightarrow> 's" where
  "apply_nop res att snt fl (Reserve k) s = fst (res k s)"
| "apply_nop res att snt fl (Attempt k t) s = fst (att k t s)"
| "apply_nop res att snt fl (Sent k t) s = snt k t s"
| "apply_nop res att snt fl (Fail k) s = fl k s"

text \<open>The attempt numbers handed out for \<open>k\<close> along a sequence of calls.\<close>

fun attempt_results ::
  "(nkey \<Rightarrow> 's \<Rightarrow> 's \<times> bool) \<Rightarrow> (nkey \<Rightarrow> time \<Rightarrow> 's \<Rightarrow> 's \<times> int option) \<Rightarrow>
   (nkey \<Rightarrow> time \<Rightarrow> 's \<Rightarrow> 's) \<Rightarrow> (nkey \<Rightarrow> 's \<Rightarrow> 's) \<Rightarrow> nkey \<Rightarrow> nop list \<Rightarrow> 's \<Rightarrow> int list" where
  "attempt_results res att snt fl k [] s = []"
| "attempt_results res att snt fl k (c # cs) s =
     (case c of
        Attempt k' t \<Rightarrow>
          (if k' = k then (case snd (att k' t s) of None \<Rightarrow> [] | Some n \<Rightarrow> [n]) else [])
      | _ \<Rightarrow> [])
     @ attempt_results res att snt fl k cs (apply_nop res att snt fl c s)"

context notif_lifecycle
begin

abbreviation run :: "nop list \<Rightarrow> 's \<Rightarrow> 's" where
  "run cs s \<equiv> fold (apply_nop reserve mark_attempt mark_sent mark_fail) cs s"

lemma inv_apply: "inv s \<Longrightarrow> inv (apply_nop reserve mark_attempt mark_sent mark_fail c s)"
  by (cases c) (auto intro: inv_ops)

lemma inv_run: "inv s \<Longrightarrow> inv (run cs s)"
  by (induction cs arbitrary: s) (auto intro: inv_apply)

lemma apply_terminal:
  "inv s \<Longrightarrow> status_of s k = Some N_sent \<or> status_of s k = Some N_permanent_fail \<Longrightarrow>
   status_of (apply_nop reserve mark_attempt mark_sent mark_fail c s) k = status_of s k
   \<and> attempts (apply_nop reserve mark_attempt mark_sent mark_fail c s) k = attempts s k"
  by (cases c) (auto simp: status_ops attempts_ops)

lemma run_terminal:
  "inv s \<Longrightarrow> status_of s k = Some N_sent \<or> status_of s k = Some N_permanent_fail \<Longrightarrow>
   status_of (run cs s) k = status_of s k \<and> attempts (run cs s) k = attempts s k"
proof (induction cs arbitrary: s)
  case (Cons c cs)
  from apply_terminal [OF Cons.prems, of c] inv_apply [OF Cons.prems(1), of c]
  show ?case using Cons.IH [of "apply_nop reserve mark_attempt mark_sent mark_fail c s"] Cons.prems
    by auto
qed simp

lemma apply_step:
  assumes "inv s"
  shows "status_of s k \<noteq> None \<Longrightarrow> status_of (apply_nop reserve mark_attempt mark_sent mark_fail c s) k \<noteq> None"
    and "attempts s k \<le> attempts (apply_nop reserve mark_attempt mark_sent mark_fail c s) k"
  using assms by (cases c; auto simp: status_ops attempts_ops)+

lemma run_never_forgets: "inv s \<Longrightarrow> status_of s k \<noteq> None \<Longrightarrow> status_of (run cs s) k \<noteq> None"
  using apply_step inv_apply by (induction cs arbitrary: s) auto

lemma run_attempts_mono: "inv s \<Longrightarrow> attempts s k \<le> attempts (run cs s) k"
proof (induction cs arbitrary: s)
  case (Cons c cs)
  then show ?case using apply_step(2) [of s k c] inv_apply [of s c] by fastforce
qed simp

lemma attempt_results_upto:
  "inv s \<Longrightarrow> attempt_results reserve mark_attempt mark_sent mark_fail k cs s =
     [attempts s k + 1 .. attempts (run cs s) k]"
proof (induction cs arbitrary: s)
  case (Cons c cs)
  let ?s = "apply_nop reserve mark_attempt mark_sent mark_fail c s"
  have i: "inv ?s" using Cons.prems by (rule inv_apply)
  have m: "attempts ?s k \<le> attempts (run cs ?s) k" using i by (rule run_attempts_mono)
  show ?case
    using Cons.prems m Cons.IH [OF i]
    by (cases c) (auto simp: attempt_result attempts_ops upto_rec1 split: option.splits)
qed simp

end

text \<open>The reachable stores, and the changes one call can make to one key's status.\<close>

inductive nr_step :: "nstore \<Rightarrow> nop \<Rightarrow> nstore \<Rightarrow> bool" where
  Step: "nr_step s c (apply_nop nr_reserve nr_mark_attempt nr_mark_sent nr_mark_permanent_fail c s)"

inductive nr_reach :: "nstore \<Rightarrow> bool" where
  Empty: "nr_reach []"
| Call: "nr_reach s \<Longrightarrow> nr_step s c s' \<Longrightarrow> nr_reach s'"

inductive_cases nr_stepE: "nr_step s c s'"

lemma nr_reach_apply:
  "nr_reach s \<Longrightarrow> nr_reach (apply_nop nr_reserve nr_mark_attempt nr_mark_sent nr_mark_permanent_fail c s)"
  by (rule nr_reach.Call [OF _ nr_step.Step])

lemma nr_inv_Nil [simp]: "nr_inv []"
  by (simp add: nr_inv_def)

lemma nr_reach_inv: "nr_reach s \<Longrightarrow> nr_inv s"
  by (induction rule: nr_reach.induct) (auto elim!: nr_stepE intro: nr.inv_apply)

subsection \<open>Recovery query\<close>

definition record_key :: "notification_record \<Rightarrow> nkey" where
  "record_key rec = (nr_lot_id rec, channel_value (nr_channel rec), nr_recipient rec)"

definition known_channels :: "nstore \<Rightarrow> bool" where
  "known_channels s \<longleftrightarrow> (\<forall>r \<in> set s. fst (snd (nk r)) \<in> {''email'', ''browser'', ''heartbeat''})"

lemma channel_value_of_text: "channel_of_text c = Inr ch \<Longrightarrow> channel_value ch = c"
  by (auto simp: channel_of_text_def split: if_splits)

lemma row_to_record_key: "row_to_record r = Inr rec \<Longrightarrow> record_key rec = nk r \<and> nr_status rec = n_status r"
  by (auto simp: row_to_record_def record_key_def res_bind_Inr_iff channel_value_of_text
      split: prod.splits)

lemma row_to_record_ok_iff:
  "(\<exists>rec. row_to_record r = Inr rec) \<longleftrightarrow> fst (snd (nk r)) \<in> {''email'', ''browser'', ''heartbeat''}"
  by (auto simp: row_to_record_def channel_of_text_def res_bind_Inr_iff split: prod.splits)

lemma row_to_record_get: "known_channels s \<Longrightarrow> r \<in> set s \<Longrightarrow> row_to_record r = Inr (projr (row_to_record r))"
  using row_to_record_ok_iff [of r] by (auto simp: known_channels_def)

lemma recovery_query:
  assumes "nr_inv s" "known_channels s"
  shows "\<exists>recs. nr_list_pending_older_than now age s = Inr recs
    \<and> distinct (map record_key recs)
    \<and> set (map record_key recs) =
       {k. \<exists>r. nr_row s k = Some r \<and> n_status r = N_pending
              \<and> (n_last_attempt_at r = None \<or> (\<exists>t. n_last_attempt_at r = Some t \<and> t < now - age))}"
proof -
  let ?rows = "filter (pending_older (now - age)) s"
  let ?rec = "\<lambda>r. projr (row_to_record r)"
  have inv: "nr_inv s" using assms(1) .
  have ok: "row_to_record r = Inr (?rec r)" if "r \<in> set ?rows" for r
    using that assms(2) row_to_record_get by auto
  have keys: "map record_key (map ?rec ?rows) = map nk ?rows"
    using ok row_to_record_key by (auto simp del: filter_set)
  have "nr_list_pending_older_than now age s = Inr (map ?rec ?rows)"
    unfolding nr_list_pending_older_than_def by (intro map_res_Inr_map ok)
  moreover have "distinct (map nk ?rows)"
    using inv by (simp add: nr_inv_def distinct_map_filter)
  moreover have "set (map nk ?rows) =
       {k. \<exists>r. nr_row s k = Some r \<and> n_status r = N_pending
              \<and> (n_last_attempt_at r = None \<or> (\<exists>t. n_last_attempt_at r = Some t \<and> t < now - age))}"
    using rows_set_keys [OF inv, of "pending_older (now - age)"]
    by (simp add: pending_older_def option_case_cond)
  ultimately show ?thesis using keys by metis
qed

subsection \<open>Properties\<close>

text \<open>
  C8. In every reachable store, one call changes the status of a key only along the edges
  of the state machine, and only the call for that edge and that key does: a reservation
  creates a pending row, a pending row becomes sent or permanently failed, nothing else.
\<close>

theorem notif_transitions:
  assumes "nr_reach s" "nr_step s c s'" "nr_status_of s' k \<noteq> nr_status_of s k"
  shows "(nr_status_of s k = None \<and> nr_status_of s' k = Some N_pending \<and> c = Reserve k)
    \<or> (nr_status_of s k = Some N_pending \<and> nr_status_of s' k = Some N_sent \<and> (\<exists>t. c = Sent k t))
    \<or> (nr_status_of s k = Some N_pending \<and> nr_status_of s' k = Some N_permanent_fail \<and> c = Fail k)"
  using assms(2)
proof cases
  case Step
  with assms(3) nr_reach_inv [OF assms(1)] show ?thesis
    by (cases c) (auto simp: nr.status_ops split: if_splits)
qed

theorem notif_transitions_witness:
  "\<exists>s'. nr_step [] (Reserve (7, ''email'', [97])) s' \<and>
     nr_status_of [] (7, ''email'', [97]) = None \<and> nr_status_of s' (7, ''email'', [97]) = Some N_pending"
proof -
  let ?k = "(7, ''email'', [97]) :: nkey"
  let ?s = "apply_nop nr_reserve nr_mark_attempt nr_mark_sent nr_mark_permanent_fail (Reserve ?k) []"
  have "nr_status_of ?s ?k \<noteq> nr_status_of [] ?k"
    by (simp add: nr_reserve_def nr_status_of_def nr_row_def)
  from notif_transitions [OF nr_reach.Empty nr_step.Step this] show ?thesis
    using nr_step.Step by fastforce
qed

text \<open>
  A key that has reached \<open>sent\<close> or \<open>permanent_fail\<close> keeps that status and its attempt
  number whatever calls follow, from any caller and in any order.
\<close>

theorem notif_terminal_absorbing:
  assumes "nr_reach s" "nr_status_of s k = Some N_sent \<or> nr_status_of s k = Some N_permanent_fail"
  shows "nr_status_of (fold (apply_nop nr_reserve nr_mark_attempt nr_mark_sent nr_mark_permanent_fail) cs s) k
      = nr_status_of s k
    \<and> nr_attempts (fold (apply_nop nr_reserve nr_mark_attempt nr_mark_sent nr_mark_permanent_fail) cs s) k
      = nr_attempts s k"
  using nr.run_terminal [OF nr_reach_inv [OF assms(1)] assms(2)] .

theorem notif_terminal_absorbing_witness:
  "let k = (7, ''email'', [97]);
       s = nr_mark_permanent_fail k (fst (nr_reserve k []))
   in nr_status_of s k = Some N_permanent_fail
     \<and> nr_status_of (nr_mark_sent k 5 (fst (nr_mark_attempt k 4 s))) k = Some N_permanent_fail"
proof -
  let ?k = "(7, ''email'', [97]) :: nkey"
  let ?run = "apply_nop nr_reserve nr_mark_attempt nr_mark_sent nr_mark_permanent_fail"
  let ?s = "?run (Fail ?k) (?run (Reserve ?k) [])"
  have r: "nr_reach ?s" by (intro nr_reach_apply nr_reach.Empty)
  have p: "nr_status_of ?s ?k = Some N_permanent_fail"
    by (simp add: nr_reserve_def nr_status_of_def nr_row_def nr_mark_permanent_fail_def update_pending_def)
  show ?thesis
    using notif_terminal_absorbing [OF r disjI2 [OF p], of "[Attempt ?k 4, Sent ?k 5]"] p
    by (simp add: Let_def)
qed

text \<open>
  Whatever the calls and their order, the attempt numbers \<^verbatim>\<open>mark_attempt\<close> hands out for
  one key are 1, 2, 3 and so on up to the row's \<^verbatim>\<open>attempt_no\<close>: none is skipped and none
  is handed out twice.
\<close>

theorem notif_attempt_numbers:
  "attempt_results nr_reserve nr_mark_attempt nr_mark_sent nr_mark_permanent_fail k cs [] =
     [1 .. nr_attempts (fold (apply_nop nr_reserve nr_mark_attempt nr_mark_sent nr_mark_permanent_fail) cs []) k]"
  using nr.attempt_results_upto [OF nr_inv_Nil, of k cs] by (simp add: nr_attempts_def)

text \<open>
  The recovery query returns the pending rows that were never attempted or last
  attempted before the cut-off, each once, and no other; reserved but never attempted rows
  are included. Every row must be on a channel the record type knows.
\<close>

theorem notif_recovery_query:
  assumes "nr_reach s" "known_channels s"
  shows "\<exists>recs. nr_list_pending_older_than now age s = Inr recs
    \<and> distinct (map record_key recs)
    \<and> set (map record_key recs) =
       {k. \<exists>r. nr_row s k = Some r \<and> n_status r = N_pending
              \<and> (n_last_attempt_at r = None \<or> (\<exists>t. n_last_attempt_at r = Some t \<and> t < now - age))}"
  using recovery_query [OF nr_reach_inv [OF assms(1)] assms(2)] .

theorem notif_recovery_query_witness:
  "\<exists>recs. nr_list_pending_older_than 100 60 (fst (nr_reserve (7, ''email'', [97]) [])) = Inr recs
     \<and> set (map record_key recs) = {(7, ''email'', [97])}"
proof -
  let ?k = "(7, ''email'', [97]) :: nkey"
  let ?s = "fst (nr_reserve ?k [])"
  have s: "?s = [\<lparr>nk = ?k, n_status = N_pending, n_attempt_no = 0,
      n_last_attempt_at = None, n_sent_at = None\<rparr>]"
    by (simp add: nr_reserve_def)
  have "nr_reach ?s"
    using nr_reach_apply [OF nr_reach.Empty, of "Reserve ?k"] by simp
  moreover have "known_channels ?s" by (simp add: s known_channels_def)
  ultimately show ?thesis
    using notif_recovery_query [of ?s 100 60] by (auto simp: s nr_row_def split: if_splits)
qed

end
