(* ===== verification/Dispatcher.thy ===== *)
theory Dispatcher
  imports Notif_Repo Regions Dnd
begin

text \<open>
  The notification dispatcher (\<^verbatim>\<open>services/notifier_dispatcher.py\<close>), the notifier registry
  (\<^verbatim>\<open>infra/notifiers/registry.py\<close>) and the browser notifier's \<^verbatim>\<open>send\<close>
  (\<^verbatim>\<open>infra/sse/browser_sse_notifier.py\<close>).

  The state \<open>disp\<close> holds the notifications table, the in-memory queue, the ids already
  warned about, the clock, the number of stop-event readings, and three logs: every wire
  send with its key, attempt number and answer, the published events and the back-off
  waits, and the number of times the process died. The environment of one consumer iteration (\<open>denv\<close>) supplies what the dispatcher
  reads from its collaborators: the registry, the configured recipients, the lot
  repository's \<^verbatim>\<open>get\<close>, the do-not-disturb predicate, the readings of the stop event, the
  points at which the process is killed and the random jitter. A notifier's \<open>send\<close> may answer every call differently and may raise.
\<close>

subsection \<open>Notifiers\<close>

record notifier =
  nf_channel :: string
  nf_suppress :: "(lot_public \<Rightarrow> bool) option"
  nf_send :: "nat \<Rightarrow> lot_public \<Rightarrow> ustr \<Rightarrow> notify_result res \<times> sse_event list"

definition suppresses :: "notifier \<Rightarrow> lot_public \<Rightarrow> bool" where
  "suppresses nf l = (case nf_suppress nf of None \<Rightarrow> False | Some p \<Rightarrow> p l)"

definition suppressed_result :: "string \<Rightarrow> notify_result" where
  "suppressed_result why = \<lparr>nres_ok = True, nres_detail = why, nres_retryable = False\<rparr>"

text \<open>\<^verbatim>\<open>SubscribedAtFilteredNotifier\<close>: \<open>subs\<close> is the region-subscription repository's reader.\<close>

definition subscribed_should_suppress :: "(int \<Rightarrow> time option) \<Rightarrow> lot_public \<Rightarrow> bool" where
  "subscribed_should_suppress subs l =
     (case lot_region_id l of
        None \<Rightarrow> False
      | Some g \<Rightarrow>
          (case subs g of
             None \<Rightarrow> True
           | Some subscribed_at \<Rightarrow>
               (if passes_subscription_cutoff (lot_date_create l) (Some subscribed_at) (Some g)
                then False else True)))"

definition subscribed_at_filtered :: "(int \<Rightarrow> time option) \<Rightarrow> notifier \<Rightarrow> notifier" where
  "subscribed_at_filtered subs inner =
     \<lparr> nf_channel = ''email'',
       nf_suppress = Some (subscribed_should_suppress subs),
       nf_send = (\<lambda>n l r.
         if subscribed_should_suppress subs l
         then (Inr (suppressed_result ''suppressed (subscribed_at)''), [])
         else nf_send inner n l r) \<rparr>"

text \<open>\<^verbatim>\<open>RfSubjectFilteredEmailNotifier\<close> around any notifier.\<close>

definition rf_should_suppress :: "filters_config \<Rightarrow> notifier \<Rightarrow> lot_public \<Rightarrow> bool" where
  "rf_should_suppress filters inner l =
     (if \<not> rf_matches l filters then True else suppresses inner l)"

definition rf_subject_filtered :: "filters_config \<Rightarrow> notifier \<Rightarrow> notifier" where
  "rf_subject_filtered filters inner =
     \<lparr> nf_channel = ''email'',
       nf_suppress = Some (rf_should_suppress filters inner),
       nf_send = (\<lambda>n l r.
         if rf_should_suppress filters inner l
         then (Inr (suppressed_result ''suppressed (rf_subjects)''), [])
         else nf_send inner n l r) \<rparr>"

text \<open>\<^verbatim>\<open>BrowserSseNotifier.send\<close>: \<open>publish_raises\<close> says whether the bus raised.\<close>

definition browser_notifier :: "(nat \<Rightarrow> bool) \<Rightarrow> notifier" where
  "browser_notifier publish_raises =
     \<lparr> nf_channel = ''browser'', nf_suppress = None,
       nf_send = (\<lambda>n l r.
         if publish_raises n
         then (Inr \<lparr>nres_ok = True, nres_detail = ''dropped (bus overflow)'', nres_retryable = False\<rparr>, [])
         else (Inr \<lparr>nres_ok = True, nres_detail = ''published'', nres_retryable = False\<rparr>,
               [SseLotNew l False])) \<rparr>"

subsection \<open>Registry\<close>

type_synonym registry = "notifier list"

definition registry_register :: "notifier \<Rightarrow> registry \<Rightarrow> registry res" where
  "registry_register nf reg =
     (if \<exists>x \<in> set reg. nf_channel x = nf_channel nf then Inl (OtherException ''RegistrationError'')
      else Inr (reg @ [nf]))"

definition registry_has :: "registry \<Rightarrow> string \<Rightarrow> bool" where
  "registry_has reg c \<longleftrightarrow> (\<exists>x \<in> set reg. nf_channel x = c)"

definition registry_get :: "registry \<Rightarrow> string \<Rightarrow> notifier res" where
  "registry_get reg c =
     (case find (\<lambda>x. nf_channel x = c) reg of None \<Rightarrow> Inl KeyError | Some x \<Rightarrow> Inr x)"

lemma registry_has_get: "registry_has reg c \<Longrightarrow> \<exists>nf \<in> set reg. registry_get reg c = Inr nf \<and> nf_channel nf = c"
  by (cases "find (\<lambda>x. nf_channel x = c) reg")
    (auto simp: registry_has_def registry_get_def find_None_iff_all dest: find_SomeD)

subsection \<open>Error classification\<close>

definition ascii_lower :: "string \<Rightarrow> string" where
  "ascii_lower s = map (\<lambda>c. if 65 \<le> (of_char c :: nat) \<and> (of_char c :: nat) \<le> 90
                           then char_of ((of_char c :: nat) + 32) else c) s"

fun starts_with :: "string \<Rightarrow> string \<Rightarrow> bool" where
  "starts_with [] s = True"
| "starts_with (p # ps) [] = False"
| "starts_with (p # ps) (c # cs) = (p = c \<and> starts_with ps cs)"

fun contains_text :: "string \<Rightarrow> string \<Rightarrow> bool" where
  "contains_text p [] = (p = [])"
| "contains_text p (c # cs) = (starts_with p (c # cs) \<or> contains_text p cs)"

definition classify_error :: "notify_result \<Rightarrow> error_category" where
  "classify_error result =
     (if nres_retryable result then Cat_network
      else let detail_lower = ascii_lower (nres_detail result)
           in if contains_text ''timeout'' detail_lower then Cat_timeout
              else if contains_text ''5xx'' detail_lower \<or> contains_text ''server error'' detail_lower
                then Cat_http_5xx
              else Cat_http_4xx)"

subsection \<open>State and environment\<close>

record disp =
  d_notifs :: nstore
  d_wire :: "(nkey \<times> int \<times> notify_result res) list"
  d_events :: "sse_event list"
  d_waits :: "rat list"
  d_queue :: "lot_public list"
  d_warned :: "int list"
  d_clock :: clock_st
  d_stops :: nat
  d_deaths :: nat

record denv =
  de_registry :: registry
  de_recipients :: "ustr list"
  de_lot_get :: "int \<Rightarrow> lot option res"
  de_dnd :: "time \<Rightarrow> bool"
  de_stop :: "nat \<Rightarrow> bool"
  de_dies :: "disp \<Rightarrow> bool"
  de_jitter :: "nat \<Rightarrow> rat"
  de_retry_attempts :: nat
  de_recovery_age :: int

definition MAX_TOTAL_ATTEMPTS :: int where "MAX_TOTAL_ATTEMPTS = 10"
definition MAX_QUEUE_SIZE :: nat where "MAX_QUEUE_SIZE = 10000"
definition RETRY_BACKOFF :: "rat list" where "RETRY_BACKOFF = [2, 4, 8]"

definition backoff_base :: "int \<Rightarrow> rat" where
  "backoff_base attempt_no = RETRY_BACKOFF ! nat (min (attempt_no - 1) (int (length RETRY_BACKOFF) - 1))"

definition d_tick :: "disp \<Rightarrow> disp" where
  "d_tick st = st\<lparr>d_clock := tick (d_clock st)\<rparr>"

definition d_now :: "disp \<Rightarrow> time" where
  "d_now st = now_of (d_clock st)"

text \<open>
  The process may be killed between any two committed statements (power loss, a kill from
  the task manager). \<open>de_dies\<close> says in which states that happens; it is asked at the start
  of each delivery, after \<^verbatim>\<open>reserve\<close>, after \<^verbatim>\<open>mark_attempt\<close> and after the
  wire send but before its outcome is committed. A death runs no further code: it ends the
  consumer like an exception nobody catches, and is counted in \<open>d_deaths\<close>.
\<close>

definition die :: "disp \<Rightarrow> disp \<times> unit res" where
  "die st = (st\<lparr>d_deaths := Suc (d_deaths st)\<rparr>, Inl (OtherException ''killed''))"

subsection \<open>Sending\<close>

definition publish_smtp_failed :: "string \<Rightarrow> int \<Rightarrow> notify_result \<Rightarrow> disp \<Rightarrow> disp" where
  "publish_smtp_failed channel_id attempt_no result st =
     d_tick (st\<lparr>d_events := d_events st
                 @ [SseSmtpFailed (d_now st) channel_id attempt_no (classify_error result)]\<rparr>)"

text \<open>The retry loop, with \<open>n\<close> rounds left and the last result so far.\<close>

fun send_loop ::
  "denv \<Rightarrow> notifier \<Rightarrow> lot_public \<Rightarrow> ustr \<Rightarrow> nat \<Rightarrow> notify_result option \<Rightarrow> disp \<Rightarrow> disp \<times> unit res" where
  "send_loop env nf l r 0 prev st =
     (case prev of
        None \<Rightarrow> (st, Inr ())
      | Some result \<Rightarrow>
          (publish_smtp_failed (nf_channel nf) (int (de_retry_attempts env)) result st, Inr ()))"
| "send_loop env nf l r (Suc n) prev st =
     (let k = (lot_id l, nf_channel nf, r);
          (s1, att) = nr_mark_attempt k (d_now st) (d_notifs st);
          st1 = d_tick (st\<lparr>d_notifs := s1\<rparr>)
      in if de_dies env st1 then die st1 else
         case att of
           None \<Rightarrow> (st1, Inr ())
         | Some attempt_no \<Rightarrow>
             (if attempt_no > MAX_TOTAL_ATTEMPTS
              then (st1\<lparr>d_notifs := nr_mark_permanent_fail k (d_notifs st1)\<rparr>, Inr ())
              else
                let (answer, evs) = nf_send nf (length (d_wire st1)) l r;
                    st2 = st1\<lparr>d_wire := d_wire st1 @ [(k, attempt_no, answer)],
                              d_events := d_events st1 @ evs\<rparr>
                in if de_dies env st2 then die st2 else
                   case answer of
                     Inl e \<Rightarrow> (st2, Inl e)
                   | Inr result \<Rightarrow>
                       (if nres_ok result
                        then (d_tick (st2\<lparr>d_notifs := nr_mark_sent k (d_now st2) (d_notifs st2)\<rparr>), Inr ())
                        else if \<not> nres_retryable result
                        then (publish_smtp_failed (nf_channel nf) attempt_no result
                                (st2\<lparr>d_notifs := nr_mark_permanent_fail k (d_notifs st2)\<rparr>), Inr ())
                        else
                          let st3 = st2\<lparr>d_waits := d_waits st2
                                          @ [backoff_base attempt_no + de_jitter env (length (d_waits st2))],
                                        d_stops := Suc (d_stops st2)\<rparr>
                          in if de_stop env (d_stops st2) then (st3, Inr ())
                             else send_loop env nf l r n (Some result) st3)))"

definition send_one :: "denv \<Rightarrow> lot_public \<Rightarrow> notifier \<Rightarrow> ustr \<Rightarrow> disp \<Rightarrow> disp \<times> unit res" where
  "send_one env l nf r st =
     (let k = (lot_id l, nf_channel nf, r);
          reserved = st\<lparr>d_notifs := fst (nr_reserve k (d_notifs st))\<rparr>
      in
      if de_dies env st then die st
      else if suppresses nf l
      then (if nr_status_of (d_notifs st) k = Some N_pending
            then (st\<lparr>d_notifs := nr_mark_permanent_fail k (d_notifs st)\<rparr>, Inr ())
            else (st, Inr ()))
      else case nr_status_of (d_notifs st) k of
             Some N_sent \<Rightarrow> (st, Inr ())
           | Some N_permanent_fail \<Rightarrow> (st, Inr ())
           | Some N_pending \<Rightarrow> send_loop env nf l r (de_retry_attempts env) None st
           | None \<Rightarrow>
               (if de_dies env reserved then die reserved
                else send_loop env nf l r (de_retry_attempts env) None reserved))"

definition recipients_of :: "denv \<Rightarrow> notifier \<Rightarrow> ustr list" where
  "recipients_of env nf =
     (if nf_channel nf = ''email'' then de_recipients env
      else if nf_channel nf = ''browser'' \<or> nf_channel nf = ''heartbeat''
        then [[108, 111, 99, 97, 108]]
      else [])"

text \<open>Run a step per element and stop at the first exception.\<close>

fun for_each :: "('a \<Rightarrow> disp \<Rightarrow> disp \<times> unit res) \<Rightarrow> 'a list \<Rightarrow> disp \<Rightarrow> disp \<times> unit res" where
  "for_each f [] st = (st, Inr ())"
| "for_each f (x # xs) st =
     (case f x st of
        (st', Inl e) \<Rightarrow> (st', Inl e)
      | (st', Inr _) \<Rightarrow> for_each f xs st')"

definition dispatch_all_channels :: "denv \<Rightarrow> lot_public \<Rightarrow> disp \<Rightarrow> disp \<times> unit res" where
  "dispatch_all_channels env l st =
     (if de_dnd env (d_now st) then (d_tick st, Inr ())
      else for_each (\<lambda>nf. for_each (\<lambda>r. send_one env l nf r) (recipients_of env nf))
             (de_registry env) (d_tick st))"

definition retry_one :: "denv \<Rightarrow> notification_record \<Rightarrow> disp \<Rightarrow> disp \<times> unit res" where
  "retry_one env rec st =
     (if de_dies env st then die st
      else if \<not> registry_has (de_registry env) (channel_value (nr_channel rec)) then (st, Inr ())
      else case registry_get (de_registry env) (channel_value (nr_channel rec)) of
             Inl e \<Rightarrow> (st, Inl e)
           | Inr nf \<Rightarrow>
               (case de_lot_get env (nr_lot_id rec) of
                  Inl e \<Rightarrow> (st, Inl e)
                | Inr None \<Rightarrow>
                    (st\<lparr>d_notifs := nr_mark_permanent_fail (record_key rec) (d_notifs st)\<rparr>, Inr ())
                | Inr (Some l) \<Rightarrow> send_one env (lot_to_public_dto l) nf (nr_recipient rec) st))"

subsection \<open>Producer and consumer\<close>

definition dispatch :: "lot_public \<Rightarrow> disp \<Rightarrow> disp" where
  "dispatch l st =
     (let st1 = (if lot_region_id l = None \<and> lot_id l \<notin> set (d_warned st)
                 then st\<lparr>d_warned := lot_id l # d_warned st\<rparr> else st)
      in if length (d_queue st1) < MAX_QUEUE_SIZE
         then st1\<lparr>d_queue := d_queue st1 @ [l]\<rparr> else st1)"

text \<open>
  The recovery sweep; the stop event is read before each record, and \<open>Inr False\<close> is the
  early return out of the loop.
\<close>

fun recovery_sweep :: "denv \<Rightarrow> notification_record list \<Rightarrow> disp \<Rightarrow> disp \<times> bool res" where
  "recovery_sweep env [] st = (st, Inr True)"
| "recovery_sweep env (rec # recs) st =
     (let st1 = st\<lparr>d_stops := Suc (d_stops st)\<rparr>
      in if de_stop env (d_stops st) then (st1, Inr False)
         else case retry_one env rec st1 of
                (st2, Inl e) \<Rightarrow> (st2, Inl e)
              | (st2, Inr _) \<Rightarrow> recovery_sweep env recs st2)"

definition recover :: "denv \<Rightarrow> disp \<Rightarrow> disp \<times> bool res" where
  "recover env st =
     (case nr_list_pending_older_than (d_now st) (de_recovery_age env) (d_notifs st) of
        Inl e \<Rightarrow> (d_tick st, Inl e)
      | Inr recs \<Rightarrow> recovery_sweep env recs (d_tick st))"

text \<open>One round of \<^verbatim>\<open>consumer_loop\<close>: whether to go on.\<close>

definition consumer_round :: "denv \<Rightarrow> disp \<Rightarrow> disp \<times> bool res" where
  "consumer_round env st =
     (case d_queue st of
        [] \<Rightarrow> recover env st
      | l # rest \<Rightarrow>
          (case dispatch_all_channels env l (st\<lparr>d_queue := rest\<rparr>) of
             (st', Inl e) \<Rightarrow> (st', Inl e)
           | (st', Inr _) \<Rightarrow> recover env st'))"

text \<open>
  The loop itself, one environment per round: it ends when the stop event is set, when a
  round raises, or when the given rounds are used up.
\<close>

fun consumer_loop :: "denv list \<Rightarrow> disp \<Rightarrow> disp \<times> unit res" where
  "consumer_loop [] st = (st, Inr ())"
| "consumer_loop (env # envs) st =
     (let st1 = st\<lparr>d_stops := Suc (d_stops st)\<rparr>
      in if de_stop env (d_stops st) then (st1, Inr ())
         else case consumer_round env st1 of
                (st2, Inl e) \<Rightarrow> (st2, Inl e)
              | (st2, Inr go_on) \<Rightarrow> (if go_on then consumer_loop envs st2 else (st2, Inr ())))"

subsection \<open>Invariant and progress\<close>

definition wire_of :: "disp \<Rightarrow> nkey \<Rightarrow> (nkey \<times> int \<times> notify_result res) list" where
  "wire_of st k = filter (\<lambda>w. fst w = k) (d_wire st)"

definition is_ok :: "notify_result res \<Rightarrow> bool" where
  "is_ok a = (case a of Inl _ \<Rightarrow> False | Inr res \<Rightarrow> nres_ok res)"

definition ok_of :: "disp \<Rightarrow> nkey \<Rightarrow> nat" where
  "ok_of st k = length (filter (\<lambda>w. is_ok (snd (snd w))) (wire_of st k))"

text \<open>
  Per key: the attempt numbers on the wire are distinct, positive and at most the smaller
  of the cap and the row's counter; a \<open>sent\<close> row had a delivery accepted; and beyond the
  one a \<open>sent\<close> row records, only as many were accepted as the process died.
\<close>

definition key_ok :: "disp \<Rightarrow> nkey \<Rightarrow> bool" where
  "key_ok st k \<longleftrightarrow>
     (\<forall>w \<in> set (wire_of st k). 1 \<le> fst (snd w) \<and> fst (snd w) \<le> MAX_TOTAL_ATTEMPTS
        \<and> fst (snd w) \<le> nr_attempts (d_notifs st) k)
     \<and> distinct (map (\<lambda>w. fst (snd w)) (wire_of st k))
     \<and> ok_of st k \<le> d_deaths st + (if nr_status_of (d_notifs st) k = Some N_sent then 1 else 0)
     \<and> (nr_status_of (d_notifs st) k = Some N_sent \<longrightarrow> 0 < ok_of st k)"

definition disp_inv :: "disp \<Rightarrow> bool" where
  "disp_inv st \<longleftrightarrow> nr_inv (d_notifs st) \<and> (\<forall>k. key_ok st k)"

definition terminal_at :: "disp \<Rightarrow> nkey \<Rightarrow> bool" where
  "terminal_at st k \<longleftrightarrow>
     nr_status_of (d_notifs st) k = Some N_sent \<or> nr_status_of (d_notifs st) k = Some N_permanent_fail"

definition key_le :: "disp \<Rightarrow> disp \<Rightarrow> nkey \<Rightarrow> bool" where
  "key_le st st' k \<longleftrightarrow>
     (terminal_at st k \<longrightarrow>
        nr_status_of (d_notifs st') k = nr_status_of (d_notifs st) k \<and> wire_of st' k = wire_of st k)
     \<and> (nr_status_of (d_notifs st) k \<noteq> None \<longrightarrow> nr_status_of (d_notifs st') k \<noteq> None)
     \<and> nr_attempts (d_notifs st) k \<le> nr_attempts (d_notifs st') k"

text \<open>What every operation of the dispatcher preserves.\<close>

definition disp_le :: "disp \<Rightarrow> disp \<Rightarrow> bool" where
  "disp_le st st' \<longleftrightarrow> (disp_inv st \<longrightarrow> disp_inv st' \<and> (\<forall>k. key_le st st' k))"

lemma key_le_trans: "key_le a b k \<Longrightarrow> key_le b c k \<Longrightarrow> key_le a c k"
  by (auto simp: key_le_def terminal_at_def)

lemma disp_leD:
  assumes "disp_le a b" "disp_inv a"
  shows "disp_inv b" and "key_le a b k"
  using assms unfolding disp_le_def by blast+

lemma disp_le_refl [simp]: "disp_le st st"
  by (simp add: disp_le_def key_le_def)

lemma disp_le_trans: "disp_le a b \<Longrightarrow> disp_le b c \<Longrightarrow> disp_le a c"
  unfolding disp_le_def using key_le_trans by blast

lemma disp_le_frame:
  "d_notifs st' = d_notifs st \<Longrightarrow> d_wire st' = d_wire st \<Longrightarrow> d_deaths st \<le> d_deaths st'
   \<Longrightarrow> disp_le st st'"
  by (auto simp: disp_le_def disp_inv_def key_ok_def key_le_def wire_of_def ok_of_def terminal_at_def
      intro: le_trans add_mono)

lemma disp_le_frameR:
  "d_notifs st' = d_notifs st \<Longrightarrow> d_wire st' = d_wire st \<Longrightarrow> d_deaths st \<le> d_deaths st'
   \<Longrightarrow> disp_le a st \<Longrightarrow> disp_le a st'"
  using disp_le_trans disp_le_frame by blast

lemma disp_le_die: "disp_le a st \<Longrightarrow> disp_le a (fst (die st))"
  by (rule disp_le_frameR [of _ st]) (simp_all add: die_def)

lemma disp_le_reserve: "disp_le st (st\<lparr>d_notifs := fst (nr_reserve k (d_notifs st))\<rparr>)"
  by (auto simp: nr.attempts_absent MAX_TOTAL_ATTEMPTS_def disp_le_def disp_inv_def key_ok_def key_le_def wire_of_def ok_of_def terminal_at_def
      nr.inv_ops nr.status_ops nr.attempts_ops)

lemma disp_le_fail: "disp_le st (st\<lparr>d_notifs := nr_mark_permanent_fail k (d_notifs st)\<rparr>)"
  by (auto simp: disp_le_def disp_inv_def key_ok_def key_le_def wire_of_def ok_of_def terminal_at_def
      nr.inv_ops nr.status_ops nr.attempts_ops)

lemma disp_invD:
  assumes "disp_inv st"
  shows "nr_inv (d_notifs st)" and "key_ok st k"
  using assms unfolding disp_inv_def by blast+

lemma key_ok_mono:
  assumes "key_ok st k" "wire_of st' k = wire_of st k"
    and le: "nr_attempts (d_notifs st) k \<le> nr_attempts (d_notifs st') k"
    and "nr_status_of (d_notifs st') k = Some N_sent \<longleftrightarrow> nr_status_of (d_notifs st) k = Some N_sent"
    and "d_deaths st \<le> d_deaths st'"
  shows "key_ok st' k"
proof -
  have "fst (snd w) \<le> nr_attempts (d_notifs st') k" if "w \<in> set (wire_of st k)" for w
    using that assms(1) le by (auto simp: key_ok_def)
  with assms show ?thesis by (auto simp: key_ok_def ok_of_def intro: le_trans)
qed

text \<open>An attempt that is counted, whether or not its message goes out.\<close>

lemma disp_le_attempt: "disp_le st (st\<lparr>d_notifs := fst (nr_mark_attempt k t (d_notifs st))\<rparr>)"
  unfolding disp_le_def
proof (intro impI conjI allI)
  let ?s2 = "fst (nr_mark_attempt k t (d_notifs st))" and ?st = "st\<lparr>d_notifs := fst (nr_mark_attempt k t (d_notifs st))\<rparr>"
  assume inv: "disp_inv st"
  then have n: "nr_inv (d_notifs st)" by (rule disp_invD)
  have st2: "nr_status_of ?s2 k' = nr_status_of (d_notifs st) k'"
    and at2: "nr_attempts (d_notifs st) k' \<le> nr_attempts ?s2 k'"
    and n2: "nr_inv ?s2" for k'
    using n by (auto simp: nr.inv_ops nr.status_ops nr.attempts_ops)
  have "key_ok ?st k'" for k'
    by (rule key_ok_mono [of st]) (use disp_invD(2) [OF inv, of k'] in \<open>simp_all add: wire_of_def st2 at2\<close>)
  with n2 show "disp_inv ?st" by (simp add: disp_inv_def)
  show "key_le st ?st k'" for k'
    by (auto simp: key_le_def wire_of_def st2 at2 terminal_at_def)
qed

text \<open>One attempt that goes on the wire, and its outcome in the table.\<close>

lemma disp_le_send:
  assumes att: "nr_mark_attempt k t (d_notifs st) = (s1, Some a)" and cap: "a \<le> MAX_TOTAL_ATTEMPTS"
    and s2: "s2 = (if is_ok answer \<and> \<not> dead then nr_mark_sent k t' s1 else s1)"
    and dead: "d = d_deaths st + (if dead then 1 else 0)"
  shows "disp_le st (st\<lparr>d_notifs := s2, d_wire := d_wire st @ [(k, a, answer)], d_deaths := d\<rparr>)"
  unfolding disp_le_def
proof (intro impI conjI allI)
  let ?st = "st\<lparr>d_notifs := s2, d_wire := d_wire st @ [(k, a, answer)], d_deaths := d\<rparr>"
  assume inv: "disp_inv st"
  then have n: "nr_inv (d_notifs st)" and ok: "key_ok st k" by (rule disp_invD)+
  have s1: "s1 = fst (nr_mark_attempt k t (d_notifs st))" using att by simp
  have pend: "nr_status_of (d_notifs st) k = Some N_pending" and a: "a = nr_attempts (d_notifs st) k + 1"
    using nr.attempt_result [OF n, of k t] att by (auto split: if_splits)
  have n1: "nr_inv s1" using n s1 nr.inv_ops by simp
  have st2: "nr_status_of s2 k' = (if k' = k \<and> is_ok answer \<and> \<not> dead then Some N_sent else nr_status_of (d_notifs st) k')"
    and at2: "nr_attempts s2 k' = (if k' = k then a else nr_attempts (d_notifs st) k')" for k'
    using n n1 pend a by (auto simp: s2 s1 nr.status_ops nr.attempts_ops)
  have w: "wire_of ?st k' = wire_of st k' @ (if k' = k then [(k, a, answer)] else [])" for k'
    by (simp add: wire_of_def)
  have nn: "1 \<le> a" using a nr.attempts_nonneg [OF n, of k] by simp
  have old: "1 \<le> fst (snd x) \<and> fst (snd x) \<le> MAX_TOTAL_ATTEMPTS \<and> fst (snd x) < a"
    if "x \<in> set (wire_of st k)" for x
    using ok that a by (auto simp: key_ok_def)
  have "a \<notin> (\<lambda>w. fst (snd w)) ` set (wire_of st k)"
  proof
    assume "a \<in> (\<lambda>w. fst (snd w)) ` set (wire_of st k)"
    then obtain x where "x \<in> set (wire_of st k)" "a = fst (snd x)" by (rule imageE)
    with old [of x] show False by simp
  qed
  then have "distinct (map (\<lambda>w. fst (snd w)) (wire_of st k @ [(k, a, answer)]))"
    using ok by (simp add: key_ok_def)
  moreover have ok2: "ok_of ?st k = ok_of st k + (if is_ok answer then 1 else 0)"
    by (simp add: ok_of_def w)
  have "ok_of st k \<le> d_deaths st" using ok pend by (simp add: key_ok_def)
  then have "ok_of ?st k \<le> d + (if is_ok answer \<and> \<not> dead then 1 else 0)"
    "is_ok answer \<and> \<not> dead \<longrightarrow> 0 < ok_of ?st k"
    unfolding ok2 by (simp_all add: dead)
  moreover have "\<forall>x \<in> set (wire_of ?st k). 1 \<le> fst (snd x) \<and> fst (snd x) \<le> MAX_TOTAL_ATTEMPTS
      \<and> fst (snd x) \<le> nr_attempts (d_notifs ?st) k"
    using old nn cap by (simp add: w at2 less_imp_le)
  ultimately have "key_ok ?st k"
    using pend cap by (auto simp: key_ok_def w st2 at2)
  moreover have "key_ok ?st k'" if "k' \<noteq> k" for k'
  proof (rule key_ok_mono)
    show "key_ok st k'" using disp_invD(2) [OF inv] .
    show "wire_of ?st k' = wire_of st k'" using w [of k'] that by simp
  qed (use that in \<open>simp_all add: st2 at2 dead\<close>)
  ultimately have "\<forall>k'. key_ok ?st k'" by metis
  moreover have "nr_inv s2" using n1 by (simp add: s2 nr.inv_ops)
  ultimately show "disp_inv ?st" by (simp add: disp_inv_def)
  show "key_le st ?st k'" for k'
  proof -
    have "nr_attempts (d_notifs st) k \<le> a" using a by simp
    with pend show ?thesis by (auto simp: key_le_def w st2 at2 terminal_at_def)
  qed
qed

lemma disp_le_publish: "disp_le st (publish_smtp_failed c n res st)"
  by (rule disp_le_frame) (simp_all add: publish_smtp_failed_def d_tick_def)

lemma disp_le_tick: "disp_le st (d_tick st)"
  by (rule disp_le_frame) (simp_all add: d_tick_def)

text \<open>The state after one attempt, up to what the invariant reads.\<close>

lemma disp_le_after_send:
  assumes "nr_mark_attempt k t (d_notifs st) = (s1, Some a)" "a \<le> MAX_TOTAL_ATTEMPTS"
    and "d_notifs st' = (if is_ok answer \<and> \<not> dead then nr_mark_sent k t' s1 else s1)"
    and "d_wire st' = d_wire st @ [(k, a, answer)]"
    and "d_deaths st' = d_deaths st + (if dead then 1 else 0)"
  shows "disp_le st st'"
  by (rule disp_le_frameR [OF _ _ _ disp_le_send [OF assms(1,2) refl refl, where dead = dead]])
    (simp_all add: assms(3-5))

lemma send_loop_le: "disp_le st (fst (send_loop env nf l r n prev st))"
proof (induction n arbitrary: prev st)
  case 0
  then show ?case by (cases prev) (simp_all add: disp_le_publish)
next
  case (Suc n)
  let ?k = "(lot_id l, nf_channel nf, r)"
  obtain s1 att where m: "nr_mark_attempt ?k (d_now st) (d_notifs st) = (s1, att)" by fastforce
  let ?st1 = "d_tick (st\<lparr>d_notifs := s1\<rparr>)"
  have le1: "disp_le st ?st1"
    by (rule disp_le_frameR [OF _ _ _ disp_le_attempt [of st ?k "d_now st"]]) (simp_all add: m d_tick_def)
  show ?case
  proof (cases "de_dies env ?st1 \<or> att = None \<or> (\<exists>a. att = Some a \<and> a > MAX_TOTAL_ATTEMPTS)")
    case True
    then show ?thesis
      using m le1 disp_le_die [OF le1] disp_le_trans [OF le1 disp_le_fail [of ?st1 ?k]]
      by (auto simp: Let_def)
  next
    case False
    then obtain a where a: "att = Some a" "a \<le> MAX_TOTAL_ATTEMPTS" and alive: "\<not> de_dies env ?st1"
      by (cases att) auto
    obtain ans evs where snd': "nf_send nf (length (d_wire ?st1)) l r = (ans, evs)" by fastforce
    let ?st2 = "?st1\<lparr>d_wire := d_wire ?st1 @ [(?k, a, ans)], d_events := d_events ?st1 @ evs\<rparr>"
    note run = m a alive snd'
    have step: "disp_le st st'"
      if "d_notifs st' = (if is_ok ans \<and> \<not> dead then nr_mark_sent ?k t' s1 else s1)"
        "d_wire st' = d_wire st @ [(?k, a, ans)]" "d_deaths st' = d_deaths st + (if dead then 1 else 0)"
      for st' t' dead
      by (rule disp_le_after_send [OF m [unfolded a(1)] a(2) that])
    have dead: "disp_le st (fst (die ?st2))"
      by (rule step [of _ True]) (simp_all add: die_def d_tick_def)
    show ?thesis
    proof (cases "de_dies env ?st2")
      case True
      with run dead show ?thesis by (simp add: Let_def)
    next
      case live2: False
      have le2: "disp_le st ?st2" if "\<not> is_ok ans"
        by (rule step [of _ False]) (simp_all add: that d_tick_def)
      show ?thesis
      proof (cases ans)
        case (Inl e)
        with run live2 le2 show ?thesis by (simp add: Let_def is_ok_def)
      next
        case (Inr result)
        show ?thesis
        proof (cases "nres_ok result")
          case True
          let ?st3 = "d_tick (?st2\<lparr>d_notifs := nr_mark_sent ?k (d_now ?st2) (d_notifs ?st2)\<rparr>)"
          have "disp_le st ?st3"
            by (rule step [of _ False]) (simp_all add: Inr is_ok_def True d_tick_def)
          with run live2 Inr True show ?thesis by (simp add: Let_def)
        next
          case nok: False
          have le2': "disp_le st ?st2" by (rule le2) (simp add: Inr is_ok_def nok)
          let ?st3 = "?st2\<lparr>d_waits := d_waits ?st2 @ [backoff_base a + de_jitter env (length (d_waits ?st2))],
              d_stops := Suc (d_stops ?st2)\<rparr>"
          have le3: "disp_le st ?st3" by (rule disp_le_frameR [OF _ _ _ le2']) simp_all
          show ?thesis
            using run live2 Inr nok le3
              disp_le_trans [OF disp_le_trans [OF le2' disp_le_fail [of ?st2 ?k]] disp_le_publish]
              disp_le_trans [OF le3 Suc.IH [of ?st3 "Some result"]]
            by (simp add: Let_def)
        qed
      qed
    qed
  qed
qed

lemma send_one_le: "disp_le st (fst (send_one env l nf r st))"
proof -
  let ?res = "st\<lparr>d_notifs := fst (nr_reserve (lot_id l, nf_channel nf, r) (d_notifs st))\<rparr>"
  have "disp_le st (fst (send_loop env nf l r (de_retry_attempts env) None ?res))"
    by (rule disp_le_trans [OF disp_le_reserve send_loop_le])
  moreover have "disp_le st (fst (die st))" "disp_le st (fst (die ?res))"
    by (simp_all add: disp_le_die disp_le_reserve)
  ultimately show ?thesis
    by (auto simp: send_one_def Let_def disp_le_fail send_loop_le
        split: option.splits notif_status.splits)
qed

lemma for_each_le:
  "(\<And>x st. x \<in> set xs \<Longrightarrow> disp_le st (fst (f x st))) \<Longrightarrow> disp_le st (fst (for_each f xs st))"
proof (induction xs arbitrary: st)
  case (Cons x xs)
  obtain st' res where f: "f x st = (st', res)" by fastforce
  with Cons.prems [of x st] have "disp_le st st'" by simp
  with f Cons.IH [of st'] Cons.prems show ?case
    by (cases res) (auto intro: disp_le_trans)
qed simp

lemma dispatch_all_le: "disp_le st (fst (dispatch_all_channels env l st))"
  unfolding dispatch_all_channels_def
  by (auto intro: disp_le_tick for_each_le send_one_le disp_le_trans [OF disp_le_tick for_each_le])

lemma retry_one_le: "disp_le st (fst (retry_one env rec st))"
  by (auto simp: retry_one_def disp_le_fail disp_le_die send_one_le split: sum.splits option.splits)

lemma recovery_sweep_le: "disp_le st (fst (recovery_sweep env recs st))"
proof (induction recs arbitrary: st)
  case (Cons rec recs)
  let ?st1 = "st\<lparr>d_stops := Suc (d_stops st)\<rparr>"
  have le1: "disp_le st ?st1" by (rule disp_le_frame) simp_all
  obtain st2 res where r: "retry_one env rec ?st1 = (st2, res)" by fastforce
  then have le2: "disp_le st st2"
    using disp_le_trans [OF le1 retry_one_le [of ?st1 env rec]] by simp
  show ?case
    using r le1 le2 disp_le_trans [OF le2 Cons.IH] by (cases res) (simp_all add: Let_def)
qed simp

lemma recover_le: "disp_le st (fst (recover env st))"
  by (auto simp: recover_def disp_le_tick split: sum.splits
      intro: disp_le_trans [OF disp_le_tick recovery_sweep_le])

lemma consumer_round_le: "disp_le st (fst (consumer_round env st))"
proof (cases "d_queue st")
  case Nil
  then show ?thesis by (simp add: consumer_round_def recover_le)
next
  case (Cons l rest)
  let ?st1 = "st\<lparr>d_queue := rest\<rparr>"
  have le1: "disp_le st ?st1" by (rule disp_le_frame) simp_all
  obtain st2 res where r: "dispatch_all_channels env l ?st1 = (st2, res)" by fastforce
  then have le2: "disp_le st st2"
    using disp_le_trans [OF le1 dispatch_all_le [of ?st1 env l]] by simp
  show ?thesis
    using r Cons le2 disp_le_trans [OF le2 recover_le]
    by (cases res) (simp_all add: consumer_round_def)
qed

lemma consumer_loop_le: "disp_le st (fst (consumer_loop envs st))"
proof (induction envs arbitrary: st)
  case (Cons env envs)
  let ?st1 = "st\<lparr>d_stops := Suc (d_stops st)\<rparr>"
  have le1: "disp_le st ?st1" by (rule disp_le_frame) simp_all
  obtain st2 res where r: "consumer_round env ?st1 = (st2, res)" by fastforce
  then have le2: "disp_le st st2"
    using disp_le_trans [OF le1 consumer_round_le [of ?st1 env]] by simp
  show ?case
    using r le1 le2 disp_le_trans [OF le2 Cons.IH] by (cases res) (simp_all add: Let_def)
qed simp

lemma dispatch_le: "disp_le st (dispatch l st)"
  by (rule disp_le_frame) (simp_all add: dispatch_def Let_def)

lemmas disp_ops_le = dispatch_le consumer_round_le consumer_loop_le retry_one_le send_one_le

subsection \<open>Progress of a sweep\<close>

definition sends_return :: "notifier \<Rightarrow> bool" where
  "sends_return nf \<longleftrightarrow> (\<forall>n l r. \<exists>res evs. nf_send nf n l r = (Inr res, evs))"

text \<open>
  The conditions under which a sweep runs at all: the configured number of attempts is
  positive, the process is neither stopped nor killed, and the mailers answer (they may
  refuse). What \<^verbatim>\<open>lot_repo.get\<close> answers is a separate condition: it raises on a row
  it cannot read, and \<^verbatim>\<open>_retry_one\<close> does not catch that.
\<close>

definition env_runs :: "denv \<Rightarrow> bool" where
  "env_runs env \<longleftrightarrow>
     0 < de_retry_attempts env \<and> (\<forall>n. \<not> de_stop env n) \<and> (\<forall>st. \<not> de_dies env st)
     \<and> (\<forall>nf \<in> set (de_registry env). sends_return nf)"

definition lot_answers :: "denv \<Rightarrow> int \<Rightarrow> bool" where
  "lot_answers env i \<longleftrightarrow> (\<exists>x. de_lot_get env i = Inr x \<and> (\<forall>l. x = Some l \<longrightarrow> lot_id l = i))"

definition stays_up :: "denv \<Rightarrow> bool" where
  "stays_up env \<longleftrightarrow> (\<forall>st. \<not> de_dies env st)"

lemma env_runsD:
  assumes "env_runs env"
  shows "stays_up env" and "\<not> de_stop env n" and "0 < de_retry_attempts env"
    and "nf \<in> set (de_registry env) \<Longrightarrow> sends_return nf"
  using assms by (auto simp: env_runs_def stays_up_def)

lemma send_loop_returns:
  "sends_return nf \<Longrightarrow> stays_up env \<Longrightarrow> snd (send_loop env nf l r n prev st) = Inr ()"
proof (induction n arbitrary: prev st)
  case 0
  then show ?case by (cases prev) simp_all
next
  case (Suc n)
  have "\<exists>res evs. nf_send nf m l r = (Inr res, evs)" for m
    using Suc.prems by (simp add: sends_return_def)
  then have "nf_send nf m l r = (Inr (projr (fst (nf_send nf m l r))), snd (nf_send nf m l r))" for m
    by (metis fst_conv snd_conv sum.sel(2))
  with Suc show ?case
    by (simp add: Let_def stays_up_def split: prod.split option.split sum.split)
      (metis fst_conv sum.distinct(1))
qed

text \<open>A row has advanced when it is terminal, or has used one more of its ten attempts.\<close>

definition advanced :: "disp \<Rightarrow> disp \<Rightarrow> nkey \<Rightarrow> bool" where
  "advanced st st' k \<longleftrightarrow>
     terminal_at st' k
     \<or> (nr_attempts (d_notifs st) k < nr_attempts (d_notifs st') k
        \<and> nr_attempts (d_notifs st) k < MAX_TOTAL_ATTEMPTS)"

lemma send_loop_advances:
  assumes "disp_inv st" "nr_status_of (d_notifs st) (lot_id l, nf_channel nf, r) = Some N_pending"
    and "stays_up env"
  shows "advanced st (fst (send_loop env nf l r (Suc n) prev st)) (lot_id l, nf_channel nf, r)"
proof -
  let ?k = "(lot_id l, nf_channel nf, r)"
  let ?a = "nr_attempts (d_notifs st) ?k + 1"
  have n: "nr_inv (d_notifs st)" using assms(1) by (rule disp_invD)
  obtain s1 where m: "nr_mark_attempt ?k (d_now st) (d_notifs st) = (s1, Some ?a)"
    using nr.attempt_result [OF n, of ?k "d_now st"] assms(2)
    by (metis prod.collapse)
  then have s1: "s1 = fst (nr_mark_attempt ?k (d_now st) (d_notifs st))" by simp
  have n1: "nr_inv s1" and at1: "nr_attempts s1 ?k = ?a" and stat1: "nr_status_of s1 ?k = Some N_pending"
    using n assms(2) by (simp_all add: s1 nr.inv_ops nr.attempts_ops nr.status_ops)
  have alive: "\<not> de_dies env x" for x using assms(3) by (simp add: stays_up_def)
  let ?st1 = "d_tick (st\<lparr>d_notifs := s1\<rparr>)"
  obtain ans evs where snd': "nf_send nf (length (d_wire ?st1)) l r = (ans, evs)" by fastforce
  let ?st2 = "?st1\<lparr>d_wire := d_wire ?st1 @ [(?k, ?a, ans)], d_events := d_events ?st1 @ evs\<rparr>"
  let ?st3 = "?st2\<lparr>d_waits := d_waits ?st2 @ [backoff_base ?a + de_jitter env (length (d_waits ?st2))],
      d_stops := Suc (d_stops ?st2)\<rparr>"
  show ?thesis
  proof (cases "?a > MAX_TOTAL_ATTEMPTS \<or> (\<exists>res. ans = Inr res \<and> \<not> nres_ok res \<and> nres_retryable res)")
    case False
    then show ?thesis
      using m snd' n1 at1 stat1
      by (auto simp: Let_def d_tick_def publish_smtp_failed_def nr.attempts_ops nr.status_ops alive
          advanced_def terminal_at_def split: sum.splits)
  next
    case True
    then consider "?a > MAX_TOTAL_ATTEMPTS"
      | res where "?a \<le> MAX_TOTAL_ATTEMPTS" "ans = Inr res" "\<not> nres_ok res" "nres_retryable res" by force
    then show ?thesis
    proof cases
      case 1
      then show ?thesis using m n1 stat1
        by (simp add: Let_def d_tick_def nr.status_ops alive advanced_def terminal_at_def)
    next
      case 2
      have "disp_le st ?st3"
        by (rule disp_le_after_send [OF m 2(1), of _ ans False]) (simp_all add: 2 is_ok_def d_tick_def)
      then have "disp_inv ?st3" using assms(1) by (simp add: disp_le_def)
      then have "nr_attempts (d_notifs ?st3) ?k \<le>
          nr_attempts (d_notifs (fst (send_loop env nf l r n (Some res) ?st3))) ?k"
        using send_loop_le [of ?st3 env nf l r n "Some res"] unfolding disp_le_def key_le_def by blast
      moreover have "nr_attempts (d_notifs ?st3) ?k = ?a" using at1 by (simp add: d_tick_def)
      ultimately show ?thesis
        using m snd' 2 at1 by (auto simp: Let_def d_tick_def alive advanced_def)
    qed
  qed
qed

lemma send_one_returns:
  "sends_return nf \<Longrightarrow> stays_up env \<Longrightarrow> snd (send_one env l nf r st) = Inr ()"
  by (auto simp: send_one_def Let_def send_loop_returns stays_up_def split: option.splits notif_status.splits)

lemma send_one_progress:
  assumes "disp_inv st" "0 < de_retry_attempts env" "stays_up env"
    and "nr_status_of (d_notifs st) (lot_id l, nf_channel nf, r) = Some N_pending"
  shows "advanced st (fst (send_one env l nf r st)) (lot_id l, nf_channel nf, r)"
proof -
  let ?k = "(lot_id l, nf_channel nf, r)"
  obtain m where m: "de_retry_attempts env = Suc m" using assms(2) gr0_implies_Suc by blast
  have alive: "\<not> de_dies env st" using assms(3) by (simp add: stays_up_def)
  show ?thesis
  proof (cases "suppresses nf l")
    case True
    with assms(4) alive disp_invD(1) [OF assms(1)] show ?thesis
      by (simp add: send_one_def advanced_def terminal_at_def nr.status_ops)
  next
    case False
    with assms(4) alive send_loop_advances [OF assms(1,4,3), of m None] show ?thesis
      by (simp add: send_one_def m del: send_loop.simps)
  qed
qed

lemma retry_one_progress:
  assumes "disp_inv st" "env_runs env"
    and reg: "registry_has (de_registry env) (channel_value (nr_channel rec))"
    and answers: "lot_answers env (nr_lot_id rec)"
  shows "snd (retry_one env rec st) = Inr ()"
    and "nr_status_of (d_notifs st) (record_key rec) = Some N_pending \<Longrightarrow>
      advanced st (fst (retry_one env rec st)) (record_key rec)"
proof -
  obtain nf where nf: "nf \<in> set (de_registry env)"
    "registry_get (de_registry env) (channel_value (nr_channel rec)) = Inr nf"
    "nf_channel nf = channel_value (nr_channel rec)"
    using registry_has_get [OF reg] by blast
  obtain x where x: "de_lot_get env (nr_lot_id rec) = Inr x" "\<And>l. x = Some l \<Longrightarrow> lot_id l = nr_lot_id rec"
    using answers unfolding lot_answers_def by blast
  note runs = env_runsD [OF assms(2)]
  have sr: "sends_return nf" using runs(4) nf(1) .
  have alive: "\<not> de_dies env st" using runs(1) by (simp add: stays_up_def)
  show "snd (retry_one env rec st) = Inr ()"
    using reg nf x sr alive runs(1) by (cases x) (simp_all add: retry_one_def send_one_returns)
  show "advanced st (fst (retry_one env rec st)) (record_key rec)"
    if p: "nr_status_of (d_notifs st) (record_key rec) = Some N_pending"
  proof (cases x)
    case None
    with reg nf x p alive disp_invD(1) [OF assms(1)] show ?thesis
      by (simp add: retry_one_def advanced_def terminal_at_def nr.status_ops)
  next
    case (Some l)
    have k: "record_key rec = (lot_id (lot_to_public_dto l), nf_channel nf, nr_recipient rec)"
      using x(2) [OF Some] nf(3) by (simp add: record_key_def)
    show ?thesis
      using send_one_progress [OF assms(1) runs(3,1), of "lot_to_public_dto l" nf "nr_recipient rec"]
        p reg nf x Some k alive by (simp add: retry_one_def)
  qed
qed

text \<open>An unreadable lot ends the sweep with its exception, wherever in the list it stands.\<close>

lemma sweep_raises:
  assumes "env_runs env" "rec \<in> set recs" "de_lot_get env (nr_lot_id rec) = Inl e"
    and reg: "registry_has (de_registry env) (channel_value (nr_channel rec))"
  shows "\<exists>e'. snd (recovery_sweep env recs st) = Inl e'"
  using assms(2)
proof (induction recs arbitrary: st)
  case (Cons x recs)
  let ?st1 = "st\<lparr>d_stops := Suc (d_stops st)\<rparr>"
  obtain st2 res where r: "retry_one env x ?st1 = (st2, res)" by fastforce
  note runs = env_runsD [OF assms(1)]
  have "res = Inl e" if "x = rec"
  proof -
    obtain nf where "registry_get (de_registry env) (channel_value (nr_channel rec)) = Inr nf"
      using registry_has_get [OF reg] by blast
    with r that assms(3) reg runs(1) show ?thesis by (simp add: retry_one_def stays_up_def)
  qed
  with Cons r runs(2) show ?case
    by (cases res) (auto simp: Let_def)
qed simp

lemma advanced_trans:
  assumes "advanced a b k" "disp_inv b" "disp_le b c"
  shows "advanced a c k"
proof -
  have "key_le b c k" using assms(3,2) by (rule disp_leD)
  with assms(1) show ?thesis by (auto simp: advanced_def key_le_def terminal_at_def)
qed

lemma advanced_later:
  assumes "disp_inv a" "disp_le a b" "nr_status_of (d_notifs a) k = Some N_pending"
    and "disp_inv b" "disp_le b c"
    and "nr_status_of (d_notifs b) k = Some N_pending \<Longrightarrow> advanced b c k"
  shows "advanced a c k"
proof -
  have ab: "key_le a b k" using assms(2,1) by (rule disp_leD)
  have bc: "key_le b c k" using assms(5,4) by (rule disp_leD)
  show ?thesis
  proof (cases "nr_status_of (d_notifs b) k = Some N_pending")
    case True
    with assms(6) ab show ?thesis by (auto simp: advanced_def key_le_def)
  next
    case False
    then have "terminal_at b k"
      using ab assms(3) by (cases "nr_status_of (d_notifs b) k")
        (auto simp: key_le_def terminal_at_def intro: notif_status.exhaust)
    with bc show ?thesis by (auto simp: advanced_def key_le_def terminal_at_def)
  qed
qed

lemma sweep_progress:
  assumes "env_runs env"
  shows "disp_inv st \<Longrightarrow>
    (\<And>rec. rec \<in> set recs \<Longrightarrow> registry_has (de_registry env) (channel_value (nr_channel rec))) \<Longrightarrow>
    (\<And>rec. rec \<in> set recs \<Longrightarrow> lot_answers env (nr_lot_id rec)) \<Longrightarrow>
    snd (recovery_sweep env recs st) = Inr True
    \<and> (\<forall>rec \<in> set recs. nr_status_of (d_notifs st) (record_key rec) = Some N_pending \<longrightarrow>
         advanced st (fst (recovery_sweep env recs st)) (record_key rec))"
proof (induction recs arbitrary: st)
  case (Cons rec recs)
  let ?st1 = "st\<lparr>d_stops := Suc (d_stops st)\<rparr>"
  have le1: "disp_le st ?st1" by (rule disp_le_frame) simp_all
  then have inv1: "disp_inv ?st1" using Cons.prems(1) by (simp add: disp_le_def)
  have reg: "registry_has (de_registry env) (channel_value (nr_channel rec))"
    using Cons.prems(2) by simp
  have ans: "lot_answers env (nr_lot_id rec)" using Cons.prems(3) by simp
  obtain st2 where r: "retry_one env rec ?st1 = (st2, Inr ())"
    using retry_one_progress(1) [OF inv1 assms reg ans] by (metis prod.collapse)
  have le2: "disp_le ?st1 st2" using retry_one_le [of ?st1 env rec] r by simp
  then have inv2: "disp_inv st2" using inv1 by (simp add: disp_le_def)
  have le12: "disp_le st st2" using disp_le_trans [OF le1 le2] .
  have le3: "disp_le st2 (fst (recovery_sweep env recs st2))" by (rule recovery_sweep_le)
  have IH: "snd (recovery_sweep env recs st2) = Inr True"
    "\<And>x. x \<in> set recs \<Longrightarrow> nr_status_of (d_notifs st2) (record_key x) = Some N_pending \<Longrightarrow>
         advanced st2 (fst (recovery_sweep env recs st2)) (record_key x)"
    using Cons.IH [OF inv2] Cons.prems(2,3) by auto
  have unf: "recovery_sweep env (rec # recs) st = recovery_sweep env recs st2"
    using env_runsD(2) [OF assms] r by (simp add: Let_def)
  have hd: "advanced st (fst (recovery_sweep env recs st2)) (record_key rec)"
    if "nr_status_of (d_notifs st) (record_key rec) = Some N_pending"
  proof (rule advanced_trans [OF _ inv2 le3])
    show "advanced st st2 (record_key rec)"
      using retry_one_progress(2) [OF inv1 assms reg ans] that r by (simp add: advanced_def)
  qed
  have tl: "advanced st (fst (recovery_sweep env recs st2)) (record_key x)"
    if "x \<in> set recs" "nr_status_of (d_notifs st) (record_key x) = Some N_pending" for x
    using advanced_later [OF Cons.prems(1) le12 that(2) inv2 le3] IH(2) [OF that(1)] by blast
  show ?case unfolding unf using IH(1) hd tl by auto
qed simp

subsection \<open>Histories\<close>

text \<open>
  What happens to the dispatcher over its life: a producer dispatches a lot, the consumer
  runs some rounds (in which it may raise, and in which the process may die), or the
  process restarts. A restart, also the one after a death, loses the queue but not the
  table. Each consumer run has its own environments: configuration, registry and lots may
  change in between.
\<close>

datatype disp_cmd = Dispatch lot_public | Consume "denv list" | Restart

definition disp_boot :: "disp \<Rightarrow> disp" where
  "disp_boot st = st\<lparr>d_queue := [], d_warned := []\<rparr>"

fun disp_exec :: "disp_cmd \<Rightarrow> disp \<Rightarrow> disp" where
  "disp_exec (Dispatch l) st = dispatch l st"
| "disp_exec (Consume envs) st =
     (let st' = fst (consumer_loop envs st)
      in if d_deaths st' = d_deaths st then st' else disp_boot st')"
| "disp_exec Restart st = disp_boot st"

definition disp_run :: "disp_cmd list \<Rightarrow> disp \<Rightarrow> disp" where
  "disp_run cmds st = fold disp_exec cmds st"

definition disp_start :: "clock_st \<Rightarrow> disp" where
  "disp_start c = \<lparr>d_notifs = [], d_wire = [], d_events = [], d_waits = [], d_queue = [],
     d_warned = [], d_clock = c, d_stops = 0, d_deaths = 0\<rparr>"

lemma disp_boot_le: "disp_le a st \<Longrightarrow> disp_le a (disp_boot st)"
  by (rule disp_le_frameR [of _ st]) (simp_all add: disp_boot_def)

lemma disp_exec_le: "disp_le st (disp_exec c st)"
  by (cases c) (simp_all add: disp_ops_le disp_boot_le Let_def)

lemma disp_run_le: "disp_le st (disp_run cmds st)"
proof (induction cmds arbitrary: st)
  case (Cons c cmds)
  have "disp_run (c # cmds) st = disp_run cmds (disp_exec c st)" by (simp add: disp_run_def)
  then show ?case using disp_le_trans [OF disp_exec_le Cons.IH] by simp
qed (simp add: disp_run_def)

lemma disp_start_inv: "disp_inv (disp_start c)"
  unfolding disp_inv_def key_ok_def
  by (auto simp: disp_start_def wire_of_def ok_of_def nr_status_of_def)

lemma disp_run_inv: "disp_inv (disp_run cmds (disp_start c))"
  using disp_run_le disp_start_inv unfolding disp_le_def by blast


lemma wire_of_bounded:
  assumes "disp_inv st"
  shows "length (wire_of st k) \<le> 10"
proof -
  let ?ns = "map (\<lambda>w. fst (snd w)) (wire_of st k)"
  have ok: "key_ok st k" using assms by (rule disp_invD)
  then have "set ?ns \<subseteq> {1 .. MAX_TOTAL_ATTEMPTS}" by (auto simp: key_ok_def)
  then have "card (set ?ns) \<le> card {1 .. MAX_TOTAL_ATTEMPTS}" by (intro card_mono) simp_all
  moreover have "distinct ?ns" using ok by (simp add: key_ok_def)
  then have "card (set ?ns) = length (wire_of st k)" by (simp add: distinct_card del: set_map)
  ultimately show ?thesis by (simp add: MAX_TOTAL_ATTEMPTS_def)
qed

subsection \<open>A small set-up for concrete instances\<close>

definition demo_notifier :: "notify_result \<Rightarrow> notifier" where
  "demo_notifier res =
     \<lparr> nf_channel = ''email'', nf_suppress = None, nf_send = (\<lambda>_ _ _. (Inr res, [])) \<rparr>"

definition demo_env :: "notify_result \<Rightarrow> nat \<Rightarrow> int \<Rightarrow> denv" where
  "demo_env res attempts age =
     \<lparr> de_registry = [demo_notifier res], de_recipients = [[97]],
       de_lot_get = (\<lambda>i. Inr (Some (sample_lot i))), de_dnd = (\<lambda>_. False), de_stop = (\<lambda>_. False),
       de_dies = (\<lambda>_. False), de_jitter = (\<lambda>_. 0), de_retry_attempts = attempts, de_recovery_age = age \<rparr>"

definition demo_retry :: notify_result where
  "demo_retry = \<lparr>nres_ok = False, nres_detail = ''timeout'', nres_retryable = True\<rparr>"

definition demo_state :: disp where
  "demo_state = disp_run [Dispatch (lot_to_public_dto (sample_lot 7)), Consume [demo_env demo_retry 1 100]]
     (disp_start \<lparr>readings = (\<lambda>n. int n), ticks = 0\<rparr>)"

lemmas demo_eval = demo_state_def demo_env_def demo_notifier_def demo_retry_def disp_run_def disp_start_def
      dispatch_def MAX_QUEUE_SIZE_def consumer_round_def dispatch_all_channels_def d_now_def d_tick_def
      tick_def now_of_def recipients_of_def send_one_def suppresses_def nr_status_of_def nr_reserve_def
      nr_row_def nr_mark_attempt_def update_pending_def MAX_TOTAL_ATTEMPTS_def publish_smtp_failed_def
      recover_def nr_list_pending_older_than_def pending_older_def Let_def

lemma demo_notifs: "d_notifs demo_state =
   [\<lparr>nk = (7, ''email'', [97]), n_status = N_pending, n_attempt_no = 1,
     n_last_attempt_at = Some 1, n_sent_at = None\<rparr>]"
  by (simp add: demo_eval)

lemma demo_sends_return: "sends_return (demo_notifier res)"
  by (simp add: sends_return_def demo_notifier_def)

lemma demo_env_runs: "0 < n \<Longrightarrow> env_runs (demo_env res n age)"
  by (simp add: env_runs_def demo_env_def demo_sends_return)

subsection \<open>Properties\<close>

text \<open>
  C4. Over any history of dispatches, consumer runs and restarts, whatever the mailers
  answer and however often the configuration changes, at most ten messages are ever sent
  for one lot, channel and recipient, under pairwise different attempt numbers from 1 to 10.
\<close>

theorem delivery_attempts_capped:
  "length (wire_of (disp_run cmds (disp_start c)) k) \<le> 10
   \<and> distinct (map (\<lambda>w. fst (snd w)) (wire_of (disp_run cmds (disp_start c)) k))
   \<and> (\<forall>n. n \<in> set (map (\<lambda>w. fst (snd w)) (wire_of (disp_run cmds (disp_start c)) k)) \<longrightarrow> 1 \<le> n \<and> n \<le> 10)"
  using wire_of_bounded [OF disp_run_inv] disp_invD(2) [OF disp_run_inv, of cmds c k]
  by (auto simp: key_ok_def MAX_TOTAL_ATTEMPTS_def)

theorem delivery_attempts_capped_witness:
  "length (wire_of (disp_run [Dispatch (lot_to_public_dto (sample_lot 7)), Restart]
     (disp_start \<lparr>readings = (\<lambda>n. int n), ticks = 0\<rparr>)) (7, ''email'', [97])) \<le> 10"
  using delivery_attempts_capped [of "[Dispatch (lot_to_public_dto (sample_lot 7)), Restart]"] by blast

text \<open>
  C3. Delivery is at least once, over any history of dispatches, consumer runs, restarts and
  process deaths, whatever the mailers answer. A row that says \<open>sent\<close> had at least one
  message accepted; beyond that one, a recipient accepts at most as many messages per lot
  and channel as the process died (a death between a mailer's acceptance and the commit of
  \<^verbatim>\<open>mark_sent\<close> leaves the row pending, and recovery sends again). So as long as no
  process died, exactly one message was accepted if the row says \<open>sent\<close>, and none otherwise.
  Once a row is terminal no further message for it goes out, whatever happens later.
\<close>

theorem delivered_at_least_once:
  "(let st = disp_run cmds (disp_start c); st' = disp_run (cmds @ cmds') (disp_start c);
        sent = (nr_status_of (d_notifs st) k = Some N_sent)
    in (sent \<longrightarrow> 1 \<le> ok_of st k)
     \<and> ok_of st k \<le> d_deaths st + (if sent then 1 else 0)
     \<and> (d_deaths st = 0 \<longrightarrow> ok_of st k = (if sent then 1 else 0))
     \<and> (terminal_at st k \<longrightarrow>
          wire_of st' k = wire_of st k \<and> nr_status_of (d_notifs st') k = nr_status_of (d_notifs st) k))"
proof -
  let ?st = "disp_run cmds (disp_start c)"
  have "disp_run (cmds @ cmds') (disp_start c) = disp_run cmds' ?st"
    by (simp add: disp_run_def)
  moreover have "key_le ?st (disp_run cmds' ?st) k"
    using disp_leD(2) [OF disp_run_le disp_run_inv] .
  moreover have "key_ok ?st k" using disp_invD(2) [OF disp_run_inv] .
  ultimately show ?thesis
    by (auto simp: Let_def key_ok_def key_le_def)
qed

text \<open>
  A lot is sent and accepted, the process dies before the row is updated, and the next
  process's sweep sends it again: two accepted messages, one death.
\<close>

theorem delivered_at_least_once_witness:
  "(let ok = suppressed_result ''ok'';
        dying = (demo_env ok 3 0)\<lparr>de_dies := (\<lambda>st. d_wire st \<noteq> [])\<rparr>;
        cmds = [Dispatch (lot_to_public_dto (sample_lot 7)), Consume [dying], Consume [demo_env ok 3 0]];
        st = disp_run cmds (disp_start \<lparr>readings = (\<lambda>n. int n), ticks = 0\<rparr>);
        st' = disp_run (cmds @ [Dispatch (lot_to_public_dto (sample_lot 7)), Consume [demo_env ok 3 0]])
                (disp_start \<lparr>readings = (\<lambda>n. int n), ticks = 0\<rparr>);
        k = (7, ''email'', [97])
    in nr_status_of (d_notifs st) k = Some N_sent \<and> d_deaths st = 1 \<and> ok_of st k = 2
       \<and> wire_of st' k = wire_of st k)"
proof -
  let ?ok = "suppressed_result ''ok''"
  let ?cmds = "[Dispatch (lot_to_public_dto (sample_lot 7)),
    Consume [(demo_env ?ok 3 0)\<lparr>de_dies := (\<lambda>st. d_wire st \<noteq> [])\<rparr>], Consume [demo_env ?ok 3 0]]"
  let ?c = "\<lparr>readings = (\<lambda>n. int n), ticks = 0\<rparr>"
  let ?st = "disp_run ?cmds (disp_start ?c)"
  have "nr_status_of (d_notifs ?st) (7, ''email'', [97]) = Some N_sent \<and> d_deaths ?st = 1
      \<and> ok_of ?st (7, ''email'', [97]) = 2"
    by (simp add: demo_eval numeral_3_eq_3 die_def disp_boot_def suppressed_result_def nr_mark_sent_def
        ok_of_def wire_of_def is_ok_def row_to_record_def channel_of_text_def retry_one_def
        registry_has_def registry_get_def record_key_def)
  with delivered_at_least_once [of ?cmds ?c
      "[Dispatch (lot_to_public_dto (sample_lot 7)), Consume [demo_env ?ok 3 0]]" "(7, ''email'', [97])"]
  show ?thesis by (simp only: Let_def terminal_at_def simp_thms)
qed

text \<open>
  C13. The mail channel's filter chain suppresses a lot exactly when its region is known and
  either is outside a non-empty configured scope, or is not subscribed, or was subscribed on
  a later calendar day than the lot was published. A suppressed lot is never sent and
  publishes nothing, and if it had no row it gets none; a lot that passes reaches the mailer
  unchanged.
\<close>

theorem email_suppression:
  "(let nf = rf_subject_filtered filters (subscribed_at_filtered subs smtp);
        st' = fst (send_one env l nf r st)
    in (suppresses nf l \<longleftrightarrow>
          (\<exists>g. lot_region_id l = Some g
             \<and> (rf_subjects filters \<noteq> [] \<and> g \<notin> set (rf_subjects filters)
                \<or> subs g = None
                \<or> (\<exists>t. subs g = Some t \<and> date_of (lot_date_create l) < date_of t))))
     \<and> (suppresses nf l \<longrightarrow>
          d_wire st' = d_wire st \<and> d_events st' = d_events st
          \<and> (nr_status_of (d_notifs st) (lot_id l, ''email'', r) = None \<longrightarrow> d_notifs st' = d_notifs st))
     \<and> (\<not> suppresses nf l \<longrightarrow> nf_send nf n l r = nf_send smtp n l r))"
proof -
  let ?sub = "subscribed_at_filtered subs smtp"
  let ?nf = "rf_subject_filtered filters ?sub"
  have sub: "suppresses ?sub l \<longleftrightarrow> subscribed_should_suppress subs l"
    by (simp add: suppresses_def subscribed_at_filtered_def)
  have nf: "suppresses ?nf l \<longleftrightarrow> rf_should_suppress filters ?sub l" "nf_channel ?nf = ''email''"
    by (simp_all add: suppresses_def rf_subject_filtered_def)
  have "suppresses ?nf l \<longleftrightarrow>
      (\<exists>g. lot_region_id l = Some g
         \<and> (rf_subjects filters \<noteq> [] \<and> g \<notin> set (rf_subjects filters) \<or> subs g = None
            \<or> (\<exists>t. subs g = Some t \<and> date_of (lot_date_create l) < date_of t)))"
    by (auto simp: nf sub rf_should_suppress_def rf_matches_def subscribed_should_suppress_def
        passes_subscription_cutoff_def split: option.splits)
  moreover have "nf_send ?nf n l r = nf_send smtp n l r" if "\<not> suppresses ?nf l"
  proof -
    have no: "\<not> rf_should_suppress filters ?sub l" using that nf(1) by simp
    then have "\<not> subscribed_should_suppress subs l"
      by (simp add: rf_should_suppress_def sub split: if_splits)
    then have "nf_send ?sub n l r = nf_send smtp n l r" by (simp add: subscribed_at_filtered_def)
    moreover have "nf_send ?nf n l r = nf_send ?sub n l r"
      using no unfolding rf_subject_filtered_def by simp
    ultimately show ?thesis by simp
  qed
  moreover have "d_wire (fst (send_one env l ?nf r st)) = d_wire st
      \<and> d_events (fst (send_one env l ?nf r st)) = d_events st
      \<and> (nr_status_of (d_notifs st) (lot_id l, ''email'', r) = None \<longrightarrow>
           d_notifs (fst (send_one env l ?nf r st)) = d_notifs st)" if "suppresses ?nf l"
    using that by (simp add: send_one_def nf(2) Let_def die_def)
  ultimately show ?thesis unfolding Let_def by blast
qed

theorem email_suppression_witness:
  "let l = lot_to_public_dto ((sample_lot 7)\<lparr>lot_region_id := Some 88\<rparr>);
       smtp = \<lparr>nf_channel = ''email'', nf_suppress = None,
               nf_send = (\<lambda>_ _ _. (Inr (suppressed_result ''sent''), []))\<rparr>
   in suppresses (rf_subject_filtered \<lparr>rf_subjects = [27]\<rparr> (subscribed_at_filtered (\<lambda>_. Some 0) smtp)) l"
proof -
  let ?l = "lot_to_public_dto ((sample_lot 7)\<lparr>lot_region_id := Some 88\<rparr>)"
  have "lot_region_id ?l = Some 88" by simp
  then show ?thesis
    using email_suppression [where l = ?l and filters = "\<lparr>rf_subjects = [27]\<rparr>" and subs = "\<lambda>_. Some 0"]
    by (simp add: Let_def)
qed

text \<open>
  A fresh, unsuppressed delivery the process survives ends as its answers say: an accepted first message makes
  the row \<open>sent\<close> and publishes nothing; a non-retryable refusal makes it
  \<open>permanent_fail\<close> and publishes one failure event; three retryable refusals without a
  shutdown leave it pending at attempt 3 for recovery, after waits of base 2, 4 and 8
  seconds, with one failure event for attempt 3.
\<close>

theorem fresh_delivery_outcomes:
  assumes "nr_inv (d_notifs st)" "nr_status_of (d_notifs st) k = None"
    and "k = (lot_id l, nf_channel nf, r)" "\<not> suppresses nf l" "de_retry_attempts env = 3"
    and "w0 = length (d_wire st)"
    and "\<And>n. nf_send nf n l r = (Inr (ans n), [])" and "stays_up env"
  shows "(nres_ok (ans w0) \<longrightarrow>
           (let st' = fst (send_one env l nf r st)
            in nr_status_of (d_notifs st') k = Some N_sent \<and> nr_attempts (d_notifs st') k = 1
             \<and> d_wire st' = d_wire st @ [(k, 1, Inr (ans w0))] \<and> d_events st' = d_events st))
    \<and> (\<not> nres_ok (ans w0) \<and> \<not> nres_retryable (ans w0) \<longrightarrow>
           (let st' = fst (send_one env l nf r st)
            in nr_status_of (d_notifs st') k = Some N_permanent_fail
             \<and> d_wire st' = d_wire st @ [(k, 1, Inr (ans w0))]
             \<and> (\<exists>t. d_events st' = d_events st
                  @ [SseSmtpFailed t (nf_channel nf) 1 (classify_error (ans w0))])))
    \<and> ((\<forall>n. \<not> nres_ok (ans n) \<and> nres_retryable (ans n)) \<and> (\<forall>n. \<not> de_stop env n) \<longrightarrow>
           (let st' = fst (send_one env l nf r st)
            in nr_status_of (d_notifs st') k = Some N_pending \<and> nr_attempts (d_notifs st') k = 3
             \<and> map (\<lambda>w. fst (snd w)) (d_wire st') = map (\<lambda>w. fst (snd w)) (d_wire st) @ [1, 2, 3]
             \<and> (\<exists>j1 j2 j3. d_waits st' = d_waits st
                  @ [2 + de_jitter env j1, 4 + de_jitter env j2, 8 + de_jitter env j3])
             \<and> (\<exists>t. d_events st' = d_events st @ [SseSmtpFailed t (nf_channel nf) 3 Cat_network])))"
proof -
  note n = assms(1) and k = assms(3) [symmetric]
  let ?s0 = "fst (nr_reserve k (d_notifs st))"
  have at0: "nr_attempts (d_notifs st) k = 0" using nr.attempts_absent [OF n assms(2)] .
  have one: "send_one env l nf r st =
      send_loop env nf l r (Suc (Suc (Suc 0))) None (st\<lparr>d_notifs := ?s0\<rparr>)"
    using assms(2,4,5,8) by (simp add: send_one_def k numeral_3_eq_3 stays_up_def Let_def)
  have alive: "\<not> de_dies env x" for x using assms(8) by (simp add: stays_up_def)
  note laws = nr.inv_ops nr.status_ops nr.attempts_ops nr.attempt_result
  note unf = one alive k at0 n assms(2,6,7) laws Let_def case_prod_beta d_tick_def MAX_TOTAL_ATTEMPTS_def
    publish_smtp_failed_def
  show ?thesis
  proof (intro conjI impI, goal_cases)
    case 1
    then show ?case by (simp add: unf)
  next
    case 2
    then show ?case by (simp add: unf)
  next
    case 3
    then show ?case
      by (auto simp: unf backoff_base_def RETRY_BACKOFF_def assms(5) classify_error_def)
  qed
qed

theorem fresh_delivery_outcomes_witness:
  "nr_status_of (d_notifs (fst (send_one (demo_env (suppressed_result ''ok'') 3 60)
     (lot_to_public_dto (sample_lot 7)) (demo_notifier (suppressed_result ''ok'')) [97]
     (disp_start \<lparr>readings = (\<lambda>n. int n), ticks = 0\<rparr>)))) (7, ''email'', [97]) = Some N_sent"
proof -
  let ?st = "disp_start \<lparr>readings = (\<lambda>n. int n), ticks = 0\<rparr>"
  have "nr_inv (d_notifs ?st)" "nr_status_of (d_notifs ?st) (7, ''email'', [97]) = None"
    by (simp_all add: disp_start_def nr_status_of_def)
  from fresh_delivery_outcomes [OF this, of "lot_to_public_dto (sample_lot 7)"
      "demo_notifier (suppressed_result ''ok'')" "[97]" "demo_env (suppressed_result ''ok'') 3 60" 0
      "\<lambda>_. suppressed_result ''ok''"]
  show ?thesis
    by (simp add: stays_up_def demo_notifier_def demo_env_def suppresses_def suppressed_result_def disp_start_def Let_def)
qed

text \<open>
  C12. One recovery sweep from any reachable state, with a positive number of attempts,
  mailers that answer, no shutdown or death during the sweep, and every stored channel
  known and registered. If the lot repository answers for each due row's lot (with the
  lot asked for, or that there is none), the sweep runs through and advances every due row:
  it becomes terminal, or it had used fewer than ten attempts and has now used more; a due
  row that has used its ten attempts becomes terminal. If \<^verbatim>\<open>lot_repo.get\<close> raises for
  some due row's lot, the whole sweep raises.
\<close>

theorem recovery_progress:
  assumes "st = disp_run cmds (disp_start c)" "env_runs env"
    and "\<forall>r \<in> set (d_notifs st). fst (snd (nk r)) \<in> {''email'', ''browser'', ''heartbeat''}
           \<and> registry_has (de_registry env) (fst (snd (nk r)))"
  defines "due \<equiv> {k. \<exists>r. nr_row (d_notifs st) k = Some r \<and> n_status r = N_pending
      \<and> (n_last_attempt_at r = None
         \<or> (\<exists>t. n_last_attempt_at r = Some t \<and> t < d_now st - de_recovery_age env))}"
    and "st' \<equiv> fst (recover env st)"
  shows "((\<forall>k \<in> due. lot_answers env (fst k)) \<longrightarrow>
           snd (recover env st) = Inr True
           \<and> (\<forall>k \<in> due. terminal_at st' k
                \<or> (nr_attempts (d_notifs st) k < nr_attempts (d_notifs st') k
                   \<and> nr_attempts (d_notifs st) k < 10)))
    \<and> ((\<exists>k \<in> due. \<exists>e. de_lot_get env (fst k) = Inl e) \<longrightarrow>
           (\<exists>e. snd (recover env st) = Inl e))"
proof -
  have inv: "disp_inv st" unfolding assms(1) by (rule disp_run_inv)
  have kc: "known_channels (d_notifs st)" using assms(3) by (simp add: known_channels_def)
  obtain recs where recs: "nr_list_pending_older_than (d_now st) (de_recovery_age env) (d_notifs st) = Inr recs"
    and keys: "set (map record_key recs) = due"
    using recovery_query [OF disp_invD(1) [OF inv] kc, of "d_now st" "de_recovery_age env"]
    unfolding due_def by blast
  have row: "\<exists>y \<in> set (d_notifs st). nk y = record_key x" if "x \<in> set recs" for x
  proof -
    have "record_key x \<in> due" using that keys by auto
    then show ?thesis unfolding due_def by (auto dest: nr_row_key)
  qed
  have reg: "registry_has (de_registry env) (channel_value (nr_channel x))" if "x \<in> set recs" for x
    using row [OF that] assms(3) by (auto simp: record_key_def)
  have ids: "nr_lot_id x = fst (record_key x)" for x by (simp add: record_key_def)
  have inv1: "disp_inv (d_tick st)" using disp_leD(1) [OF disp_le_tick inv] .
  have d1: "d_notifs (d_tick st) = d_notifs st" by (simp add: d_tick_def)
  have sweep: "recover env st = recovery_sweep env recs (d_tick st)" by (simp add: recover_def recs)
  have pend: "nr_status_of (d_notifs st) k = Some N_pending" if "k \<in> due" for k
    using that by (auto simp: due_def nr_status_of_def)
  show ?thesis
  proof (intro conjI impI, goal_cases)
    case 1
    then have "lot_answers env (nr_lot_id x)" if "x \<in> set recs" for x
      using that keys by (auto simp: ids)
    from sweep_progress [OF assms(2) inv1 reg this] show ?case
      by (simp add: sweep d1)
  next
    case 2
    have "advanced st st' (record_key x)" if "x \<in> set recs" for x
    proof -
      have "lot_answers env (nr_lot_id y)" if "y \<in> set recs" for y using that 2 keys by (auto simp: ids)
      moreover have "record_key x \<in> due" using that keys by auto
      ultimately show ?thesis
        using sweep_progress [OF assms(2) inv1 reg, of recs] that pend
        by (auto simp: sweep d1 st'_def advanced_def simp del: split_paired_All)
    qed
    then have "\<forall>k \<in> record_key ` set recs. advanced st st' k" by blast
    then have "\<forall>k \<in> due. advanced st st' k" using keys by (metis set_map)
    then show ?case by (simp add: advanced_def MAX_TOTAL_ATTEMPTS_def)
  next
    case 3
    then obtain x e where "x \<in> set recs" "de_lot_get env (nr_lot_id x) = Inl e"
      using keys by (auto simp: ids)
    from sweep_raises [OF assms(2) this reg] show ?case by (simp add: sweep \<open>x \<in> set recs\<close>)
  qed
qed

theorem recovery_progress_witness:
  "nr_attempts (d_notifs demo_state) (7, ''email'', [97]) = 1
   \<and> (let st = fst (recover (demo_env demo_retry 1 0) demo_state)
      in terminal_at st (7, ''email'', [97]) \<or> 1 < nr_attempts (d_notifs st) (7, ''email'', [97]))
   \<and> (\<exists>e. snd (recover ((demo_env demo_retry 1 0)\<lparr>de_lot_get := (\<lambda>_. Inl KeyError)\<rparr>) demo_state) = Inl e)"
proof -
  let ?env = "demo_env demo_retry 1 0" and ?k = "(7, ''email'', [97])"
  let ?bad = "?env\<lparr>de_lot_get := (\<lambda>_. Inl KeyError)\<rparr>"
  have at1: "nr_attempts (d_notifs demo_state) ?k = 1"
    by (simp add: nr_attempts_def nr_row_def demo_notifs)
  have late: "1 < d_now demo_state - de_recovery_age ?env" "de_recovery_age ?bad = de_recovery_age ?env"
    by (simp add: demo_eval) (simp add: demo_env_def)
  have runs: "env_runs ?env" by (rule demo_env_runs) simp
  then have bad: "env_runs ?bad" by (simp add: env_runs_def)
  have regs: "\<forall>r \<in> set (d_notifs demo_state). fst (snd (nk r)) \<in> {''email'', ''browser'', ''heartbeat''}
      \<and> registry_has (de_registry env) (fst (snd (nk r)))" if "env = ?env \<or> env = ?bad" for env
    using that by (auto simp: demo_notifs registry_has_def demo_env_def demo_notifier_def)
  have only: "(nr_row (d_notifs demo_state) k = Some r) = (k = ?k \<and> r = hd (d_notifs demo_state))" for k r
    by (auto simp: nr_row_def demo_notifs)
  have hd: "n_status (hd (d_notifs demo_state)) = N_pending"
    "n_last_attempt_at (hd (d_notifs demo_state)) = Some 1" by (simp_all add: demo_notifs)
  have answers: "lot_answers ?env 7" by (simp add: lot_answers_def demo_env_def)
  have "terminal_at (fst (recover ?env demo_state)) ?k
      \<or> 1 < nr_attempts (d_notifs (fst (recover ?env demo_state))) ?k"
    using recovery_progress [OF demo_state_def runs regs] only hd late at1 answers by auto
  moreover have "\<exists>e. snd (recover ?bad demo_state) = Inl e"
    using recovery_progress [OF demo_state_def bad regs] only hd late by auto
  ultimately show ?thesis using at1 by (simp add: Let_def)
qed

end
