(* ===== verification/Lot_Repo.thy ===== *)
theory Lot_Repo
  imports Kv_Store
begin

text \<open>
  The lot repository (\<^verbatim>\<open>repositories/lots.py\<close>): the columns of the \<^verbatim>\<open>lots\<close> table, reading
  a row back as a \<open>lot\<close> (which validates the two enum columns and can raise), \<^verbatim>\<open>upsert\<close> with
  its history and R-tree synchronisation, and the other methods. Each writing method is
  one transaction: on an exception the database is the one before the call.

  Timestamps are stored as ISO text and compared as text; they are kept as times here. The
  JSON column is kept decoded. The R-tree is the map from a lot to its point; the column
  type's rounding to 32-bit floats is left out. Rows are listed in insertion order; the
  order of equal \<^verbatim>\<open>date_create\<close> values in \<open>lr_list_active\<close> is one SQLite may choose, and
  no theorem depends on it.
\<close>

subsection \<open>Columns\<close>

record db_row =
  db_id :: int
  db_cadastral_no :: ustr
  db_area_sqm :: "int option"
  db_region :: ustr
  db_municipality :: "ustr option"
  db_land_category :: "ustr option"
  db_permitted_use :: "ustr option"
  db_ogv :: "ustr option"
  db_status :: ustr
  db_date_create :: time
  db_date_update :: "time option"
  db_date_registry :: "time option"
  db_lat :: "coord option"
  db_lon :: "coord option"
  db_has_boundaries :: "int option"
  db_raw_json :: "(ustr \<times> json) list"
  db_parser_version :: int
  db_first_seen :: time
  db_last_seen :: time
  db_detail_fetched_at :: "time option"
  db_enrichment_status :: "string option"
  db_enrichment_retries :: int
  db_enrichment_last_error :: "string option"
  db_last_seen_at :: "time option"
  db_last_status :: "ustr option"
  db_last_status_at :: "time option"
  db_is_active :: int
  db_inactive_reason :: "string option"
  db_inactive_since :: "time option"
  db_inactive_confirmed_at :: "time option"
  db_region_id :: "int option"
  db_is_backfill :: int

fun enrichment_text :: "enrichment_status \<Rightarrow> string" where
  "enrichment_text Enrich_pending = ''pending''"
| "enrichment_text Enrich_done = ''done''"
| "enrichment_text Enrich_failed = ''failed''"
| "enrichment_text Enrich_permanent_fail = ''permanent_fail''"

fun reason_text :: "inactive_reason \<Rightarrow> string" where
  "reason_text Status_changed = ''status_changed''"
| "reason_text Hard_removed = ''hard_removed''"
| "reason_text List_absent = ''list_absent''"

text \<open>Pydantic's check of a \<^verbatim>\<open>Literal[...] | None\<close> field.\<close>

definition enrichment_of_text :: "string option \<Rightarrow> enrichment_status option res" where
  "enrichment_of_text raw =
     (case raw of
        None \<Rightarrow> Inr None
      | Some s \<Rightarrow>
          (case find (\<lambda>v. enrichment_text v = s)
                  [Enrich_pending, Enrich_done, Enrich_failed, Enrich_permanent_fail] of
             None \<Rightarrow> Inl ValidationError
           | Some v \<Rightarrow> Inr (Some v)))"

definition reason_of_text :: "string option \<Rightarrow> inactive_reason option res" where
  "reason_of_text raw =
     (case raw of
        None \<Rightarrow> Inr None
      | Some s \<Rightarrow>
          (case find (\<lambda>v. reason_text v = s) [Status_changed, Hard_removed, List_absent] of
             None \<Rightarrow> Inl ValidationError
           | Some v \<Rightarrow> Inr (Some v)))"

definition row_to_lot :: "db_row \<Rightarrow> lot res" where
  "row_to_lot row =
     res_bind (enrichment_of_text (db_enrichment_status row)) (\<lambda>es.
     res_bind (reason_of_text (db_inactive_reason row)) (\<lambda>ir.
       Inr \<lparr> lot_id = db_id row,
             lot_cadastral_no = db_cadastral_no row,
             lot_area_sqm = db_area_sqm row,
             lot_region = db_region row,
             lot_municipality = db_municipality row,
             lot_land_category = db_land_category row,
             lot_permitted_use = db_permitted_use row,
             lot_ogv = db_ogv row,
             lot_status = db_status row,
             lot_date_create = db_date_create row,
             lot_date_update = db_date_update row,
             lot_date_registry = db_date_registry row,
             lot_lat = db_lat row,
             lot_lon = db_lon row,
             lot_has_boundaries = map_option (\<lambda>b. b \<noteq> 0) (db_has_boundaries row),
             lot_raw_json = db_raw_json row,
             lot_parser_version = db_parser_version row,
             lot_first_seen = db_first_seen row,
             lot_last_seen = db_last_seen row,
             lot_detail_fetched_at = db_detail_fetched_at row,
             lot_enrichment_status = es,
             lot_last_seen_at = db_last_seen_at row,
             lot_is_active = (db_is_active row \<noteq> 0),
             lot_inactive_reason = ir,
             lot_inactive_since = db_inactive_since row,
             lot_inactive_confirmed_at = db_inactive_confirmed_at row,
             lot_region_id = db_region_id row \<rparr>))"

definition bool_to_int :: "bool option \<Rightarrow> int option" where
  "bool_to_int v = (case v of None \<Rightarrow> None | Some b \<Rightarrow> Some (if b then 1 else 0))"

text \<open>The row an \<^verbatim>\<open>INSERT\<close> writes, and the row an \<^verbatim>\<open>UPDATE\<close> leaves.\<close>

definition inserted_row :: "lot \<Rightarrow> bool \<Rightarrow> db_row" where
  "inserted_row l is_backfill =
     \<lparr> db_id = lot_id l,
       db_cadastral_no = lot_cadastral_no l,
       db_area_sqm = lot_area_sqm l,
       db_region = lot_region l,
       db_municipality = lot_municipality l,
       db_land_category = lot_land_category l,
       db_permitted_use = lot_permitted_use l,
       db_ogv = lot_ogv l,
       db_status = lot_status l,
       db_date_create = lot_date_create l,
       db_date_update = lot_date_update l,
       db_date_registry = lot_date_registry l,
       db_lat = lot_lat l,
       db_lon = lot_lon l,
       db_has_boundaries = bool_to_int (lot_has_boundaries l),
       db_raw_json = lot_raw_json l,
       db_parser_version = lot_parser_version l,
       db_first_seen = lot_first_seen l,
       db_last_seen = lot_last_seen l,
       db_detail_fetched_at = lot_detail_fetched_at l,
       db_enrichment_status = map_option enrichment_text (lot_enrichment_status l),
       db_enrichment_retries = 0,
       db_enrichment_last_error = None,
       db_last_seen_at = lot_last_seen_at l,
       db_last_status = None,
       db_last_status_at = None,
       db_is_active = (if lot_is_active l then 1 else 0),
       db_inactive_reason = map_option reason_text (lot_inactive_reason l),
       db_inactive_since = lot_inactive_since l,
       db_inactive_confirmed_at = lot_inactive_confirmed_at l,
       db_region_id = lot_region_id l,
       db_is_backfill = (if is_backfill then 1 else 0) \<rparr>"

definition updated_row :: "lot \<Rightarrow> lot \<Rightarrow> db_row \<Rightarrow> db_row" where
  "updated_row l old row =
     row\<lparr> db_cadastral_no := lot_cadastral_no l,
         db_area_sqm := lot_area_sqm l,
         db_region := lot_region l,
         db_municipality := lot_municipality l,
         db_land_category := lot_land_category l,
         db_permitted_use := lot_permitted_use l,
         db_ogv := lot_ogv l,
         db_status := lot_status l,
         db_date_create := lot_date_create l,
         db_date_update := lot_date_update l,
         db_date_registry := lot_date_registry l,
         db_lat := lot_lat l,
         db_lon := lot_lon l,
         db_has_boundaries := bool_to_int (lot_has_boundaries l),
         db_raw_json := lot_raw_json l,
         db_parser_version := lot_parser_version l,
         db_last_seen := lot_last_seen l,
         db_detail_fetched_at := lot_detail_fetched_at l,
         db_enrichment_status := map_option enrichment_text (lot_enrichment_status l),
         db_last_seen_at := lot_last_seen_at l,
         db_is_active := (if lot_is_active l then 1 else 0),
         db_inactive_reason := map_option reason_text (lot_inactive_reason l),
         db_inactive_since := lot_inactive_since l,
         db_inactive_confirmed_at := lot_inactive_confirmed_at l,
         db_region_id := lot_region_id l,
         db_first_seen := lot_first_seen old \<rparr>"

lemma enrichment_roundtrip [simp]: "enrichment_of_text (map_option enrichment_text v) = Inr v"
proof (cases v)
  case (Some e)
  then show ?thesis by (cases e) (simp_all add: enrichment_of_text_def)
qed (simp add: enrichment_of_text_def)

lemma reason_roundtrip [simp]: "reason_of_text (map_option reason_text v) = Inr v"
proof (cases v)
  case (Some e)
  then show ?thesis by (cases e) (simp_all add: reason_of_text_def)
qed (simp add: reason_of_text_def)

lemma bool_to_int_roundtrip [simp]: "map_option (\<lambda>b. b \<noteq> 0) (bool_to_int v) = v"
  by (cases v) (simp_all add: bool_to_int_def)

lemma row_to_lot_inserted [simp]: "row_to_lot (inserted_row l b) = Inr l"
  by (cases l) (simp add: row_to_lot_def inserted_row_def)

lemma row_to_lot_updated [simp]:
  "db_id row = lot_id l \<Longrightarrow> row_to_lot (updated_row l old row) = Inr (l\<lparr>lot_first_seen := lot_first_seen old\<rparr>)"
  by (cases l) (simp add: row_to_lot_def updated_row_def)

lemma reason_of_text_error: "reason_of_text v = Inl e \<Longrightarrow> e = ValidationError"
  by (auto simp: reason_of_text_def split: option.splits)

lemma enrichment_of_text_error: "enrichment_of_text v = Inl e \<Longrightarrow> e = ValidationError"
  by (auto simp: enrichment_of_text_def split: option.splits)

lemma row_to_lot_error: "row_to_lot r = Inl e \<Longrightarrow> e = ValidationError"
  using reason_of_text_error enrichment_of_text_error
  by (cases "enrichment_of_text (db_enrichment_status r)"; cases "reason_of_text (db_inactive_reason r)")
    (auto simp: row_to_lot_def)

lemma row_to_lot_id: "row_to_lot row = Inr l \<Longrightarrow> lot_id l = db_id row"
  by (auto simp: row_to_lot_def res_bind_Inr_iff)

lemma row_to_lot_coords: "row_to_lot row = Inr l \<Longrightarrow> lot_lat l = db_lat row \<and> lot_lon l = db_lon row"
  by (auto simp: row_to_lot_def res_bind_Inr_iff)

subsection \<open>The database and the methods\<close>

record history_row =
  h_lot_id :: int
  h_field :: string
  h_old_value :: "field_value option"
  h_new_value :: "field_value option"
  h_changed_at :: time

record lots_db =
  ld_rows :: "db_row list"
  ld_history :: "history_row list"
  ld_rtree :: "int \<rightharpoonup> coord \<times> coord"
  ld_state :: kv

definition lr_row :: "lots_db \<Rightarrow> int \<Rightarrow> db_row option" where
  "lr_row s i = find (\<lambda>r. db_id r = i) (ld_rows s)"

definition has_coords :: "coord option \<Rightarrow> coord option \<Rightarrow> bool" where
  "has_coords lat lon \<longleftrightarrow> lat \<noteq> None \<and> lon \<noteq> None"

definition sync_geo ::
  "int \<Rightarrow> coord option \<Rightarrow> coord option \<Rightarrow> coord option \<Rightarrow> coord option \<Rightarrow>
   (int \<rightharpoonup> coord \<times> coord) \<Rightarrow> (int \<rightharpoonup> coord \<times> coord) res" where
  "sync_geo i old_lat old_lon new_lat new_lon rt =
     (let old_has = has_coords old_lat old_lon; new_has = has_coords new_lat new_lon in
      if \<not> old_has \<and> \<not> new_has then Inr rt
      else if \<not> old_has \<and> new_has
        then (if rt i \<noteq> None then Inl IntegrityError else Inr (rt(i \<mapsto> (the new_lat, the new_lon))))
      else if old_has \<and> \<not> new_has then Inr (rt(i := None))
      else if old_lat = new_lat \<and> old_lon = new_lon then Inr rt
      else Inr (rt(i \<mapsto> (the new_lat, the new_lon))))"

text \<open>The guard loop before the transaction.\<close>

definition tracked_allowed :: "string list \<Rightarrow> unit res" where
  "tracked_allowed tracked =
     (if \<forall>f \<in> set tracked. f \<in> set ALLOWED_TRACKED_FIELDS then Inr () else Inl ValueError)"

definition history_of :: "int \<Rightarrow> time \<Rightarrow> field_change list \<Rightarrow> history_row list" where
  "history_of i changed_at changes =
     map (\<lambda>c. \<lparr>h_lot_id = i, h_field = ch_field c, h_old_value = ch_old c,
               h_new_value = ch_new c, h_changed_at = changed_at\<rparr>) changes"

text \<open>
  The body of the transaction: \<open>Inl\<close> rolls back. \<open>now\<close> is the clock reading the history
  rows are stamped with.
\<close>

definition upsert_tx ::
  "string list \<Rightarrow> bool \<Rightarrow> time \<Rightarrow> lot \<Rightarrow> lots_db \<Rightarrow> (lots_db \<times> bool \<times> field_change list) res" where
  "upsert_tx tracked is_backfill now l s =
     (let row = lr_row s (lot_id l) in
      res_bind (case row of None \<Rightarrow> Inr None | Some r \<Rightarrow> res_bind (row_to_lot r) (\<lambda>x. Inr (Some x)))
        (\<lambda>old_lot.
      res_bind (compute_changes old_lot l tracked) (\<lambda>changes.
        let old_lat = (case old_lot of None \<Rightarrow> None | Some x \<Rightarrow> lot_lat x);
            old_lon = (case old_lot of None \<Rightarrow> None | Some x \<Rightarrow> lot_lon x);
            rows' = (case old_lot of
                       None \<Rightarrow> ld_rows s @ [inserted_row l is_backfill]
                     | Some old \<Rightarrow>
                         map (\<lambda>r. if db_id r = lot_id l then updated_row l old r else r) (ld_rows s))
        in res_bind (sync_geo (lot_id l) old_lat old_lon (lot_lat l) (lot_lon l) (ld_rtree s)) (\<lambda>rt.
             Inr (s\<lparr>ld_rows := rows',
                    ld_history := ld_history s @ history_of (lot_id l) now changes,
                    ld_rtree := rt\<rparr>,
                  old_lot = None, changes)))))"

definition lr_upsert ::
  "string list \<Rightarrow> bool \<Rightarrow> time \<Rightarrow> lot \<Rightarrow> lots_db \<Rightarrow> lots_db \<times> lot_upsert_result res" where
  "lr_upsert tracked is_backfill now l s =
     (case tracked_allowed tracked of
        Inl e \<Rightarrow> (s, Inl e)
      | Inr _ \<Rightarrow>
          (case upsert_tx tracked is_backfill now l s of
             Inl e \<Rightarrow> (s, Inl e)
           | Inr (s', was_new, changes) \<Rightarrow> (s', mk_lot_upsert_result was_new changes)))"

definition lr_get :: "lots_db \<Rightarrow> int \<Rightarrow> lot option res" where
  "lr_get s i =
     (case lr_row s i of
        None \<Rightarrow> Inr None
      | Some r \<Rightarrow> res_bind (row_to_lot r) (\<lambda>l. Inr (Some l)))"

definition active_rows :: "lots_db \<Rightarrow> db_row list" where
  "active_rows s = rev (sort_key db_date_create (filter (\<lambda>r. db_is_active r = 1) (ld_rows s)))"

definition lr_list_active :: "nat \<Rightarrow> nat \<Rightarrow> lots_db \<Rightarrow> lot list res" where
  "lr_list_active limit offset s = map_res row_to_lot (take limit (drop offset (active_rows s)))"

definition last_known_key :: "int \<Rightarrow> string" where
  "last_known_key region = ''last_known_id_'' @ str_of_int region"

definition lr_get_last_known_id :: "int \<Rightarrow> lots_db \<Rightarrow> int option res" where
  "lr_get_last_known_id region s =
     (case kv_get (ld_state s) (last_known_key region) of
        None \<Rightarrow> Inr None
      | Some (Plain v) \<Rightarrow> res_bind (int_of_str v) (\<lambda>n. Inr (Some n))
      | Some _ \<Rightarrow> Inl ValueError)"

definition lr_set_last_known_id :: "int \<Rightarrow> int \<Rightarrow> time \<Rightarrow> lots_db \<Rightarrow> lots_db" where
  "lr_set_last_known_id region v now s =
     s\<lparr>ld_state := kv_set now (last_known_key region) (Plain (str_of_int v)) (ld_state s)\<rparr>"

definition lr_mark_seen :: "int list \<Rightarrow> time \<Rightarrow> lots_db \<Rightarrow> lots_db" where
  "lr_mark_seen lot_ids t s =
     (if lot_ids = [] then s
      else s\<lparr>ld_rows := map (\<lambda>r. if db_id r \<in> set lot_ids
                                 then r\<lparr>db_last_seen := t, db_last_seen_at := Some t\<rparr> else r)
                          (ld_rows s)\<rparr>)"

definition lr_mark_inactive :: "int \<Rightarrow> string \<Rightarrow> time \<Rightarrow> lots_db \<Rightarrow> lots_db" where
  "lr_mark_inactive i reason t s =
     s\<lparr>ld_rows := map (\<lambda>r. if db_id r = i
                           then r\<lparr>db_is_active := 0, db_inactive_reason := Some reason,
                                  db_inactive_since := Some t, db_inactive_confirmed_at := Some t\<rparr>
                           else r) (ld_rows s)\<rparr>"

definition lr_needing_enrichment :: "nat \<Rightarrow> lots_db \<Rightarrow> int list" where
  "lr_needing_enrichment limit s =
     take limit (map db_id
       (filter (\<lambda>r. (db_enrichment_status r = None \<or> db_enrichment_status r = Some ''pending'')
                    \<and> db_detail_fetched_at r = None) (ld_rows s)))"

fun max_time :: "time list \<Rightarrow> time option" where
  "max_time [] = None"
| "max_time (t # ts) = (case max_time ts of None \<Rightarrow> Some t | Some m \<Rightarrow> Some (max t m))"

definition lr_latest_new_first_seen :: "lots_db \<Rightarrow> time option" where
  "lr_latest_new_first_seen s =
     max_time (map db_first_seen (filter (\<lambda>r. db_is_backfill r = 0) (ld_rows s)))"

definition lr_count_active :: "int list \<Rightarrow> lots_db \<Rightarrow> nat" where
  "lr_count_active region_ids s =
     length (filter (\<lambda>r. db_is_active r = 1
       \<and> (region_ids = [] \<or> db_region_id r \<in> Some ` set region_ids)) (ld_rows s))"

subsection \<open>Invariant\<close>

definition point :: "coord option \<Rightarrow> coord option \<Rightarrow> (coord \<times> coord) option" where
  "point lat lon = (case lat of None \<Rightarrow> None
     | Some a \<Rightarrow> (case lon of None \<Rightarrow> None | Some b \<Rightarrow> Some (a, b)))"

definition row_point :: "db_row option \<Rightarrow> (coord \<times> coord) option" where
  "row_point r = (case r of None \<Rightarrow> None | Some x \<Rightarrow> point (db_lat x) (db_lon x))"

definition lr_inv :: "lots_db \<Rightarrow> bool" where
  "lr_inv s \<longleftrightarrow> distinct (map db_id (ld_rows s)) \<and> (\<forall>i. ld_rtree s i = row_point (lr_row s i))"

lemma sync_geo_point:
  "rt i = point old_lat old_lon \<Longrightarrow>
   sync_geo i old_lat old_lon new_lat new_lon rt = Inr (rt(i := point new_lat new_lon))"
  by (cases old_lat; cases old_lon; cases new_lat; cases new_lon)
    (auto simp: sync_geo_def has_coords_def point_def)

lemma lr_row_key: "lr_row s i = Some r \<Longrightarrow> db_id r = i \<and> r \<in> set (ld_rows s)"
  unfolding lr_row_def using find_SomeD by fast

lemma lr_row_None: "lr_row s i = None \<longleftrightarrow> i \<notin> db_id ` set (ld_rows s)"
  by (auto simp: lr_row_def find_None_iff_all)

lemma lr_row_map:
  assumes "\<And>r. db_id (f r) = db_id r"
  shows "lr_row (s\<lparr>ld_rows := map f (ld_rows s)\<rparr>) i = map_option f (lr_row s i)"
  unfolding lr_row_def by (simp add: find_map_key [of db_id f, OF assms])

lemma lr_inv_map:
  assumes "lr_inv s" "\<And>r. db_id (f r) = db_id r" "\<And>r. db_lat (f r) = db_lat r \<and> db_lon (f r) = db_lon r"
  shows "lr_inv (s\<lparr>ld_rows := map f (ld_rows s)\<rparr>)"
proof -
  have "map db_id (map f (ld_rows s)) = map db_id (ld_rows s)" using assms(2) by simp
  moreover have "row_point (map_option f r) = row_point r" for r
    using assms(3) by (cases r) (simp_all add: row_point_def)
  ultimately show ?thesis
    using assms(1) by (simp add: lr_inv_def lr_row_map [OF assms(2)] del: map_map)
qed

lemma updated_row_simps [simp]:
  "db_id (updated_row l old r) = db_id r"
  "db_lat (updated_row l old r) = lot_lat l" "db_lon (updated_row l old r) = lot_lon l"
  by (simp_all add: updated_row_def)

lemma inserted_row_simps [simp]:
  "db_id (inserted_row l b) = lot_id l"
  "db_lat (inserted_row l b) = lot_lat l" "db_lon (inserted_row l b) = lot_lon l"
  by (simp_all add: inserted_row_def)

subsection \<open>Upsert, case by case\<close>

lemma check_tracked_in_allowed: "check_tracked fs = Inr () \<Longrightarrow> \<forall>f \<in> set fs. f \<in> set ALLOWED_TRACKED_FIELDS"
  by (induction fs) (auto split: if_splits)

lemma check_tracked_allowed: "check_tracked tracked = Inr () \<Longrightarrow> tracked_allowed tracked = Inr ()"
  using check_tracked_in_allowed [of tracked] by (simp add: tracked_allowed_def)

lemma lr_upsert_fresh:
  assumes "lr_inv s" "lr_row s (lot_id l) = None" "check_tracked tracked = Inr ()"
  shows "lr_upsert tracked b now l s =
    (s\<lparr>ld_rows := ld_rows s @ [inserted_row l b],
       ld_rtree := (ld_rtree s)(lot_id l := point (lot_lat l) (lot_lon l))\<rparr>,
     Inr \<lparr>ur_was_new = True, ur_changes = []\<rparr>)"
proof -
  have "ld_rtree s (lot_id l) = point None None"
    using assms(1,2) by (simp add: lr_inv_def row_point_def point_def)
  from sync_geo_point [of "ld_rtree s" "lot_id l", OF this] show ?thesis
    using assms(2,3) check_tracked_allowed [OF assms(3)]
    by (simp add: lr_upsert_def upsert_tx_def compute_changes_def mk_lot_upsert_result_def
        history_of_def)
qed

lemma lr_upsert_known:
  assumes "lr_inv s" "lr_row s (lot_id l) = Some r" "row_to_lot r = Inr old"
    and "check_tracked tracked = Inr ()"
  shows "lr_upsert tracked b now l s =
    (s\<lparr>ld_rows := map (\<lambda>r. if db_id r = lot_id l then updated_row l old r else r) (ld_rows s),
       ld_history := ld_history s @ history_of (lot_id l) now (diff_fields old l tracked),
       ld_rtree := (ld_rtree s)(lot_id l := point (lot_lat l) (lot_lon l))\<rparr>,
     Inr \<lparr>ur_was_new = False, ur_changes = diff_fields old l tracked\<rparr>)"
proof -
  have "ld_rtree s (lot_id l) = point (lot_lat old) (lot_lon old)"
    using assms(1,2) row_to_lot_coords [OF assms(3)] by (simp add: lr_inv_def row_point_def)
  from sync_geo_point [of "ld_rtree s" "lot_id l", OF this] show ?thesis
    using assms(2-) check_tracked_allowed [OF assms(4)]
    by (simp add: lr_upsert_def upsert_tx_def compute_changes_def mk_lot_upsert_result_def)
qed

lemma lr_upsert_unreadable:
  assumes "lr_row s (lot_id l) = Some r" "row_to_lot r = Inl e" "tracked_allowed tracked = Inr ()"
  shows "lr_upsert tracked b now l s = (s, Inl e)"
  using assms by (simp add: lr_upsert_def upsert_tx_def)

lemma lr_upsert_bad_tracked:
  assumes "check_tracked tracked = Inl e"
  shows "\<exists>e'. lr_upsert tracked b now l s = (s, Inl e')"
proof (cases "tracked_allowed tracked")
  case (Inr u)
  then show ?thesis
    using assms by (cases "lr_row s (lot_id l)"; cases "row_to_lot (the (lr_row s (lot_id l)))")
      (auto simp: lr_upsert_def upsert_tx_def compute_changes_def)
qed (simp add: lr_upsert_def)

lemma lr_upsert_cases:
  assumes "lr_inv s"
  obtains (fresh) s' where "lr_row s (lot_id l) = None" "check_tracked tracked = Inr ()"
      "lr_upsert tracked b now l s = (s', Inr \<lparr>ur_was_new = True, ur_changes = []\<rparr>)"
      "s' = s\<lparr>ld_rows := ld_rows s @ [inserted_row l b],
       ld_rtree := (ld_rtree s)(lot_id l := point (lot_lat l) (lot_lon l))\<rparr>"
  | (known) s' r old where "lr_row s (lot_id l) = Some r" "row_to_lot r = Inr old"
      "check_tracked tracked = Inr ()"
      "lr_upsert tracked b now l s =
         (s', Inr \<lparr>ur_was_new = False, ur_changes = diff_fields old l tracked\<rparr>)"
      "s' = s\<lparr>ld_rows := map (\<lambda>r. if db_id r = lot_id l then updated_row l old r else r) (ld_rows s),
       ld_history := ld_history s @ history_of (lot_id l) now (diff_fields old l tracked),
       ld_rtree := (ld_rtree s)(lot_id l := point (lot_lat l) (lot_lon l))\<rparr>"
  | (raises) e where "lr_upsert tracked b now l s = (s, Inl e)"
      "check_tracked tracked \<noteq> Inr () \<or> (\<exists>r e'. lr_row s (lot_id l) = Some r \<and> row_to_lot r = Inl e')"
proof (cases "check_tracked tracked")
  case (Inl e)
  with lr_upsert_bad_tracked [OF this] raises show ?thesis by fastforce
next
  case (Inr u)
  then have ok: "check_tracked tracked = Inr ()" by simp
  show ?thesis
  proof (cases "lr_row s (lot_id l)")
    case None
    then show ?thesis using fresh ok lr_upsert_fresh [OF assms None ok] by blast
  next
    case (Some r)
    show ?thesis
    proof (cases "row_to_lot r")
      case (Inl e)
      with Some lr_upsert_unreadable [OF Some Inl check_tracked_allowed [OF ok]] raises
      show ?thesis by blast
    next
      case (Inr old)
      with Some show ?thesis using known ok lr_upsert_known [OF assms Some Inr ok] by blast
    qed
  qed
qed

lemma lr_upsert_bad_tracked_error:
  assumes "check_tracked tracked = Inl e" "snd (lr_upsert tracked b now l s) = Inl e'"
  shows "e' \<noteq> IntegrityError"
proof (cases "tracked_allowed tracked")
  case (Inl x)
  with assms(2) show ?thesis by (auto simp: lr_upsert_def tracked_allowed_def split: if_splits)
next
  case (Inr u)
  have e: "e \<noteq> IntegrityError" using check_tracked_Inl [OF assms(1)] by (auto split: if_splits)
  show ?thesis
  proof (cases "lr_row s (lot_id l)")
    case None
    with assms Inr e show ?thesis by (simp add: lr_upsert_def upsert_tx_def compute_changes_def)
  next
    case (Some r)
    with assms Inr e row_to_lot_error [of r] show ?thesis
      by (cases "row_to_lot r") (auto simp: lr_upsert_def upsert_tx_def compute_changes_def)
  qed
qed

lemma upsert_no_integrity_error:
  assumes "lr_inv s"
  shows "snd (lr_upsert tr b t l s) \<noteq> Inl IntegrityError"
  using assms
proof (cases rule: lr_upsert_cases [where l = l and tracked = tr and b = b and now = t])
  case (raises e)
  show ?thesis
  proof (cases "check_tracked tr")
    case (Inl e')
    then show ?thesis using lr_upsert_bad_tracked_error [OF Inl, of b t l s] by auto
  next
    case (Inr u)
    with raises(2) obtain r e' where r: "lr_row s (lot_id l) = Some r" "row_to_lot r = Inl e'" by auto
    then have "lr_upsert tr b t l s = (s, Inl e')"
      using lr_upsert_unreadable [OF r check_tracked_allowed] Inr by simp
    with row_to_lot_error [OF r(2)] show ?thesis by simp
  qed
qed simp_all

lemma lr_row_upsert_known:
  "lr_row (s\<lparr>ld_rows := map (\<lambda>r. if db_id r = i then updated_row l old r else r) (ld_rows s),
     ld_history := h, ld_rtree := rt\<rparr>) j =
   map_option (\<lambda>r. if db_id r = i then updated_row l old r else r) (lr_row s j)"
  unfolding lr_row_def by simp (rule find_map_key, simp)

lemma lr_row_upsert_fresh:
  "lr_row s (lot_id l) = None \<Longrightarrow>
   lr_row (s\<lparr>ld_rows := ld_rows s @ [inserted_row l b], ld_rtree := rt\<rparr>) j =
   (if j = lot_id l then Some (inserted_row l b) else lr_row s j)"
  by (auto simp: lr_row_def find_append split: option.splits)

lemma lr_upsert_inv: "lr_inv s \<Longrightarrow> lr_inv (fst (lr_upsert tracked b now l s))"
proof -
  assume inv: "lr_inv s"
  then show ?thesis
  proof (cases rule: lr_upsert_cases [where l = l and tracked = tracked and b = b and now = now])
    case (fresh s')
    with inv show ?thesis
      by (auto simp: lr_inv_def lr_row_upsert_fresh row_point_def lr_row_None)
  next
    case (known s' r old)
    have "map db_id (ld_rows s') = map db_id (ld_rows s)" by (simp add: known(5))
    moreover have "ld_rtree s' j = row_point (lr_row s' j)" for j
    proof (cases "j = lot_id l")
      case True
      then show ?thesis
        using known(1) lr_row_key [OF known(1)] by (simp add: known(5) lr_row_upsert_known row_point_def)
    next
      case False
      then have "lr_row s' j = lr_row s j"
        by (cases "lr_row s j") (auto simp: known(5) lr_row_upsert_known dest: lr_row_key)
      with inv False show ?thesis by (simp add: known(5) lr_inv_def)
    qed
    ultimately show ?thesis using inv by (simp add: lr_inv_def known(4))
  next
    case (raises e)
    with inv show ?thesis by simp
  qed
qed

subsection \<open>The contract of a lot store\<close>

definition refreshed :: "lot \<Rightarrow> lot \<Rightarrow> lot" where
  "refreshed old l = l\<lparr>lot_first_seen := lot_first_seen old\<rparr>"

locale lot_store =
  fixes inv :: "'s \<Rightarrow> bool"
    and get :: "'s \<Rightarrow> int \<Rightarrow> lot option res"
    and upsert :: "string list \<Rightarrow> bool \<Rightarrow> time \<Rightarrow> lot \<Rightarrow> 's \<Rightarrow> 's \<times> lot_upsert_result res"
  assumes upsert_inv: "inv s \<Longrightarrow> inv (fst (upsert tr b t l s))"
    and upsert_fresh: "inv s \<Longrightarrow> check_tracked tr = Inr () \<Longrightarrow> get s (lot_id l) = Inr None \<Longrightarrow>
      \<exists>s'. upsert tr b t l s = (s', Inr \<lparr>ur_was_new = True, ur_changes = []\<rparr>)
         \<and> (\<forall>i. get s' i = (if i = lot_id l then Inr (Some l) else get s i))"
    and upsert_known: "inv s \<Longrightarrow> check_tracked tr = Inr () \<Longrightarrow> get s (lot_id l) = Inr (Some old) \<Longrightarrow>
      \<exists>s'. upsert tr b t l s = (s', Inr \<lparr>ur_was_new = False, ur_changes = diff_fields old l tr\<rparr>)
         \<and> (\<forall>i. get s' i = (if i = lot_id l then Inr (Some (refreshed old l)) else get s i))"
    and upsert_unreadable: "check_tracked tr = Inr () \<Longrightarrow> get s (lot_id l) = Inl e \<Longrightarrow>
      upsert tr b t l s = (s, Inl e)"
    and upsert_untracked: "check_tracked tr = Inl e \<Longrightarrow> \<exists>e'. upsert tr b t l s = (s, Inl e')"
begin

text \<open>A lot is new at most once, and a repeated upsert of the same lot changes nothing tracked.\<close>

lemma upsert_never_forgets:
  assumes "inv s" "get s i \<noteq> Inr None"
  shows "get (fst (upsert tr b t l s)) i \<noteq> Inr None"
proof (cases "check_tracked tr")
  case (Inl e)
  with upsert_untracked [OF Inl, of b t l s] assms show ?thesis by auto
next
  case (Inr u)
  then have ok: "check_tracked tr = Inr ()" by simp
  consider e where "get s (lot_id l) = Inl e" | "get s (lot_id l) = Inr None"
    | old where "get s (lot_id l) = Inr (Some old)"
    by (cases "get s (lot_id l)") (auto simp: not_None_eq split: option.splits)
  then show ?thesis
  proof cases
    case 1
    with upsert_unreadable [OF ok 1] assms show ?thesis by simp
  next
    case 2
    from upsert_fresh [OF assms(1) ok this, of b t] obtain s' where "fst (upsert tr b t l s) = s'"
      "get s' i = (if i = lot_id l then Inr (Some l) else get s i)" by auto
    with assms(2) show ?thesis by (cases "i = lot_id l") simp_all
  next
    case 3
    from upsert_known [OF assms(1) ok this, of b t] obtain s' where "fst (upsert tr b t l s) = s'"
      "get s' i = (if i = lot_id l then Inr (Some (refreshed old l)) else get s i)" by auto
    with assms(2) show ?thesis by (cases "i = lot_id l") simp_all
  qed
qed

lemma upsert_new_iff:
  assumes "inv s" "snd (upsert tr b t l s) = Inr res"
  shows "ur_was_new res \<longleftrightarrow> get s (lot_id l) = Inr None"
    and "get (fst (upsert tr b t l s)) (lot_id l) \<noteq> Inr None"
proof -
  have ok: "check_tracked tr = Inr ()"
    using upsert_untracked [of tr _ b t l s] assms(2) by (cases "check_tracked tr") auto
  consider e where "get s (lot_id l) = Inl e" | "get s (lot_id l) = Inr None"
    | old where "get s (lot_id l) = Inr (Some old)"
    by (cases "get s (lot_id l)") (auto simp: not_None_eq split: option.splits)
  then have "(ur_was_new res \<longleftrightarrow> get s (lot_id l) = Inr None)
    \<and> get (fst (upsert tr b t l s)) (lot_id l) \<noteq> Inr None"
  proof cases
    case 1
    with upsert_unreadable [OF ok 1] assms(2) show ?thesis by simp
  next
    case 2
    with upsert_fresh [OF assms(1) ok 2, of b t] assms(2) show ?thesis by auto
  next
    case 3
    with upsert_known [OF assms(1) ok 3, of b t] assms(2) show ?thesis by auto
  qed
  then show "ur_was_new res \<longleftrightarrow> get s (lot_id l) = Inr None"
    "get (fst (upsert tr b t l s)) (lot_id l) \<noteq> Inr None" by auto
qed

end

lemma lr_get_None_iff: "lr_get s i = Inr None \<longleftrightarrow> lr_row s i = None"
  by (auto simp: lr_get_def res_bind_Inr_iff split: option.splits)

lemma lr_get_Some_iff: "lr_get s i = Inr (Some l) \<longleftrightarrow> (\<exists>r. lr_row s i = Some r \<and> row_to_lot r = Inr l)"
  by (auto simp: lr_get_def res_bind_Inr_iff split: option.splits)

lemma lr_get_Inl_iff: "lr_get s i = Inl e \<longleftrightarrow> (\<exists>r. lr_row s i = Some r \<and> row_to_lot r = Inl e)"
proof (cases "lr_row s i")
  case (Some r)
  then show ?thesis by (cases "row_to_lot r") (simp_all add: lr_get_def)
qed (simp add: lr_get_def)

lemma lr_get_after_upsert:
  assumes "lr_inv s" "check_tracked tr = Inr ()"
  shows "lr_get s (lot_id l) = Inr None \<Longrightarrow>
      lr_get (fst (lr_upsert tr b t l s)) i = (if i = lot_id l then Inr (Some l) else lr_get s i)"
    and "lr_get s (lot_id l) = Inr (Some old) \<Longrightarrow>
      lr_get (fst (lr_upsert tr b t l s)) i =
        (if i = lot_id l then Inr (Some (refreshed old l)) else lr_get s i)"
proof -
  assume "lr_get s (lot_id l) = Inr None"
  then have n: "lr_row s (lot_id l) = None" by (simp add: lr_get_None_iff)
  show "lr_get (fst (lr_upsert tr b t l s)) i = (if i = lot_id l then Inr (Some l) else lr_get s i)"
    using lr_upsert_fresh [OF assms(1) n assms(2), of b t]
    by (simp add: lr_get_def lr_row_upsert_fresh [OF n])
next
  assume "lr_get s (lot_id l) = Inr (Some old)"
  then obtain r where r: "lr_row s (lot_id l) = Some r" "row_to_lot r = Inr old"
    by (auto simp: lr_get_Some_iff)
  show "lr_get (fst (lr_upsert tr b t l s)) i =
        (if i = lot_id l then Inr (Some (refreshed old l)) else lr_get s i)"
    using lr_upsert_known [OF assms(1) r assms(2), of b t] r lr_row_key [OF r(1)]
    by (cases "lr_row s i")
      (auto simp: lr_get_def lr_row_upsert_known refreshed_def dest: lr_row_key)
qed

interpretation lr: lot_store lr_inv lr_get lr_upsert
proof unfold_locales
  fix s :: lots_db and tr b t l
  show "lr_inv s \<Longrightarrow> lr_inv (fst (lr_upsert tr b t l s))" by (rule lr_upsert_inv)
  show "\<exists>s'. lr_upsert tr b t l s = (s', Inr \<lparr>ur_was_new = True, ur_changes = []\<rparr>)
         \<and> (\<forall>i. lr_get s' i = (if i = lot_id l then Inr (Some l) else lr_get s i))"
    if "lr_inv s" "check_tracked tr = Inr ()" "lr_get s (lot_id l) = Inr None"
    using lr_upsert_fresh [OF that(1) _ that(2), of l b t] lr_get_after_upsert(1) [OF that(1,2,3), of b t]
      that(3) by (simp add: lr_get_None_iff)
  show "\<exists>s'. lr_upsert tr b t l s = (s', Inr \<lparr>ur_was_new = False, ur_changes = diff_fields old l tr\<rparr>)
         \<and> (\<forall>i. lr_get s' i = (if i = lot_id l then Inr (Some (refreshed old l)) else lr_get s i))"
    if k: "lr_inv s" "check_tracked tr = Inr ()" "lr_get s (lot_id l) = Inr (Some old)" for old
  proof -
    obtain r where r: "lr_row s (lot_id l) = Some r" "row_to_lot r = Inr old"
      using k(3) by (auto simp: lr_get_Some_iff)
    show ?thesis
      using lr_upsert_known [OF k(1) r k(2), of b t] lr_get_after_upsert(2) [OF k, of b t]
      by simp
  qed
  show "lr_upsert tr b t l s = (s, Inl e)"
    if "check_tracked tr = Inr ()" "lr_get s (lot_id l) = Inl e" for e
    using that lr_upsert_unreadable [OF _ _ check_tracked_allowed] by (auto simp: lr_get_Inl_iff)
  show "\<exists>e'. lr_upsert tr b t l s = (s, Inl e')" if "check_tracked tr = Inl e" for e
    using that by (rule lr_upsert_bad_tracked)
qed

subsection \<open>Runs of the repository\<close>

datatype lop =
    Upsert "string list" bool time lot
  | Mark_seen "int list" time
  | Mark_inactive int string time
  | Set_last_known int int time

fun apply_lop :: "lop \<Rightarrow> lots_db \<Rightarrow> lots_db" where
  "apply_lop (Upsert tr b t l) s = fst (lr_upsert tr b t l s)"
| "apply_lop (Mark_seen ids t) s = lr_mark_seen ids t s"
| "apply_lop (Mark_inactive i reason t) s = lr_mark_inactive i reason t s"
| "apply_lop (Set_last_known g v t) s = lr_set_last_known_id g v t s"

text \<open>The ids a run reports as new, in order.\<close>

fun new_ids :: "lop list \<Rightarrow> lots_db \<Rightarrow> int list" where
  "new_ids [] s = []"
| "new_ids (c # cs) s =
     (case c of
        Upsert tr b t l \<Rightarrow>
          (case snd (lr_upsert tr b t l s) of
             Inl _ \<Rightarrow> []
           | Inr res \<Rightarrow> (if ur_was_new res then [lot_id l] else []))
      | _ \<Rightarrow> [])
     @ new_ids cs (apply_lop c s)"

definition empty_db :: lots_db where
  "empty_db = \<lparr>ld_rows = [], ld_history = [], ld_rtree = Map.empty, ld_state = Map.empty\<rparr>"

lemma lr_inv_empty [simp]: "lr_inv empty_db"
  by (simp add: lr_inv_def empty_db_def lr_row_def row_point_def)

lemma lr_mark_seen_row: "lr_row (lr_mark_seen ids t s) i =
    map_option (\<lambda>r. if db_id r \<in> set ids then r\<lparr>db_last_seen := t, db_last_seen_at := Some t\<rparr> else r)
      (lr_row s i)"
  by (simp add: lr_mark_seen_def lr_row_map map_option.id [unfolded id_def])

lemma lr_mark_inactive_row: "lr_row (lr_mark_inactive j reason t s) i =
    map_option (\<lambda>r. if db_id r = j then r\<lparr>db_is_active := 0, db_inactive_reason := Some reason,
        db_inactive_since := Some t, db_inactive_confirmed_at := Some t\<rparr> else r) (lr_row s i)"
  by (simp add: lr_mark_inactive_def lr_row_map)

lemma lr_set_last_known_row [simp]: "lr_row (lr_set_last_known_id g v t s) i = lr_row s i"
  by (simp add: lr_set_last_known_id_def lr_row_def)

lemma apply_lop_inv: "lr_inv s \<Longrightarrow> lr_inv (apply_lop c s)"
proof (cases c)
  case (Set_last_known g v t)
  assume "lr_inv s"
  then show ?thesis
    by (simp add: Set_last_known lr_inv_def) (simp add: lr_set_last_known_id_def)
qed (auto simp: lr_upsert_inv lr_mark_seen_def lr_mark_inactive_def intro: lr_inv_map)

lemma run_lop_inv: "lr_inv s \<Longrightarrow> lr_inv (fold apply_lop cs s)"
  by (induction cs arbitrary: s) (auto intro: apply_lop_inv)

lemma apply_lop_known: "lr_inv s \<Longrightarrow> lr_row s i \<noteq> None \<Longrightarrow> lr_row (apply_lop c s) i \<noteq> None"
  using lr.upsert_never_forgets
  by (cases c) (auto simp: lr_get_None_iff lr_mark_seen_row lr_mark_inactive_row)

lemma new_ids_unknown: "lr_inv s \<Longrightarrow> i \<in> set (new_ids cs s) \<Longrightarrow> lr_row s i = None"
proof (induction cs arbitrary: s)
  case (Cons c cs)
  have inv: "lr_inv (apply_lop c s)" using Cons.prems(1) by (rule apply_lop_inv)
  show ?case
  proof (cases "i \<in> set (new_ids cs (apply_lop c s))")
    case True
    then show ?thesis using Cons.IH [OF inv] apply_lop_known [OF Cons.prems(1), of i c] by blast
  next
    case False
    with Cons.prems(2) have "\<exists>tr b t l res. c = Upsert tr b t l \<and> lot_id l = i
        \<and> snd (lr_upsert tr b t l s) = Inr res \<and> ur_was_new res"
      by (auto split: lop.splits sum.splits if_splits) (metis (no_types))
    then obtain tr b t l res where c: "c = Upsert tr b t l" "lot_id l = i"
      "snd (lr_upsert tr b t l s) = Inr res" "ur_was_new res" by blast
    with lr.upsert_new_iff(1) [OF Cons.prems(1) c(3)] show ?thesis by (simp add: lr_get_None_iff)
  qed
qed simp

lemma new_ids_distinct: "lr_inv s \<Longrightarrow> distinct (new_ids cs s)"
proof (induction cs arbitrary: s)
  case (Cons c cs)
  have inv: "lr_inv (apply_lop c s)" using Cons.prems by (rule apply_lop_inv)
  show ?case
  proof (cases c)
    case (Upsert tr b t l)
    show ?thesis
    proof (cases "snd (lr_upsert tr b t l s)")
      case (Inr res)
      have "lr_row (apply_lop c s) (lot_id l) \<noteq> None"
        using lr.upsert_new_iff(2) [OF Cons.prems Inr] by (simp add: Upsert lr_get_None_iff)
      then have "lot_id l \<notin> set (new_ids cs (apply_lop c s))" using new_ids_unknown [OF inv, of "lot_id l" cs] by auto
      with Cons.IH [OF inv] Upsert Inr show ?thesis by simp
    qed (use Cons.IH [OF inv] Upsert in simp)
  qed (use Cons.IH [OF inv] in simp_all)
qed simp

subsection \<open>Provenance, unknown reasons and lost coordinates\<close>

lemma apply_lop_provenance:
  assumes "lr_inv s" "lr_row s i = Some r"
  shows "\<exists>r'. lr_row (apply_lop c s) i = Some r' \<and> db_first_seen r' = db_first_seen r
    \<and> db_is_backfill r' = db_is_backfill r \<and> db_enrichment_retries r' = db_enrichment_retries r"
proof (cases c)
  case (Upsert tr b t l)
  from assms(1) show ?thesis
  proof (cases rule: lr_upsert_cases [where l = l and tracked = tr and b = b and now = t])
    case (fresh s')
    with assms Upsert show ?thesis by (auto simp: lr_row_upsert_fresh)
  next
    case (known s' x old)
    have "lot_first_seen old = db_first_seen x"
      using known(2) by (auto simp: row_to_lot_def res_bind_Inr_iff)
    with known assms(2) lr_row_key [OF known(1)] lr_row_key [OF assms(2)] Upsert show ?thesis
      by (auto simp: lr_row_upsert_known) (simp_all add: updated_row_def)
  qed (use assms Upsert in simp)
qed (use assms in \<open>auto simp: lr_mark_seen_row lr_mark_inactive_row\<close>)

lemma run_lop_provenance:
  "lr_inv s \<Longrightarrow> lr_row s i = Some r \<Longrightarrow>
   \<exists>r'. lr_row (fold apply_lop cs s) i = Some r' \<and> db_first_seen r' = db_first_seen r
    \<and> db_is_backfill r' = db_is_backfill r \<and> db_enrichment_retries r' = db_enrichment_retries r"
proof (induction cs arbitrary: s r)
  case (Cons c cs)
  obtain r' where "lr_row (apply_lop c s) i = Some r'" "db_first_seen r' = db_first_seen r"
    "db_is_backfill r' = db_is_backfill r" "db_enrichment_retries r' = db_enrichment_retries r"
    using apply_lop_provenance [OF Cons.prems] by blast
  with Cons.IH [OF apply_lop_inv [OF Cons.prems(1)], of c r'] show ?case by auto
qed simp

text \<open>A row whose reason column no reader accepts.\<close>

definition poisoned :: "lots_db \<Rightarrow> int \<Rightarrow> bool" where
  "poisoned s i \<longleftrightarrow> (\<exists>r e. lr_row s i = Some r \<and> reason_of_text (db_inactive_reason r) = Inl e)"

lemma row_to_lot_reason: "reason_of_text (db_inactive_reason r) = Inl e \<Longrightarrow> \<exists>e'. row_to_lot r = Inl e'"
  by (cases "enrichment_of_text (db_enrichment_status r)") (simp_all add: row_to_lot_def)

lemma poisoned_get: "poisoned s i \<Longrightarrow> lr_get s i = Inl ValidationError"
  using row_to_lot_reason row_to_lot_error by (fastforce simp: poisoned_def lr_get_def)

lemma poisoned_upsert:
  assumes "lr_inv s" "poisoned s (lot_id l)"
  shows "\<exists>e. lr_upsert tr b t l s = (s, Inl e)"
proof (cases "check_tracked tr")
  case (Inl e)
  then show ?thesis by (rule lr_upsert_bad_tracked)
next
  case (Inr u)
  then show ?thesis using lr.upsert_unreadable [OF _ poisoned_get [OF assms(2)]] by auto
qed

definition keeps_reason :: "int \<Rightarrow> lop \<Rightarrow> bool" where
  "keeps_reason i c \<longleftrightarrow> (\<forall>reason t. c \<noteq> Mark_inactive i reason t)"

lemma poisoned_step: "lr_inv s \<Longrightarrow> poisoned s i \<Longrightarrow> keeps_reason i c \<Longrightarrow> poisoned (apply_lop c s) i"
proof (cases c)
  case (Upsert tr b t l)
  assume inv: "lr_inv s" and p: "poisoned s i"
  show ?thesis
  proof (cases "lot_id l = i")
    case True
    then obtain e where "lr_upsert tr b t l s = (s, Inl e)"
      using poisoned_upsert [OF inv, of l tr b t] p by auto
    then show ?thesis using p Upsert by simp
  next
    case False
    from inv show ?thesis
    proof (cases rule: lr_upsert_cases [where l = l and tracked = tr and b = b and now = t])
      case (fresh s')
      with False p Upsert show ?thesis by (auto simp: poisoned_def lr_row_upsert_fresh)
    next
      case (known s' x old)
      have "lr_row s' i = lr_row s i"
        using False by (cases "lr_row s i") (auto simp: known(5) lr_row_upsert_known dest: lr_row_key)
      with known p Upsert show ?thesis by (simp add: poisoned_def)
    qed (use p Upsert in simp)
  qed
next
  case (Mark_inactive j reason t)
  assume p: "poisoned s i" and "keeps_reason i c"
  then have "j \<noteq> i" by (auto simp: Mark_inactive keeps_reason_def)
  moreover obtain r e where "lr_row s i = Some r" "reason_of_text (db_inactive_reason r) = Inl e"
    using p by (auto simp: poisoned_def)
  ultimately show ?thesis
    using lr_row_key [of s i r] by (simp add: Mark_inactive poisoned_def lr_mark_inactive_row)
next
  case (Mark_seen ids t)
  assume "poisoned s i"
  then obtain r e where "lr_row s i = Some r" "reason_of_text (db_inactive_reason r) = Inl e"
    by (auto simp: poisoned_def)
  then show ?thesis
    by (cases "db_id r \<in> set ids") (simp_all add: Mark_seen poisoned_def lr_mark_seen_row)
qed (simp add: poisoned_def)

lemma poisoned_run: "lr_inv s \<Longrightarrow> poisoned s i \<Longrightarrow> (\<forall>c \<in> set cs. keeps_reason i c) \<Longrightarrow>
    poisoned (fold apply_lop cs s) i"
  by (induction cs arbitrary: s) (auto intro: poisoned_step apply_lop_inv)

lemma full_scan_reason_unknown: "reason_of_text (Some ''full_scan_missing'') = Inl ValidationError"
  by (simp add: reason_of_text_def)

lemma mark_full_scan_poisons:
  assumes "lr_row s i \<noteq> None"
  shows "poisoned (lr_mark_inactive i ''full_scan_missing'' t s) i"
proof -
  obtain r where r: "lr_row s i = Some r" using assms by auto
  with lr_row_key [OF r] show ?thesis
    by (simp add: poisoned_def lr_mark_inactive_row full_scan_reason_unknown)
qed

lemma lr_mark_inactive_inv: "lr_inv s \<Longrightarrow> lr_inv (lr_mark_inactive i reason t s)"
  using apply_lop_inv [of s "Mark_inactive i reason t"] by simp

subsection \<open>Properties\<close>

text \<open>
  C7. Upsert on every branch: an unknown lot is inserted as given, reported new, with no
  history; a known one keeps only its first-seen time, and its history grows by exactly the
  tracked fields that differ, with old and new values; a lot whose stored row cannot be read
  back raises and changes nothing. No other lot is touched.
\<close>

theorem upsert_spec:
  assumes "lr_inv s" "check_tracked tracked = Inr ()"
  shows "(case lr_get s (lot_id l) of
      Inl e \<Rightarrow> lr_upsert tracked b now l s = (s, Inl e)
    | Inr None \<Rightarrow>
        (\<exists>s'. lr_upsert tracked b now l s = (s', Inr \<lparr>ur_was_new = True, ur_changes = []\<rparr>)
           \<and> (\<forall>i. lr_get s' i = (if i = lot_id l then Inr (Some l) else lr_get s i))
           \<and> ld_history s' = ld_history s)
    | Inr (Some old) \<Rightarrow>
        (\<exists>s'. lr_upsert tracked b now l s =
             (s', Inr \<lparr>ur_was_new = False, ur_changes = diff_fields old l tracked\<rparr>)
           \<and> (\<forall>i. lr_get s' i = (if i = lot_id l then Inr (Some (refreshed old l)) else lr_get s i))
           \<and> ld_history s' = ld_history s @ history_of (lot_id l) now (diff_fields old l tracked)))"
proof (cases "lr_get s (lot_id l)")
  case (Inl e)
  with lr.upsert_unreadable [OF assms(2) Inl] show ?thesis by simp
next
  case (Inr x)
  show ?thesis
  proof (cases x)
    case None
    with Inr have g: "lr_get s (lot_id l) = Inr None" by simp
    then have n: "lr_row s (lot_id l) = None" by (simp add: lr_get_None_iff)
    show ?thesis
      using lr_upsert_fresh [OF assms(1) n assms(2), of b now] lr_get_after_upsert(1) [OF assms g, of b now]
      by (simp add: g)
  next
    case (Some old)
    with Inr have g: "lr_get s (lot_id l) = Inr (Some old)" by simp
    then obtain r where r: "lr_row s (lot_id l) = Some r" "row_to_lot r = Inr old"
      by (auto simp: lr_get_Some_iff)
    show ?thesis
      using lr_upsert_known [OF assms(1) r assms(2), of b now] lr_get_after_upsert(2) [OF assms g, of b now]
      by (simp add: g)
  qed
qed

theorem upsert_spec_witness:
  "\<exists>s'. lr_upsert DEFAULT_TRACKED_FIELDS False 5 (sample_lot 7) empty_db =
      (s', Inr \<lparr>ur_was_new = True, ur_changes = []\<rparr>) \<and> lr_get s' 7 = Inr (Some (sample_lot 7))"
proof -
  have "lr_get empty_db (lot_id (sample_lot 7)) = Inr None"
    by (simp add: lr_get_def lr_row_def empty_db_def)
  then show ?thesis
    using upsert_spec [OF lr_inv_empty check_tracked_default, where l = "sample_lot 7" and b = False and now = 5]
    by auto
qed

text \<open>
  Over any run of the repository from any consistent database a lot is reported new at
  most once, and only if it was unknown at the start; whatever follows, its row keeps the
  first-seen time, the backfill mark and the retry counter it was inserted with.
\<close>

theorem new_at_most_once:
  assumes "lr_inv s"
  shows "distinct (new_ids cs s)
    \<and> (\<forall>i. i \<in> set (new_ids cs s) \<longrightarrow> lr_get s i = Inr None)
    \<and> (\<forall>i r. lr_row s i = Some r \<longrightarrow>
         (\<exists>r'. lr_row (fold apply_lop cs s) i = Some r' \<and> db_first_seen r' = db_first_seen r
            \<and> db_is_backfill r' = db_is_backfill r \<and> db_enrichment_retries r' = db_enrichment_retries r))"
  using new_ids_distinct [OF assms] new_ids_unknown [OF assms] run_lop_provenance [OF assms]
  by (simp add: lr_get_None_iff)

theorem new_at_most_once_witness:
  "distinct (new_ids [Upsert DEFAULT_TRACKED_FIELDS False 5 (sample_lot 7), Mark_seen [7] 6,
     Upsert DEFAULT_TRACKED_FIELDS True 8 (sample_lot 7)] empty_db)"
  using new_at_most_once [OF lr_inv_empty] by blast

text \<open>
  In every database a run of the repository can produce, ids are unique and the R-tree
  holds exactly the lots whose both coordinates are stored, each at its point; the insert
  of an entry that already exists never happens.
\<close>

theorem rtree_mirrors_rows:
  "(let s = fold apply_lop cs empty_db
    in distinct (map db_id (ld_rows s))
     \<and> (\<forall>i a b. ld_rtree s i = Some (a, b) \<longleftrightarrow>
          (\<exists>r. lr_row s i = Some r \<and> db_lat r = Some a \<and> db_lon r = Some b))
     \<and> (\<forall>tr b t l. snd (lr_upsert tr b t l s) \<noteq> Inl IntegrityError))"
proof -
  let ?s = "fold apply_lop cs empty_db"
  have inv: "lr_inv ?s" by (rule run_lop_inv) simp
  have "ld_rtree ?s i = Some (a, b) \<longleftrightarrow>
      (\<exists>r. lr_row ?s i = Some r \<and> db_lat r = Some a \<and> db_lon r = Some b)" for i a b
    using inv by (auto simp: lr_inv_def row_point_def point_def split: option.splits)
  moreover have "snd (lr_upsert tr b t l ?s) \<noteq> Inl IntegrityError" for tr b t l
    by (rule upsert_no_integrity_error [OF inv])
  ultimately show ?thesis using inv by (simp add: Let_def lr_inv_def)
qed

text \<open>
  C40. A lot the full scan deactivates cannot be read any more: its reason
  \<^verbatim>\<open>full_scan_missing\<close> is not one the lot type accepts, so every later \<^verbatim>\<open>get\<close> of it and
  every later \<^verbatim>\<open>upsert\<close> of it raises, over any run that does not deactivate it again, and
  the upserts change nothing.
\<close>

theorem full_scan_reason_unreadable:
  assumes "lr_inv s" "lr_row s i \<noteq> None" "\<forall>c \<in> set cs. keeps_reason i c" "lot_id l = i"
    and "s' = fold apply_lop cs (lr_mark_inactive i ''full_scan_missing'' t s)"
  shows "lr_get s' i = Inl ValidationError \<and> (\<exists>e. lr_upsert tr b now l s' = (s', Inl e))"
proof -
  have inv: "lr_inv (lr_mark_inactive i ''full_scan_missing'' t s)"
    using assms(1) by (rule lr_mark_inactive_inv)
  have "poisoned s' i"
    unfolding assms(5) using poisoned_run [OF inv mark_full_scan_poisons [OF assms(2)] assms(3)] .
  with poisoned_get poisoned_upsert [OF run_lop_inv [OF inv]] assms(4,5) show ?thesis by blast
qed

theorem full_scan_reason_unreadable_witness:
  "lr_get (apply_lop (Upsert DEFAULT_TRACKED_FIELDS False 9 (sample_lot 7))
     (lr_mark_inactive 7 ''full_scan_missing'' 6
        (fst (lr_upsert DEFAULT_TRACKED_FIELDS False 5 (sample_lot 7) empty_db)))) 7 = Inl ValidationError"
proof -
  let ?s = "fst (lr_upsert DEFAULT_TRACKED_FIELDS False 5 (sample_lot 7) empty_db)"
  let ?cs = "[Upsert DEFAULT_TRACKED_FIELDS False 9 (sample_lot 7)]"
  have i: "lr_inv ?s" by (rule lr_upsert_inv) simp
  have n: "lr_row empty_db (lot_id (sample_lot 7)) = None" by (simp add: lr_row_def empty_db_def)
  have "?s = empty_db\<lparr>ld_rows := ld_rows empty_db @ [inserted_row (sample_lot 7) False],
      ld_rtree := (ld_rtree empty_db)(7 := point (lot_lat (sample_lot 7)) (lot_lon (sample_lot 7)))\<rparr>"
    using lr_upsert_fresh [OF lr_inv_empty n check_tracked_default, of False 5] by simp
  then have r: "lr_row ?s 7 \<noteq> None" using lr_row_upsert_fresh [OF n] by simp
  have k: "\<forall>c \<in> set ?cs. keeps_reason 7 c" by (simp add: keeps_reason_def)
  show ?thesis
    using full_scan_reason_unreadable [OF i r k _ refl, where l = "sample_lot 7" and t = 6] by simp
qed

end
