(* ===== verification/Event_Bus.thy ===== *)
theory Event_Bus
  imports Domain
begin

text \<open>
  The in-process event bus (\<^verbatim>\<open>infra/sse/bus.py\<close>) and its subscription handles
  (\<^verbatim>\<open>infra/sse/subscriptions.py\<close>). Subscriptions are numbered in creation order;
  \<open>b_subs\<close> holds every handle ever created and \<open>b_live\<close> is the bus's list of subscribers.
  A handle records, besides its queue and \<^verbatim>\<open>_alive\<close> flag, the events its consumer has
  taken. \<open>mt\<close> is a reading of the monotonic clock, in microseconds. Operations run one at a
  time here, except that while a critical publication blocks on a full queue the consumer
  may take an item: \<open>drains\<close> says for which subscriptions it does within the timeout.
\<close>

subsection \<open>State\<close>

record subscription =
  s_queue :: "sse_event list"
  s_alive :: bool
  s_taken :: "sse_event list"

record bus =
  b_subs :: "subscription list"
  b_live :: "nat list"
  b_critical :: "string \<rightharpoonup> sse_event"
  b_normal :: "(string \<times> sse_event \<times> time) list"

definition QUEUE_MAXSIZE :: nat where "QUEUE_MAXSIZE = 100"
definition REPLAY_TTL :: int where "REPLAY_TTL = 30 * 1000000"

definition update_sub :: "nat \<Rightarrow> (subscription \<Rightarrow> subscription) \<Rightarrow> bus \<Rightarrow> bus" where
  "update_sub i f b = (if i < length (b_subs b) then b\<lparr>b_subs := (b_subs b)[i := f (b_subs b ! i)]\<rparr> else b)"

definition queue_full :: "subscription \<Rightarrow> bool" where
  "queue_full s \<longleftrightarrow> QUEUE_MAXSIZE \<le> length (s_queue s)"

definition enqueue :: "sse_event \<Rightarrow> subscription \<Rightarrow> subscription" where
  "enqueue e s = s\<lparr>s_queue := s_queue s @ [e]\<rparr>"

subsection \<open>Subscription handles\<close>

text \<open>\<^verbatim>\<open>wait_one\<close> when nothing arrives during the wait, and \<^verbatim>\<open>iter\<close> run to the end.\<close>

definition take_one :: "subscription \<Rightarrow> subscription \<times> sse_event option" where
  "take_one s =
     (case s_queue s of
        [] \<Rightarrow> (s, None)
      | e # es \<Rightarrow> (s\<lparr>s_queue := es, s_taken := s_taken s @ [e]\<rparr>, Some e))"

definition wait_one :: "nat \<Rightarrow> bus \<Rightarrow> bus \<times> sse_event option" where
  "wait_one i b =
     (if length (b_subs b) \<le> i \<or> \<not> s_alive (b_subs b ! i) then (b, None)
      else (update_sub i (\<lambda>s. fst (take_one s)) b, snd (take_one (b_subs b ! i))))"

definition drain_iter :: "nat \<Rightarrow> bus \<Rightarrow> bus" where
  "drain_iter i b = update_sub i (\<lambda>s. s\<lparr>s_queue := [], s_taken := s_taken s @ s_queue s\<rparr>) b"

definition remove_subscriber :: "nat \<Rightarrow> bus \<Rightarrow> bus" where
  "remove_subscriber i b =
     (update_sub i (\<lambda>s. s\<lparr>s_alive := False\<rparr>) b)\<lparr>b_live := remove1 i (b_live b)\<rparr>"

subsection \<open>Publishing\<close>

text \<open>Last write wins in the slot; an existing key keeps its place, as in a dict.\<close>

fun set_slot :: "string \<Rightarrow> 'v \<Rightarrow> (string \<times> 'v) list \<Rightarrow> (string \<times> 'v) list" where
  "set_slot k v [] = [(k, v)]"
| "set_slot k v ((k', v') # m) = (if k' = k then (k, v) # m else (k', v') # set_slot k v m)"

definition deliver_normal :: "sse_event \<Rightarrow> subscription \<Rightarrow> subscription" where
  "deliver_normal e s =
     (if \<not> s_alive s then s
      else if \<not> queue_full s then enqueue e s
      else enqueue e (s\<lparr>s_queue := tl (s_queue s)\<rparr>))"

definition publish_normal :: "time \<Rightarrow> sse_event \<Rightarrow> nat list \<Rightarrow> bus \<Rightarrow> bus" where
  "publish_normal mt e snapshot b =
     fold (\<lambda>i. update_sub i (deliver_normal e)) snapshot
       (b\<lparr>b_normal := set_slot (event_name e) (e, mt) (b_normal b)\<rparr>)"

text \<open>One blocking put: the subscription afterwards, and whether the put timed out.\<close>

definition deliver_critical :: "sse_event \<Rightarrow> bool \<Rightarrow> subscription \<Rightarrow> subscription \<times> bool" where
  "deliver_critical e drained s =
     (if \<not> s_alive s then (s, False)
      else if \<not> queue_full s then (enqueue e s, False)
      else if drained then (enqueue e (fst (take_one s)), False)
      else (s, True))"

fun put_critical :: "(nat \<Rightarrow> bool) \<Rightarrow> sse_event \<Rightarrow> nat list \<Rightarrow> bus \<Rightarrow> bus \<times> nat list" where
  "put_critical drains e [] b = (b, [])"
| "put_critical drains e (i # is) b =
     (let timed_out = (i < length (b_subs b) \<and> snd (deliver_critical e (drains i) (b_subs b ! i)));
          b1 = update_sub i (\<lambda>s. fst (deliver_critical e (drains i) s)) b;
          (b2, slow) = put_critical drains e is b1
      in (b2, (if timed_out then i # slow else slow)))"

definition publish_critical :: "(nat \<Rightarrow> bool) \<Rightarrow> sse_event \<Rightarrow> nat list \<Rightarrow> bus \<Rightarrow> bus" where
  "publish_critical drains e snapshot b =
     (let (b1, slow) = put_critical drains e snapshot
                         (b\<lparr>b_critical := (b_critical b)(event_name e \<mapsto> e)\<rparr>)
      in fold remove_subscriber slow b1)"

definition publish :: "time \<Rightarrow> (nat \<Rightarrow> bool) \<Rightarrow> sse_event \<Rightarrow> bus \<Rightarrow> bus" where
  "publish mt drains e b =
     (case event_priority e of
        Critical \<Rightarrow> publish_critical drains e (b_live b) b
      | Normal \<Rightarrow> publish_normal mt e (b_live b) b)"

subsection \<open>Subscribing and the replay slots\<close>

fun replay :: "time \<Rightarrow> (string \<times> sse_event \<times> time) list \<Rightarrow> sse_event list \<Rightarrow>
    (string \<times> sse_event \<times> time) list \<times> sse_event list" where
  "replay now [] q = ([], q)"
| "replay now ((k, e, at_time) # slots) q =
     (if now - at_time \<ge> REPLAY_TTL then replay now slots q
      else (let (slots', q') = replay now slots (if length q < QUEUE_MAXSIZE then q @ [e] else q)
            in ((k, e, at_time) # slots', q')))"

definition subscribe :: "time \<Rightarrow> bus \<Rightarrow> bus \<times> nat" where
  "subscribe now b =
     (let (slots, q) = replay now (b_normal b) []
      in (b\<lparr>b_subs := b_subs b @ [\<lparr>s_queue = q, s_alive = True, s_taken = []\<rparr>],
            b_live := b_live b @ [length (b_subs b)],
            b_normal := slots\<rparr>, length (b_subs b)))"

definition last_critical :: "string \<Rightarrow> bus \<Rightarrow> sse_event option" where
  "last_critical k b = b_critical b k"

definition evict_normal_replay :: "string \<Rightarrow> bus \<Rightarrow> bus" where
  "evict_normal_replay k b = b\<lparr>b_normal := filter (\<lambda>x. fst x \<noteq> k) (b_normal b)\<rparr>"

subsection \<open>Invariant\<close>

definition bus_inv :: "bus \<Rightarrow> bool" where
  "bus_inv b \<longleftrightarrow>
     distinct (b_live b)
     \<and> (\<forall>i. i \<in> set (b_live b) \<longleftrightarrow> i < length (b_subs b) \<and> s_alive (b_subs b ! i))
     \<and> (\<forall>i < length (b_subs b). length (s_queue (b_subs b ! i)) \<le> QUEUE_MAXSIZE)
     \<and> distinct (map fst (b_normal b))
     \<and> (\<forall>x \<in> set (b_normal b). fst x = event_name (fst (snd x)) \<and> event_priority (fst (snd x)) = Normal)"

lemma update_sub_simps [simp]:
  "length (b_subs (update_sub i f b)) = length (b_subs b)"
  "b_live (update_sub i f b) = b_live b"
  "b_critical (update_sub i f b) = b_critical b"
  "b_normal (update_sub i f b) = b_normal b"
  by (simp_all add: update_sub_def)

lemma update_sub_nth: "j < length (b_subs b) \<Longrightarrow>
    b_subs (update_sub i f b) ! j = (if j = i then f (b_subs b ! i) else b_subs b ! j)"
  by (auto simp: update_sub_def)

lemma fold_update_sub:
  assumes "distinct is"
  shows "length (b_subs (fold (\<lambda>i. update_sub i f) is b)) = length (b_subs b)"
    and "b_live (fold (\<lambda>i. update_sub i f) is b) = b_live b"
    and "b_critical (fold (\<lambda>i. update_sub i f) is b) = b_critical b"
    and "b_normal (fold (\<lambda>i. update_sub i f) is b) = b_normal b"
    and "j < length (b_subs b) \<Longrightarrow> b_subs (fold (\<lambda>i. update_sub i f) is b) ! j =
      (if j \<in> set is then f (b_subs b ! j) else b_subs b ! j)"
  using assms by (induction "is" arbitrary: b) (auto simp: update_sub_nth)

lemma set_slot_keys: "set (map fst (set_slot k v m)) = insert k (set (map fst m))"
  by (induction k v m rule: set_slot.induct) auto

lemma set_slot_distinct: "distinct (map fst m) \<Longrightarrow> distinct (map fst (set_slot k v m))"
proof (induction k v m rule: set_slot.induct)
  case (2 k v k' v' m)
  then show ?case using set_slot_keys [of k v m] by (auto simp del: set_map)
qed simp

lemma set_slot_lookup: "map_of (set_slot k v m) = (map_of m)(k \<mapsto> v)"
  by (induction k v m rule: set_slot.induct) auto

lemma put_critical_spec:
  assumes "distinct is"
  shows "length (b_subs (fst (put_critical dr e is b))) = length (b_subs b)"
    and "b_live (fst (put_critical dr e is b)) = b_live b"
    and "b_critical (fst (put_critical dr e is b)) = b_critical b"
    and "b_normal (fst (put_critical dr e is b)) = b_normal b"
    and "j < length (b_subs b) \<Longrightarrow> b_subs (fst (put_critical dr e is b)) ! j =
      (if j \<in> set is then fst (deliver_critical e (dr j) (b_subs b ! j)) else b_subs b ! j)"
    and "snd (put_critical dr e is b) =
      filter (\<lambda>i. i < length (b_subs b) \<and> snd (deliver_critical e (dr i) (b_subs b ! i))) is"
proof -
  have "length (b_subs (fst (put_critical dr e is b))) = length (b_subs b)
    \<and> b_live (fst (put_critical dr e is b)) = b_live b
    \<and> b_critical (fst (put_critical dr e is b)) = b_critical b
    \<and> b_normal (fst (put_critical dr e is b)) = b_normal b
    \<and> (\<forall>j < length (b_subs b). b_subs (fst (put_critical dr e is b)) ! j =
      (if j \<in> set is then fst (deliver_critical e (dr j) (b_subs b ! j)) else b_subs b ! j))
    \<and> snd (put_critical dr e is b) =
      filter (\<lambda>i. i < length (b_subs b) \<and> snd (deliver_critical e (dr i) (b_subs b ! i))) is"
    using assms
  proof (induction "is" arbitrary: b)
    case (Cons i "is")
    let ?b1 = "update_sub i (\<lambda>s. fst (deliver_critical e (dr i) s)) b"
    have f: "filter (\<lambda>j. j < length (b_subs b) \<and> snd (deliver_critical e (dr j) (b_subs ?b1 ! j))) is =
        filter (\<lambda>j. j < length (b_subs b) \<and> snd (deliver_critical e (dr j) (b_subs b ! j))) is"
      by (rule filter_cong) (use Cons.prems in \<open>auto simp: update_sub_nth split: if_splits\<close>)
    show ?case
      using Cons.IH [of ?b1] Cons.prems f
      by (auto simp: Let_def case_prod_beta update_sub_nth)
  qed simp
  then show "length (b_subs (fst (put_critical dr e is b))) = length (b_subs b)"
    "b_live (fst (put_critical dr e is b)) = b_live b"
    "b_critical (fst (put_critical dr e is b)) = b_critical b"
    "b_normal (fst (put_critical dr e is b)) = b_normal b"
    "j < length (b_subs b) \<Longrightarrow> b_subs (fst (put_critical dr e is b)) ! j =
      (if j \<in> set is then fst (deliver_critical e (dr j) (b_subs b ! j)) else b_subs b ! j)"
    "snd (put_critical dr e is b) =
      filter (\<lambda>i. i < length (b_subs b) \<and> snd (deliver_critical e (dr i) (b_subs b ! i))) is"
    by blast+
qed


lemma remove_subscriber_simps [simp]:
  "length (b_subs (remove_subscriber i b)) = length (b_subs b)"
  "b_live (remove_subscriber i b) = remove1 i (b_live b)"
  "b_critical (remove_subscriber i b) = b_critical b"
  "b_normal (remove_subscriber i b) = b_normal b"
  by (simp_all add: remove_subscriber_def)

lemma remove_subscriber_nth: "j < length (b_subs b) \<Longrightarrow> b_subs (remove_subscriber i b) ! j =
    (if j = i then (b_subs b ! i)\<lparr>s_alive := False\<rparr> else b_subs b ! j)"
  by (simp add: remove_subscriber_def update_sub_nth)

lemma fold_remove:
  assumes "distinct is" "distinct (b_live b)"
  shows "length (b_subs (fold remove_subscriber is b)) = length (b_subs b)"
    and "b_live (fold remove_subscriber is b) = filter (\<lambda>i. i \<notin> set is) (b_live b)"
    and "b_critical (fold remove_subscriber is b) = b_critical b"
    and "b_normal (fold remove_subscriber is b) = b_normal b"
    and "j < length (b_subs b) \<Longrightarrow> b_subs (fold remove_subscriber is b) ! j =
      (if j \<in> set is then (b_subs b ! j)\<lparr>s_alive := False\<rparr> else b_subs b ! j)"
  using assms
  by (induction "is" arbitrary: b)
    (auto simp: remove_subscriber_nth distinct_remove1_removeAll removeAll_filter_not_eq
      intro!: filter_cong)

lemma bus_invD:
  assumes "bus_inv b"
  shows "distinct (b_live b)" and "i \<in> set (b_live b) \<longleftrightarrow> i < length (b_subs b) \<and> s_alive (b_subs b ! i)"
    and "i < length (b_subs b) \<Longrightarrow> length (s_queue (b_subs b ! i)) \<le> QUEUE_MAXSIZE"
    and "distinct (map fst (b_normal b))"
    and "x \<in> set (b_normal b) \<Longrightarrow> fst x = event_name (fst (snd x)) \<and> event_priority (fst (snd x)) = Normal"
  using assms unfolding bus_inv_def by blast+

lemma deliver_normal_props:
  "length (s_queue s) \<le> QUEUE_MAXSIZE \<Longrightarrow> length (s_queue (deliver_normal e s)) \<le> QUEUE_MAXSIZE"
  "s_alive (deliver_normal e s) = s_alive s"
  by (auto simp: deliver_normal_def enqueue_def queue_full_def QUEUE_MAXSIZE_def)

lemma deliver_critical_props:
  "length (s_queue s) \<le> QUEUE_MAXSIZE \<Longrightarrow> length (s_queue (fst (deliver_critical e d s))) \<le> QUEUE_MAXSIZE"
  "s_alive (fst (deliver_critical e d s)) = s_alive s"
  by (auto simp: deliver_critical_def enqueue_def queue_full_def QUEUE_MAXSIZE_def take_one_def
      split: list.splits)

lemma publish_normal_spec:
  assumes "bus_inv b"
  shows "b_live (publish_normal mt e (b_live b) b) = b_live b"
    and "length (b_subs (publish_normal mt e (b_live b) b)) = length (b_subs b)"
    and "b_normal (publish_normal mt e (b_live b) b) = set_slot (event_name e) (e, mt) (b_normal b)"
    and "b_critical (publish_normal mt e (b_live b) b) = b_critical b"
    and "j < length (b_subs b) \<Longrightarrow>
      b_subs (publish_normal mt e (b_live b) b) ! j = deliver_normal e (b_subs b ! j)"
  using bus_invD(1) [OF assms] bus_invD(2) [OF assms, of j]
  by (simp_all add: publish_normal_def fold_update_sub) (simp add: deliver_normal_def)

lemma publish_critical_spec:
  assumes "bus_inv b"
  shows "length (b_subs (publish_critical dr e (b_live b) b)) = length (b_subs b)"
    and "b_normal (publish_critical dr e (b_live b) b) = b_normal b"
    and "b_critical (publish_critical dr e (b_live b) b) = (b_critical b)(event_name e \<mapsto> e)"
    and "b_live (publish_critical dr e (b_live b) b) =
      filter (\<lambda>i. \<not> (queue_full (b_subs b ! i) \<and> \<not> dr i)) (b_live b)"
    and "j < length (b_subs b) \<Longrightarrow> b_subs (publish_critical dr e (b_live b) b) ! j =
      (if \<not> s_alive (b_subs b ! j) then b_subs b ! j
       else if queue_full (b_subs b ! j) \<and> \<not> dr j then (b_subs b ! j)\<lparr>s_alive := False\<rparr>
       else if queue_full (b_subs b ! j) then enqueue e (fst (take_one (b_subs b ! j)))
       else enqueue e (b_subs b ! j))"
proof -
  let ?b0 = "b\<lparr>b_critical := (b_critical b)(event_name e \<mapsto> e)\<rparr>"
  have d: "distinct (b_live b)" using assms by (rule bus_invD)
  have slow: "snd (put_critical dr e (b_live b) ?b0) =
      filter (\<lambda>i. queue_full (b_subs b ! i) \<and> \<not> dr i) (b_live b)"
    using bus_invD(2) [OF assms]
    by (subst put_critical_spec(6) [OF d]) (auto simp: deliver_critical_def intro!: filter_cong)
  note eq = publish_critical_def case_prod_beta Let_def slow
  let ?b1 = "fst (put_critical dr e (b_live b) ?b0)"
  have d1: "distinct (b_live ?b1)" using d put_critical_spec(2) [OF d, of dr e ?b0] by simp
  have ds: "distinct (filter (\<lambda>i. queue_full (b_subs b ! i) \<and> \<not> dr i) (b_live b))" using d by simp
  show "length (b_subs (publish_critical dr e (b_live b) b)) = length (b_subs b)"
    "b_normal (publish_critical dr e (b_live b) b) = b_normal b"
    "b_critical (publish_critical dr e (b_live b) b) = (b_critical b)(event_name e \<mapsto> e)"
    using fold_remove(1,3,4) [OF ds d1] put_critical_spec(1,3,4) [OF d, of dr e ?b0]
    by (simp_all add: eq)
  show "b_live (publish_critical dr e (b_live b) b) =
      filter (\<lambda>i. \<not> (queue_full (b_subs b ! i) \<and> \<not> dr i)) (b_live b)"
    using fold_remove(2) [OF ds d1] put_critical_spec(2) [OF d, of dr e ?b0]
    by (auto simp: eq intro!: filter_cong)
  show "b_subs (publish_critical dr e (b_live b) b) ! j =
      (if \<not> s_alive (b_subs b ! j) then b_subs b ! j
       else if queue_full (b_subs b ! j) \<and> \<not> dr j then (b_subs b ! j)\<lparr>s_alive := False\<rparr>
       else if queue_full (b_subs b ! j) then enqueue e (fst (take_one (b_subs b ! j)))
       else enqueue e (b_subs b ! j))" if "j < length (b_subs b)"
    using that fold_remove(5) [OF ds d1, of j] put_critical_spec(1) [OF d, of dr e ?b0] put_critical_spec(5) [OF d]
      bus_invD(2) [OF assms, of j]
    by (auto simp: eq deliver_critical_def)
qed

subsection \<open>Runs\<close>

datatype bus_op =
    Publish time "nat \<Rightarrow> bool" sse_event
  | Subscribe time
  | Unsubscribe nat
  | Wait nat
  | Drain nat
  | Evict string

fun bus_step :: "bus_op \<Rightarrow> bus \<Rightarrow> bus" where
  "bus_step (Publish mt dr e) b = publish mt dr e b"
| "bus_step (Subscribe now) b = fst (subscribe now b)"
| "bus_step (Unsubscribe i) b = remove_subscriber i b"
| "bus_step (Wait i) b = fst (wait_one i b)"
| "bus_step (Drain i) b = drain_iter i b"
| "bus_step (Evict k) b = evict_normal_replay k b"

definition empty_bus :: bus where
  "empty_bus = \<lparr>b_subs = [], b_live = [], b_critical = Map.empty, b_normal = []\<rparr>"

definition bus_run :: "bus_op list \<Rightarrow> bus" where
  "bus_run ops = fold bus_step ops empty_bus"

lemma bus_inv_empty: "bus_inv empty_bus"
  by (simp add: bus_inv_def empty_bus_def)

text \<open>An update of one handle that keeps it alive and its queue bounded.\<close>

lemma bus_inv_update:
  assumes "bus_inv b" "\<And>s. s_alive (f s) = s_alive s"
    and "\<And>s. length (s_queue s) \<le> QUEUE_MAXSIZE \<Longrightarrow> length (s_queue (f s)) \<le> QUEUE_MAXSIZE"
  shows "bus_inv (update_sub i f b)"
  unfolding bus_inv_def
  using bus_invD [OF assms(1)] assms(2,3) by (auto simp: update_sub_nth split: if_splits)

lemma set_slot_mem: "x \<in> set (set_slot k v m) \<Longrightarrow> x = (k, v) \<or> x \<in> set m"
  by (induction k v m rule: set_slot.induct) (auto split: if_splits)

lemma publish_inv:
  assumes "bus_inv b"
  shows "bus_inv (publish mt dr e b)"
proof (cases "event_priority e")
  case Critical
  let ?b = "publish_critical dr e (b_live b) b"
  note spec = publish_critical_spec [OF assms, where dr = dr and e = e]
  have alive: "s_alive (b_subs ?b ! j) \<longleftrightarrow> s_alive (b_subs b ! j) \<and> \<not> (queue_full (b_subs b ! j) \<and> \<not> dr j)"
    if "j < length (b_subs b)" for j
    using spec(5) [OF that] by (simp add: enqueue_def take_one_def split: list.splits)
  have len: "length (s_queue (b_subs ?b ! j)) \<le> QUEUE_MAXSIZE" if "j < length (b_subs b)" for j
    using spec(5) [OF that] bus_invD(3) [OF assms that]
    by (auto simp: enqueue_def take_one_def queue_full_def QUEUE_MAXSIZE_def split: list.splits)
  have "bus_inv ?b"
    unfolding bus_inv_def spec(1,2,4)
    using bus_invD [OF assms] alive len by auto
  with Critical show ?thesis by (simp add: publish_def)
next
  case Normal
  let ?b = "publish_normal mt e (b_live b) b"
  note spec = publish_normal_spec [OF assms, where mt = mt and e = e]
  have "bus_inv ?b"
    unfolding bus_inv_def spec(1,2,3)
  proof (intro conjI allI impI ballI)
    show "distinct (b_live b)" using assms by (rule bus_invD)
    show "distinct (map fst (set_slot (event_name e) (e, mt) (b_normal b)))"
      using bus_invD(4) [OF assms] by (rule set_slot_distinct)
    show "i \<in> set (b_live b) \<longleftrightarrow> i < length (b_subs b) \<and> s_alive (b_subs ?b ! i)" for i
      using bus_invD(2) [OF assms, of i] spec(5) [of i] deliver_normal_props(2) by auto
    show "length (s_queue (b_subs ?b ! i)) \<le> QUEUE_MAXSIZE" if "i < length (b_subs b)" for i
      using spec(5) [OF that] deliver_normal_props(1) bus_invD(3) [OF assms that] by simp
    fix x assume "x \<in> set (set_slot (event_name e) (e, mt) (b_normal b))"
    then have "x = (event_name e, e, mt) \<or> x \<in> set (b_normal b)" by (rule set_slot_mem)
    then show "fst x = event_name (fst (snd x))" "event_priority (fst (snd x)) = Normal"
      using bus_invD(5) [OF assms, of x] Normal by auto
  qed
  with Normal show ?thesis by (simp add: publish_def)
qed

lemma replay_fresh:
  "length q + length slots \<le> QUEUE_MAXSIZE \<Longrightarrow>
   replay now slots q =
     (filter (\<lambda>x. now - snd (snd x) < REPLAY_TTL) slots,
      q @ map (\<lambda>x. fst (snd x)) (filter (\<lambda>x. now - snd (snd x) < REPLAY_TTL) slots))"
  by (induction now slots q rule: replay.induct) (auto simp: Let_def)

lemma normal_names: "event_priority e = Normal \<Longrightarrow>
    event_name e \<in> set [''lot.new'', ''lot.status'', ''cycle.done'', ''cycle.started'', ''status'', ''login.succeeded'']"
  by (cases e) simp_all

lemma normal_slots_bounded:
  assumes "bus_inv b"
  shows "length (b_normal b) \<le> 6"
proof -
  let ?names = "[''lot.new'', ''lot.status'', ''cycle.done'', ''cycle.started'', ''status'', ''login.succeeded'']"
  have "set (map fst (b_normal b)) \<subseteq> set ?names"
    using bus_invD(5) [OF assms] normal_names by (force simp del: set_simps)
  then have "card (set (map fst (b_normal b))) \<le> card (set ?names)" by (intro card_mono) simp_all
  also have "\<dots> \<le> 6" using card_length [of ?names] by simp
  finally show ?thesis using bus_invD(4) [OF assms] distinct_card by fastforce
qed

lemma subscribe_spec:
  assumes "bus_inv b"
  shows "subscribe now b =
    (let fresh = filter (\<lambda>x. now - snd (snd x) < REPLAY_TTL) (b_normal b)
     in (b\<lparr>b_subs := b_subs b @ [\<lparr>s_queue = map (\<lambda>x. fst (snd x)) fresh, s_alive = True, s_taken = []\<rparr>],
           b_live := b_live b @ [length (b_subs b)], b_normal := fresh\<rparr>, length (b_subs b)))"
proof -
  have "length ([] :: sse_event list) + length (b_normal b) \<le> QUEUE_MAXSIZE"
    using normal_slots_bounded [OF assms] by (simp add: QUEUE_MAXSIZE_def)
  from replay_fresh [OF this] show ?thesis by (simp add: subscribe_def Let_def)
qed

lemma subscribe_inv:
  assumes "bus_inv b"
  shows "bus_inv (fst (subscribe now b))"
proof -
  let ?fresh = "filter (\<lambda>x. now - snd (snd x) < REPLAY_TTL) (b_normal b)"
  have "length ?fresh \<le> 6"
    using length_filter_le normal_slots_bounded [OF assms] by (rule order_trans)
  then have "length ?fresh \<le> QUEUE_MAXSIZE" by (simp add: QUEUE_MAXSIZE_def)
  moreover have "length (b_subs b) \<notin> set (b_live b)" using bus_invD(2) [OF assms] by blast
  ultimately show ?thesis
    using bus_invD [OF assms]
    by (auto simp: subscribe_spec [OF assms] Let_def bus_inv_def nth_append distinct_map_filter less_Suc_eq)
qed

lemma remove_inv:
  assumes "bus_inv b"
  shows "bus_inv (remove_subscriber i b)"
  using bus_invD [OF assms]
  by (auto simp: bus_inv_def remove_subscriber_nth set_remove1_eq split: if_splits)

lemma evict_inv: "bus_inv b \<Longrightarrow> bus_inv (evict_normal_replay k b)"
  by (auto simp: bus_inv_def evict_normal_replay_def distinct_map_filter)

lemma bus_step_inv: "bus_inv b \<Longrightarrow> bus_inv (bus_step op b)"
  by (cases op) (auto simp: publish_inv subscribe_inv remove_inv evict_inv wait_one_def drain_iter_def
      take_one_def split: list.splits intro!: bus_inv_update)

lemma bus_run_inv: "bus_inv (bus_run ops)"
proof -
  have "bus_inv b \<Longrightarrow> bus_inv (fold bus_step ops b)" for b
    by (induction ops arbitrary: b) (auto intro: bus_step_inv)
  then show ?thesis by (simp add: bus_run_def bus_inv_empty)
qed

text \<open>A run that fills a queue behind a critical event, for the overflow instance.\<close>

definition filling_ops :: "nat \<Rightarrow> bus_op list" where
  "filling_ops n = [Subscribe 0, Publish 1 (\<lambda>_. True) (SseSessionExpired 1)]
     @ replicate n (Publish 2 (\<lambda>_. True) (SseCycleStarted 2 4))"

lemma filling_run: "n \<le> 99 \<Longrightarrow> b_live (bus_run (filling_ops n)) = [0]
    \<and> b_subs (bus_run (filling_ops n)) =
        [\<lparr>s_queue = SseSessionExpired 1 # replicate n (SseCycleStarted 2 4), s_alive = True, s_taken = []\<rparr>]"
proof (induction n)
  case 0
  then show ?case
    by (simp add: filling_ops_def bus_run_def empty_bus_def subscribe_def publish_def publish_critical_def
        update_sub_def deliver_critical_def queue_full_def QUEUE_MAXSIZE_def enqueue_def)
next
  case (Suc n)
  let ?b = "bus_run (filling_ops n)"
  have "filling_ops (Suc n) = filling_ops n @ [Publish 2 (\<lambda>_. True) (SseCycleStarted 2 4)]"
    by (simp add: filling_ops_def replicate_append_same)
  then have run: "bus_run (filling_ops (Suc n)) = publish 2 (\<lambda>_. True) (SseCycleStarted 2 4) ?b"
    by (simp add: bus_run_def)
  show ?case
    using Suc by (simp add: run publish_def publish_normal_def update_sub_def deliver_normal_def
        queue_full_def QUEUE_MAXSIZE_def enqueue_def replicate_append_same)
qed

subsection \<open>Properties\<close>

text \<open>
  C14. Publishing a critical event over any history: every subscriber that was listening
  either has it as the newest entry of its queue, having lost nothing, or its queue was
  full and its consumer took nothing within the timeout, and then it is marked dead,
  removed, and keeps its queue. Handles that were not listening are untouched, and the
  event is the one \<^verbatim>\<open>last_critical\<close> returns.
\<close>

theorem critical_delivered_or_removed:
  assumes "b = bus_run ops" "event_priority e = Critical" "b' = publish mt dr e b"
    and "i < length (b_subs b)"
  shows "(let s = b_subs b ! i; s' = b_subs b' ! i
     in (if i \<notin> set (b_live b) then s' = s \<and> i \<notin> set (b_live b')
         else if queue_full s \<and> \<not> dr i
         then s' = s\<lparr>s_alive := False\<rparr> \<and> i \<notin> set (b_live b')
         else s_alive s' \<and> i \<in> set (b_live b')
            \<and> s_taken s' @ s_queue s' = s_taken s @ s_queue s @ [e] \<and> last (s_queue s') = e))
     \<and> last_critical (event_name e) b' = Some e"
proof -
  have inv: "bus_inv b" unfolding assms(1) by (rule bus_run_inv)
  have b': "b' = publish_critical dr e (b_live b) b" using assms(2,3) by (simp add: publish_def)
  note spec = publish_critical_spec [OF inv, where dr = dr and e = e, folded b']
  show ?thesis
    using spec(3,4) spec(5) [OF assms(4)] bus_invD(2) [OF inv, of i] assms(4)
    by (auto simp: Let_def last_critical_def enqueue_def take_one_def split: list.splits)
qed

theorem critical_delivered_or_removed_witness:
  "let b = bus_run [Subscribe 0]; b' = publish 5 (\<lambda>_. False) (SseSessionExpired 5) b
   in s_taken (b_subs b' ! 0) @ s_queue (b_subs b' ! 0) = [SseSessionExpired 5] \<and> 0 \<in> set (b_live b')"
proof -
  have b: "bus_run [Subscribe 0] = \<lparr>b_subs = [\<lparr>s_queue = [], s_alive = True, s_taken = []\<rparr>],
      b_live = [0], b_critical = Map.empty, b_normal = []\<rparr>"
    by (simp add: bus_run_def empty_bus_def subscribe_def)
  have "event_priority (SseSessionExpired 5) = Critical" by simp
  from critical_delivered_or_removed [OF refl this refl, of 0 "[Subscribe 0]" 5 "\<lambda>_. False"]
  show ?thesis by (simp add: b Let_def queue_full_def QUEUE_MAXSIZE_def)
qed

text \<open>
  Publishing a normal event over any history never blocks and never removes a
  subscriber: everyone listening has it as the newest entry, at the cost of at most the
  oldest undelivered entry, and only when the queue was full; no queue exceeds 100 entries.
\<close>

theorem normal_never_removes:
  assumes "b = bus_run ops" "event_priority e = Normal" "b' = publish mt dr e b"
    and "i < length (b_subs b)"
  shows "b_live b' = b_live b
    \<and> (let s = b_subs b ! i; s' = b_subs b' ! i
       in length (s_queue s') \<le> 100 \<and> s_taken s' = s_taken s
        \<and> (if i \<in> set (b_live b)
           then s_queue s' = (if length (s_queue s) = 100 then tl (s_queue s) else s_queue s) @ [e]
           else s' = s))"
proof -
  have inv: "bus_inv b" unfolding assms(1) by (rule bus_run_inv)
  have b': "b' = publish_normal mt e (b_live b) b" using assms(2,3) by (simp add: publish_def)
  note spec = publish_normal_spec [OF inv, where mt = mt and e = e, folded b']
  have "length (s_queue (b_subs b ! i)) \<le> 100"
    using bus_invD(3) [OF inv assms(4)] by (simp add: QUEUE_MAXSIZE_def)
  then show ?thesis
    using spec(1) spec(5) [OF assms(4)] bus_invD(2) [OF inv, of i] assms(4)
    by (auto simp: Let_def deliver_normal_def enqueue_def queue_full_def QUEUE_MAXSIZE_def)
qed

theorem normal_never_removes_witness:
  "let b = bus_run [Subscribe 0, Publish 1 (\<lambda>_. True) (SseCycleStarted 1 4)];
       b' = publish 2 (\<lambda>_. True) (SseLoginSucceeded 2) b
   in b_live b' = [0] \<and> s_queue (b_subs b' ! 0) = [SseCycleStarted 1 4, SseLoginSucceeded 2]"
proof -
  let ?ops = "[Subscribe 0, Publish 1 (\<lambda>_. True) (SseCycleStarted 1 4)]"
  have b: "b_live (bus_run ?ops) = [0]" "b_subs (bus_run ?ops) =
      [\<lparr>s_queue = [SseCycleStarted 1 4], s_alive = True, s_taken = []\<rparr>]"
    by (simp_all add: bus_run_def empty_bus_def subscribe_def publish_def publish_normal_def update_sub_def
        deliver_normal_def queue_full_def enqueue_def QUEUE_MAXSIZE_def)
  have "event_priority (SseLoginSucceeded 2) = Normal" by simp
  from normal_never_removes [OF refl this refl, of 0 ?ops 2 "\<lambda>_. True"]
  show ?thesis by (simp add: b Let_def)
qed

text \<open>
  A new subscriber's queue holds exactly the replay slots younger than 30 seconds, in slot
  order, at most one per event type, and the older slots are gone from the bus; the other
  subscribers keep their queues.
\<close>

theorem subscribe_replays_fresh:
  assumes "b = bus_run ops" "subscribe now b = (b', i)"
  shows "i \<in> set (b_live b') \<and> i \<notin> set (b_live b)
    \<and> s_queue (b_subs b' ! i) =
        map (\<lambda>x. fst (snd x)) (filter (\<lambda>x. now - snd (snd x) < 30 * 1000000) (b_normal b))
    \<and> b_normal b' = filter (\<lambda>x. now - snd (snd x) < 30 * 1000000) (b_normal b)
    \<and> distinct (map event_name (s_queue (b_subs b' ! i)))
    \<and> (\<forall>j. j < length (b_subs b) \<longrightarrow> b_subs b' ! j = b_subs b ! j)"
proof -
  let ?fresh = "filter (\<lambda>x. now - snd (snd x) < REPLAY_TTL) (b_normal b)"
  have inv: "bus_inv b" unfolding assms(1) by (rule bus_run_inv)
  have keys: "map event_name (map (\<lambda>x. fst (snd x)) ?fresh) = map fst ?fresh"
    using bus_invD(5) [OF inv] by simp
  have "distinct (map fst ?fresh)" using bus_invD(4) [OF inv] by (rule distinct_map_filter)
  then have "distinct (map event_name (map (\<lambda>x. fst (snd x)) ?fresh))" by (simp only: keys)
  moreover have "length (b_subs b) \<notin> set (b_live b)" using bus_invD(2) [OF inv] by blast
  ultimately show ?thesis
    using assms(2) by (auto simp: subscribe_spec [OF inv] Let_def REPLAY_TTL_def nth_append)
qed

theorem subscribe_replays_fresh_witness:
  "let b = bus_run [Publish 1 (\<lambda>_. True) (SseCycleStarted 1 4)]
   in s_queue (b_subs (fst (subscribe 2 b)) ! snd (subscribe 2 b)) = [SseCycleStarted 1 4]"
proof -
  let ?b = "bus_run [Publish 1 (\<lambda>_. True) (SseCycleStarted 1 4)]"
  have "b_normal ?b = [(''cycle.started'', SseCycleStarted 1 4, 1)]"
    by (simp add: bus_run_def empty_bus_def publish_def publish_normal_def)
  then show ?thesis
    using subscribe_replays_fresh [OF refl prod.collapse [symmetric], of 2 "[Publish 1 (\<lambda>_. True) (SseCycleStarted 1 4)]"]
    by (simp add: Let_def)
qed

text \<open>
  Overflow by normal events evicts the oldest entry whatever its kind: a critical event
  waiting at the head of a full queue is lost to the subscriber when a normal event is
  published, although the critical publication had succeeded.
\<close>

theorem normal_overflow_evicts_critical:
  assumes "b = bus_run ops" "i \<in> set (b_live b)" "s_queue (b_subs b ! i) = c # q" "length q = 99"
    and "event_priority c = Critical" "event_priority e = Normal" "c \<notin> set q"
    and "c \<notin> set (s_taken (b_subs b ! i))"
  shows "c \<notin> set (s_taken (b_subs (publish mt dr e b) ! i) @ s_queue (b_subs (publish mt dr e b) ! i))
    \<and> s_alive (b_subs (publish mt dr e b) ! i)"
proof -
  have inv: "bus_inv b" unfolding assms(1) by (rule bus_run_inv)
  have i: "i < length (b_subs b)" "s_alive (b_subs b ! i)" using bus_invD(2) [OF inv] assms(2) by auto
  have "b_subs (publish mt dr e b) ! i = deliver_normal e (b_subs b ! i)"
    using publish_normal_spec(5) [OF inv i(1)] assms(6) by (simp add: publish_def)
  then show ?thesis
    using i assms by (auto simp: deliver_normal_def enqueue_def queue_full_def QUEUE_MAXSIZE_def)
qed

theorem normal_overflow_evicts_critical_witness:
  "SseSessionExpired 1 \<notin> set (s_queue (b_subs
     (publish 3 (\<lambda>_. True) (SseLoginSucceeded 3) (bus_run (filling_ops 99))) ! 0))"
proof -
  have b: "0 \<in> set (b_live (bus_run (filling_ops 99)))"
    "s_queue (b_subs (bus_run (filling_ops 99)) ! 0) = SseSessionExpired 1 # replicate 99 (SseCycleStarted 2 4)"
    "s_taken (b_subs (bus_run (filling_ops 99)) ! 0) = []"
    using filling_run [of 99] by simp_all
  show ?thesis
    using normal_overflow_evicts_critical [OF refl b(1,2), of "SseLoginSucceeded 3"] b(3) by simp
qed

end
