(* ===== verification/Fetcher.thy ===== *)
theory Fetcher
  imports Domain
begin

text \<open>
  Fetching list pages: the retrying HTTP client (\<^verbatim>\<open>infra/http/client.py\<close>), the URL builder
  (\<^verbatim>\<open>infra/http/url_builder.py\<close>) and the paginated walk
  (\<^verbatim>\<open>services/paginated_list_fetcher.py\<close>).

  The HTTP library is the parameter \<open>wire\<close> (what each attempt meets), and the HTML parser the
  parameter \<open>fe_parse\<close>. The walk is a generator: it is modelled by the sequence of items it
  produces (callback calls and rows) together with why it ended; a caller that stops early
  uses a prefix of the items. What the caller can see of the end is only whether the
  generator raised.
\<close>

subsection \<open>HTTP client\<close>

datatype wire_answer = Answer http_response | Transient | Fatal

definition RETRY_ATTEMPTS :: nat where "RETRY_ATTEMPTS = 3"
definition HTTP_BACKOFF :: "rat list" where "HTTP_BACKOFF = [1, 2]"

definition should_retry :: "int \<Rightarrow> bool" where
  "should_retry status_code \<longleftrightarrow> (500 \<le> status_code \<and> status_code < 600) \<or> status_code = 429"

definition sleep_after :: "nat \<Rightarrow> rat list" where
  "sleep_after attempt_no = (if attempt_no < RETRY_ATTEMPTS - 1 then [HTTP_BACKOFF ! attempt_no] else [])"

text \<open>
  The loop with \<open>n\<close> attempts left: the result, the sleeps and the number of requests made.
\<close>

fun http_loop ::
  "(nat \<Rightarrow> wire_answer) \<Rightarrow> nat \<Rightarrow> nat \<Rightarrow> http_response option \<Rightarrow> exc option \<Rightarrow>
   http_response res \<times> rat list \<times> nat" where
  "http_loop wire attempt_no 0 last_response last_exception =
     (case last_response of
        Some resp \<Rightarrow> (Inr resp, [], attempt_no)
      | None \<Rightarrow>
          (case last_exception of
             Some e \<Rightarrow> (Inl e, [], attempt_no)
           | None \<Rightarrow> (Inl RuntimeError, [], attempt_no)))"
| "http_loop wire attempt_no (Suc n) last_response last_exception =
     (case wire attempt_no of
        Answer resp \<Rightarrow>
          (if should_retry (resp_status resp)
           then (let (r, sleeps, k) = http_loop wire (Suc attempt_no) n (Some resp) last_exception
                 in (r, sleep_after attempt_no @ sleeps, k))
           else (Inr resp, [], Suc attempt_no))
      | Transient \<Rightarrow>
          (let (r, sleeps, k) = http_loop wire (Suc attempt_no) n last_response (Some RequestException)
           in (r, sleep_after attempt_no @ sleeps, k))
      | Fatal \<Rightarrow> (Inl RequestException, [], Suc attempt_no))"

definition http_get :: "(nat \<Rightarrow> wire_answer) \<Rightarrow> http_response res \<times> rat list \<times> nat" where
  "http_get wire = http_loop wire 0 RETRY_ATTEMPTS None None"

subsection \<open>URLs\<close>

definition DEFAULT_LIST_SORT :: string where "DEFAULT_LIST_SORT = ''-DATE_CREATE''"

definition lot_list_url :: "string \<Rightarrow> int \<Rightarrow> string \<Rightarrow> int \<Rightarrow> int option \<Rightarrow> string res" where
  "lot_list_url base_url region sort_by page per_page =
     (if (case per_page of None \<Rightarrow> False | Some n \<Rightarrow> n \<le> 0) then Inl ValueError
      else Inr
        (base_url @ ''/cabinet/free-lot'' @ ''?region='' @ str_of_int region
         @ ''&use_filter_pocket=1&sort='' @ sort_by
         @ (case per_page of None \<Rightarrow> [] | Some n \<Rightarrow> ''&per-page='' @ str_of_int n)
         @ (if page > 1 then ''&page='' @ str_of_int page else [])))"

definition lot_detail_url :: "string \<Rightarrow> int \<Rightarrow> string" where
  "lot_detail_url base_url i = base_url @ ''/cabinet/free-lot-view?id='' @ str_of_int i"

subsection \<open>The paginated walk\<close>

record fetch_env =
  fe_get :: "nat \<Rightarrow> http_response res"
  fe_parse :: "string \<Rightarrow> parsed_list_page res"
  fe_stop :: "nat \<Rightarrow> bool"
  fe_wait :: "nat \<Rightarrow> bool"

text \<open>
  \<open>fe_get\<close> answers the request for a page number; \<open>fe_stop\<close> and \<open>fe_wait\<close> are the readings
  of the stop event before a page and during the pause after it, by pages walked so far.
\<close>

datatype walk_item = Total_callback int | Page_callback nat nat | Row parsed_list_row

datatype walk_end =
    End_stop | End_limit | End_network | End_parse | End_empty | End_max | Raised exc

definition PAGE_LIMIT :: nat where "PAGE_LIMIT = 1000"

definition is_parse_bug :: "exc \<Rightarrow> bool" where
  "is_parse_bug e = (case e of ParseBugError _ _ \<Rightarrow> True | _ \<Rightarrow> False)"

function walk ::
  "fetch_env \<Rightarrow> nat option \<Rightarrow> bool \<Rightarrow> bool \<Rightarrow> nat \<Rightarrow> nat \<Rightarrow> walk_item list \<times> walk_end" where
  "walk env max_pages raise_net raise_parse page walked =
     (if fe_stop env walked then ([], End_stop)
      else if page > PAGE_LIMIT then ([], End_limit)
      else case fe_get env page of
             Inl e \<Rightarrow> ([], if raise_net then Raised e else End_network)
           | Inr response \<Rightarrow>
               (if 300 \<le> resp_status response \<and> resp_status response < 400
                then ([], Raised SessionExpiredError)
                else case fe_parse env (resp_text response) of
                       Inl e \<Rightarrow>
                         ([], if e = SessionExpiredError \<or> (is_parse_bug e \<and> raise_parse)
                              then Raised e else End_parse)
                     | Inr parsed_page \<Rightarrow>
                         (let rows = page_rows parsed_page;
                              total = (case page_total_count parsed_page of
                                         None \<Rightarrow> [] | Some n \<Rightarrow> [Total_callback n])
                          in if rows = [] then (total, End_empty)
                             else let here = total @ Page_callback page (length rows) # map Row rows
                                  in if max_pages \<noteq> None \<and> the max_pages \<le> Suc walked
                                     then (here, End_max)
                                     else if fe_wait env walked then (here, End_stop)
                                     else let (more, why) =
                                            walk env max_pages raise_net raise_parse (Suc page) (Suc walked)
                                          in (here @ more, why))))"
  by pat_completeness auto
termination
  by (relation "measure (\<lambda>(env, mp, rn, rp, page, walked). Suc PAGE_LIMIT - page)") auto

declare walk.simps [simp del]

definition iterate ::
  "fetch_env \<Rightarrow> nat option \<Rightarrow> int \<Rightarrow> bool \<Rightarrow> bool \<Rightarrow> walk_item list \<times> walk_end" where
  "iterate env max_pages page_start raise_net raise_parse =
     walk env max_pages raise_net raise_parse (if page_start \<ge> 1 then nat page_start else 1) 0"

fun rows_of :: "walk_item list \<Rightarrow> parsed_list_row list" where
  "rows_of [] = []"
| "rows_of (Row r # items) = r # rows_of items"
| "rows_of (_ # items) = rows_of items"

fun pages_of :: "walk_item list \<Rightarrow> nat list" where
  "pages_of [] = []"
| "pages_of (Page_callback p n # items) = p # pages_of items"
| "pages_of (_ # items) = pages_of items"

lemma rows_of_append [simp]: "rows_of (xs @ ys) = rows_of xs @ rows_of ys"
  by (induction xs rule: rows_of.induct) auto

lemma pages_of_append [simp]: "pages_of (xs @ ys) = pages_of xs @ pages_of ys"
  by (induction xs rule: pages_of.induct) auto

lemma rows_of_map_Row [simp]: "rows_of (map Row rs) = rs"
  by (induction rs) auto

lemma pages_of_map_Row [simp]: "pages_of (map Row rs) = []"
  by (induction rs) auto

text \<open>What the site's pages hold: the rows a healthy request for a page gives.\<close>

definition page_ok :: "fetch_env \<Rightarrow> nat \<Rightarrow> parsed_list_row list \<Rightarrow> bool" where
  "page_ok env p rows \<longleftrightarrow>
     (\<exists>resp pg. fe_get env p = Inr resp \<and> \<not> (300 \<le> resp_status resp \<and> resp_status resp < 400)
        \<and> fe_parse env (resp_text resp) = Inr pg \<and> page_rows pg = rows)"

text \<open>A page whose request or parse fails with something the walk may swallow.\<close>

definition page_fails :: "fetch_env \<Rightarrow> nat \<Rightarrow> bool" where
  "page_fails env p \<longleftrightarrow>
     (\<exists>e. fe_get env p = Inl e)
     \<or> (\<exists>resp e. fe_get env p = Inr resp \<and> \<not> (300 \<le> resp_status resp \<and> resp_status resp < 400)
          \<and> fe_parse env (resp_text resp) = Inl e \<and> e \<noteq> SessionExpiredError)"

definition never_stopped :: "fetch_env \<Rightarrow> bool" where
  "never_stopped env \<longleftrightarrow> (\<forall>n. \<not> fe_stop env n \<and> \<not> fe_wait env n)"

lemma walk_page_ok:
  assumes "page_ok env p rows" "rows \<noteq> []" "never_stopped env" "p \<le> PAGE_LIMIT"
  shows "\<exists>items. rows_of items = rows \<and> pages_of items = [p]
    \<and> walk env None rn rp p w =
        (items @ fst (walk env None rn rp (Suc p) (Suc w)), snd (walk env None rn rp (Suc p) (Suc w)))"
proof -
  obtain resp pg where *: "fe_get env p = Inr resp" "\<not> (300 \<le> resp_status resp \<and> resp_status resp < 400)"
    "fe_parse env (resp_text resp) = Inr pg" "page_rows pg = rows"
    using assms(1) by (auto simp: page_ok_def)
  let ?items = "(case page_total_count pg of None \<Rightarrow> [] | Some n \<Rightarrow> [Total_callback n])
      @ Page_callback p (length rows) # map Row rows"
  have "rows_of ?items = rows" "pages_of ?items = [p]" by (simp_all split: option.splits)
  moreover have "walk env None rn rp p w =
      (?items @ fst (walk env None rn rp (Suc p) (Suc w)), snd (walk env None rn rp (Suc p) (Suc w)))"
    using * assms(2-) by (subst walk.simps) (auto simp: never_stopped_def Let_def case_prod_beta)
  ultimately show ?thesis by blast
qed

lemma walk_page_empty:
  assumes "page_ok env p []" "never_stopped env" "p \<le> PAGE_LIMIT"
  shows "rows_of (fst (walk env None rn rp p w)) = [] \<and> pages_of (fst (walk env None rn rp p w)) = []
    \<and> snd (walk env None rn rp p w) = End_empty"
  using assms by (subst (1 2 3) walk.simps)
    (auto simp: page_ok_def never_stopped_def Let_def split: option.splits)

lemma walk_page_fails:
  assumes "page_fails env p" "never_stopped env" "p \<le> PAGE_LIMIT"
  shows "fst (walk env mp False False p w) = [] \<and>
    (snd (walk env mp False False p w) = End_network \<or> snd (walk env mp False False p w) = End_parse)"
  using assms by (subst (1 2 3) walk.simps) (auto simp: page_fails_def never_stopped_def)

text \<open>A run of good pages, then whatever the next page does.\<close>

lemma walk_good_pages:
  assumes "\<forall>i < n. page_ok env (p + i) (rows i) \<and> rows i \<noteq> []" "never_stopped env"
    and "p + n \<le> Suc PAGE_LIMIT"
  shows "rows_of (fst (walk env None rn rp p w)) =
      concat (map rows [0..<n]) @ rows_of (fst (walk env None rn rp (p + n) (w + n)))
    \<and> snd (walk env None rn rp p w) = snd (walk env None rn rp (p + n) (w + n))"
  using assms
proof (induction n)
  case (Suc n)
  then have IH: "rows_of (fst (walk env None rn rp p w)) =
      concat (map rows [0..<n]) @ rows_of (fst (walk env None rn rp (p + n) (w + n)))"
    "snd (walk env None rn rp p w) = snd (walk env None rn rp (p + n) (w + n))" by simp_all
  have "page_ok env (p + n) (rows n)" "rows n \<noteq> []" "p + n \<le> PAGE_LIMIT" using Suc.prems by auto
  from walk_page_ok [OF this(1,2) Suc.prems(2) this(3), of rn rp "w + n"] IH show ?case by auto
qed simp

text \<open>
  The same loop one iteration at a time, with the request it makes: the page asked for, if the
  iteration gets that far, the items it yields, and either the end of the walk or the page
  number and the count of pages of the next iteration.
\<close>

definition walk_step ::
  "fetch_env \<Rightarrow> nat option \<Rightarrow> bool \<Rightarrow> bool \<Rightarrow> nat \<Rightarrow> nat \<Rightarrow>
   nat list \<times> walk_item list \<times> (walk_end + nat \<times> nat)" where
  "walk_step env max_pages raise_net raise_parse page walked =
     (if fe_stop env walked then ([], [], Inl End_stop)
      else if page > PAGE_LIMIT then ([], [], Inl End_limit)
      else case fe_get env page of
             Inl e \<Rightarrow> ([page], [], Inl (if raise_net then Raised e else End_network))
           | Inr response \<Rightarrow>
               (if 300 \<le> resp_status response \<and> resp_status response < 400
                then ([page], [], Inl (Raised SessionExpiredError))
                else case fe_parse env (resp_text response) of
                       Inl e \<Rightarrow>
                         ([page], [], Inl (if e = SessionExpiredError \<or> (is_parse_bug e \<and> raise_parse)
                                           then Raised e else End_parse))
                     | Inr parsed_page \<Rightarrow>
                         (let rows = page_rows parsed_page;
                              total = (case page_total_count parsed_page of
                                         None \<Rightarrow> [] | Some n \<Rightarrow> [Total_callback n])
                          in if rows = [] then ([page], total, Inl End_empty)
                             else let here = total @ Page_callback page (length rows) # map Row rows
                                  in if max_pages \<noteq> None \<and> the max_pages \<le> Suc walked
                                     then ([page], here, Inl End_max)
                                     else if fe_wait env walked then ([page], here, Inl End_stop)
                                     else ([page], here, Inr (Suc page, Suc walked)))))"

text \<open>At most \<open>n\<close> iterations: \<^verbatim>\<open>None\<close> if the walk has not ended by then.\<close>

fun walk_run ::
  "nat \<Rightarrow> fetch_env \<Rightarrow> nat option \<Rightarrow> bool \<Rightarrow> bool \<Rightarrow> nat \<Rightarrow> nat \<Rightarrow>
   (nat list \<times> walk_item list \<times> walk_end) option" where
  "walk_run 0 env max_pages raise_net raise_parse page walked = None"
| "walk_run (Suc n) env max_pages raise_net raise_parse page walked =
     (case walk_step env max_pages raise_net raise_parse page walked of
        (asked, items, Inl why) \<Rightarrow> Some (asked, items, why)
      | (asked, items, Inr (page', walked')) \<Rightarrow>
          (case walk_run n env max_pages raise_net raise_parse page' walked' of
             None \<Rightarrow> None
           | Some (asked', items', why) \<Rightarrow> Some (asked @ asked', items @ items', why)))"

lemma walk_by_steps:
  "walk env mp rn rp p w =
     (case walk_step env mp rn rp p w of
        (_, items, Inl why) \<Rightarrow> (items, why)
      | (_, items, Inr (p', w')) \<Rightarrow>
          (items @ fst (walk env mp rn rp p' w'), snd (walk env mp rn rp p' w')))"
  by (subst walk.simps)
    (simp add: walk_step_def Let_def case_prod_beta split: sum.split)

lemma walk_step_next:
  "walk_step env mp rn rp p w = (asked, items, next) \<Longrightarrow>
     (asked = [] \<and> pages_of items = [] \<and> (\<exists>why. next = Inl why)
      \<or> asked = [p] \<and> p \<le> PAGE_LIMIT \<and> set (pages_of items) \<subseteq> {p})
     \<and> (\<forall>p' w'. next = Inr (p', w') \<longrightarrow> p' = Suc p \<and> w' = Suc w \<and> p \<le> PAGE_LIMIT
          \<and> (mp \<noteq> None \<longrightarrow> Suc w < the mp))"
  by (auto simp: walk_step_def Let_def split: if_splits sum.splits option.splits)

lemma walk_run_ends:
  assumes "Suc PAGE_LIMIT - p < n"
  shows "\<exists>asked. walk_run n env mp rn rp p w = Some (asked, fst (walk env mp rn rp p w), snd (walk env mp rn rp p w))
     \<and> sorted_wrt (<) asked \<and> (\<forall>q \<in> set asked. p \<le> q \<and> q \<le> PAGE_LIMIT)
     \<and> (mp \<noteq> None \<longrightarrow> length asked \<le> max 1 (the mp - w))
     \<and> set (pages_of (fst (walk env mp rn rp p w))) \<subseteq> set asked"
  using assms
proof (induction n arbitrary: p w)
  case (Suc n)
  obtain asked items "next" where st: "walk_step env mp rn rp p w = (asked, items, next)" by (metis prod.exhaust)
  note nx = walk_step_next [OF st]
  show ?case
  proof (cases "next")
    case (Inl why)
    then have "walk env mp rn rp p w = (items, why)"
      "walk_run (Suc n) env mp rn rp p w = Some (asked, items, why)"
      by (simp_all add: walk_by_steps [of env mp rn rp p w] st)
    with nx show ?thesis by auto
  next
    case (Inr b)
    with nx have b: "next = Inr (Suc p, Suc w)" "p \<le> PAGE_LIMIT" "mp \<noteq> None \<longrightarrow> Suc w < the mp"
      and here: "asked = [p]" "set (pages_of items) \<subseteq> {p}" by (cases b; auto)+
    have "Suc PAGE_LIMIT - Suc p < n" using Suc.prems b(2) by simp
    from Suc.IH [OF this, of "Suc w"] obtain more where
      m: "walk_run n env mp rn rp (Suc p) (Suc w) =
        Some (more, fst (walk env mp rn rp (Suc p) (Suc w)), snd (walk env mp rn rp (Suc p) (Suc w)))"
        "sorted_wrt (<) more" "\<forall>q \<in> set more. Suc p \<le> q \<and> q \<le> PAGE_LIMIT"
        "mp \<noteq> None \<longrightarrow> length more \<le> max 1 (the mp - Suc w)"
        "set (pages_of (fst (walk env mp rn rp (Suc p) (Suc w)))) \<subseteq> set more" by blast
    have w: "walk env mp rn rp p w =
        (items @ fst (walk env mp rn rp (Suc p) (Suc w)), snd (walk env mp rn rp (Suc p) (Suc w)))"
      by (subst walk_by_steps) (simp add: st b(1))
    have "walk_run (Suc n) env mp rn rp p w = Some (p # more, fst (walk env mp rn rp p w), snd (walk env mp rn rp p w))"
      by (simp add: st b(1) m(1) w here(1) case_prod_beta)
    moreover have "length (p # more) \<le> max 1 (the mp - w)" if "mp \<noteq> None"
      using that b(3) m(4) by auto
    moreover have "set (pages_of (fst (walk env mp rn rp p w))) \<subseteq> set (p # more)"
      using here(2) m(5) by (auto simp: w)
    ultimately show ?thesis
      using m(2,3) b(2) by (intro exI [of _ "p # more"]) (auto dest: Suc_leD)
  qed
qed simp

text \<open>A catalogue of one page with one row, for concrete instances.\<close>

definition demo_fetch :: fetch_env where
  "demo_fetch =
     \<lparr>fe_get = (\<lambda>p. Inr \<lparr>resp_status = 200, resp_text = replicate p CHR ''x'', resp_final_url = []\<rparr>),
      fe_parse = (\<lambda>t. Inr \<lparr>page_rows = (if length t = 1 then [sample_row 7] else []), page_total_count = None\<rparr>),
      fe_stop = (\<lambda>_. False), fe_wait = (\<lambda>_. False)\<rparr>"

subsection \<open>The client's retry loop\<close>

lemma http_loop_bounds:
  "snd (snd (http_loop wire k n lr le)) \<le> k + n"
  "k + n = RETRY_ATTEMPTS \<Longrightarrow> length (fst (snd (http_loop wire k n lr le))) \<le> RETRY_ATTEMPTS - 1 - k"
proof -
  show "snd (snd (http_loop wire k n lr le)) \<le> k + n"
    by (induction wire k n lr le rule: http_loop.induct)
      (auto simp: Let_def case_prod_beta split: wire_answer.splits option.splits)
  show "length (fst (snd (http_loop wire k n lr le))) \<le> RETRY_ATTEMPTS - 1 - k"
    if "k + n = RETRY_ATTEMPTS" using that
    by (induction wire k n lr le rule: http_loop.induct)
      (auto simp: Let_def case_prod_beta sleep_after_def RETRY_ATTEMPTS_def
        split: wire_answer.splits option.splits)
qed

subsection \<open>Properties\<close>

text \<open>
  The HTTP client makes one to three requests and sleeps at most twice. Its answer is
  the first response that is neither 5xx nor 429, if one of the three attempts gives it
  before a fatal error; when no attempt does and none is fatal, it is the last 5xx or 429
  response, even if a later attempt timed out, and only without any response the
  exception.
\<close>

theorem http_get_result:
  "1 \<le> snd (snd (http_get wire)) \<and> snd (snd (http_get wire)) \<le> 3
   \<and> length (fst (snd (http_get wire))) \<le> 2
   \<and> (\<forall>i resp. i < 3 \<and> wire i = Answer resp \<and> \<not> should_retry (resp_status resp)
        \<and> (\<forall>j. j < i \<longrightarrow> wire j \<noteq> Fatal \<and> (\<forall>r. wire j = Answer r \<longrightarrow> should_retry (resp_status r)))
        \<longrightarrow> fst (http_get wire) = Inr resp \<and> snd (snd (http_get wire)) = Suc i)
   \<and> ((\<forall>j. j < 3 \<longrightarrow> wire j \<noteq> Fatal \<and> (\<forall>r. wire j = Answer r \<longrightarrow> should_retry (resp_status r)))
        \<longrightarrow> fst (http_get wire) =
              (case wire 2 of Answer r \<Rightarrow> Inr r
               | _ \<Rightarrow> (case wire 1 of Answer r \<Rightarrow> Inr r
                       | _ \<Rightarrow> (case wire 0 of Answer r \<Rightarrow> Inr r | _ \<Rightarrow> Inl RequestException))))"
proof -
  have l: "j < 3 \<longleftrightarrow> j = 0 \<or> j = 1 \<or> j = 2" for j :: nat by auto
  have "snd (snd (http_get wire)) \<le> 3" "length (fst (snd (http_get wire))) \<le> 2"
    using http_loop_bounds(1) [of wire 0 RETRY_ATTEMPTS None None]
      http_loop_bounds(2) [of 0 RETRY_ATTEMPTS wire None None]
    by (simp_all add: http_get_def RETRY_ATTEMPTS_def)
  moreover have "1 \<le> snd (snd (http_get wire))"
    by (simp add: http_get_def RETRY_ATTEMPTS_def numeral_3_eq_3 Let_def case_prod_beta
        split: wire_answer.splits)
  moreover have "fst (http_get wire) = Inr resp \<and> snd (snd (http_get wire)) = Suc i"
    if "i < 3" "wire i = Answer resp" "\<not> should_retry (resp_status resp)"
      "\<forall>j. j < i \<longrightarrow> wire j \<noteq> Fatal \<and> (\<forall>r. wire j = Answer r \<longrightarrow> should_retry (resp_status r))" for i resp
  proof -
    have before: "(\<exists>r. wire j = Answer r \<and> should_retry (resp_status r)) \<or> wire j = Transient" if "j < i" for j
      using that that(1) \<open>\<forall>j. j < i \<longrightarrow> _\<close> by (cases "wire j") auto
    from \<open>i < 3\<close> consider "i = 0" | "i = 1" | "i = 2" by linarith
    then show ?thesis
    proof cases
      case 1
      with that show ?thesis by (simp add: http_get_def RETRY_ATTEMPTS_def numeral_3_eq_3)
    next
      case 2
      with that before [of 0] show ?thesis
        by (auto simp: http_get_def RETRY_ATTEMPTS_def numeral_3_eq_3 Let_def)
    next
      case 3
      with that before [of 0] before [of 1] show ?thesis
        by (auto simp: http_get_def RETRY_ATTEMPTS_def numeral_3_eq_3 numeral_2_eq_2 Let_def)
    qed
  qed
  moreover have "fst (http_get wire) =
              (case wire 2 of Answer r \<Rightarrow> Inr r
               | _ \<Rightarrow> (case wire 1 of Answer r \<Rightarrow> Inr r
                       | _ \<Rightarrow> (case wire 0 of Answer r \<Rightarrow> Inr r | _ \<Rightarrow> Inl RequestException)))"
    if "\<forall>j. j < 3 \<longrightarrow> wire j \<noteq> Fatal \<and> (\<forall>r. wire j = Answer r \<longrightarrow> should_retry (resp_status r))"
    using that unfolding l
    by (cases "wire 0"; cases "wire 1"; cases "wire 2")
      (auto simp: http_get_def RETRY_ATTEMPTS_def numeral_3_eq_3 numeral_2_eq_2 Let_def)
  ultimately show ?thesis by blast
qed

theorem http_get_result_witness:
  "let ok = \<lparr>resp_status = 200, resp_text = ''page'', resp_final_url = ''u''\<rparr>
   in fst (http_get (\<lambda>n. if n = 0 then Transient else Answer ok)) = Inr ok"
proof -
  let ?ok = "\<lparr>resp_status = 200, resp_text = ''page'', resp_final_url = ''u''\<rparr>"
  let ?w = "\<lambda>n :: nat. if n = 0 then Transient else Answer ?ok"
  have "(1 :: nat) < 3 \<and> ?w 1 = Answer ?ok \<and> \<not> should_retry (resp_status ?ok)
    \<and> (\<forall>j. j < 1 \<longrightarrow> ?w j \<noteq> Fatal \<and> (\<forall>r. ?w j = Answer r \<longrightarrow> should_retry (resp_status r)))"
    by (simp add: should_retry_def)
  then have "fst (http_get ?w) = Inr ?ok" using http_get_result [of ?w] by blast
  then show ?thesis by (simp add: Let_def)
qed

text \<open>
  A walk over a catalogue of \<open>n\<close> non-empty pages followed by an empty one, without
  shutdown and without a page limit, yields every row of every page, in order, and ends
  because the catalogue ended.
\<close>

theorem walk_complete:
  assumes "\<forall>i < n. page_ok env (Suc i) (rows i) \<and> rows i \<noteq> []" "page_ok env (Suc n) []"
    and "never_stopped env" "n < 1000"
  shows "rows_of (fst (iterate env None 1 rn rp)) = concat (map rows [0..<n])
    \<and> snd (iterate env None 1 rn rp) = End_empty"
proof -
  have "\<forall>i < n. page_ok env (1 + i) (rows i) \<and> rows i \<noteq> []" using assms(1) by simp
  from walk_good_pages [OF this assms(3), of rn rp 0] walk_page_empty [of env "Suc n" rn rp n] assms
  show ?thesis by (simp add: iterate_def PAGE_LIMIT_def)
qed

theorem walk_complete_witness:
  "rows_of (fst (iterate demo_fetch None 1 False False)) = [sample_row 7]"
proof -
  have "\<forall>i < 1. page_ok demo_fetch (Suc i) [sample_row 7] \<and> [sample_row 7] \<noteq> []"
    "page_ok demo_fetch (Suc 1) []" "never_stopped demo_fetch"
    by (simp_all add: page_ok_def never_stopped_def demo_fetch_def)
  from walk_complete [OF this(1,2,3), of False False] show ?thesis by simp
qed

text \<open>
  C34. Every walk ends, within 1001 iterations of its loop, whatever the site answers and the
  stop event does. It asks the client for at most 1000 pages, counting the empty and the
  failing ones, each at most once, in increasing order and none past page 1000; with a limit
  \<^verbatim>\<open>max_pages\<close> it asks for at most that many, or for one if the limit is below one; and every
  page it reports was asked for.
\<close>

theorem walk_terminates_bounded:
  "\<exists>asked. walk_run 1001 env max_pages rn rp (if page_start \<ge> 1 then nat page_start else 1) 0 =
       Some (asked, iterate env max_pages page_start rn rp)
     \<and> length asked \<le> 1000 \<and> sorted_wrt (<) asked \<and> (\<forall>page \<in> set asked. 1 \<le> page \<and> page \<le> 1000)
     \<and> (max_pages \<noteq> None \<longrightarrow> length asked \<le> max 1 (the max_pages))
     \<and> set (pages_of (fst (iterate env max_pages page_start rn rp))) \<subseteq> set asked"
proof -
  let ?p = "if page_start \<ge> 1 then nat page_start else 1"
  have p: "1 \<le> ?p" by auto
  then have "Suc PAGE_LIMIT - ?p < 1001" by (simp add: PAGE_LIMIT_def)
  from walk_run_ends [OF this, of env max_pages rn rp 0] obtain asked where
    a: "walk_run 1001 env max_pages rn rp ?p 0 = Some (asked, iterate env max_pages page_start rn rp)"
      "sorted_wrt (<) asked" "\<forall>q \<in> set asked. ?p \<le> q \<and> q \<le> PAGE_LIMIT"
      "max_pages \<noteq> None \<longrightarrow> length asked \<le> max 1 (the max_pages)"
      "set (pages_of (fst (iterate env max_pages page_start rn rp))) \<subseteq> set asked"
    by (auto simp: iterate_def)
  have "set asked \<subseteq> {1..1000}" using a(3) p by (fastforce simp: PAGE_LIMIT_def)
  moreover have "distinct asked" using a(2) by (simp add: strict_sorted_iff)
  ultimately have "length asked \<le> 1000"
    using card_mono [of "{1..1000::nat}" "set asked"] by (simp add: distinct_card)
  with a \<open>set asked \<subseteq> {1..1000}\<close> show ?thesis by (intro exI [of _ asked]) auto
qed

theorem walk_terminates_bounded_witness:
  "\<exists>asked. walk_run 1001 demo_fetch (Some 5) False False 1 0 = Some (asked, iterate demo_fetch (Some 5) 1 False False)
     \<and> asked = [1, 2] \<and> pages_of (fst (iterate demo_fetch (Some 5) 1 False False)) = [1]"
proof -
  obtain asked where run: "walk_run 1001 demo_fetch (Some 5) False False 1 0 =
      Some (asked, iterate demo_fetch (Some 5) 1 False False)"
    using walk_terminates_bounded [of demo_fetch "Some 5" False False 1] by auto
  have "walk_step demo_fetch (Some 5) False False 1 0 = ([1], [Page_callback 1 1, Row (sample_row 7)], Inr (2, 1))"
    "walk_step demo_fetch (Some 5) False False 2 1 = ([2], [], Inl End_empty)"
    by (simp_all add: walk_step_def demo_fetch_def PAGE_LIMIT_def)
  then have "walk_run (Suc (Suc 999)) demo_fetch (Some 5) False False 1 0 =
      Some ([1, 2], [Page_callback 1 1, Row (sample_row 7)], End_empty)"
    by (simp only: walk_run.simps prod.case sum.case option.case append.simps)
  moreover have "Suc (Suc 999) = (1001 :: nat)" by simp
  ultimately have "walk_run 1001 demo_fetch (Some 5) False False 1 0 =
      Some ([1, 2], [Page_callback 1 1, Row (sample_row 7)], End_empty)" by metis
  with run show ?thesis by simp
qed

end
