(* ===== verification/Full_Scan.thy ===== *)
theory Full_Scan
  imports Lot_Repo Fetcher
begin

text \<open>
  The daily removal scan (\<^verbatim>\<open>services/full_scan.py\<close>): when it runs next, how it collects
  the ids on the listing, and how it walks the active lots in batches, marking each as seen
  or inactive. The time zone is a parameter: \<open>to_wall\<close> and \<open>of_wall\<close> convert between UTC and
  wall-clock time.
\<close>

subsection \<open>Schedule\<close>

text \<open>\<^verbatim>\<open>s.split(":", 1)\<close> followed by the two \<^verbatim>\<open>int\<close> calls; a missing colon fails to unpack.\<close>

fun split_colon :: "string \<Rightarrow> (string \<times> string) option" where
  "split_colon [] = None"
| "split_colon (c # cs) =
     (if c = CHR '':'' then Some ([], cs)
      else map_option (\<lambda>(a, b). (c # a, b)) (split_colon cs))"

definition parse_hhmm :: "string \<Rightarrow> int \<times> int" where
  "parse_hhmm s =
     (case split_colon s of
        None \<Rightarrow> (4, 0)
      | Some (h, m) \<Rightarrow>
          (case int_of_str h of
             Inl _ \<Rightarrow> (4, 0)
           | Inr hour \<Rightarrow> (case int_of_str m of Inl _ \<Rightarrow> (4, 0) | Inr minute \<Rightarrow> (hour, minute))))"

definition us_per_second :: int where "us_per_second = 1000000"

text \<open>\<^verbatim>\<open>replace(hour=..., minute=...)\<close> rejects values outside the clock.\<close>

definition next_scheduled :: "(time \<Rightarrow> int) \<Rightarrow> (int \<Rightarrow> time) \<Rightarrow> string \<Rightarrow> time \<Rightarrow> time res" where
  "next_scheduled to_wall of_wall full_scan_time now =
     (let (hour, minute) = parse_hhmm full_scan_time;
          now_local = to_wall now
      in if hour < 0 \<or> 23 < hour \<or> minute < 0 \<or> 59 < minute then Inl ValueError
         else let candidate = (now_local div us_per_day) * us_per_day + (hour * 60 + minute) * us_per_minute
              in Inr (of_wall (if candidate \<le> now_local + 5 * us_per_second
                               then candidate + us_per_day else candidate)))"

subsection \<open>Collecting the listing\<close>

record fs_env =
  fz_settings :: settings
  fz_now :: time
  fz_now' :: time
  fz_fetch :: fetch_env
  fz_paginated :: bool
  fz_batch_size :: nat
  fz_stop :: "nat \<Rightarrow> bool"
  fz_wait :: "nat \<Rightarrow> bool"

record fs_state =
  fs_db :: lots_db
  fs_events :: "sse_event list"

definition fetch_region_ids_paginated :: "fs_env \<Rightarrow> fs_state \<Rightarrow> fs_state \<times> (int list \<times> bool) res" where
  "fetch_region_ids_paginated env st =
     (let (items, why) = iterate (fz_fetch env) None 1 False False;
          ids = map row_id (rows_of items)
      in case why of
           Raised e \<Rightarrow>
             (if e = SessionExpiredError
              then (st\<lparr>fs_events := fs_events st @ [SseSessionExpired (fz_now' env)]\<rparr>, Inl e)
              else (st, Inr (ids, False)))
         | _ \<Rightarrow> (st, Inr (ids, True)))"

definition fetch_region_ids_single_page :: "fs_env \<Rightarrow> fs_state \<Rightarrow> fs_state \<times> int list res" where
  "fetch_region_ids_single_page env st =
     (case fe_get (fz_fetch env) 1 of
        Inl _ \<Rightarrow> (st, Inr [])
      | Inr response \<Rightarrow>
          (case fe_parse (fz_fetch env) (resp_text response) of
             Inl e \<Rightarrow>
               (if e = SessionExpiredError
                then (st\<lparr>fs_events := fs_events st @ [SseSessionExpired (fz_now' env)]\<rparr>, Inl e)
                else (st, Inr []))
           | Inr parsed_page \<Rightarrow> (st, Inr (map row_id (page_rows parsed_page)))))"

definition fetch_region_ids :: "fs_env \<Rightarrow> fs_state \<Rightarrow> fs_state \<times> (int list \<times> bool) res" where
  "fetch_region_ids env st =
     (if fz_paginated env then fetch_region_ids_paginated env st
      else (case fetch_region_ids_single_page env st of
              (st', Inl e) \<Rightarrow> (st', Inl e)
            | (st', Inr ids) \<Rightarrow> (st', Inr (ids, True))))"

subsection \<open>The batch loop\<close>

definition FULL_SCAN_REASON :: string where "FULL_SCAN_REASON = ''full_scan_missing''"

text \<open>What one batch does to the database.\<close>

definition mark_batch :: "int list \<Rightarrow> bool \<Rightarrow> time \<Rightarrow> lot list \<Rightarrow> lots_db \<Rightarrow> lots_db" where
  "mark_batch seen_ids enabled now batch db =
     (let seen_in_batch = map lot_id (filter (\<lambda>l. lot_id l \<in> set seen_ids) batch);
          missing_in_batch = map lot_id (filter (\<lambda>l. lot_id l \<notin> set seen_ids) batch);
          db1 = lr_mark_seen seen_in_batch now db
      in if enabled
         then fold (\<lambda>i. lr_mark_inactive i FULL_SCAN_REASON now) missing_in_batch db1
         else db1)"

lemma active_mark_inactive: "length (active_rows (lr_mark_inactive i r t s)) \<le> length (active_rows s)"
proof -
  have "length (filter (\<lambda>r. db_is_active r = 1) (map (\<lambda>x. if db_id x = i
        then x\<lparr>db_is_active := 0, db_inactive_reason := Some r, db_inactive_since := Some t,
               db_inactive_confirmed_at := Some t\<rparr> else x) rs))
      \<le> length (filter (\<lambda>r. db_is_active r = 1) rs)" for rs :: "db_row list"
    by (induction rs) auto
  then show ?thesis by (simp add: active_rows_def lr_mark_inactive_def)
qed

lemma active_mark_seen: "length (active_rows (lr_mark_seen ids t s)) = length (active_rows s)"
proof -
  have "length (filter (\<lambda>r. db_is_active r = 1) (map (\<lambda>x. if db_id x \<in> set ids
        then x\<lparr>db_last_seen := t, db_last_seen_at := Some t\<rparr> else x) rs))
      = length (filter (\<lambda>r. db_is_active r = 1) rs)" for rs :: "db_row list"
    by (induction rs) auto
  then show ?thesis by (simp add: active_rows_def lr_mark_seen_def del: filter_map length_map)
qed

lemma active_mark_inactives:
  "length (active_rows (fold (\<lambda>i. lr_mark_inactive i r now) ids s)) \<le> length (active_rows s)"
proof (induction ids arbitrary: s)
  case (Cons i ids)
  have "length (active_rows (fold (\<lambda>i. lr_mark_inactive i r now) (i # ids) s))
      \<le> length (active_rows (lr_mark_inactive i r now s))"
    using Cons [of "lr_mark_inactive i r now s"] by simp
  also have "\<dots> \<le> length (active_rows s)" by (rule active_mark_inactive)
  finally show ?case .
qed simp

lemma active_mark_batch: "length (active_rows (mark_batch seen en now batch db)) \<le> length (active_rows db)"
  using active_mark_inactives [of FULL_SCAN_REASON now] active_mark_seen
  by (simp add: mark_batch_def Let_def) (metis (no_types))

function process_batches ::
  "fs_env \<Rightarrow> int list \<Rightarrow> bool \<Rightarrow> nat \<Rightarrow> nat \<Rightarrow> lots_db \<Rightarrow> lots_db \<times> unit res" where
  "process_batches env seen_ids enabled offset k db =
     (if fz_stop env k then (db, Inr ())
      else case lr_list_active (fz_batch_size env) offset db of
             Inl e \<Rightarrow> (db, Inl e)
           | Inr batch \<Rightarrow>
               (if batch = [] then (db, Inr ())
                else let db' = mark_batch seen_ids enabled (fz_now env) batch db
                     in if fz_wait env k then (db', Inr ())
                        else process_batches env seen_ids enabled (offset + fz_batch_size env) (Suc k) db'))"
  by pat_completeness auto
termination
proof (relation "measure (\<lambda>(env, seen, en, offset, k, db). length (active_rows db) - offset)", goal_cases)
  case (2 env seen en offset k db batch db')
  have "length batch = length (take (fz_batch_size env) (drop offset (active_rows db)))"
    using 2(2) map_res_InrD unfolding lr_list_active_def by blast
  with 2(3) have "fz_batch_size env > 0" "offset < length (active_rows db)"
    by (cases batch; cases "fz_batch_size env"; force)+
  moreover have "length (active_rows db') \<le> length (active_rows db)"
    using active_mark_batch 2(4) by simp
  ultimately show ?case by simp
qed simp

declare process_batches.simps [simp del]

subsection \<open>One scan\<close>

definition run_once :: "fs_env \<Rightarrow> fs_state \<Rightarrow> fs_state \<times> unit res" where
  "run_once env st =
     (let (st1, seen_ids, completed) =
            (if set_regions (fz_settings env) = [] then (st, [], True)
             else case fetch_region_ids env st of
                    (st', Inl e) \<Rightarrow> (st', [], False)
                  | (st', Inr (ids, pagination_completed)) \<Rightarrow> (st', ids, pagination_completed))
      in if seen_ids = [] then (st1, Inr ())
         else let (db, r) = process_batches env seen_ids completed 0 0 (fs_db st1)
              in (st1\<lparr>fs_db := db\<rparr>, r))"

text \<open>
  One turn of the scheduler loop: \<open>Inr True\<close> goes round again, \<open>Inr False\<close> leaves the loop,
  \<open>Inl\<close> is an exception that ends the thread. \<open>stop_before\<close> and \<open>stop_after\<close> are the stop
  event before and after the wait.
\<close>

definition scheduler_turn ::
  "(time \<Rightarrow> int) \<Rightarrow> (int \<Rightarrow> time) \<Rightarrow> string \<Rightarrow> bool \<Rightarrow> bool \<Rightarrow> fs_env \<Rightarrow> fs_state \<Rightarrow> fs_state \<times> bool res" where
  "scheduler_turn to_wall of_wall full_scan_time stop_before stop_after env st =
     (if stop_before then (st, Inr False)
      else case next_scheduled to_wall of_wall full_scan_time (fz_now env) of
             Inl e \<Rightarrow> (st, Inl e)
           | Inr next_run \<Rightarrow>
               (if stop_after then (st, Inr False) else (fst (run_once env st), Inr True)))"

subsection \<open>What a batch does to a row\<close>

definition seen_row :: "time \<Rightarrow> db_row \<Rightarrow> db_row" where
  "seen_row now r = r\<lparr>db_last_seen := now, db_last_seen_at := Some now\<rparr>"

definition gone_row :: "time \<Rightarrow> db_row \<Rightarrow> db_row" where
  "gone_row now r =
     r\<lparr>db_is_active := 0, db_inactive_reason := Some FULL_SCAN_REASON, db_inactive_since := Some now,
       db_inactive_confirmed_at := Some now\<rparr>"

definition row_step :: "int list \<Rightarrow> bool \<Rightarrow> time \<Rightarrow> db_row \<Rightarrow> db_row \<Rightarrow> bool" where
  "row_step ids en now r r' \<longleftrightarrow>
     r' = r
     \<or> (db_is_active r = 1 \<and> db_id r \<in> set ids \<and> r' = seen_row now r)
     \<or> (db_is_active r = 1 \<and> db_id r \<notin> set ids \<and> en \<and> r' = gone_row now r)"

lemma scan_row_simps [simp]:
  "db_id (seen_row t r) = db_id r" "db_is_active (seen_row t r) = db_is_active r"
  "db_date_create (seen_row t r) = db_date_create r" "seen_row t (seen_row t r) = seen_row t r"
  "db_id (gone_row t r) = db_id r" "db_is_active (gone_row t r) = 0"
  "gone_row t (gone_row t r) = gone_row t r"
  by (simp_all add: seen_row_def gone_row_def)

lemma row_step_trans: "row_step ids en t a b \<Longrightarrow> row_step ids en t b c \<Longrightarrow> row_step ids en t a c"
  by (auto simp: row_step_def)

text \<open>The rows of the listing and the rows a batch names.\<close>

lemma list_active_ids:
  assumes "lr_list_active n k db = Inr batch"
  shows "map lot_id batch = map db_id (take n (drop k (active_rows db)))"
proof (rule nth_equalityI)
  show "length (map lot_id batch) = length (map db_id (take n (drop k (active_rows db))))"
    using map_res_InrD [OF assms [unfolded lr_list_active_def]] by simp
next
  fix j assume "j < length (map lot_id batch)"
  then show "map lot_id batch ! j = map db_id (take n (drop k (active_rows db))) ! j"
    using map_res_InrD [OF assms [unfolded lr_list_active_def]] row_to_lot_id by fastforce
qed

lemma active_rows_set: "set (active_rows db) = {r \<in> set (ld_rows db). db_is_active r = 1}"
  by (auto simp: active_rows_def)

lemma lr_row_member: "lr_inv db \<Longrightarrow> r \<in> set (ld_rows db) \<Longrightarrow> lr_row db (db_id r) = Some r"
  unfolding lr_row_def lr_inv_def using find_unique by fast

lemma mark_batch_rows:
  "lr_row (mark_batch ids en now batch db) i = map_option (\<lambda>r.
     if i \<in> lot_id ` set batch
     then (if i \<in> set ids then seen_row now r else if en then gone_row now r else r) else r) (lr_row db i)"
proof -
  have inact: "lr_row (fold (\<lambda>j. lr_mark_inactive j FULL_SCAN_REASON now) js s) i =
      map_option (\<lambda>r. if i \<in> set js then gone_row now r else r) (lr_row s i)" for js s
  proof (induction js arbitrary: s)
    case (Cons j js)
    show ?case
      using lr_row_key [of s i]
      by (cases "lr_row s i")
        (auto simp: Cons.IH lr_mark_inactive_row gone_row_def)
  qed (simp add: map_option.id [unfolded id_def])
  have seen: "lr_row (lr_mark_seen js now s) i =
      map_option (\<lambda>r. if i \<in> set js then seen_row now r else r) (lr_row s i)" for js s
    using lr_row_key [of s i] by (cases "lr_row s i") (auto simp: lr_mark_seen_row seen_row_def)
  show ?thesis
    by (cases "lr_row db i")
      (auto simp: mark_batch_def Let_def inact seen image_iff)
qed

lemma mark_batch_frame:
  "ld_rtree (mark_batch ids en now batch db) = ld_rtree db
   \<and> ld_history (mark_batch ids en now batch db) = ld_history db
   \<and> ld_state (mark_batch ids en now batch db) = ld_state db"
proof -
  have "ld_rtree (fold (\<lambda>j. lr_mark_inactive j FULL_SCAN_REASON now) js s) = ld_rtree s
   \<and> ld_history (fold (\<lambda>j. lr_mark_inactive j FULL_SCAN_REASON now) js s) = ld_history s
   \<and> ld_state (fold (\<lambda>j. lr_mark_inactive j FULL_SCAN_REASON now) js s) = ld_state s" for js s
    by (induction js arbitrary: s) (auto simp: lr_mark_inactive_def)
  then show ?thesis by (simp add: mark_batch_def Let_def lr_mark_seen_def)
qed

lemma mark_batch_inv: "lr_inv db \<Longrightarrow> lr_inv (mark_batch ids en now batch db)"
proof -
  have "lr_inv s \<Longrightarrow> lr_inv (fold (\<lambda>j. lr_mark_inactive j FULL_SCAN_REASON now) js s)" for js s
    by (induction js arbitrary: s) (auto intro: lr_mark_inactive_inv)
  moreover have "lr_inv (lr_mark_seen js now db)" if "lr_inv db" for js
    using that apply_lop_inv [OF that, of "Mark_seen js now"] by simp
  ultimately show "lr_inv db \<Longrightarrow> lr_inv (mark_batch ids en now batch db)"
    by (simp add: mark_batch_def Let_def)
qed

text \<open>The relation between the databases before and after any number of batches.\<close>

definition scanned :: "int list \<Rightarrow> bool \<Rightarrow> time \<Rightarrow> lots_db \<Rightarrow> lots_db \<Rightarrow> bool" where
  "scanned ids en now db db' \<longleftrightarrow>
     ld_rtree db' = ld_rtree db \<and> ld_history db' = ld_history db \<and> ld_state db' = ld_state db
     \<and> (\<forall>i. case lr_row db i of
               None \<Rightarrow> lr_row db' i = None
             | Some r \<Rightarrow> (\<exists>r'. lr_row db' i = Some r' \<and> row_step ids en now r r'))"

lemma scanned_refl [simp]: "scanned ids en now db db"
  by (auto simp: scanned_def row_step_def split: option.splits)

lemma scanned_rowD:
  assumes "scanned ids en now db db'"
  shows "lr_row db i = None \<Longrightarrow> lr_row db' i = None"
    and "lr_row db i = Some r \<Longrightarrow> \<exists>r'. lr_row db' i = Some r' \<and> row_step ids en now r r'"
proof -
  have "case lr_row db i of None \<Rightarrow> lr_row db' i = None
      | Some r \<Rightarrow> (\<exists>r'. lr_row db' i = Some r' \<and> row_step ids en now r r')"
    using assms by (simp add: scanned_def)
  then show "lr_row db i = None \<Longrightarrow> lr_row db' i = None"
    "lr_row db i = Some r \<Longrightarrow> \<exists>r'. lr_row db' i = Some r' \<and> row_step ids en now r r'"
    by simp_all
qed

lemma scanned_trans:
  assumes "scanned ids en now a b" "scanned ids en now b c"
  shows "scanned ids en now a c"
  unfolding scanned_def
proof (intro conjI allI)
  fix i
  show "case lr_row a i of None \<Rightarrow> lr_row c i = None
      | Some r \<Rightarrow> \<exists>r'. lr_row c i = Some r' \<and> row_step ids en now r r'"
  proof (cases "lr_row a i")
    case None
    then show ?thesis using scanned_rowD(1) [OF assms(1)] scanned_rowD(1) [OF assms(2)] by simp
  next
    case (Some r)
    from scanned_rowD(2) [OF assms(1) this]
    obtain r' where r': "lr_row b i = Some r'" "row_step ids en now r r'" by blast
    from scanned_rowD(2) [OF assms(2) this(1)]
    obtain r'' where "lr_row c i = Some r''" "row_step ids en now r' r''" by blast
    with r' Some show ?thesis using row_step_trans by fastforce
  qed
qed (use assms in \<open>simp_all add: scanned_def\<close>)

lemma batch_row_active:
  assumes "lr_inv db" "lr_list_active n k db = Inr batch" "i \<in> lot_id ` set batch" "lr_row db i = Some r"
  shows "db_is_active r = 1"
proof -
  have "lot_id ` set batch = db_id ` set (take n (drop k (active_rows db)))"
    using arg_cong [OF list_active_ids [OF assms(2)], of set] by simp
  with assms(3) have "i \<in> db_id ` set (active_rows db)"
    by (auto dest!: in_set_takeD in_set_dropD)
  then obtain r' where "r' \<in> set (ld_rows db)" "db_is_active r' = 1" "db_id r' = i"
    by (auto simp: active_rows_set)
  with lr_row_member [OF assms(1)] assms(4) show ?thesis by auto
qed

lemma mark_batch_scanned:
  assumes "lr_inv db" "lr_list_active n k db = Inr batch"
  shows "scanned ids en now db (mark_batch ids en now batch db)"
  unfolding scanned_def
proof (intro conjI allI)
  fix i
  let ?db = "mark_batch ids en now batch db"
  show "case lr_row db i of None \<Rightarrow> lr_row ?db i = None
      | Some r \<Rightarrow> \<exists>r'. lr_row ?db i = Some r' \<and> row_step ids en now r r'"
  proof (cases "lr_row db i")
    case (Some r)
    moreover have "db_id r = i" using lr_row_key [OF Some] by simp
    moreover have "i \<in> lot_id ` set batch \<Longrightarrow> db_is_active r = 1"
      using batch_row_active [OF assms _ Some] by simp
    ultimately show ?thesis by (simp add: mark_batch_rows row_step_def)
  qed (simp add: mark_batch_rows)
qed (simp_all add: mark_batch_frame)

lemma process_batches_scanned:
  "lr_inv db \<Longrightarrow> scanned ids en (fz_now env) db (fst (process_batches env ids en offset k db))
     \<and> lr_inv (fst (process_batches env ids en offset k db))"
proof (induction env ids en offset k db rule: process_batches.induct)
  case (1 env ids en offset k db)
  show ?case
  proof (cases "fz_stop env k \<or> (\<exists>e. lr_list_active (fz_batch_size env) offset db = Inl e)
      \<or> lr_list_active (fz_batch_size env) offset db = Inr []")
    case True
    then have "fst (process_batches env ids en offset k db) = db"
      by (subst process_batches.simps) (auto split: sum.splits)
    with 1 show ?thesis by simp
  next
    case False
    then obtain batch where b: "\<not> fz_stop env k"
      "lr_list_active (fz_batch_size env) offset db = Inr batch" "batch \<noteq> []"
      by (cases "lr_list_active (fz_batch_size env) offset db") auto
    let ?db = "mark_batch ids en (fz_now env) batch db"
    have step: "scanned ids en (fz_now env) db ?db" "lr_inv ?db"
      using mark_batch_scanned [OF 1(2) b(2)] mark_batch_inv [OF 1(2)] by blast+
    have next_eq: "fst (process_batches env ids en offset k db) =
      (if fz_wait env k then ?db
       else fst (process_batches env ids en (offset + fz_batch_size env) (Suc k) ?db))"
      using b by (subst process_batches.simps) simp
    show ?thesis
    proof (cases "fz_wait env k")
      case True
      with step next_eq show ?thesis by simp
    next
      case False
      have "scanned ids en (fz_now env) ?db
            (fst (process_batches env ids en (offset + fz_batch_size env) (Suc k) ?db))
          \<and> lr_inv (fst (process_batches env ids en (offset + fz_batch_size env) (Suc k) ?db))"
        using 1(1) [OF b refl False step(2)] by simp
      with step False next_eq show ?thesis using scanned_trans by fastforce
    qed
  qed
qed

subsection \<open>A scan whose active lots fit one batch\<close>

definition fs_quiet :: "fs_env \<Rightarrow> bool" where
  "fs_quiet env \<longleftrightarrow> (\<forall>k. \<not> fz_stop env k \<and> \<not> fz_wait env k)"

lemma mark_batch_empty [simp]: "mark_batch ids en now [] db = db"
  by (simp add: mark_batch_def lr_mark_seen_def)

lemma lr_list_active_beyond: "length (active_rows db) \<le> k \<Longrightarrow> lr_list_active n k db = Inr []"
  by (simp add: lr_list_active_def)

lemma process_batches_step:
  assumes "fs_quiet env" "lr_list_active (fz_batch_size env) offset db = Inr batch" "batch \<noteq> []"
  shows "process_batches env ids en offset k db =
    process_batches env ids en (offset + fz_batch_size env) (Suc k) (mark_batch ids en (fz_now env) batch db)"
  using assms by (subst process_batches.simps) (simp add: fs_quiet_def)

lemma process_batches_done:
  assumes "fs_quiet env" "length (active_rows db) \<le> offset"
  shows "process_batches env ids en offset k db = (db, Inr ())"
  using assms by (subst process_batches.simps) (simp add: fs_quiet_def lr_list_active_beyond)

lemma process_batches_single:
  assumes "fs_quiet env" "lr_list_active (fz_batch_size env) 0 db = Inr batch"
    and "length (active_rows db) \<le> fz_batch_size env"
  shows "process_batches env ids en 0 0 db = (mark_batch ids en (fz_now env) batch db, Inr ())"
proof (cases "batch = []")
  case True
  then show ?thesis
    using assms by (subst process_batches.simps) (simp add: fs_quiet_def)
next
  case False
  have "length (active_rows (mark_batch ids en (fz_now env) batch db)) \<le> fz_batch_size env"
    using active_mark_batch assms(3) order_trans by blast
  then show ?thesis
    using process_batches_step [OF assms(1,2) False] process_batches_done [OF assms(1)] by simp
qed

lemma fetch_keeps_db: "fs_db (fst (fetch_region_ids env st)) = fs_db st"
  by (auto simp: fetch_region_ids_def fetch_region_ids_paginated_def fetch_region_ids_single_page_def
      Let_def split: prod.splits sum.splits walk_end.splits)

lemma run_once_fetched:
  assumes "fetch_region_ids env st = (st1, Inr (ids, completed))" "ids \<noteq> []"
    and "set_regions (fz_settings env) \<noteq> []"
  shows "fs_db (fst (run_once env st)) = fst (process_batches env ids completed 0 0 (fs_db st))
    \<and> snd (run_once env st) = snd (process_batches env ids completed 0 0 (fs_db st))"
proof -
  have "fs_db st1 = fs_db st" using fetch_keeps_db [of env st] assms(1) by simp
  with assms show ?thesis by (simp add: run_once_def Let_def case_prod_beta)
qed

lemma run_once_aborts:
  assumes "set_regions (fz_settings env) = [] \<or> (\<exists>e. snd (fetch_region_ids env st) = Inl e)
    \<or> (\<exists>c. snd (fetch_region_ids env st) = Inr ([], c))"
  shows "fs_db (fst (run_once env st)) = fs_db st \<and> snd (run_once env st) = Inr ()"
  using assms fetch_keeps_db [of env st]
  by (cases "fetch_region_ids env st") (auto simp: run_once_def)

text \<open>The ids a batch names, and the rows of a store whose every active row it names.\<close>

lemma batch_all_ids:
  assumes "lr_list_active n 0 db = Inr batch" "length (active_rows db) \<le> n"
    and "lr_row db i = Some r" "db_is_active r = 1"
  shows "i \<in> lot_id ` set batch"
proof -
  have "lot_id ` set batch = db_id ` set (active_rows db)"
    using arg_cong [OF list_active_ids [OF assms(1)], of set] assms(2) by simp
  with assms(3,4) lr_row_key [OF assms(3)] show ?thesis by (auto simp: active_rows_set)
qed

text \<open>Counting active rows by their ids.\<close>

definition active_ids :: "lots_db \<Rightarrow> int set" where
  "active_ids db = {i. \<exists>r. lr_row db i = Some r \<and> db_is_active r = 1}"

lemma active_ids_image: "lr_inv db \<Longrightarrow> active_ids db = db_id ` set (active_rows db)"
  using lr_row_key [of db] lr_row_member [of db]
  by (force simp: active_ids_def active_rows_set)

lemma distinct_active: "lr_inv db \<Longrightarrow> distinct (map db_id (active_rows db))"
proof -
  assume "lr_inv db"
  then have "distinct (map db_id (filter (\<lambda>r. db_is_active r = 1) (ld_rows db)))"
    by (simp add: lr_inv_def distinct_map_filter)
  then have "inj_on db_id (set (active_rows db)) \<and> distinct (active_rows db)"
    by (auto simp: distinct_map active_rows_def)
  then show ?thesis by (simp add: distinct_map)
qed

lemma card_active_ids: "lr_inv db \<Longrightarrow> card (active_ids db) = length (active_rows db)"
  using distinct_card [OF distinct_active] by (simp add: active_ids_image)

lemma active_ids_after_missing_batch:
  assumes "set ids \<inter> active_ids db = {}" "lot_id ` set batch \<subseteq> active_ids db"
  shows "active_ids (mark_batch ids True now batch db) = active_ids db - lot_id ` set batch"
proof (rule set_eqI)
  fix i
  show "i \<in> active_ids (mark_batch ids True now batch db) \<longleftrightarrow> i \<in> active_ids db - lot_id ` set batch"
  proof (cases "i \<in> lot_id ` set batch")
    case True
    with assms have "i \<notin> set ids" by blast
    with True show ?thesis
      by (cases "lr_row db i") (simp_all add: active_ids_def mark_batch_rows)
  next
    case False
    then show ?thesis by (cases "lr_row db i") (simp_all add: active_ids_def mark_batch_rows)
  qed
qed

subsection \<open>A concrete store and site\<close>

definition demo_db :: "int list \<Rightarrow> lots_db" where
  "demo_db js = \<lparr>ld_rows = map (\<lambda>i. inserted_row (sample_lot i) False) js, ld_history = [],
                 ld_rtree = Map.empty, ld_state = Map.empty\<rparr>"

definition demo_env :: "fetch_env \<Rightarrow> nat \<Rightarrow> fs_env" where
  "demo_env fe b =
     \<lparr>fz_settings = \<lparr>set_interval_minutes = 5, set_regions = [25], set_filters = \<lparr>rf_subjects = []\<rparr>,
        set_full_scan_time = ''04:00'', set_email_enabled = False, set_email_recipients = []\<rparr>,
      fz_now = 9, fz_now' = 9, fz_fetch = fe, fz_paginated = True, fz_batch_size = b,
      fz_stop = (\<lambda>_. False), fz_wait = (\<lambda>_. False)\<rparr>"

lemma demo_env_simps [simp]:
  "fs_quiet (demo_env fe b)" "fz_fetch (demo_env fe b) = fe" "fz_batch_size (demo_env fe b) = b"
  "set_regions (fz_settings (demo_env fe b)) = [25]" "fz_paginated (demo_env fe b)"
  "fz_now (demo_env fe b) = 9"
  by (simp_all add: demo_env_def fs_quiet_def)

lemma sample_lot_active [simp]: "lot_is_active (sample_lot i)" "lot_lat (sample_lot i) = None"
  by (simp_all add: sample_lot_def sample_row_def parsed_row_to_lot_def)

lemma sample_lot_date: "lot_date_create (sample_lot i) = row_date_create (sample_row 0)"
  by (simp add: sample_lot_def sample_row_def parsed_row_to_lot_def)

lemma demo_db_row: "lr_row (demo_db js) i = (if i \<in> set js then Some (inserted_row (sample_lot i) False) else None)"
  by (induction js) (auto simp: demo_db_def lr_row_def)

lemma demo_db_inv: "distinct js \<Longrightarrow> lr_inv (demo_db js)"
proof -
  assume "distinct js"
  moreover have "map db_id (ld_rows (demo_db js)) = js" by (simp add: demo_db_def o_def)
  ultimately show ?thesis
    by (auto simp: lr_inv_def demo_db_row row_point_def point_def) (simp_all add: demo_db_def)
qed

lemma demo_db_active:
  "active_rows (demo_db js) = rev (map (\<lambda>i. inserted_row (sample_lot i) False) js)"
proof -
  have a: "db_is_active (inserted_row (sample_lot i) b) = 1"
    "db_date_create (inserted_row (sample_lot i) b) = row_date_create (sample_row 0)" for i b
    by (simp_all add: inserted_row_def sample_lot_date)
  have "sort_key db_date_create (map (\<lambda>i. inserted_row (sample_lot i) False) js)
      = map (\<lambda>i. inserted_row (sample_lot i) False) js"
    by (rule sort_key_id_if_sorted) (simp add: a o_def sorted_wrt_map sorted_wrt_true)
  moreover have "filter (\<lambda>r. db_is_active r = 1) (map (\<lambda>i. inserted_row (sample_lot i) False) js)
      = map (\<lambda>i. inserted_row (sample_lot i) False) js"
    by (simp add: a)
  ultimately show ?thesis by (simp add: active_rows_def demo_db_def)
qed

lemma demo_list_active: "lr_list_active n k (demo_db js) = Inr (take n (drop k (rev (map sample_lot js))))"
proof -
  have "map_res row_to_lot (map (\<lambda>i. inserted_row (sample_lot i) False) is) = Inr (map sample_lot is)" for "is"
    by (induction "is") simp_all
  from this [of "take n (drop k (rev js))"] show ?thesis
    by (simp add: lr_list_active_def demo_db_active rev_map drop_map take_map)
qed

subsection \<open>Properties\<close>

lemma tod_candidate:
  fixes x c d :: int
  assumes "0 < d" "0 \<le> c" "c < d"
  shows "((x div d) * d + c) mod d = c" "((x div d) * d + c + d) mod d = c"
    "(x div d) * d + c \<le> x + c" "x < (x div d) * d + c + d"
proof -
  show "((x div d) * d + c) mod d = c" "((x div d) * d + c + d) mod d = c"
    using assms by simp_all
  show "(x div d) * d + c \<le> x + c"
    using pos_mod_sign [OF assms(1), of x] div_mult_mod_eq [of x d] by linarith
  have "x < (x div d) * d + d" using pos_mod_bound [OF assms(1), of x] div_mult_mod_eq [of x d] by linarith
  with assms(2) show "x < (x div d) * d + c + d" by simp
qed

text \<open>
  In a zone with a fixed offset, the next scan is scheduled strictly after now, at most
  a day and five seconds later, at the configured wall-clock minute, and no earlier
  occurrence of that minute lies more than five seconds ahead. An hour or minute outside the
  clock, which the parser lets through, raises \<^verbatim>\<open>ValueError\<close>.
\<close>

theorem next_scheduled_spec:
  assumes "parse_hhmm full_scan_time = (hour, minute)"
  shows "(if hour < 0 \<or> 23 < hour \<or> minute < 0 \<or> 59 < minute
          then next_scheduled (\<lambda>t. t + off) (\<lambda>w. w - off) full_scan_time now = Inl ValueError
          else \<exists>u. next_scheduled (\<lambda>t. t + off) (\<lambda>w. w - off) full_scan_time now = Inr u
             \<and> now < u \<and> u \<le> now + us_per_day + 5 * us_per_second
             \<and> (u + off) mod us_per_day = (hour * 60 + minute) * us_per_minute
             \<and> (\<forall>w. now + 5 * us_per_second < w \<and> (w + off) mod us_per_day = (hour * 60 + minute) * us_per_minute
                  \<longrightarrow> u \<le> w))"
proof (cases "hour < 0 \<or> 23 < hour \<or> minute < 0 \<or> 59 < minute")
  case True
  then show ?thesis by (simp add: next_scheduled_def assms)
next
  case False
  let ?c = "(hour * 60 + minute) * us_per_minute"
  let ?cand = "((now + off) div us_per_day) * us_per_day + ?c"
  let ?u = "(if ?cand \<le> now + off + 5 * us_per_second then ?cand + us_per_day else ?cand) - off"
  have c: "0 \<le> ?c" "?c < us_per_day"
    using False by (auto simp: us_per_day_def us_per_minute_def)
  note t = tod_candidate [OF us_per_day_pos c, of "now + off"]
  have r: "next_scheduled (\<lambda>t. t + off) (\<lambda>w. w - off) full_scan_time now = Inr ?u"
    using False by (simp add: next_scheduled_def assms Let_def)
  have bounds: "now < ?u \<and> ?u \<le> now + us_per_day + 5 * us_per_second"
    using t(3,4) c us_per_day_pos by (auto simp: us_per_second_def)
  have tod: "(?u + off) mod us_per_day = ?c" using t(1,2) by simp
  have least: "?u \<le> w" if w: "now + 5 * us_per_second < w" "(w + off) mod us_per_day = ?c" for w
  proof (rule ccontr)
    assume less: "\<not> ?u \<le> w"
    from w(2) tod have "(?u - w) mod us_per_day = 0"
      by (metis add_diff_cancel_right mod_diff_eq mod_mult_self1_is_0 diff_self mod_0)
    then obtain q where q: "?u - w = us_per_day * q" by (metis mod_0_imp_dvd dvdE)
    with less us_per_day_pos have "1 \<le> q" by (smt (verit) zero_less_mult_pos)
    then have "us_per_day * 1 \<le> us_per_day * q" using less_imp_le [OF us_per_day_pos] by (intro mult_left_mono)
    with q bounds w(1) show False by linarith
  qed
  from False r bounds tod least show ?thesis by (simp only: if_False) blast
qed

theorem next_scheduled_spec_witness:
  "(\<exists>u. next_scheduled (\<lambda>t. t + 7) (\<lambda>w. w - 7) ''04:30'' 0 = Inr u \<and> 0 < u)
   \<and> next_scheduled (\<lambda>t. t + 7) (\<lambda>w. w - 7) ''25:00'' 0 = Inl ValueError"
proof -
  have p: "parse_hhmm ''04:30'' = (4, 30)" "parse_hhmm ''25:00'' = (25, 0)"
    by (code_simp, code_simp)
  show ?thesis
    using next_scheduled_spec [OF p(1), of 7 0] next_scheduled_spec [OF p(2), of 7 0] by auto
qed

text \<open>
  C11. Safety of a scan, whatever happens during it: a row changes only if it was active and
  the listing was fetched. A row on the listing can only have its sighting times refreshed.
  A row is deactivated only when it is absent from a non-empty listing whose collection was
  reported complete. No row appears or disappears, and history, R-tree and state are
  untouched.
\<close>

theorem full_scan_safety:
  assumes "lr_inv (fs_db st)" "db' = fs_db (fst (run_once env st))"
  shows "ld_rtree db' = ld_rtree (fs_db st) \<and> ld_history db' = ld_history (fs_db st)
     \<and> ld_state db' = ld_state (fs_db st)
     \<and> (lr_row (fs_db st) i = None \<longrightarrow> lr_row db' i = None)
     \<and> (\<forall>r. lr_row (fs_db st) i = Some r \<longrightarrow>
          (\<exists>r'. lr_row db' i = Some r' \<and>
             (r' = r \<or> db_is_active r = 1 \<and>
                (\<exists>ids completed. snd (fetch_region_ids env st) = Inr (ids, completed)
                   \<and> (i \<in> set ids \<and> r' = seen_row (fz_now env) r
                      \<or> i \<notin> set ids \<and> ids \<noteq> [] \<and> completed \<and> r' = gone_row (fz_now env) r)))))"
proof (cases "set_regions (fz_settings env) = [] \<or> (\<exists>e. snd (fetch_region_ids env st) = Inl e)
    \<or> (\<exists>c. snd (fetch_region_ids env st) = Inr ([], c))")
  case True
  then have "db' = fs_db st" using run_once_aborts assms(2) by blast
  then show ?thesis by simp
next
  case False
  then obtain st1 ids c where f: "fetch_region_ids env st = (st1, Inr (ids, c))" "ids \<noteq> []"
    "set_regions (fz_settings env) \<noteq> []"
    by (cases "fetch_region_ids env st"; cases "snd (fetch_region_ids env st)") auto
  have db': "db' = fst (process_batches env ids c 0 0 (fs_db st))"
    using run_once_fetched [OF f] assms(2) by simp
  have sc: "scanned ids c (fz_now env) (fs_db st) db'"
    unfolding db' using process_batches_scanned [OF assms(1)] by blast
  have "\<exists>r'. lr_row db' i = Some r' \<and>
      (r' = r \<or> db_is_active r = 1 \<and>
         (i \<in> set ids \<and> r' = seen_row (fz_now env) r
          \<or> i \<notin> set ids \<and> ids \<noteq> [] \<and> c \<and> r' = gone_row (fz_now env) r))"
    if "lr_row (fs_db st) i = Some r" for r
    using scanned_rowD(2) [OF sc that] lr_row_key [OF that] f(2) by (auto simp: row_step_def)
  with sc scanned_rowD(1) [OF sc] f(1) show ?thesis by (simp add: scanned_def)
qed

theorem full_scan_safety_witness:
  "\<exists>r'. lr_row (fs_db (fst (run_once (demo_env demo_fetch 5) \<lparr>fs_db = demo_db [7, 8], fs_events = []\<rparr>))) 7 = Some r'"
proof -
  let ?st = "\<lparr>fs_db = demo_db [7, 8], fs_events = []\<rparr>"
  have "lr_inv (fs_db ?st)" by (simp add: demo_db_inv)
  from full_scan_safety [OF this refl, where i = 7] show ?thesis by (auto simp: demo_db_row)
qed

lemma full_scan_exact_gen:
  assumes "fs_quiet env" "set_regions (fz_settings env) \<noteq> []"
    and "fetch_region_ids env st = (st1, Inr (ids, completed))" "ids \<noteq> []"
    and "lr_list_active (fz_batch_size env) 0 (fs_db st) = Inr batch"
    and "length (active_rows (fs_db st)) \<le> fz_batch_size env"
    and "lr_row (fs_db st) i = Some r" "db_is_active r = 1"
  shows "snd (run_once env st) = Inr () \<and>
    lr_row (fs_db (fst (run_once env st))) i =
      Some (if i \<in> set ids then seen_row (fz_now env) r
            else if completed then gone_row (fz_now env) r else r)"
  using run_once_fetched [OF assms(3,4,2)] process_batches_single [OF assms(1,5,6)]
    batch_all_ids [OF assms(5,6,7,8)] assms(7)
  by (simp add: mark_batch_rows)

text \<open>
  When the active lots fit one batch, are all readable and nobody asks to stop, a scan
  that collected ids is exact: each active lot on the listing is refreshed, and each other
  active lot is deactivated if the collection was complete and left alone if not.
\<close>

theorem full_scan_exact:
  assumes "fs_quiet env" "set_regions (fz_settings env) \<noteq> []"
    and "fetch_region_ids env st = (st1, Inr (ids, completed))" "ids \<noteq> []"
    and "lr_list_active (fz_batch_size env) 0 (fs_db st) = Inr batch"
    and "length (active_rows (fs_db st)) \<le> fz_batch_size env"
    and "lr_row (fs_db st) i = Some r" "db_is_active r = 1"
  shows "snd (run_once env st) = Inr () \<and>
    lr_row (fs_db (fst (run_once env st))) i =
      Some (if i \<in> set ids then seen_row (fz_now env) r
            else if completed then gone_row (fz_now env) r else r)"
  using assms by (rule full_scan_exact_gen)

lemma demo_fetch_ids:
  "fetch_region_ids (demo_env demo_fetch b) st = (st, Inr ([7], True))"
proof -
  have "page_ok demo_fetch 1 [sample_row 7]" "page_ok demo_fetch 2 []" "never_stopped demo_fetch"
    by (simp_all add: page_ok_def never_stopped_def demo_fetch_def)
  with walk_good_pages [of 1 demo_fetch 1 "\<lambda>_. [sample_row 7]" False False 0]
    walk_page_empty [of demo_fetch 2 False False 1]
  have "rows_of (fst (iterate demo_fetch None 1 False False)) = [sample_row 7]
    \<and> snd (iterate demo_fetch None 1 False False) = End_empty"
    by (simp add: iterate_def PAGE_LIMIT_def numeral_2_eq_2)
  then show ?thesis
    by (simp add: fetch_region_ids_def fetch_region_ids_paginated_def Let_def case_prod_beta)
qed

theorem full_scan_exact_witness:
  "lr_row (fs_db (fst (run_once (demo_env demo_fetch 5) \<lparr>fs_db = demo_db [7, 8], fs_events = []\<rparr>))) 8 =
     Some (gone_row 9 (inserted_row (sample_lot 8) False))"
proof -
  let ?st = "\<lparr>fs_db = demo_db [7, 8], fs_events = []\<rparr>"
  let ?env = "demo_env demo_fetch 5"
  have l: "lr_list_active (fz_batch_size ?env) 0 (fs_db ?st) = Inr [sample_lot 8, sample_lot 7]"
    "length (active_rows (fs_db ?st)) \<le> fz_batch_size ?env"
    by (simp_all add: demo_list_active demo_db_active)
  have r: "lr_row (fs_db ?st) 8 = Some (inserted_row (sample_lot 8) False)"
    "db_is_active (inserted_row (sample_lot 8) False) = 1"
    by (simp_all add: demo_db_row) (simp add: inserted_row_def)
  from full_scan_exact [OF demo_env_simps(1) _ demo_fetch_ids _ l r] show ?thesis by simp
qed

text \<open>
  A scan over more active lots than one batch skips lots: when a batch is deactivated,
  the list of active lots shrinks under the offset. With more than one and at most two
  batches of active lots, none of them on the listing, the scan ends normally and every
  lot past the first batch is still active and untouched.
\<close>

theorem full_scan_skips_lots:
  assumes "lr_inv (fs_db st)" "fs_quiet env" "set_regions (fz_settings env) \<noteq> []"
    and "fetch_region_ids env st = (st1, Inr (ids, True))" "ids \<noteq> []"
    and "set ids \<inter> active_ids (fs_db st) = {}"
    and "lr_list_active (fz_batch_size env) 0 (fs_db st) = Inr batch" "batch \<noteq> []"
    and "length (active_rows (fs_db st)) \<le> 2 * fz_batch_size env"
    and "r \<in> set (drop (fz_batch_size env) (active_rows (fs_db st)))"
  shows "snd (run_once env st) = Inr () \<and> lr_row (fs_db (fst (run_once env st))) (db_id r) = Some r
     \<and> db_is_active r = 1"
proof -
  let ?b = "fz_batch_size env" and ?db = "fs_db st"
  let ?A = "active_rows ?db" and ?db1 = "mark_batch ids True (fz_now env) batch ?db"
  have "?b < length ?A" using assms(10) by (cases "?b < length ?A") auto
  have ids: "lot_id ` set batch = db_id ` set (take ?b ?A)"
    using arg_cong [OF list_active_ids [OF assms(7)], of set] by simp
  have sub: "lot_id ` set batch \<subseteq> active_ids ?db"
    unfolding ids active_ids_image [OF assms(1)] by (auto dest: in_set_takeD)
  have d: "distinct (map db_id (take ?b ?A @ drop ?b ?A))" using distinct_active [OF assms(1)] by simp
  have "db_id ` set (take ?b ?A) \<inter> db_id ` set (drop ?b ?A) = {}"
    using d by (simp only: map_append distinct_append set_map)
  then have notin: "db_id r \<notin> lot_id ` set batch" using assms(10) unfolding ids by blast
  have "distinct (map db_id (take ?b ?A))" using d by (simp only: map_append distinct_append)
  from distinct_card [OF this] have "card (lot_id ` set batch) = ?b"
    unfolding ids using \<open>?b < length ?A\<close> by simp
  then have "card (active_ids ?db1) = length ?A - ?b"
    using active_ids_after_missing_batch [OF assms(6) sub] card_Diff_subset [OF _ sub]
      card_active_ids [OF assms(1)] by simp
  then have "length (active_rows ?db1) \<le> 0 + ?b"
    using assms(9) card_active_ids [OF mark_batch_inv [OF assms(1)]] by simp
  then have pb: "process_batches env ids True 0 0 ?db = (?db1, Inr ())"
    using process_batches_step [OF assms(2,7,8)] process_batches_done [OF assms(2)] by simp
  have r: "r \<in> set ?A" using assms(10) by (rule in_set_dropD)
  then have "lr_row ?db (db_id r) = Some r" "db_is_active r = 1"
    using lr_row_member [OF assms(1)] by (auto simp: active_rows_set)
  then show ?thesis
    using run_once_fetched [OF assms(4,5,3)] pb notin by (simp add: mark_batch_rows)
qed

theorem full_scan_skips_lots_witness:
  "lr_row (fs_db (fst (run_once (demo_env demo_fetch 1) \<lparr>fs_db = demo_db [8, 9], fs_events = []\<rparr>))) 8 =
     Some (inserted_row (sample_lot 8) False)"
proof -
  let ?st = "\<lparr>fs_db = demo_db [8, 9], fs_events = []\<rparr>"
  let ?env = "demo_env demo_fetch 1"
  have inv: "lr_inv (fs_db ?st)" by (simp add: demo_db_inv)
  have l: "lr_list_active (fz_batch_size ?env) 0 (fs_db ?st) = Inr [sample_lot 9]" "[sample_lot 9] \<noteq> []"
    "length (active_rows (fs_db ?st)) \<le> 2 * fz_batch_size ?env"
    by (simp_all add: demo_list_active demo_db_active)
  have d: "set [7] \<inter> active_ids (fs_db ?st) = {}"
    using active_ids_image [OF inv] by (simp add: demo_db_active)
  have r: "inserted_row (sample_lot 8) False \<in> set (drop (fz_batch_size ?env) (active_rows (fs_db ?st)))"
    by (simp add: demo_db_active)
  from full_scan_skips_lots [OF inv demo_env_simps(1) _ demo_fetch_ids _ d l r] show ?thesis by simp
qed

text \<open>
  C38. A listing cut short by a failing page is taken for a complete one. Suppose a scan of the
  paginated listing, with at least one region set, is neither stopped nor told to wait, and the
  first \<open>n\<close> pages, fewer than the limit of a walk, are good and not empty while the next
  request or parse fails. Then the collection reports completion with the lots of those pages.
  When moreover the active lots fit into one batch and that batch can be read, the scan
  deactivates every active lot those pages did not list. (With more than one batch it also skips
  lots: \<open>full_scan_skips_lots\<close>.)
\<close>

theorem full_scan_trusts_cut_listing:
  assumes "\<forall>j < n. page_ok (fz_fetch env) (Suc j) (rows j) \<and> rows j \<noteq> []" "0 < n" "n < 1000"
    and "page_fails (fz_fetch env) (Suc n)" "never_stopped (fz_fetch env)" "fz_paginated env"
    and "fs_quiet env" "set_regions (fz_settings env) \<noteq> []"
    and "lr_list_active (fz_batch_size env) 0 (fs_db st) = Inr batch"
    and "length (active_rows (fs_db st)) \<le> fz_batch_size env"
    and "lr_row (fs_db st) i = Some r" "db_is_active r = 1"
    and "\<forall>j < n. i \<notin> row_id ` set (rows j)"
  shows "snd (fetch_region_ids env st) = Inr (map row_id (concat (map rows [0..<n])), True)
     \<and> lr_row (fs_db (fst (run_once env st))) i = Some (gone_row (fz_now env) r)"
proof -
  let ?fe = "fz_fetch env" and ?ids = "map row_id (concat (map rows [0..<n]))"
  have "\<forall>j < n. page_ok ?fe (1 + j) (rows j) \<and> rows j \<noteq> []" using assms(1) by simp
  from walk_good_pages [OF this assms(5), of False False 0]
    walk_page_fails [OF assms(4,5), of None n] assms(3)
  have it: "rows_of (fst (iterate ?fe None 1 False False)) = concat (map rows [0..<n])"
    "snd (iterate ?fe None 1 False False) = End_network \<or> snd (iterate ?fe None 1 False False) = End_parse"
    by (simp_all add: iterate_def PAGE_LIMIT_def)
  then have f: "fetch_region_ids env st = (st, Inr (?ids, True))"
    using assms(6) by (auto simp: fetch_region_ids_def fetch_region_ids_paginated_def Let_def case_prod_beta)
  have "0 \<in> set [0..<n]" "rows 0 \<noteq> []" using assms(1,2) by auto
  then have ne: "?ids \<noteq> []" by force
  have "i \<notin> set ?ids" using assms(13) by auto
  with full_scan_exact_gen [OF assms(7,8) f ne assms(9-12)] f show ?thesis by simp
qed

definition broken_fetch :: fetch_env where
  "broken_fetch = demo_fetch\<lparr>fe_get := (\<lambda>p. if p = 1 then fe_get demo_fetch 1 else Inl RequestException)\<rparr>"

theorem full_scan_trusts_cut_listing_witness:
  "lr_row (fs_db (fst (run_once (demo_env broken_fetch 5) \<lparr>fs_db = demo_db [7, 8], fs_events = []\<rparr>))) 8 =
     Some (gone_row 9 (inserted_row (sample_lot 8) False))"
proof -
  let ?st = "\<lparr>fs_db = demo_db [7, 8], fs_events = []\<rparr>"
  let ?env = "demo_env broken_fetch 5"
  have p: "\<forall>j < 1. page_ok (fz_fetch ?env) (Suc j) [sample_row 7] \<and> [sample_row 7] \<noteq> []"
    "page_fails (fz_fetch ?env) (Suc 1)" "never_stopped (fz_fetch ?env)"
    by (simp_all add: page_ok_def page_fails_def never_stopped_def broken_fetch_def demo_fetch_def)
  have l: "lr_list_active (fz_batch_size ?env) 0 (fs_db ?st) = Inr [sample_lot 8, sample_lot 7]"
    "length (active_rows (fs_db ?st)) \<le> fz_batch_size ?env"
    by (simp_all add: demo_list_active demo_db_active)
  have r: "lr_row (fs_db ?st) 8 = Some (inserted_row (sample_lot 8) False)"
    "db_is_active (inserted_row (sample_lot 8) False) = 1"
    by (simp_all add: demo_db_row) (simp add: inserted_row_def)
  from full_scan_trusts_cut_listing [OF p(1) _ _ p(2,3) demo_env_simps(5,1) _ l r] show ?thesis by simp
qed

end
