(* ===== verification/Cycles_Repo.thy ===== *)
theory Cycles_Repo
  imports Domain
begin

text \<open>
  The cycle log (\<^verbatim>\<open>repositories/cycles.py\<close>): opening and closing a row, the list of recent
  cycles and the chunked pruning. The \<^verbatim>\<open>AUTOINCREMENT\<close> key is the counter \<open>ct_seq\<close>.
  Timestamps are kept as times. \<^verbatim>\<open>None\<close> as \<open>cy_status\<close> stands for the text \<^verbatim>\<open>open\<close>.
\<close>

subsection \<open>The table\<close>

record cycle_row =
  cy_id :: int
  cy_region :: int
  cy_started_at :: time
  cy_finished_at :: "time option"
  cy_status :: "cycle_status option"
  cy_lots_fetched :: int
  cy_new_lots :: int
  cy_error :: "string option"
  cy_id_schema_check :: id_schema_check

record cycles_table =
  ct_rows :: "cycle_row list"
  ct_seq :: int

definition open_row :: "int \<Rightarrow> int \<Rightarrow> time \<Rightarrow> cycle_row" where
  "open_row i region t =
     \<lparr> cy_id = i, cy_region = region, cy_started_at = t, cy_finished_at = None, cy_status = None,
       cy_lots_fetched = 0, cy_new_lots = 0, cy_error = None, cy_id_schema_check = Schema_ok \<rparr>"

definition closed_row :: "cycle_result \<Rightarrow> cycle_row \<Rightarrow> cycle_row" where
  "closed_row result r =
     r\<lparr> cy_finished_at := Some (cr_finished_at result), cy_status := Some (cr_status result),
        cy_lots_fetched := cr_lots_fetched result, cy_new_lots := cr_new_lots result,
        cy_error := cr_error result, cy_id_schema_check := cr_id_schema_check result \<rparr>"

definition cy_open :: "int \<Rightarrow> time \<Rightarrow> cycles_table \<Rightarrow> cycles_table \<times> int" where
  "cy_open region t ct =
     (let i = ct_seq ct + 1
      in (\<lparr>ct_rows = ct_rows ct @ [open_row i region t], ct_seq = i\<rparr>, i))"

definition cy_close :: "int \<Rightarrow> cycle_result \<Rightarrow> cycles_table \<Rightarrow> cycles_table \<times> unit res" where
  "cy_close i result ct =
     (ct\<lparr>ct_rows := map (\<lambda>r. if cy_id r = i then closed_row result r else r) (ct_rows ct)\<rparr>,
      if \<exists>r \<in> set (ct_rows ct). cy_id r = i then Inr () else Inl RuntimeError)"

definition cy_get :: "cycles_table \<Rightarrow> int \<Rightarrow> cycle_row option" where
  "cy_get ct i = find (\<lambda>r. cy_id r = i) (ct_rows ct)"

definition row_to_result :: "cycle_row \<Rightarrow> cycle_result res" where
  "row_to_result r =
     (case cy_finished_at r of
        None \<Rightarrow> Inl (OtherException ''TypeError'')
      | Some finished \<Rightarrow>
          (case cy_status r of
             None \<Rightarrow> Inl ValidationError
           | Some status \<Rightarrow>
               (let result = \<lparr> cr_id = cy_id r, cr_region = cy_region r, cr_started_at = cy_started_at r,
                    cr_finished_at = finished, cr_status = status, cr_lots_fetched = cy_lots_fetched r,
                    cr_new_lots = cy_new_lots r, cr_error = cy_error r,
                    cr_id_schema_check = cy_id_schema_check r \<rparr>
                in if cycle_result_ok result then Inr result else Inl ValidationError)))"

definition cy_list_recent :: "int \<Rightarrow> cycles_table \<Rightarrow> cycle_result list res" where
  "cy_list_recent limit ct =
     (let rows = rev (sort_key cy_started_at (filter (\<lambda>r. cy_status r \<noteq> None) (ct_rows ct)))
      in map_res row_to_result (if limit < 0 then rows else take (nat limit) rows))"

subsection \<open>Pruning\<close>

text \<open>The ids one \<^verbatim>\<open>DELETE\<close> names; a negative \<^verbatim>\<open>LIMIT\<close> is no limit in SQLite.\<close>

definition chunk_ids :: "time \<Rightarrow> int \<Rightarrow> cycle_row list \<Rightarrow> int list" where
  "chunk_ids cutoff batch_size rows =
     (let old = sort_key cy_started_at (filter (\<lambda>r. cy_started_at r < cutoff) rows)
      in map cy_id (if batch_size < 0 then old else take (nat batch_size) old))"

definition delete_ids :: "int list \<Rightarrow> cycle_row list \<Rightarrow> cycle_row list" where
  "delete_ids is rows = filter (\<lambda>r. cy_id r \<notin> set is) rows"

lemma chunk_ids_sub: "set (chunk_ids cutoff n rows) \<subseteq> cy_id ` set rows"
  by (auto simp: chunk_ids_def Let_def dest: in_set_takeD)

lemma delete_ids_shrinks:
  assumes "delete_ids (chunk_ids cutoff n rows) rows \<noteq> rows"
  shows "length (delete_ids (chunk_ids cutoff n rows) rows) < length rows"
proof -
  obtain r where "r \<in> set rows" "cy_id r \<in> set (chunk_ids cutoff n rows)"
    using assms by (auto simp: delete_ids_def filter_id_conv)
  then show ?thesis unfolding delete_ids_def by (intro length_filter_less [of r]) simp_all
qed

function prune_loop :: "time \<Rightarrow> int \<Rightarrow> cycle_row list \<Rightarrow> nat \<Rightarrow> cycle_row list \<times> nat" where
  "prune_loop cutoff batch_size rows acc =
     (let rows' = delete_ids (chunk_ids cutoff batch_size rows) rows;
          deleted = length rows - length rows'
      in if deleted = 0 then (rows', acc) else prune_loop cutoff batch_size rows' (acc + deleted))"
  by pat_completeness auto
termination
  by (relation "measure (\<lambda>(cutoff, n, rows, acc). length rows)") auto

declare prune_loop.simps [simp del]

definition cy_prune_older_than :: "time \<Rightarrow> int \<Rightarrow> int \<Rightarrow> cycles_table \<Rightarrow> cycles_table \<times> nat" where
  "cy_prune_older_than now age batch_size ct =
     (let (rows, n) = prune_loop (now - age) batch_size (ct_rows ct) 0
      in (ct\<lparr>ct_rows := rows\<rparr>, n))"

subsection \<open>Invariant and contract\<close>

definition ct_inv :: "cycles_table \<Rightarrow> bool" where
  "ct_inv ct \<longleftrightarrow> distinct (map cy_id (ct_rows ct)) \<and> (\<forall>i \<in> set (map cy_id (ct_rows ct)). i \<le> ct_seq ct)"

lemma cy_row_simps [simp]:
  "cy_id (open_row i g t) = i" "cy_id (closed_row result r) = cy_id r"
  "cy_status (open_row i g t) = None" "cy_status (closed_row result r) = Some (cr_status result)"
  "cy_started_at (closed_row result r) = cy_started_at r" "cy_region (closed_row result r) = cy_region r"
  by (simp_all add: open_row_def closed_row_def)

lemma cy_get_key: "cy_get ct i = Some r \<Longrightarrow> cy_id r = i \<and> r \<in> set (ct_rows ct)"
  unfolding cy_get_def using find_SomeD by fast

lemma cy_get_None: "cy_get ct i = None \<longleftrightarrow> i \<notin> cy_id ` set (ct_rows ct)"
  by (auto simp: cy_get_def find_None_iff_all)

lemma ct_inv_open: "ct_inv ct \<Longrightarrow> ct_inv (fst (cy_open g t ct))"
  by (fastforce simp: ct_inv_def cy_open_def Let_def)

lemma ct_inv_close: "ct_inv ct \<Longrightarrow> ct_inv (fst (cy_close i result ct))"
proof -
  have "map cy_id (ct_rows (fst (cy_close i result ct))) = map cy_id (ct_rows ct)"
    by (simp add: cy_close_def)
  moreover have "ct_seq (fst (cy_close i result ct)) = ct_seq ct" by (simp add: cy_close_def)
  ultimately show "ct_inv ct \<Longrightarrow> ct_inv (fst (cy_close i result ct))"
    unfolding ct_inv_def by metis
qed

lemma cy_get_close:
  "cy_get (fst (cy_close i result ct)) j =
     (if j = i then map_option (closed_row result) (cy_get ct i) else cy_get ct j)"
proof -
  have "cy_get (fst (cy_close i result ct)) j =
      map_option (\<lambda>r. if cy_id r = i then closed_row result r else r) (cy_get ct j)"
    unfolding cy_get_def cy_close_def by simp (rule find_map_key, simp)
  moreover have "map_option (\<lambda>r. if cy_id r = i then closed_row result r else r) (cy_get ct j) =
      (if j = i then map_option (closed_row result) (cy_get ct j) else cy_get ct j)"
    using cy_get_key [of ct j] by (cases "cy_get ct j") auto
  ultimately show ?thesis by simp
qed

text \<open>
  What the cycle services rely on: an opened row is new, is under the returned id, and
  closing it changes that row only.
\<close>

locale cycle_log =
  fixes inv :: "'s \<Rightarrow> bool"
    and get :: "'s \<Rightarrow> int \<Rightarrow> cycle_row option"
    and opn :: "int \<Rightarrow> time \<Rightarrow> 's \<Rightarrow> 's \<times> int"
    and cls :: "int \<Rightarrow> cycle_result \<Rightarrow> 's \<Rightarrow> 's \<times> unit res"
  assumes open_inv: "inv s \<Longrightarrow> inv (fst (opn g t s))"
    and close_inv: "inv s \<Longrightarrow> inv (fst (cls i result s))"
    and open_fresh: "inv s \<Longrightarrow> get s (snd (opn g t s)) = None"
    and open_get: "inv s \<Longrightarrow> get (fst (opn g t s)) j =
      (if j = snd (opn g t s) then Some (open_row j g t) else get s j)"
    and close_get: "get (fst (cls i result s)) j =
      (if j = i then map_option (closed_row result) (get s i) else get s j)"
    and close_result: "snd (cls i result s) = (if get s i = None then Inl RuntimeError else Inr ())"
begin

text \<open>A row opened and then closed: it is the only one that changed, and the close succeeds.\<close>

lemma open_close:
  assumes "inv s" "opn g t s = (s1, i)"
  shows "snd (cls i result s1) = Inr ()"
    and "get (fst (cls i result s1)) j =
      (if j = i then Some (closed_row result (open_row i g t)) else get s j)"
    and "get s i = None"
proof -
  have o: "get s1 j = (if j = i then Some (open_row j g t) else get s j)" for j
    using open_get [OF assms(1), of g t j] assms(2) by simp
  then show "snd (cls i result s1) = Inr ()" by (simp add: close_result)
  show "get (fst (cls i result s1)) j =
      (if j = i then Some (closed_row result (open_row i g t)) else get s j)"
    using o by (simp add: close_get)
  show "get s i = None" using open_fresh [OF assms(1), of g t] assms(2) by simp
qed

end

interpretation cyl: cycle_log ct_inv cy_get cy_open cy_close
proof unfold_locales
  fix ct g t
  assume inv: "ct_inv ct"
  then have n: "ct_seq ct + 1 \<notin> cy_id ` set (ct_rows ct)" by (auto simp: ct_inv_def)
  then show "cy_get ct (snd (cy_open g t ct)) = None"
    by (simp add: cy_get_None cy_open_def Let_def)
  show "cy_get (fst (cy_open g t ct)) j =
      (if j = snd (cy_open g t ct) then Some (open_row j g t) else cy_get ct j)" for j
    using n unfolding cy_get_None [symmetric]
    by (auto simp: cy_open_def cy_get_def Let_def find_append split: option.splits)
next
  fix i result ct
  have "(\<exists>r \<in> set (ct_rows ct). cy_id r = i) \<longleftrightarrow> cy_get ct i \<noteq> None"
    by (auto simp: cy_get_None image_iff)
  then show "snd (cy_close i result ct) = (if cy_get ct i = None then Inl RuntimeError else Inr ())"
    by (simp add: cy_close_def)
qed (auto simp: ct_inv_open ct_inv_close cy_get_close)

subsection \<open>Pruning is one deletion\<close>

lemma chunk_ids_old:
  "i \<in> set (chunk_ids cutoff n rows) \<Longrightarrow> \<exists>r \<in> set rows. cy_id r = i \<and> cy_started_at r < cutoff"
proof -
  assume "i \<in> set (chunk_ids cutoff n rows)"
  then obtain r where "cy_id r = i" "r \<in> set (sort_key cy_started_at (filter (\<lambda>r. cy_started_at r < cutoff) rows))"
    by (auto simp: chunk_ids_def Let_def simp del: set_sort dest!: in_set_takeD split: if_splits)
  then show ?thesis by auto
qed

lemma chunk_ids_empty:
  assumes "n \<noteq> 0" "chunk_ids cutoff n rows = []" "r \<in> set rows"
  shows "\<not> cy_started_at r < cutoff"
proof -
  have "sort_key cy_started_at (filter (\<lambda>r. cy_started_at r < cutoff) rows) = []"
    using assms(1,2) by (simp add: chunk_ids_def Let_def split: if_splits)
  then have "set (filter (\<lambda>r. cy_started_at r < cutoff) rows) = {}"
    by (metis set_sort set_empty)
  with assms(3) show ?thesis by auto
qed

lemma delete_chunk_keeps_young:
  assumes "distinct (map cy_id rows)"
  shows "filter (\<lambda>r. \<not> cy_started_at r < cutoff) (delete_ids (chunk_ids cutoff n rows) rows) =
         filter (\<lambda>r. \<not> cy_started_at r < cutoff) rows"
proof -
  have "cy_id r \<notin> set (chunk_ids cutoff n rows)" if "r \<in> set rows" "\<not> cy_started_at r < cutoff" for r
  proof
    assume "cy_id r \<in> set (chunk_ids cutoff n rows)"
    from chunk_ids_old [OF this] obtain r' where "r' \<in> set rows" "cy_id r' = cy_id r" "cy_started_at r' < cutoff"
      by blast
    with that assms show False by (auto simp: distinct_map dest: inj_onD)
  qed
  then show ?thesis unfolding delete_ids_def filter_filter by (intro filter_cong) auto
qed

lemma filter_lengths: "length xs = length (filter P xs) + length (filter (\<lambda>x. \<not> P x) xs)"
  by (induction xs) auto

lemma prune_loop_eq:
  assumes "distinct (map cy_id rows)" "n \<noteq> 0"
  shows "prune_loop cutoff n rows acc =
    (filter (\<lambda>r. \<not> cy_started_at r < cutoff) rows, acc + length (filter (\<lambda>r. cy_started_at r < cutoff) rows))"
  using assms
proof (induction cutoff n rows acc rule: prune_loop.induct)
  case (1 cutoff n rows acc)
  let ?rows = "delete_ids (chunk_ids cutoff n rows) rows"
  show ?case
  proof (cases "?rows = rows")
    case True
    have "chunk_ids cutoff n rows = []"
    proof (rule ccontr)
      assume "chunk_ids cutoff n rows \<noteq> []"
      then obtain i where "i \<in> set (chunk_ids cutoff n rows)" by (cases "chunk_ids cutoff n rows") auto
      with chunk_ids_old [OF this] True show False by (auto simp: delete_ids_def filter_id_conv)
    qed
    then have "\<forall>r \<in> set rows. \<not> cy_started_at r < cutoff" using chunk_ids_empty [OF 1(3)] by blast
    then have "filter (\<lambda>r. cy_started_at r < cutoff) rows = []"
      "filter (\<lambda>r. \<not> cy_started_at r < cutoff) rows = rows" by (auto simp: filter_empty_conv filter_id_conv)
    with True show ?thesis by (subst prune_loop.simps) (simp add: Let_def)
  next
    case False
    then have less: "length ?rows < length rows" by (rule delete_ids_shrinks)
    have "distinct (map cy_id ?rows)" using 1(2) by (simp add: delete_ids_def distinct_map_filter)
    with 1(1) [OF refl refl _ _ 1(3)] less
    have "prune_loop cutoff n rows acc =
        (filter (\<lambda>r. \<not> cy_started_at r < cutoff) ?rows,
         acc + (length rows - length ?rows) + length (filter (\<lambda>r. cy_started_at r < cutoff) ?rows))"
      by (subst prune_loop.simps) (simp add: Let_def)
    moreover note delete_chunk_keeps_young [OF 1(2), of cutoff n]
    moreover have "length rows - length ?rows + length (filter (\<lambda>r. cy_started_at r < cutoff) ?rows) =
        length (filter (\<lambda>r. cy_started_at r < cutoff) rows)"
      using filter_lengths [of rows "\<lambda>r. cy_started_at r < cutoff"]
        filter_lengths [of ?rows "\<lambda>r. cy_started_at r < cutoff"] less
        arg_cong [OF delete_chunk_keeps_young [OF 1(2), of cutoff n], of length] by linarith
    ultimately show ?thesis by simp
  qed
qed

lemma ct_inv_prune: "ct_inv ct \<Longrightarrow> ct_inv (fst (cy_prune_older_than now age n ct))"
proof -
  assume inv: "ct_inv ct"
  have sub: "\<exists>P. fst (prune_loop cutoff n rows acc) = filter P rows" for cutoff rows acc
  proof (induction cutoff n rows acc rule: prune_loop.induct)
    case (1 cutoff n rows acc)
    let ?rows = "delete_ids (chunk_ids cutoff n rows) rows"
    show ?case
    proof (cases "length rows - length ?rows = 0")
      case True
      then have "fst (prune_loop cutoff n rows acc) = ?rows"
        by (subst prune_loop.simps) (simp add: Let_def)
      then show ?thesis unfolding delete_ids_def by blast
    next
      case False
      then have "fst (prune_loop cutoff n rows acc) =
          fst (prune_loop cutoff n ?rows (acc + (length rows - length ?rows)))"
        by (subst prune_loop.simps) (simp add: Let_def)
      with 1 [OF refl refl False] obtain P where "fst (prune_loop cutoff n rows acc) = filter P ?rows" by auto
      then show ?thesis unfolding delete_ids_def filter_filter by blast
    qed
  qed
  from this [of "now - age" "ct_rows ct" 0] inv show ?thesis
    by (auto simp: ct_inv_def cy_prune_older_than_def Let_def case_prod_beta distinct_map_filter)
qed

lemma row_to_result_closed:
  "row_to_result (closed_row result (open_row (cr_id result) (cr_region result) (cr_started_at result))) =
     (if cycle_result_ok result then Inr result else Inl ValidationError)"
  by (cases result) (simp add: row_to_result_def closed_row_def open_row_def Let_def)

subsection \<open>Properties\<close>

text \<open>
  The chunked pruning is equivalent to a single deletion, whatever the batch size: it
  removes exactly the rows that started before the cutoff, in any state (a row still open
  included, whose later close then raises \<^verbatim>\<open>RuntimeError\<close>), and returns their number.
  Only a batch size of zero removes nothing.
\<close>

theorem prune_equals_single_delete:
  assumes "ct_inv ct" "batch_size \<noteq> 0"
  shows "cy_prune_older_than now age batch_size ct =
      (ct\<lparr>ct_rows := filter (\<lambda>r. now - age \<le> cy_started_at r) (ct_rows ct)\<rparr>,
       length (filter (\<lambda>r. cy_started_at r < now - age) (ct_rows ct)))
    \<and> cy_prune_older_than now age 0 ct = (ct, 0)
    \<and> (\<forall>r \<in> set (ct_rows ct). cy_started_at r < now - age \<longrightarrow>
         snd (cy_close (cy_id r) result (fst (cy_prune_older_than now age batch_size ct))) = Inl RuntimeError)"
proof -
  have d: "distinct (map cy_id (ct_rows ct))" using assms(1) by (simp add: ct_inv_def)
  have eq: "cy_prune_older_than now age batch_size ct =
      (ct\<lparr>ct_rows := filter (\<lambda>r. now - age \<le> cy_started_at r) (ct_rows ct)\<rparr>,
       length (filter (\<lambda>r. cy_started_at r < now - age) (ct_rows ct)))"
    using prune_loop_eq [OF d assms(2), of "now - age" 0]
    by (simp add: cy_prune_older_than_def not_less)
  moreover have "cy_prune_older_than now age 0 ct = (ct, 0)"
    unfolding cy_prune_older_than_def
    by (subst prune_loop.simps) (simp add: chunk_ids_def delete_ids_def Let_def)
  moreover have "snd (cy_close (cy_id r) result (fst (cy_prune_older_than now age batch_size ct))) = Inl RuntimeError"
    if "r \<in> set (ct_rows ct)" "cy_started_at r < now - age" for r
  proof -
    have "\<not> (\<exists>x \<in> set (ct_rows ct). now - age \<le> cy_started_at x \<and> cy_id x = cy_id r)"
      using d that by (force simp: distinct_map dest: inj_onD)
    then show ?thesis unfolding eq by (auto simp: cy_close_def)
  qed
  ultimately show ?thesis by blast
qed

theorem prune_equals_single_delete_witness:
  "snd (cy_prune_older_than 100 10 1
     \<lparr>ct_rows = [open_row 1 25 5, open_row 2 25 95, open_row 3 25 7], ct_seq = 3\<rparr>) = 2"
proof -
  have "ct_inv \<lparr>ct_rows = [open_row 1 25 5, open_row 2 25 95, open_row 3 25 7], ct_seq = 3\<rparr>"
    by (simp add: ct_inv_def)
  from prune_equals_single_delete [OF this, of 1 100 10] show ?thesis by (simp add: open_row_def)
qed

text \<open>
  Round trip through the log: the result a cycle is closed with, for the id, region and
  start the row was opened with, is what reading the row gives back; no other row changes.
  A result whose error text is over 200 characters is stored but cannot be read.
\<close>

theorem cycle_result_roundtrip:
  assumes "ct_inv ct" "cy_open (cr_region result) (cr_started_at result) ct = (ct1, cr_id result)"
  shows "\<exists>row. cy_get (fst (cy_close (cr_id result) result ct1)) (cr_id result) = Some row
     \<and> row_to_result row = (if cycle_result_ok result then Inr result else Inl ValidationError)
     \<and> snd (cy_close (cr_id result) result ct1) = Inr ()
     \<and> (\<forall>j. j \<noteq> cr_id result \<longrightarrow>
          cy_get (fst (cy_close (cr_id result) result ct1)) j = cy_get ct j)"
  using cyl.open_close(1,2) [OF assms, where result = result] row_to_result_closed [of result] by simp

theorem cycle_result_roundtrip_witness:
  "\<exists>row. cy_get (fst (cy_close 1 \<lparr>cr_id = 1, cr_region = 25, cr_started_at = 5, cr_finished_at = 9,
      cr_status = Cycle_ok, cr_lots_fetched = 20, cr_new_lots = 2, cr_error = None,
      cr_id_schema_check = Schema_ok\<rparr> (fst (cy_open 25 5 \<lparr>ct_rows = [], ct_seq = 0\<rparr>)))) 1 = Some row
    \<and> cy_status row = Some Cycle_ok"
proof -
  let ?r = "\<lparr>cr_id = 1, cr_region = 25, cr_started_at = 5, cr_finished_at = 9,
      cr_status = Cycle_ok, cr_lots_fetched = 20, cr_new_lots = 2, cr_error = None,
      cr_id_schema_check = Schema_ok\<rparr>"
  have "ct_inv \<lparr>ct_rows = [], ct_seq = 0\<rparr>" by (simp add: ct_inv_def)
  moreover have "cy_open (cr_region ?r) (cr_started_at ?r) \<lparr>ct_rows = [], ct_seq = 0\<rparr> =
      (fst (cy_open 25 5 \<lparr>ct_rows = [], ct_seq = 0\<rparr>), cr_id ?r)"
    by (simp add: cy_open_def)
  ultimately obtain row where
    "cy_get (fst (cy_close (cr_id ?r) ?r (fst (cy_open 25 5 \<lparr>ct_rows = [], ct_seq = 0\<rparr>)))) (cr_id ?r) = Some row"
    "row_to_result row = (if cycle_result_ok ?r then Inr ?r else Inl ValidationError)"
    using cycle_result_roundtrip [where ct = "\<lparr>ct_rows = [], ct_seq = 0\<rparr>" and result = ?r] by blast
  then show ?thesis
    by (auto simp: cycle_result_ok_def row_to_result_def Let_def split: option.splits if_splits)
qed

end
