(* ===== verification/Humanize.thy ===== *)
theory Humanize
  imports Prelude
begin

text \<open>
  The header's time texts (\<^verbatim>\<open>services/humanize.py\<close>). Wall-clock times are microseconds
  since midnight of 1 January 1970 on the local clock; the calendar date is computed by the
  usual era arithmetic of the proleptic Gregorian calendar, as \<^verbatim>\<open>strftime\<close> shows it.
\<close>

definition ustr_of :: "string \<Rightarrow> ustr" where
  "ustr_of s = map of_char s"

definition dash :: ustr where "dash = [8212]"

definition two_digits :: "int \<Rightarrow> string" where
  "two_digits n = (if n < 10 then ''0'' @ str_of_int n else str_of_int n)"

definition hh_mm :: "int \<Rightarrow> string" where
  "hh_mm wall =
     (let minutes = (wall mod us_per_day) div us_per_minute
      in two_digits (minutes div 60) @ '':'' @ two_digits (minutes mod 60))"

definition day_month :: "int \<Rightarrow> int \<times> int" where
  "day_month days =
     (let doe = (days + 719468) mod 146097;
          yoe = (doe - doe div 1460 + doe div 36524 - doe div 146096) div 365;
          doy = doe - (365 * yoe + yoe div 4 - yoe div 100);
          mp = (5 * doy + 2) div 153
      in (doy - (153 * mp + 2) div 5 + 1, if mp < 10 then mp + 3 else mp - 9))"

definition format_local_time :: "time \<Rightarrow> (time \<Rightarrow> int) \<Rightarrow> int \<Rightarrow> ustr" where
  "format_local_time dt_utc tz now_local =
     (let wall = tz dt_utc
      in if wall div us_per_day = now_local div us_per_day then ustr_of (hh_mm wall)
         else let (d, m) = day_month (wall div us_per_day)
              in ustr_of (two_digits d @ ''.'' @ two_digits m @ '' '' @ hh_mm wall))"

text \<open>The age in whole seconds, truncated towards zero as \<^verbatim>\<open>int\<close> does.\<close>

definition humanize_relative_age :: "int \<Rightarrow> ustr" where
  "humanize_relative_age age =
     (let seconds = (if 0 \<le> age then age div 1000000 else - ((- age) div 1000000))
      in if seconds < 60 then [1090, 1086, 1083, 1100, 1082, 1086, 32, 1095, 1090, 1086]
         else let minutes = seconds div 60
              in if minutes < 60
                 then ustr_of (str_of_int minutes) @ [32, 1084, 1080, 1085, 32, 1085, 1072, 1079, 1072, 1076]
                 else let hours = minutes div 60
                      in if hours < 24 then ustr_of (str_of_int hours) @ [32, 1095, 32, 1085, 1072, 1079, 1072, 1076]
                         else ustr_of (str_of_int (hours div 24)) @ [32, 1076, 1085, 32, 1085, 1072, 1079, 1072, 1076])"

lemma str_of_nat_single: "n < 10 \<Longrightarrow> length (str_of_nat n) = 1"
  by (subst str_of_nat.simps) simp

lemma str_of_nat_double: "10 \<le> n \<Longrightarrow> n < 100 \<Longrightarrow> length (str_of_nat n) = 2"
  by (subst str_of_nat.simps) (simp add: str_of_nat_single)

lemma two_digits_length: "0 \<le> n \<Longrightarrow> n < 100 \<Longrightarrow> length (two_digits n) = 2"
  by (auto simp: two_digits_def str_of_int_def str_of_nat_single str_of_nat_double)

lemma hh_mm_length: "length (hh_mm wall) = 5"
proof -
  let ?m = "(wall mod us_per_day) div us_per_minute"
  have d: "us_per_day = 1440 * us_per_minute" by (simp add: us_per_day_def)
  have "0 \<le> ?m" using pos_mod_sign [OF us_per_day_pos, of wall] pos_imp_zdiv_nonneg_iff by simp
  moreover have "?m < 1440"
  proof -
    have "us_per_minute * ?m \<le> wall mod us_per_day"
      using pos_mod_sign [OF us_per_minute_pos, of "wall mod us_per_day"]
        mult_div_mod_eq [of us_per_minute "wall mod us_per_day"] by linarith
    also have "\<dots> < us_per_minute * 1440"
      using pos_mod_bound [OF us_per_day_pos, of wall] d by linarith
    finally show ?thesis by (simp only: mult_less_cancel_left_pos [OF us_per_minute_pos])
  qed
  ultimately have "0 \<le> ?m div 60" "?m div 60 < 100" "0 \<le> ?m mod 60" "?m mod 60 < 100" by auto
  then show ?thesis by (simp add: hh_mm_def Let_def two_digits_length)
qed

end
