(* ===== verification/Enrichment.thy ===== *)
theory Enrichment
  imports Fetcher
begin

text \<open>
  Enrichment of list lots with their detail pages (\<^verbatim>\<open>services/enrichment.py\<close>). The HTTP
  client and the detail parser are parameters; the thread pool is left out, since the
  futures are collected in input order and a worker only computes its lot. \<open>en_now\<close> is the
  wall clock the worker of a lot reads when it is done.
\<close>

record enrich_env =
  en_base :: string
  en_get :: "string \<Rightarrow> http_response res"
  en_parse :: "string \<Rightarrow> parsed_detail res"
  en_now :: "int \<Rightarrow> time"

definition merge_detail :: "parsed_detail \<Rightarrow> time \<Rightarrow> lot \<Rightarrow> lot" where
  "merge_detail d t l =
     l\<lparr> lot_lat := det_lat d,
        lot_lon := det_lon d,
        lot_has_boundaries := det_has_boundaries d,
        lot_date_registry := (if det_date_registry d \<noteq> None then det_date_registry d else lot_date_registry l),
        lot_date_update := (if det_date_update d \<noteq> None then det_date_update d else lot_date_update l),
        lot_raw_json := det_raw_json d,
        lot_parser_version := det_parser_version d,
        lot_detail_fetched_at := Some t,
        lot_enrichment_status := Some Enrich_done \<rparr>"

definition enrich_failed :: "lot \<Rightarrow> lot" where
  "enrich_failed l = l\<lparr>lot_enrichment_status := Some Enrich_failed\<rparr>"

definition enrich_one :: "enrich_env \<Rightarrow> lot \<Rightarrow> lot res" where
  "enrich_one env l =
     (case res_bind (en_get env (lot_detail_url (en_base env) (lot_id l))) (\<lambda>response. en_parse env (resp_text response)) of
        Inl e \<Rightarrow> (if e = ParserVersionMismatch then Inl e else Inr (enrich_failed l))
      | Inr detail \<Rightarrow> Inr (merge_detail detail (en_now env (lot_id l)) l))"

definition enrich_lots :: "enrich_env \<Rightarrow> lot list \<Rightarrow> lot list res" where
  "enrich_lots env lots = map_res (enrich_one env) lots"

lemma merge_detail_sel [simp]:
  "lot_id (merge_detail d t l) = lot_id l" "lot_region_id (merge_detail d t l) = lot_region_id l"
  "lot_date_create (merge_detail d t l) = lot_date_create l"
  "lot_id (enrich_failed l) = lot_id l" "lot_region_id (enrich_failed l) = lot_region_id l"
  "lot_lat (enrich_failed l) = lot_lat l" "lot_lon (enrich_failed l) = lot_lon l"
  "lot_status (merge_detail d t l) = lot_status l" "lot_status (enrich_failed l) = lot_status l"
  by (simp_all add: merge_detail_def enrich_failed_def)

lemma enrich_one_id: "enrich_one env l = Inr l' \<Longrightarrow> lot_id l' = lot_id l"
  by (auto simp: enrich_one_def split: sum.splits if_splits)

lemma enrich_one_error: "enrich_one env l = Inl e \<Longrightarrow> e = ParserVersionMismatch"
  by (auto simp: enrich_one_def split: sum.splits if_splits)

lemma enrich_lots_error: "enrich_lots env lots = Inl e \<Longrightarrow> e = ParserVersionMismatch"
  unfolding enrich_lots_def using map_res_Inl enrich_one_error by fast

lemma enrich_lots_ids:
  assumes "enrich_lots env lots = Inr lots'"
  shows "map lot_id lots' = map lot_id lots"
proof (rule nth_equalityI)
  show "length (map lot_id lots') = length (map lot_id lots)"
    using map_res_InrD [OF assms [unfolded enrich_lots_def]] by simp
next
  fix i assume "i < length (map lot_id lots')"
  then show "map lot_id lots' ! i = map lot_id lots ! i"
    using map_res_InrD [OF assms [unfolded enrich_lots_def]] enrich_one_id by fastforce
qed

end
