(* ===== verification/Monitor_State.thy ===== *)
theory Monitor_State
  imports Lot_Repo Cycles_Repo
begin

text \<open>
  The state the monitor cycle (\<^verbatim>\<open>services/monitor_cycle.py\<close>) and the backfill
  (\<^verbatim>\<open>services/backfill.py\<close>) share, and the small operations each offers the other: the set
  of regions being backfilled and the trigger queue of capacity one.

  The calls to the event bus and to the dispatcher are kept in order as \<open>m_bus\<close> and
  \<open>m_dispatched\<close>; what those calls do is the subject of \<open>Event_Bus\<close> and \<open>Dispatcher\<close>.
  \<open>m_worker\<close> is the argument of a backfill thread that was started and has not run yet. The
  \<^verbatim>\<open>state\<close> table is the one of the lot database.
\<close>

datatype bus_call = Published sse_event | Evicted string

record bf_progress =
  bp_running :: bool
  bp_region :: "int option"
  bp_page :: "nat option"
  bp_regions_total :: nat
  bp_started_at :: "time option"
  bp_updated_at :: "time option"
  bp_done :: bool

definition no_progress :: bf_progress where
  "no_progress = \<lparr>bp_running = False, bp_region = None, bp_page = None, bp_regions_total = 0,
     bp_started_at = None, bp_updated_at = None, bp_done = False\<rparr>"

record mon =
  m_db :: lots_db
  m_cycles :: cycles_table
  m_bus :: "bus_call list"
  m_dispatched :: "lot_public list"
  m_clock :: clock_st
  m_trigger :: bool
  m_in_backfill :: "int set"
  m_miss :: "int \<rightharpoonup> nat"
  m_delta :: "int \<rightharpoonup> string"
  m_terminal :: bool
  bf_running :: bool
  bf_stop :: bool
  bf_worker :: "int list option option"
  bf_prog :: bf_progress

definition m_now :: "mon \<Rightarrow> time" where
  "m_now st = now_of (m_clock st)"

definition m_tick :: "mon \<Rightarrow> mon" where
  "m_tick st = st\<lparr>m_clock := tick (m_clock st)\<rparr>"

definition pub :: "sse_event \<Rightarrow> mon \<Rightarrow> mon" where
  "pub e st = st\<lparr>m_bus := m_bus st @ [Published e]\<rparr>"

definition mark_region_in_backfill :: "int \<Rightarrow> mon \<Rightarrow> mon" where
  "mark_region_in_backfill region st = st\<lparr>m_in_backfill := insert region (m_in_backfill st)\<rparr>"

definition clear_region_in_backfill :: "int \<Rightarrow> mon \<Rightarrow> mon" where
  "clear_region_in_backfill region st = st\<lparr>m_in_backfill := m_in_backfill st - {region}\<rparr>"

text \<open>A second sentinel does not fit the queue and is dropped.\<close>

definition request_run_now :: "mon \<Rightarrow> mon" where
  "request_run_now st = st\<lparr>m_trigger := True\<rparr>"

text \<open>An upsert from a service; the repository reads the clock once if it gets to the history.\<close>

definition m_upsert :: "bool \<Rightarrow> lot \<Rightarrow> mon \<Rightarrow> mon \<times> lot_upsert_result res" where
  "m_upsert is_backfill l st =
     (let (db, r) = lr_upsert DEFAULT_TRACKED_FIELDS is_backfill (m_now st) l (m_db st);
          st' = (case r of Inl _ \<Rightarrow> st | Inr _ \<Rightarrow> m_tick st)
      in (st'\<lparr>m_db := db\<rparr>, r))"

definition m_state_set :: "string \<Rightarrow> string \<Rightarrow> mon \<Rightarrow> mon" where
  "m_state_set k v st =
     (let db = m_db st
      in m_tick (st\<lparr>m_db := db\<lparr>ld_state := kv_set (m_now st) k (Plain v) (ld_state db)\<rparr>\<rparr>))"

lemma m_frame [simp]:
  "m_db (m_tick st) = m_db st" "m_cycles (m_tick st) = m_cycles st" "m_bus (m_tick st) = m_bus st"
  "m_dispatched (m_tick st) = m_dispatched st" "m_in_backfill (m_tick st) = m_in_backfill st"
  "bf_running (m_tick st) = bf_running st" "bf_worker (m_tick st) = bf_worker st"
  "m_trigger (m_tick st) = m_trigger st" "m_terminal (m_tick st) = m_terminal st"
  "bf_stop (m_tick st) = bf_stop st" "bf_prog (m_tick st) = bf_prog st"
  "m_delta (m_tick st) = m_delta st" "m_miss (m_tick st) = m_miss st"
  "m_db (pub e st) = m_db st" "m_cycles (pub e st) = m_cycles st" "m_bus (pub e st) = m_bus st @ [Published e]"
  "m_dispatched (pub e st) = m_dispatched st" "m_in_backfill (pub e st) = m_in_backfill st"
  "bf_running (pub e st) = bf_running st" "bf_worker (pub e st) = bf_worker st"
  "m_trigger (pub e st) = m_trigger st" "m_terminal (pub e st) = m_terminal st"
  "bf_stop (pub e st) = bf_stop st" "bf_prog (pub e st) = bf_prog st"
  "m_delta (pub e st) = m_delta st" "m_miss (pub e st) = m_miss st"
  by (simp_all add: m_tick_def pub_def)

lemma m_upsert_frame [simp]:
  "m_cycles (fst (m_upsert b l st)) = m_cycles st" "m_bus (fst (m_upsert b l st)) = m_bus st"
  "m_dispatched (fst (m_upsert b l st)) = m_dispatched st"
  "m_in_backfill (fst (m_upsert b l st)) = m_in_backfill st"
  "bf_running (fst (m_upsert b l st)) = bf_running st" "bf_worker (fst (m_upsert b l st)) = bf_worker st"
  "m_trigger (fst (m_upsert b l st)) = m_trigger st" "m_terminal (fst (m_upsert b l st)) = m_terminal st"
  "bf_stop (fst (m_upsert b l st)) = bf_stop st" "bf_prog (fst (m_upsert b l st)) = bf_prog st"
  "m_delta (fst (m_upsert b l st)) = m_delta st" "m_miss (fst (m_upsert b l st)) = m_miss st"
  by (auto simp: m_upsert_def Let_def case_prod_beta split: sum.splits)

lemma m_upsert_db:
  "m_db (fst (m_upsert b l st)) = fst (lr_upsert DEFAULT_TRACKED_FIELDS b (m_now st) l (m_db st))"
  "snd (m_upsert b l st) = snd (lr_upsert DEFAULT_TRACKED_FIELDS b (m_now st) l (m_db st))"
  by (simp_all add: m_upsert_def Let_def case_prod_beta)

lemma m_state_set_frame [simp]:
  "m_cycles (m_state_set k v st) = m_cycles st" "m_bus (m_state_set k v st) = m_bus st"
  "m_dispatched (m_state_set k v st) = m_dispatched st"
  "m_in_backfill (m_state_set k v st) = m_in_backfill st"
  "bf_running (m_state_set k v st) = bf_running st" "bf_worker (m_state_set k v st) = bf_worker st"
  "m_trigger (m_state_set k v st) = m_trigger st" "bf_stop (m_state_set k v st) = bf_stop st"
  "bf_prog (m_state_set k v st) = bf_prog st"
  "ld_rows (m_db (m_state_set k v st)) = ld_rows (m_db st)"
  "ld_rtree (m_db (m_state_set k v st)) = ld_rtree (m_db st)"
  by (simp_all add: m_state_set_def Let_def)

lemma m_state_set_get [simp]:
  "kv_get (ld_state (m_db (m_state_set k v st))) k' =
     (if k' = k then Some (Plain v) else kv_get (ld_state (m_db st)) k')"
  by (simp add: m_state_set_def Let_def kv.get_put)

lemma m_state_set_row [simp]: "lr_row (m_db (m_state_set k v st)) i = lr_row (m_db st) i"
  by (simp add: lr_row_def)

lemma lr_inv_rows_cong: "ld_rows s = ld_rows s' \<Longrightarrow> ld_rtree s = ld_rtree s' \<Longrightarrow> lr_inv s = lr_inv s'"
  by (simp add: lr_inv_def lr_row_def)

lemma m_state_set_inv [simp]: "lr_inv (m_db (m_state_set k v st)) = lr_inv (m_db st)"
  by (rule lr_inv_rows_cong) simp_all

text \<open>How an upsert changes which lots are stored.\<close>

lemma m_upsert_inv: "lr_inv (m_db st) \<Longrightarrow> lr_inv (m_db (fst (m_upsert b l st)))"
  by (simp add: m_upsert_db lr_upsert_inv)

lemma lr_upsert_rows:
  assumes "lr_inv s"
  shows "lr_row (fst (lr_upsert tr b t l s)) i \<noteq> None \<longleftrightarrow>
      lr_row s i \<noteq> None \<or> (i = lot_id l \<and> (\<exists>r. snd (lr_upsert tr b t l s) = Inr r))"
  using assms
  by (cases rule: lr_upsert_cases [where l = l and tracked = tr and b = b and now = t])
    (auto simp: lr_row_upsert_fresh lr_row_upsert_known)

lemma lr_upsert_new:
  assumes "lr_inv s" "snd (lr_upsert tr b t l s) = Inr r"
  shows "ur_was_new r \<longleftrightarrow> lr_row s (lot_id l) = None"
  using assms(1)
  by (cases rule: lr_upsert_cases [where l = l and tracked = tr and b = b and now = t])
    (use assms(2) in auto)

lemma default_upsert_new_stored:
  assumes "lr_inv s"
  shows "lr_row (fst (lr_upsert DEFAULT_TRACKED_FIELDS b t l s)) (lot_id l) \<noteq> None"
  using assms
proof (cases rule: lr_upsert_cases [where l = l and tracked = DEFAULT_TRACKED_FIELDS and b = b and now = t])
  case (raises e)
  then show ?thesis by auto
qed (auto simp: lr_row_upsert_fresh lr_row_upsert_known)

end
