(* ===== verification/Backfill.thy ===== *)
theory Backfill
  imports Monitor_State Regions Fetcher
begin

text \<open>
  The backfill service (\<^verbatim>\<open>services/backfill.py\<close>): the single-flight start, the delta
  trigger, the run over at most five pages within a thirty-day window, and the status. A
  worker thread is the pending \<open>bf_worker\<close> and the step \<open>bf_worker_step\<close> that runs it.

  The stop events are readings in the environment: before the run, before each row, before
  each publication, inside the walk, and the final \<open>be_cancelled\<close>. \<open>stop_coherent\<close> says
  what the event objects guarantee: an event once seen set stays set.
\<close>

definition DELTA_THRESHOLD :: int where "DELTA_THRESHOLD = 3"
definition BACKFILL_MAX_PAGES :: nat where "BACKFILL_MAX_PAGES = 5"
definition BACKFILL_WINDOW_DAYS :: int where "BACKFILL_WINDOW_DAYS = 30"
definition STATE_KEY_DONE :: string where "STATE_KEY_DONE = ''backfill.done''"
definition STATE_KEY_TOTAL :: string where "STATE_KEY_TOTAL = ''backfill.total_last''"

record bf_env =
  be_regions :: "int list"
  be_fetch :: "int \<Rightarrow> fetch_env"
  be_stop_start :: bool
  be_stop_row :: "nat \<Rightarrow> bool"
  be_stop_pub :: "nat \<Rightarrow> bool"
  be_cancelled :: bool

definition stop_coherent :: "bf_env \<Rightarrow> bool" where
  "stop_coherent env \<longleftrightarrow>
     (be_stop_start env \<or> (\<exists>n. be_stop_row env n \<or> be_stop_pub env n)
      \<or> (\<exists>g n. fe_stop (be_fetch env g) n \<or> fe_wait (be_fetch env g) n) \<longrightarrow> be_cancelled env)"

subsection \<open>Starting\<close>

text \<open>Both ways to start set the flag and a fresh stop event under the flight lock.\<close>

definition launch :: "int list option \<Rightarrow> mon \<Rightarrow> mon" where
  "launch regions st = st\<lparr>bf_running := True, bf_stop := False, bf_worker := Some regions\<rparr>"

definition bf_start :: "int list option \<Rightarrow> mon \<Rightarrow> mon \<times> bool" where
  "bf_start regions st = (if bf_running st then (st, False) else (launch regions st, True))"

definition bf_start_resume :: "mon \<Rightarrow> mon \<times> bool" where
  "bf_start_resume st = bf_start None st"

definition read_total :: "mon \<Rightarrow> int option res" where
  "read_total st =
     (case kv_get (ld_state (m_db st)) STATE_KEY_TOTAL of
        None \<Rightarrow> Inr None
      | Some (Plain s) \<Rightarrow> res_bind (int_of_str s) (\<lambda>n. Inr (Some n))
      | Some _ \<Rightarrow> Inl ValueError)"

datatype bf_decision = Skip_none | Skip_running | Skip_negative | Skip_threshold | Trigger

definition bf_decide :: "bool \<Rightarrow> int option \<Rightarrow> int option \<Rightarrow> int \<Rightarrow> int \<Rightarrow> bf_decision" where
  "bf_decide running total_last site_total db_count len_parsed_hint =
     (let reference = (case total_last of None \<Rightarrow> db_count | Some n \<Rightarrow> n)
      in case site_total of
           None \<Rightarrow> Skip_none
         | Some t \<Rightarrow>
             (if running then Skip_running
              else if t - reference < 0 then Skip_negative
              else if t - reference \<le> len_parsed_hint + DELTA_THRESHOLD then Skip_threshold
              else Trigger))"

definition maybe_start :: "int \<Rightarrow> int option \<Rightarrow> int \<Rightarrow> int \<Rightarrow> mon \<Rightarrow> mon \<times> bool res" where
  "maybe_start region_id site_total db_count len_parsed_hint st =
     (case read_total st of
        Inl e \<Rightarrow> (st, Inl e)
      | Inr total_last \<Rightarrow>
          (case bf_decide (bf_running st) total_last site_total db_count len_parsed_hint of
             Skip_negative \<Rightarrow> (m_state_set STATE_KEY_TOTAL (str_of_int (the site_total)) st, Inr False)
           | Trigger \<Rightarrow> (launch (Some [region_id]) st, Inr True)
           | _ \<Rightarrow> (st, Inr False)))"

subsection \<open>One run\<close>

definition bf_store :: "bf_env \<Rightarrow> nat \<Rightarrow> parsed_list_row \<Rightarrow> mon \<Rightarrow> mon" where
  "bf_store env n row st =
     (let l = parsed_row_to_lot row (m_now st) (subject_id_by_title (Some (row_region row)))
      in case m_upsert True l (m_tick st) of
           (st2, Inl _) \<Rightarrow> st2
         | (st2, Inr upsert_result) \<Rightarrow>
             (if ur_was_new upsert_result \<and> \<not> be_stop_pub env n
              then pub (SseLotNew (lot_to_public_dto l) True) st2 else st2))"

text \<open>
  The loop over the walk's items: whether it broke out, whether at the date boundary, and
  the first announced total.
\<close>

fun process_items ::
  "bf_env \<Rightarrow> time \<Rightarrow> walk_item list \<Rightarrow> nat \<Rightarrow> int option \<Rightarrow> mon \<Rightarrow> mon \<times> bool \<times> bool \<times> int option" where
  "process_items env cutoff [] n total_seen st = (st, False, False, total_seen)"
| "process_items env cutoff (Total_callback t # items) n total_seen st =
     process_items env cutoff items n (if total_seen = None then Some t else total_seen) st"
| "process_items env cutoff (Page_callback p k # items) n total_seen st =
     process_items env cutoff items n total_seen
       (m_tick (st\<lparr>bf_prog := (bf_prog st)\<lparr>bp_page := Some p, bp_updated_at := Some (m_now st)\<rparr>\<rparr>))"
| "process_items env cutoff (Row row # items) n total_seen st =
     (if be_stop_row env n then (st, True, False, total_seen)
      else if row_date_create row < cutoff then (st, True, True, total_seen)
      else process_items env cutoff items (Suc n) total_seen (bf_store env n row st))"

definition process_region ::
  "bf_env \<Rightarrow> int \<Rightarrow> time \<Rightarrow> mon \<Rightarrow> mon \<times> (bool \<times> int option) res" where
  "process_region env region cutoff st =
     (let st0 = st\<lparr>bf_prog := (bf_prog st)\<lparr>bp_region := Some region, bp_page := None\<rparr>\<rparr>;
          (items, why) = iterate (be_fetch env region) (Some BACKFILL_MAX_PAGES) 1 True True;
          (st1, broke, date_stopped, total_seen) = process_items env cutoff items 0 None st0
      in if broke then (st1, Inr (date_stopped, total_seen))
         else case why of
                Raised e \<Rightarrow>
                  (if e = SessionExpiredError
                   then (m_tick (pub (SseSessionExpired (m_now st1)) st1), Inl e)
                   else if is_parse_bug e then (st1, Inl e)
                   else (m_tick (pub (SseCycleError (m_now st1) 0 Cat_network) st1), Inl e))
              | _ \<Rightarrow> (st1, Inr (date_stopped, total_seen)))"

definition fetch_region_of :: "bf_env \<Rightarrow> int list option \<Rightarrow> int" where
  "fetch_region_of env regions =
     (case (case regions of None \<Rightarrow> be_regions env | Some rs \<Rightarrow> rs) of [] \<Rightarrow> 1 | r # _ \<Rightarrow> r)"

text \<open>The part of the run under the region mark: whether it failed and the total it saw.\<close>

definition bf_pass :: "bf_env \<Rightarrow> int \<Rightarrow> time \<Rightarrow> mon \<Rightarrow> mon \<times> bool \<times> int option" where
  "bf_pass env region cutoff st =
     (let (st1, r) = process_region env region cutoff (mark_region_in_backfill region st);
          (st2, errored, total_seen) =
            (case r of
               Inr (date_stopped, total_seen) \<Rightarrow> (st1, False, total_seen)
             | Inl e \<Rightarrow>
                 (if is_parse_bug e
                  then (m_tick (pub (SseCycleError (m_now st1) 0 Cat_parse_bug) st1), True, None)
                  else (st1, True, None)));
          st3 = clear_region_in_backfill region st2
      in (st3\<lparr>bf_prog := (bf_prog st3)\<lparr>bp_region := None, bp_page := None\<rparr>\<rparr>, errored, total_seen))"

definition bf_finish :: "int option \<Rightarrow> mon \<Rightarrow> mon" where
  "bf_finish total_seen st =
     (let st1 = m_tick (st\<lparr>bf_prog := (bf_prog st)\<lparr>bp_done := True, bp_updated_at := Some (m_now st)\<rparr>\<rparr>);
          st2 = m_state_set STATE_KEY_DONE ''1'' st1;
          st3 = (case total_seen of None \<Rightarrow> st2 | Some t \<Rightarrow> m_state_set STATE_KEY_TOTAL (str_of_int t) st2)
      in request_run_now st3)"

definition bf_run :: "bf_env \<Rightarrow> int list option \<Rightarrow> mon \<Rightarrow> mon" where
  "bf_run env regions st =
     (let region = fetch_region_of env regions;
          now = m_now st;
          st1 = (m_tick st)\<lparr>bf_prog := no_progress\<lparr>bp_running := True, bp_regions_total := 1,
                   bp_started_at := Some now, bp_updated_at := Some now\<rparr>\<rparr>;
          cutoff = m_now st1 - BACKFILL_WINDOW_DAYS * us_per_day;
          st2 = m_tick st1;
          (st3, errored, total_seen) =
            (if be_stop_start env then (st2, False, None) else bf_pass env region cutoff st2);
          st4 = (if \<not> (bf_stop st3 \<or> be_cancelled env) \<and> \<not> errored then bf_finish total_seen st3 else st3)
      in st4\<lparr>bf_stop := True\<rparr>)"

definition bf_worker_step :: "bf_env \<Rightarrow> mon \<Rightarrow> mon" where
  "bf_worker_step env st =
     (case bf_worker st of
        None \<Rightarrow> st
      | Some regions \<Rightarrow>
          (let st1 = bf_run env regions (st\<lparr>bf_worker := None\<rparr>)
           in st1\<lparr>bf_running := False, bf_prog := (bf_prog st1)\<lparr>bp_running := False\<rparr>\<rparr>))"

subsection \<open>Status\<close>

datatype bf_status_text = Bf_idle | Bf_running | Bf_done

definition bf_status :: "mon \<Rightarrow> bf_status_text \<times> bf_progress" where
  "bf_status st =
     (let p = bf_prog st
      in (if bp_running p then Bf_running else if bp_done p then Bf_done else Bf_idle, p))"

definition bf_cancel :: "mon \<Rightarrow> mon" where
  "bf_cancel st = st\<lparr>bf_stop := True\<rparr>"

definition bf_is_running :: "mon \<Rightarrow> bool" where
  "bf_is_running st = bf_running st"

definition bf_is_done :: "mon \<Rightarrow> bool" where
  "bf_is_done st \<longleftrightarrow> kv_get (ld_state (m_db st)) STATE_KEY_DONE \<noteq> None"

subsection \<open>What storing rows changes\<close>

lemma lr_upsert_state: "ld_state (fst (lr_upsert tr b t l s)) = ld_state s"
  by (auto simp: lr_upsert_def upsert_tx_def Let_def res_bind_Inr_iff split: sum.splits prod.splits option.splits)

text \<open>
  \<open>backfilled st st'\<close>: lots were added and announced as backfill lots, nothing else of the
  shared state moved.
\<close>

definition announces :: "lots_db \<Rightarrow> lots_db \<Rightarrow> lot_public list \<Rightarrow> bool" where
  "announces db db' news \<longleftrightarrow> distinct (map lot_id news)
     \<and> (\<forall>l \<in> set news. lr_row db (lot_id l) = None \<and> lr_row db' (lot_id l) \<noteq> None)"

definition backfill_calls :: "lot_public list \<Rightarrow> bus_call list" where
  "backfill_calls news = map (\<lambda>l. Published (SseLotNew l True)) news"

definition backfilled :: "mon \<Rightarrow> mon \<Rightarrow> bool" where
  "backfilled st st' \<longleftrightarrow>
     lr_inv (m_db st') \<and> ld_state (m_db st') = ld_state (m_db st)
     \<and> m_cycles st' = m_cycles st \<and> m_dispatched st' = m_dispatched st
     \<and> m_in_backfill st' = m_in_backfill st \<and> m_trigger st' = m_trigger st
     \<and> bf_running st' = bf_running st \<and> bf_worker st' = bf_worker st \<and> bf_stop st' = bf_stop st
     \<and> (\<forall>i. lr_row (m_db st) i \<noteq> None \<longrightarrow> lr_row (m_db st') i \<noteq> None)
     \<and> (\<exists>news. m_bus st' = m_bus st @ backfill_calls news \<and> announces (m_db st) (m_db st') news)"

lemma backfilled_refl: "lr_inv (m_db st) \<Longrightarrow> backfilled st st"
  by (auto simp: backfilled_def announces_def backfill_calls_def intro: exI [of _ "[]"])

lemma announces_append:
  assumes "announces a b xs" "announces b c ys" "\<forall>i. lr_row b i \<noteq> None \<longrightarrow> lr_row c i \<noteq> None"
    and "\<forall>i. lr_row a i \<noteq> None \<longrightarrow> lr_row b i \<noteq> None"
  shows "announces a c (xs @ ys)"
  using assms by (fastforce simp: announces_def)

lemma backfilled_trans:
  assumes "backfilled a b" "backfilled b c"
  shows "backfilled a c"
proof -
  from assms obtain xs ys where
    "m_bus b = m_bus a @ backfill_calls xs" "announces (m_db a) (m_db b) xs"
    "m_bus c = m_bus b @ backfill_calls ys" "announces (m_db b) (m_db c) ys"
    by (auto simp: backfilled_def)
  then have "m_bus c = m_bus a @ backfill_calls (xs @ ys) \<and> announces (m_db a) (m_db c) (xs @ ys)"
    using assms announces_append by (simp add: backfill_calls_def backfilled_def)
  with assms show ?thesis unfolding backfilled_def by auto
qed

lemma bf_store_spec:
  assumes "lr_inv (m_db st)"
  shows "backfilled st (bf_store env n row st) \<and> lr_row (m_db (bf_store env n row st)) (row_id row) \<noteq> None"
proof -
  let ?l = "parsed_row_to_lot row (m_now st) (subject_id_by_title (Some (row_region row)))"
  let ?u = "lr_upsert DEFAULT_TRACKED_FIELDS True (m_now (m_tick st)) ?l (m_db st)"
  let ?st = "fst (m_upsert True ?l (m_tick st))"
  have db: "m_db (bf_store env n row st) = fst ?u"
    by (auto simp: bf_store_def Let_def case_prod_beta m_upsert_db split: sum.splits prod.splits)
  have stored: "lr_row (fst ?u) (row_id row) \<noteq> None"
    using default_upsert_new_stored [OF assms, of True _ ?l] by simp
  have keep: "lr_row (m_db st) i \<noteq> None \<Longrightarrow> lr_row (fst ?u) i \<noteq> None" for i
    using lr_upsert_rows [OF assms] by blast
  have fr: "ld_state (fst ?u) = ld_state (m_db st)" "lr_inv (fst ?u)"
    using lr_upsert_state lr_upsert_inv [OF assms] by blast+
  have bus: "\<exists>news. m_bus (bf_store env n row st) = m_bus st @ backfill_calls news
      \<and> announces (m_db st) (fst ?u) news"
  proof (cases "snd ?u")
    case (Inr r)
    show ?thesis
    proof (cases "ur_was_new r \<and> \<not> be_stop_pub env n")
      case True
      then have "lr_row (m_db st) (row_id row) = None" using lr_upsert_new [OF assms Inr] by simp
      moreover have "m_bus (bf_store env n row st) = m_bus st @ backfill_calls [lot_to_public_dto ?l]"
        using Inr True by (simp add: bf_store_def Let_def case_prod_beta m_upsert_db backfill_calls_def)
      ultimately show ?thesis using stored by (intro exI [of _ "[lot_to_public_dto ?l]"]) (auto simp: announces_def)
    next
      case False
      then have "m_bus (bf_store env n row st) = m_bus st"
        using Inr by (auto simp: bf_store_def Let_def case_prod_beta m_upsert_db)
      then show ?thesis by (intro exI [of _ "[]"]) (simp add: backfill_calls_def announces_def)
    qed
  next
    case (Inl e)
    then have "m_bus (bf_store env n row st) = m_bus st"
      by (simp add: bf_store_def Let_def case_prod_beta m_upsert_db)
    then show ?thesis by (intro exI [of _ "[]"]) (simp add: backfill_calls_def announces_def)
  qed
  have "m_cycles (bf_store env n row st) = m_cycles st \<and> m_dispatched (bf_store env n row st) = m_dispatched st
     \<and> m_in_backfill (bf_store env n row st) = m_in_backfill st \<and> m_trigger (bf_store env n row st) = m_trigger st
     \<and> bf_running (bf_store env n row st) = bf_running st \<and> bf_worker (bf_store env n row st) = bf_worker st
     \<and> bf_stop (bf_store env n row st) = bf_stop st"
    by (auto simp: bf_store_def Let_def case_prod_beta split: sum.splits prod.splits)
  with db bus fr stored keep show ?thesis by (simp add: backfilled_def)
qed

lemma backfilled_frame:
  assumes "backfilled st' st''" "m_db st' = m_db st" "m_cycles st' = m_cycles st"
    and "m_dispatched st' = m_dispatched st" "m_in_backfill st' = m_in_backfill st"
    and "m_trigger st' = m_trigger st" "bf_running st' = bf_running st" "bf_worker st' = bf_worker st"
    and "bf_stop st' = bf_stop st" "m_bus st' = m_bus st"
  shows "backfilled st st''"
  using assms by (simp add: backfilled_def)

lemma process_items_backfilled:
  "lr_inv (m_db st) \<Longrightarrow> backfilled st (fst (process_items env cutoff items n total_seen st))"
proof (induction env cutoff items n total_seen st rule: process_items.induct)
  case (3 env cutoff p k items n total_seen st)
  have "backfilled (m_tick (st\<lparr>bf_prog := (bf_prog st)\<lparr>bp_page := Some p, bp_updated_at := Some (m_now st)\<rparr>\<rparr>))
      (fst (process_items env cutoff (Page_callback p k # items) n total_seen st))"
    using 3 by simp
  then show ?case by (rule backfilled_frame) simp_all
next
  case (4 env cutoff row items n total_seen st)
  show ?case
  proof (cases "be_stop_row env n \<or> row_date_create row < cutoff")
    case False
    have "backfilled st (bf_store env n row st)" using bf_store_spec [OF 4(2)] by blast
    moreover from this have "lr_inv (m_db (bf_store env n row st))" by (simp add: backfilled_def)
    ultimately show ?thesis using 4(1) False backfilled_trans by auto
  qed (use backfilled_refl [OF 4(2)] in auto)
qed (simp_all add: backfilled_refl)

text \<open>
  Without a stop, the loop breaks only at the date boundary, and stores every row before it.
\<close>

lemma process_items_stores:
  assumes "lr_inv (m_db st)" "\<forall>k. \<not> be_stop_row env k"
    and "row \<in> set (takeWhile (\<lambda>r. cutoff \<le> row_date_create r) (rows_of items))"
  shows "lr_row (m_db (fst (process_items env cutoff items n total_seen st))) (row_id row) \<noteq> None"
  using assms
proof (induction env cutoff items n total_seen st rule: process_items.induct)
  case (4 env cutoff row' items n total_seen st)
  let ?st = "bf_store env n row' st"
  have in_window: "cutoff \<le> row_date_create row'" using 4(4) by (auto split: if_splits)
  then have eq: "process_items env cutoff (Row row' # items) n total_seen st =
      process_items env cutoff items (Suc n) total_seen ?st"
    using 4(3) by simp
  have s: "backfilled st ?st" "lr_row (m_db ?st) (row_id row') \<noteq> None"
    using bf_store_spec [OF 4(2)] by blast+
  then have inv: "lr_inv (m_db ?st)" by (simp add: backfilled_def)
  show ?case
  proof (cases "row = row'")
    case True
    then show ?thesis
      using process_items_backfilled [OF inv] s(2) unfolding eq backfilled_def by blast
  next
    case False
    then have "row \<in> set (takeWhile (\<lambda>r. cutoff \<le> row_date_create r) (rows_of items))"
      using 4(4) in_window by auto
    then show ?thesis unfolding eq using 4(1) 4(3) inv in_window by simp
  qed
qed simp_all

subsection \<open>One pass and one run\<close>

definition error_tail :: "sse_event list \<Rightarrow> bool" where
  "error_tail evs \<longleftrightarrow> evs = [] \<or> (\<exists>t. evs = [SseSessionExpired t] \<or> evs = [SseCycleError t 0 Cat_network]
     \<or> evs = [SseCycleError t 0 Cat_parse_bug])"

text \<open>\<open>same_but_bus\<close>: the fields the error branches leave alone.\<close>

definition same_but_bus :: "mon \<Rightarrow> mon \<Rightarrow> bool" where
  "same_but_bus st st' \<longleftrightarrow> m_db st' = m_db st \<and> m_cycles st' = m_cycles st
     \<and> m_dispatched st' = m_dispatched st \<and> m_trigger st' = m_trigger st
     \<and> bf_running st' = bf_running st \<and> bf_worker st' = bf_worker st \<and> bf_stop st' = bf_stop st"

lemma process_region_spec:
  assumes "lr_inv (m_db st)"
  shows "\<exists>mid evs. backfilled st mid
     \<and> same_but_bus mid (fst (process_region env region cutoff st))
     \<and> m_in_backfill (fst (process_region env region cutoff st)) = m_in_backfill mid
     \<and> m_bus (fst (process_region env region cutoff st)) = m_bus mid @ map Published evs
     \<and> (case snd (process_region env region cutoff st) of
          Inr _ \<Rightarrow> evs = []
        | Inl e \<Rightarrow> (if is_parse_bug e then evs = [] else evs \<noteq> [] \<and> error_tail evs))"
proof -
  let ?st0 = "st\<lparr>bf_prog := (bf_prog st)\<lparr>bp_region := Some region, bp_page := None\<rparr>\<rparr>"
  let ?w = "iterate (be_fetch env region) (Some BACKFILL_MAX_PAGES) 1 True True"
  let ?p = "process_items env cutoff (fst ?w) 0 None ?st0"
  have "backfilled ?st0 (fst ?p)" by (rule process_items_backfilled) (simp add: assms)
  then have b: "backfilled st (fst ?p)" by (rule backfilled_frame) simp_all
  obtain mid broke date_stopped total_seen where p: "?p = (mid, broke, date_stopped, total_seen)"
    by (cases ?p) auto
  with b have mid: "backfilled st mid" by simp
  obtain items why where w: "?w = (items, why)" by (cases ?w) auto
  have eq: "process_region env region cutoff st =
      (if broke then (mid, Inr (date_stopped, total_seen))
       else case why of
              Raised e \<Rightarrow>
                (if e = SessionExpiredError then (m_tick (pub (SseSessionExpired (m_now mid)) mid), Inl e)
                 else if is_parse_bug e then (mid, Inl e)
                 else (m_tick (pub (SseCycleError (m_now mid) 0 Cat_network) mid), Inl e))
            | _ \<Rightarrow> (mid, Inr (date_stopped, total_seen)))"
    using p w by (simp add: process_region_def)
  consider (ok) "process_region env region cutoff st = (mid, Inr (date_stopped, total_seen))"
    | (sess) "process_region env region cutoff st =
        (m_tick (pub (SseSessionExpired (m_now mid)) mid), Inl SessionExpiredError)"
    | (bug) e where "process_region env region cutoff st = (mid, Inl e)" "is_parse_bug e"
    | (net) e where "process_region env region cutoff st =
        (m_tick (pub (SseCycleError (m_now mid) 0 Cat_network) mid), Inl e)" "\<not> is_parse_bug e"
    using eq by (cases why) (auto split: if_splits)
  then show ?thesis
  proof cases
    case ok
    then show ?thesis using mid by (intro exI [of _ mid] exI [of _ "[]"]) (simp add: same_but_bus_def)
  next
    case sess
    then show ?thesis using mid
      by (intro exI [of _ mid] exI [of _ "[SseSessionExpired (m_now mid)]"])
        (simp add: same_but_bus_def error_tail_def is_parse_bug_def)
  next
    case bug
    then show ?thesis using mid by (intro exI [of _ mid] exI [of _ "[]"]) (simp add: same_but_bus_def)
  next
    case net
    then show ?thesis using mid
      by (intro exI [of _ mid] exI [of _ "[SseCycleError (m_now mid) 0 Cat_network]"])
        (simp add: same_but_bus_def error_tail_def)
  qed
qed

definition leave_region :: "int \<Rightarrow> mon \<Rightarrow> mon" where
  "leave_region region st =
     (let st3 = clear_region_in_backfill region st
      in st3\<lparr>bf_prog := (bf_prog st3)\<lparr>bp_region := None, bp_page := None\<rparr>\<rparr>)"

lemma leave_region_simps [simp]:
  "same_but_bus mid (leave_region region st) = same_but_bus mid st"
  "m_in_backfill (leave_region region st) = m_in_backfill st - {region}"
  "m_bus (leave_region region st) = m_bus st"
  by (simp_all add: leave_region_def clear_region_in_backfill_def Let_def same_but_bus_def)

lemma same_but_bus_pub: "same_but_bus mid st \<Longrightarrow> same_but_bus mid (m_tick (pub e st))"
  by (simp add: same_but_bus_def)

lemma bf_pass_eq:
  assumes "process_region env region cutoff (mark_region_in_backfill region st) = (st1, r)"
  shows "bf_pass env region cutoff st =
    (case r of
       Inr x \<Rightarrow> (leave_region region st1, False, snd x)
     | Inl e \<Rightarrow>
         (leave_region region
            (if is_parse_bug e then m_tick (pub (SseCycleError (m_now st1) 0 Cat_parse_bug) st1) else st1),
          True, None))"
  using assms by (cases r) (auto simp: bf_pass_def leave_region_def Let_def)

lemma bf_pass_spec:
  assumes "lr_inv (m_db st)" "bf_pass env region cutoff st = (st', errored, total_seen)"
  shows "\<exists>mid evs. backfilled (mark_region_in_backfill region st) mid \<and> same_but_bus mid st'
     \<and> m_in_backfill st' = m_in_backfill st - {region}
     \<and> m_bus st' = m_bus mid @ map Published evs \<and> error_tail evs \<and> (errored \<longleftrightarrow> evs \<noteq> [])"
proof -
  let ?m = "mark_region_in_backfill region st"
  have "lr_inv (m_db ?m)" using assms(1) by (simp add: mark_region_in_backfill_def)
  note spec = process_region_spec [OF this, of env region cutoff]
  obtain st1 r where pr: "process_region env region cutoff ?m = (st1, r)" by fastforce
  from spec [unfolded pr fst_conv snd_conv] obtain mid evs where mid: "backfilled ?m mid" "same_but_bus mid st1"
    and in_bf: "m_in_backfill st1 = m_in_backfill mid" and bus: "m_bus st1 = m_bus mid @ map Published evs"
    and ev: "case r of Inr _ \<Rightarrow> evs = []
        | Inl e \<Rightarrow> (if is_parse_bug e then evs = [] else evs \<noteq> [] \<and> error_tail evs)" by blast
  have out: "m_in_backfill mid - {region} = m_in_backfill st - {region}"
    using mid(1) by (auto simp: backfilled_def mark_region_in_backfill_def)
  note eq = bf_pass_eq [OF pr]
  show ?thesis
  proof (cases r)
    case (Inr x)
    with eq assms(2) ev have "st' = leave_region region st1" "\<not> errored" "evs = []" by simp_all
    with mid in_bf bus out show ?thesis by (intro exI [of _ mid] exI [of _ "[]"]) (simp add: error_tail_def)
  next
    case (Inl e)
    show ?thesis
    proof (cases "is_parse_bug e")
      case True
      let ?e = "SseCycleError (m_now st1) 0 Cat_parse_bug"
      from True Inl eq assms(2) ev have "st' = leave_region region (m_tick (pub ?e st1))" "errored" "evs = []"
        by simp_all
      with mid in_bf bus out same_but_bus_pub [OF mid(2), of ?e] show ?thesis
        by (intro exI [of _ mid] exI [of _ "[?e]"]) (simp add: error_tail_def)
    next
      case False
      from False Inl eq assms(2) ev have "st' = leave_region region st1" "errored" "evs \<noteq> []" "error_tail evs"
        by simp_all
      with mid in_bf bus out show ?thesis by (intro exI [of _ mid] exI [of _ evs]) simp
    qed
  qed
qed

lemma bf_finish_spec:
  "m_bus (bf_finish t st) = m_bus st" "m_cycles (bf_finish t st) = m_cycles st"
  "m_dispatched (bf_finish t st) = m_dispatched st" "m_in_backfill (bf_finish t st) = m_in_backfill st"
  "lr_row (m_db (bf_finish t st)) i = lr_row (m_db st) i" "m_trigger (bf_finish t st)"
  "bf_is_done (bf_finish t st)" "lr_inv (m_db (bf_finish t st)) = lr_inv (m_db st)"
  by (auto simp: bf_finish_def Let_def request_run_now_def bf_is_done_def STATE_KEY_DONE_def STATE_KEY_TOTAL_def
      lr_row_def lr_inv_def split: option.splits)

definition bf_begin :: "mon \<Rightarrow> mon" where
  "bf_begin st = m_tick ((m_tick st)\<lparr>bf_prog := no_progress\<lparr>bp_running := True, bp_regions_total := 1,
     bp_started_at := Some (m_now st), bp_updated_at := Some (m_now st)\<rparr>\<rparr>)"

definition bf_cutoff :: "mon \<Rightarrow> time" where
  "bf_cutoff st = m_now (m_tick st) - BACKFILL_WINDOW_DAYS * us_per_day"

lemma bf_begin_simps [simp]:
  "m_db (bf_begin st) = m_db st" "m_cycles (bf_begin st) = m_cycles st" "m_bus (bf_begin st) = m_bus st"
  "m_dispatched (bf_begin st) = m_dispatched st" "m_in_backfill (bf_begin st) = m_in_backfill st"
  "m_trigger (bf_begin st) = m_trigger st" "bf_running (bf_begin st) = bf_running st"
  "bf_worker (bf_begin st) = bf_worker st" "bf_stop (bf_begin st) = bf_stop st"
  by (simp_all add: bf_begin_def)

text \<open>What \<open>bf_pass\<close> is for the whole run, with the case of a stop before the start.\<close>

definition bf_body :: "bf_env \<Rightarrow> int list option \<Rightarrow> mon \<Rightarrow> mon \<times> bool \<times> int option" where
  "bf_body env regions st =
     (if be_stop_start env then (bf_begin st, False, None)
      else bf_pass env (fetch_region_of env regions) (bf_cutoff st) (bf_begin st))"

lemma bf_run_body:
  assumes "bf_body env regions st = (st3, errored, total_seen)"
  shows "bf_run env regions st =
    (if \<not> (bf_stop st3 \<or> be_cancelled env) \<and> \<not> errored then bf_finish total_seen st3 else st3)\<lparr>bf_stop := True\<rparr>"
proof -
  have "m_now ((m_tick st)\<lparr>bf_prog := p\<rparr>) = m_now (m_tick st)" for p by (simp add: m_now_def)
  with assms show ?thesis
    by (cases "be_stop_start env") (auto simp: bf_run_def bf_body_def bf_begin_def bf_cutoff_def Let_def)
qed

lemma bf_body_spec:
  assumes "lr_inv (m_db st)" "bf_body env regions st = (st3, errored, total_seen)"
  shows "\<exists>news evs. m_bus st3 = m_bus st @ backfill_calls news @ map Published evs
     \<and> announces (m_db st) (m_db st3) news \<and> error_tail evs \<and> (errored \<longleftrightarrow> evs \<noteq> [])
     \<and> m_dispatched st3 = m_dispatched st \<and> m_cycles st3 = m_cycles st \<and> lr_inv (m_db st3)
     \<and> m_in_backfill st3 =
          (if be_stop_start env then m_in_backfill st else m_in_backfill st - {fetch_region_of env regions})
     \<and> (\<forall>i. lr_row (m_db st) i \<noteq> None \<longrightarrow> lr_row (m_db st3) i \<noteq> None)
     \<and> m_trigger st3 = m_trigger st \<and> bf_stop st3 = bf_stop st \<and> ld_state (m_db st3) = ld_state (m_db st)"
proof (cases "be_stop_start env")
  case True
  with assms show ?thesis
    by (intro exI [of _ "[]"]) (auto simp: bf_body_def backfill_calls_def announces_def error_tail_def)
next
  case False
  let ?g = "fetch_region_of env regions"
  have "lr_inv (m_db (bf_begin st))" using assms(1) by simp
  from bf_pass_spec [OF this, of env ?g "bf_cutoff st"] False assms(2) obtain mid evs where
    mid: "backfilled (mark_region_in_backfill ?g (bf_begin st)) mid" and sb: "same_but_bus mid st3"
    and rest: "m_in_backfill st3 = m_in_backfill (bf_begin st) - {?g}"
      "m_bus st3 = m_bus mid @ map Published evs" "error_tail evs" "errored \<longleftrightarrow> evs \<noteq> []"
    by (auto simp: bf_body_def)
  from mid obtain news where "m_bus mid = m_bus st @ backfill_calls news" "announces (m_db st) (m_db mid) news"
    by (auto simp: backfilled_def mark_region_in_backfill_def)
  with mid sb rest False show ?thesis
    by (intro exI [of _ news] exI [of _ evs]) (simp add: same_but_bus_def backfilled_def mark_region_in_backfill_def)
qed

lemma bf_run_spec:
  assumes "lr_inv (m_db st)"
  shows "\<exists>news evs. m_bus (bf_run env regions st) = m_bus st @ backfill_calls news @ map Published evs
     \<and> announces (m_db st) (m_db (bf_run env regions st)) news \<and> error_tail evs
     \<and> m_dispatched (bf_run env regions st) = m_dispatched st
     \<and> m_cycles (bf_run env regions st) = m_cycles st \<and> lr_inv (m_db (bf_run env regions st))
     \<and> m_in_backfill (bf_run env regions st) =
          (if be_stop_start env then m_in_backfill st else m_in_backfill st - {fetch_region_of env regions})
     \<and> (\<forall>i. lr_row (m_db st) i \<noteq> None \<longrightarrow> lr_row (m_db (bf_run env regions st)) i \<noteq> None)
     \<and> (bf_is_done (bf_run env regions st) \<longleftrightarrow>
          bf_is_done st \<or> (evs = [] \<and> \<not> be_cancelled env \<and> \<not> bf_stop st))
     \<and> (m_trigger (bf_run env regions st) \<longleftrightarrow>
          m_trigger st \<or> (evs = [] \<and> \<not> be_cancelled env \<and> \<not> bf_stop st))"
proof -
  obtain st3 errored total_seen where body: "bf_body env regions st = (st3, errored, total_seen)"
    by (cases "bf_body env regions st") auto
  from bf_body_spec [OF assms body] obtain news evs where
    s: "m_bus st3 = m_bus st @ backfill_calls news @ map Published evs"
      "announces (m_db st) (m_db st3) news" "error_tail evs" "errored \<longleftrightarrow> evs \<noteq> []"
      "m_dispatched st3 = m_dispatched st" "m_cycles st3 = m_cycles st" "lr_inv (m_db st3)"
      "m_in_backfill st3 =
          (if be_stop_start env then m_in_backfill st else m_in_backfill st - {fetch_region_of env regions})"
      "\<forall>i. lr_row (m_db st) i \<noteq> None \<longrightarrow> lr_row (m_db st3) i \<noteq> None"
      "m_trigger st3 = m_trigger st" "bf_stop st3 = bf_stop st" "ld_state (m_db st3) = ld_state (m_db st)"
    by blast
  have done3: "bf_is_done st3 = bf_is_done st" by (simp add: bf_is_done_def s(12))
  show ?thesis
  proof (cases "evs = [] \<and> \<not> be_cancelled env \<and> \<not> bf_stop st")
    case True
    then have eq: "bf_run env regions st = (bf_finish total_seen st3)\<lparr>bf_stop := True\<rparr>"
      using bf_run_body [OF body] s(4,11) by simp
    have a: "announces (m_db st) (m_db (bf_finish total_seen st3)) news"
      using s(2) by (simp add: announces_def bf_finish_spec)
    have d: "bf_is_done (bf_run env regions st)" unfolding eq using bf_finish_spec(7)
      by (simp add: bf_is_done_def)
    show ?thesis
      by (intro exI [of _ news] exI [of _ evs] conjI)
        (use s(1,3,5-9) a d True in \<open>simp_all add: eq bf_finish_spec\<close>)
  next
    case False
    then have eq: "bf_run env regions st = st3\<lparr>bf_stop := True\<rparr>"
      using bf_run_body [OF body] s(4,11) by auto
    have d: "bf_is_done (bf_run env regions st) = bf_is_done st" using done3 by (simp add: eq bf_is_done_def)
    show ?thesis
      by (intro exI [of _ news] exI [of _ evs] conjI)
        ((insert s d False, simp add: eq; fail) | (insert s d False, simp add: eq, blast))+
  qed
qed

text \<open>A walk that does not raise, with no cancellation, ends in the done flag.\<close>

lemma process_region_ok:
  "(\<And>e. snd (iterate (be_fetch env region) (Some BACKFILL_MAX_PAGES) 1 True True) \<noteq> Raised e) \<Longrightarrow>
   \<exists>x. snd (process_region env region cutoff st) = Inr x"
  by (cases "snd (iterate (be_fetch env region) (Some BACKFILL_MAX_PAGES) 1 True True)")
    (auto simp: process_region_def Let_def case_prod_beta)

lemma bf_run_completes:
  assumes "\<And>e. snd (iterate (be_fetch env (fetch_region_of env regions)) (Some BACKFILL_MAX_PAGES) 1 True True) \<noteq> Raised e"
    and "\<not> be_cancelled env" "\<not> bf_stop st" "lr_inv (m_db st)"
  shows "bf_is_done (bf_run env regions st)"
proof -
  obtain st3 errored total_seen where body: "bf_body env regions st = (st3, errored, total_seen)"
    by (cases "bf_body env regions st") auto
  let ?g = "fetch_region_of env regions"
  let ?pr = "process_region env ?g (bf_cutoff st) (mark_region_in_backfill ?g (bf_begin st))"
  obtain x where "snd ?pr = Inr x" using process_region_ok [OF assms(1)] by blast
  then have "?pr = (fst ?pr, Inr x)" by (metis prod.collapse)
  from bf_pass_eq [OF this] have "\<not> errored" using body by (auto simp: bf_body_def split: if_splits)
  moreover have "bf_stop st3 = bf_stop st" using bf_body_spec [OF assms(4) body] by blast
  ultimately have "bf_run env regions st = (bf_finish total_seen st3)\<lparr>bf_stop := True\<rparr>"
    using bf_run_body [OF body] assms(2,3) by simp
  then show ?thesis using bf_finish_spec(7) by (simp add: bf_is_done_def)
qed

definition demo_mon :: mon where
  "demo_mon = \<lparr>m_db = empty_db, m_cycles = \<lparr>ct_rows = [], ct_seq = 0\<rparr>, m_bus = [], m_dispatched = [],
     m_clock = \<lparr>readings = (\<lambda>n. int n), ticks = 0\<rparr>, m_trigger = False, m_in_backfill = {},
     m_miss = Map.empty, m_delta = Map.empty, m_terminal = False, bf_running = False, bf_stop = False,
     bf_worker = None, bf_prog = no_progress\<rparr>"

definition demo_bf :: bf_env where
  "demo_bf = \<lparr>be_regions = [1], be_fetch = (\<lambda>_. demo_fetch), be_stop_start = False,
     be_stop_row = (\<lambda>_. False), be_stop_pub = (\<lambda>_. False), be_cancelled = False\<rparr>"

lemma demo_walk:
  "iterate demo_fetch (Some 5) 1 True True = ([Page_callback 1 1, Row (sample_row 7)], End_empty)"
  by (simp add: iterate_def walk.simps demo_fetch_def PAGE_LIMIT_def)

lemma demo_bf_coherent: "stop_coherent demo_bf" "fetch_region_of demo_bf regions = (case regions of None \<Rightarrow> 1
    | Some rs \<Rightarrow> (case rs of [] \<Rightarrow> 1 | r # _ \<Rightarrow> r))" "lr_inv (m_db demo_mon)" "\<not> bf_is_done demo_mon"
  by (auto simp: stop_coherent_def demo_bf_def demo_fetch_def fetch_region_of_def demo_mon_def empty_db_def
      bf_is_done_def kv_get_def split: option.splits)
    (use lr_inv_empty in \<open>simp add: empty_db_def\<close>)

lemma demo_bf_done: "bf_is_done (bf_run demo_bf None demo_mon)"
  by (rule bf_run_completes)
    (simp_all add: demo_bf_def demo_walk BACKFILL_MAX_PAGES_def demo_mon_def)

subsection \<open>Properties\<close>

text \<open>
  The delta trigger, case by case: an unreadable stored total raises and an unknown site
  total, a running backfill or a difference within the threshold changes nothing; a smaller
  site total only becomes the new baseline; a larger difference starts one worker for the
  region, after which nothing starts another until that worker has run.
\<close>

theorem maybe_start_spec:
  "case read_total st of
     Inl e \<Rightarrow> maybe_start region site_total db_count hint st = (st, Inl e) \<and> e = ValueError
   | Inr total_last \<Rightarrow>
       (let delta = the site_total - (case total_last of None \<Rightarrow> db_count | Some n \<Rightarrow> n);
            (st', r) = maybe_start region site_total db_count hint st
        in (site_total = None \<or> bf_running st \<or> (0 \<le> delta \<and> delta \<le> hint + 3) \<longrightarrow> st' = st \<and> r = Inr False)
         \<and> (site_total \<noteq> None \<and> \<not> bf_running st \<and> delta < 0 \<longrightarrow>
              r = Inr False \<and> read_total st' = Inr site_total
              \<and> bf_running st' = bf_running st \<and> bf_worker st' = bf_worker st)
         \<and> (site_total \<noteq> None \<and> \<not> bf_running st \<and> 0 \<le> delta \<and> hint + 3 < delta \<longrightarrow>
              r = Inr True \<and> bf_running st' \<and> bf_worker st' = Some (Some [region])
              \<and> m_db st' = m_db st
              \<and> (\<forall>regions. bf_start regions st' = (st', False))
              \<and> (\<forall>g s d h. bf_running (fst (maybe_start g s d h st'))
                    \<and> snd (maybe_start g s d h st') \<noteq> Inr True)))"
proof (cases "read_total st")
  case (Inl e)
  then have "e = ValueError"
    by (auto simp: read_total_def int_of_str_def split: option.splits stored.splits list.splits if_splits)
  with Inl show ?thesis by (simp add: maybe_start_def)
next
  case (Inr total_last)
  have run: "bf_running (fst (maybe_start g s d h st')) \<and> snd (maybe_start g s d h st') \<noteq> Inr True"
    if "bf_running st'" for st' g s d h
    using that by (auto simp: maybe_start_def bf_decide_def split: sum.splits option.splits)
  have neg: "read_total (m_state_set STATE_KEY_TOTAL (str_of_int n) st) = Inr (Some n)" for n
    by (simp add: read_total_def)
  show ?thesis
    using Inr run neg
    by (cases site_total)
      (auto simp: maybe_start_def bf_decide_def Let_def DELTA_THRESHOLD_def launch_def bf_start_def
        split: option.splits if_splits)
qed

theorem maybe_start_spec_witness:
  "snd (maybe_start 25 (Some 40) 10 20 demo_mon) = Inr True
   \<and> snd (maybe_start 25 (Some 33) 10 20 demo_mon) = Inr False"
proof -
  have t: "read_total demo_mon = Inr None" and r: "\<not> bf_running demo_mon"
    by (simp_all add: read_total_def demo_mon_def empty_db_def kv_get_def)
  show ?thesis
    using maybe_start_spec [where st = demo_mon and region = 25 and site_total = "Some 40" and db_count = 10 and hint = 20]
      maybe_start_spec [where st = demo_mon and region = 25 and site_total = "Some 33" and db_count = 10 and hint = 20]
    by (auto simp: t r Let_def split: prod.splits)
qed

text \<open>
  C6. A backfill run, however it ends: it never dispatches a notification and never touches
  the cycle log, it forgets no lot, it clears its region mark, and on the bus it puts one
  backfill announcement at most for each lot it was first to store, then at most one error
  event. The done flag and the request for an immediate scan follow exactly when there was
  no error event and no cancellation.
\<close>

theorem backfill_outcome:
  assumes "lr_inv (m_db st)"
  shows "\<exists>news evs. m_bus (bf_run env regions st) = m_bus st @ backfill_calls news @ map Published evs
     \<and> announces (m_db st) (m_db (bf_run env regions st)) news \<and> error_tail evs
     \<and> m_dispatched (bf_run env regions st) = m_dispatched st
     \<and> m_cycles (bf_run env regions st) = m_cycles st \<and> lr_inv (m_db (bf_run env regions st))
     \<and> m_in_backfill (bf_run env regions st) =
          (if be_stop_start env then m_in_backfill st else m_in_backfill st - {fetch_region_of env regions})
     \<and> (\<forall>i. lr_row (m_db st) i \<noteq> None \<longrightarrow> lr_row (m_db (bf_run env regions st)) i \<noteq> None)
     \<and> (bf_is_done (bf_run env regions st) \<longleftrightarrow>
          bf_is_done st \<or> (evs = [] \<and> \<not> be_cancelled env \<and> \<not> bf_stop st))
     \<and> (m_trigger (bf_run env regions st) \<longleftrightarrow>
          m_trigger st \<or> (evs = [] \<and> \<not> be_cancelled env \<and> \<not> bf_stop st))"
  using assms by (rule bf_run_spec)

theorem backfill_outcome_witness:
  "m_dispatched (bf_run demo_bf None demo_mon) = [] \<and> m_in_backfill (bf_run demo_bf None demo_mon) = {}"
proof -
  have "m_dispatched demo_mon = []" "m_in_backfill demo_mon = {}" "\<not> be_stop_start demo_bf"
    by (simp_all add: demo_mon_def demo_bf_def)
  then show ?thesis using backfill_outcome [OF demo_bf_coherent(3), of demo_bf None] by auto
qed

text \<open>
  What the done flag means: when a run sets it, every lot of the first five pages up to
  the first one older than thirty days is stored.
\<close>

theorem backfill_done_means_window_stored:
  assumes "lr_inv (m_db st)" "stop_coherent env" "\<not> bf_is_done st" "bf_is_done (bf_run env regions st)"
    and "row \<in> set (takeWhile (\<lambda>r. m_now (m_tick st) - 30 * us_per_day \<le> row_date_create r)
           (rows_of (fst (iterate (be_fetch env (fetch_region_of env regions)) (Some 5) 1 True True))))"
  shows "lr_row (m_db (bf_run env regions st)) (row_id row) \<noteq> None"
proof -
  let ?g = "fetch_region_of env regions"
  have nc: "\<not> be_cancelled env" using bf_run_spec [OF assms(1), of env regions] assms(3,4) by blast
  then have ns: "\<not> be_stop_start env" "\<forall>k. \<not> be_stop_row env k" using assms(2) by (auto simp: stop_coherent_def)
  let ?marked = "mark_region_in_backfill ?g (bf_begin st)"
  let ?init = "?marked\<lparr>bf_prog := (bf_prog ?marked)\<lparr>bp_region := Some ?g, bp_page := None\<rparr>\<rparr>"
  let ?w = "iterate (be_fetch env ?g) (Some BACKFILL_MAX_PAGES) 1 True True"
  have inv: "lr_inv (m_db ?init)" using assms(1) by (simp add: mark_region_in_backfill_def)
  have stored: "lr_row (m_db (fst (process_items env (bf_cutoff st) (fst ?w) 0 None ?init))) (row_id row) \<noteq> None"
    by (rule process_items_stores [OF inv ns(2)])
      (use assms(5) in \<open>simp add: bf_cutoff_def BACKFILL_WINDOW_DAYS_def BACKFILL_MAX_PAGES_def\<close>)
  obtain st1 r where pr: "process_region env ?g (bf_cutoff st) ?marked = (st1, r)" by fastforce
  obtain st3 errored total_seen where body: "bf_body env regions st = (st3, errored, total_seen)"
    by (cases "bf_body env regions st") auto
  have db1: "m_db st1 = m_db (fst (process_items env (bf_cutoff st) (fst ?w) 0 None ?init))"
    using pr by (auto simp: process_region_def Let_def case_prod_beta split: if_splits walk_end.splits)
  have "m_db st3 = m_db st1"
    using body bf_pass_eq [OF pr] ns(1)
    by (auto simp: bf_body_def leave_region_def clear_region_in_backfill_def Let_def split: sum.splits if_splits)
  then have "lr_row (m_db st3) (row_id row) \<noteq> None" using stored db1 by simp
  then show ?thesis by (simp add: bf_run_body [OF body] bf_finish_spec)
qed

theorem backfill_done_means_window_stored_witness:
  "lr_row (m_db (bf_run demo_bf None demo_mon)) 7 \<noteq> None"
proof -
  have "m_now (m_tick demo_mon) = 1" by (simp add: m_now_def m_tick_def tick_def now_of_def demo_mon_def)
  then have "sample_row 7 \<in> set (takeWhile (\<lambda>r. m_now (m_tick demo_mon) - 30 * us_per_day \<le> row_date_create r)
      (rows_of (fst (iterate (be_fetch demo_bf (fetch_region_of demo_bf None)) (Some 5) 1 True True))))"
    by (simp add: demo_bf_def demo_walk us_per_day_def us_per_minute_def sample_row_def)
  from backfill_done_means_window_stored [OF demo_bf_coherent(3,1,4) demo_bf_done this] show ?thesis by simp
qed

end
