(* ===== verification/Monitor_Cycle.thy ===== *)
theory Monitor_Cycle
  imports Backfill Enrichment Humanize
begin

text \<open>
  The monitor cycle (\<^verbatim>\<open>services/monitor_cycle.py\<close>): one cycle from the list page to the
  closed row, with every error branch, and the scheduler pass around it.

  The list page, the parsers and the detail pages are parameters. \<open>ce_interval\<close> and \<open>ce_zone\<close>
  are the readings of the configuration, by the place that reads it; \<^verbatim>\<open>None\<close> as a zone means
  that reading it raised. \<open>ce_msg\<close> is the text \<^verbatim>\<open>str\<close> gives of an exception.
  \<open>ce_has_backfill\<close> says whether a backfill service and a stop event are bound, and
  \<open>ce_locked\<close>, by the number of clock readings so far, at which points the database is locked,
  so that the insert, upsert or update the cycle attempts there raises. The progress
  signal, which is set and cleared around each slow call, and logging are left out, and so is
  the rounding of the duration through a float.
\<close>

record cyc_env =
  ce_base :: string
  ce_get :: "string \<Rightarrow> http_response res"
  ce_parse :: "string \<Rightarrow> parsed_list_page res"
  ce_enrich :: enrich_env
  ce_interval :: "nat \<Rightarrow> int"
  ce_zone :: "nat \<Rightarrow> (time \<Rightarrow> int) option"
  ce_msg :: "exc \<Rightarrow> string"
  ce_has_backfill :: bool
  ce_locked :: "nat \<Rightarrow> bool"

definition db_locked :: "cyc_env \<Rightarrow> mon \<Rightarrow> bool" where
  "db_locked env st = ce_locked env (ticks (m_clock st))"

definition OperationalError :: exc where
  "OperationalError = OtherException ''OperationalError''"

subsection \<open>Error texts and categories\<close>

definition upstream_to_error_category :: "string \<Rightarrow> error_category" where
  "upstream_to_error_category c =
     (if c = ''network'' then Cat_network
      else if c = ''http_5xx'' then Cat_http_5xx
      else if c = ''http_4xx'' then Cat_http_4xx
      else if c = ''redirect_login'' then Cat_redirect_login
      else if c = ''timeout'' then Cat_timeout
      else if c = ''parse_bug'' then Cat_parse_bug
      else if c = ''schema_anomaly'' then Cat_schema_anomaly
      else if c = ''internal_error'' then Cat_internal_error
      else Cat_network)"

fun exc_type_name :: "exc \<Rightarrow> string" where
  "exc_type_name (UpstreamError _) = ''UpstreamError''"
| "exc_type_name (ParseBugError _ _) = ''ParseBugError''"
| "exc_type_name ParserVersionMismatch = ''ParserVersionMismatch''"
| "exc_type_name SessionExpiredError = ''SessionExpiredError''"
| "exc_type_name (InvalidTransitionError _ _ _) = ''InvalidTransitionError''"
| "exc_type_name ValidationError = ''ValidationError''"
| "exc_type_name ValueError = ''ValueError''"
| "exc_type_name KeyError = ''KeyError''"
| "exc_type_name NotImplementedError = ''NotImplementedError''"
| "exc_type_name RuntimeError = ''RuntimeError''"
| "exc_type_name IntegrityError = ''IntegrityError''"
| "exc_type_name RequestException = ''RequestException''"
| "exc_type_name (OtherException n) = n"

definition safe_error_str :: "cyc_env \<Rightarrow> exc \<Rightarrow> string" where
  "safe_error_str env e = take 200 (exc_type_name e @ '': '' @ take 150 (ce_msg env e))"

subsection \<open>Status events\<close>

definition build_status_fields :: "cyc_env \<Rightarrow> nat \<Rightarrow> mon \<Rightarrow> mon \<times> (int \<times> ustr) option" where
  "build_status_fields env place st =
     (let now = m_now st; st1 = m_tick st
      in case ce_zone env place of
           None \<Rightarrow> (st1, None)
         | Some tz \<Rightarrow>
             (st1, Some (ce_interval env place,
                case lr_latest_new_first_seen (m_db st1) of
                  None \<Rightarrow> dash
                | Some last_new \<Rightarrow> format_local_time last_new tz (tz now))))"

definition publish_checking_status :: "cyc_env \<Rightarrow> mon \<Rightarrow> mon" where
  "publish_checking_status env st =
     (case build_status_fields env 0 st of
        (st1, None) \<Rightarrow> st1
      | (st1, Some (interval, last_new_human)) \<Rightarrow>
          (let st2 = m_tick (pub (SseStatus (m_now st1) St_checking interval last_new_human []) st1)
           in st2\<lparr>m_bus := m_bus st2 @ [Evicted ''status'']\<rparr>))"

definition publish_status :: "cyc_env \<Rightarrow> cycle_result \<Rightarrow> mon \<Rightarrow> mon" where
  "publish_status env result st =
     (case build_status_fields env 2 st of
        (st1, None) \<Rightarrow> st1
      | (st1, Some (interval, last_new_human)) \<Rightarrow>
          (let state = (if cr_status result = Cycle_error then St_error else St_active);
               st2 = m_tick (pub (SseStatus (m_now st1) state interval last_new_human []) st1)
           in st2\<lparr>m_terminal := True\<rparr>))"

definition duration_ms :: "cycle_result \<Rightarrow> int" where
  "duration_ms result = max 0 ((cr_finished_at result - cr_started_at result) div 1000)"

definition publish_cycle_done :: "cyc_env \<Rightarrow> cycle_result \<Rightarrow> mon \<Rightarrow> mon" where
  "publish_cycle_done env result st =
     (let now = m_now st; st1 = m_tick st;
          finished_at_hhmm = (case ce_zone env 1 of None \<Rightarrow> [] | Some tz \<Rightarrow> hh_mm (tz now))
      in publish_status env result
           (pub (SseCycleDone now (cr_id result) (cr_status result) (cr_lots_fetched result)
                   (cr_new_lots result) (duration_ms result) finished_at_hhmm) st1))"

subsection \<open>Closing the cycle\<close>

text \<open>The common end of every branch: read the clock, build the result, close, announce.\<close>

definition close_cycle ::
  "cyc_env \<Rightarrow> int \<Rightarrow> int \<Rightarrow> time \<Rightarrow> cycle_status \<Rightarrow> int \<Rightarrow> int \<Rightarrow> string option \<Rightarrow> mon \<Rightarrow>
   mon \<times> cycle_result res" where
  "close_cycle env cycle_id region started_at status lots_fetched new_lots err st =
     (let result = \<lparr> cr_id = cycle_id, cr_region = region, cr_started_at = started_at,
                     cr_finished_at = m_now st, cr_status = status, cr_lots_fetched = lots_fetched,
                     cr_new_lots = new_lots, cr_error = err, cr_id_schema_check = Schema_ok \<rparr>;
          (ct, r) = cy_close cycle_id result (m_cycles st);
          st1 = (m_tick st)\<lparr>m_cycles := ct\<rparr>
      in if db_locked env st then (m_tick st, Inl OperationalError)
         else case r of
           Inl e \<Rightarrow> (st1, Inl e)
         | Inr _ \<Rightarrow> (publish_cycle_done env result st1, Inr result))"

definition close_with_error ::
  "cyc_env \<Rightarrow> error_category \<Rightarrow> exc \<Rightarrow> int \<Rightarrow> int \<Rightarrow> time \<Rightarrow> mon \<Rightarrow> mon \<times> cycle_result res" where
  "close_with_error env cat e cycle_id region started_at st =
     close_cycle env cycle_id region started_at Cycle_error 0 0 (Some (safe_error_str env e))
       (m_tick (pub (SseCycleError (m_now st) cycle_id cat) st))"

definition close_with_upstream_error where
  "close_with_upstream_error env c =
     close_with_error env (upstream_to_error_category c) (UpstreamError c)"

definition close_with_parse_bug where
  "close_with_parse_bug env e = close_with_error env Cat_parse_bug e"

definition close_with_unexpected_error where
  "close_with_unexpected_error env e = close_with_error env Cat_internal_error e"

definition close_session_expired ::
  "cyc_env \<Rightarrow> int \<Rightarrow> int \<Rightarrow> time \<Rightarrow> mon \<Rightarrow> mon \<times> cycle_result res" where
  "close_session_expired env cycle_id region started_at st =
     close_cycle env cycle_id region started_at Cycle_error 0 0 (Some ''session_expired'')
       (m_tick (pub (SseSessionExpired (m_now st)) st))"

subsection \<open>The steps of a cycle\<close>

definition delta_check :: "cyc_env \<Rightarrow> int \<Rightarrow> parsed_list_page \<Rightarrow> mon \<Rightarrow> mon \<times> unit res" where
  "delta_check env region page st =
     (case page_total_count page of
        None \<Rightarrow>
          (st\<lparr>m_miss := (m_miss st)(region \<mapsto> (case m_miss st region of None \<Rightarrow> 1 | Some n \<Rightarrow> n + 1)),
              m_delta := (m_delta st)(region \<mapsto> ''skip_none'')\<rparr>, Inr ())
      | Some n \<Rightarrow>
          (let st1 = st\<lparr>m_miss := (m_miss st)(region := None)\<rparr>
           in if \<not> ce_has_backfill env then (st1, Inr ())
              else case maybe_start region (Some n) (int (lr_count_active [] (m_db st1)))
                          (int (length (page_rows page))) st1 of
                     (st2, Inl e) \<Rightarrow> (st2, Inl e)
                   | (st2, Inr triggered) \<Rightarrow>
                       (st2\<lparr>m_delta := (m_delta st2)(region \<mapsto> (if triggered then ''trigger'' else ''skip''))\<rparr>,
                        Inr ())))"

definition status_text :: "field_value option \<Rightarrow> ustr" where
  "status_text v = (case v of Some (VText s) \<Rightarrow> s | _ \<Rightarrow> [])"

text \<open>The first status change of a lot is announced; the others are not.\<close>

definition announce_changes :: "lot \<Rightarrow> field_change list \<Rightarrow> mon \<Rightarrow> mon" where
  "announce_changes l changes st =
     (case find (\<lambda>c. ch_field c = ''status'') changes of
        None \<Rightarrow> st
      | Some c \<Rightarrow> pub (SseLotStatus (lot_id l) (status_text (ch_new c)) Ev_changed) st)"

definition store_upsert :: "cyc_env \<Rightarrow> lot \<Rightarrow> mon \<Rightarrow> mon \<times> lot_upsert_result res" where
  "store_upsert env l st = (if db_locked env st then (st, Inl OperationalError) else m_upsert False l st)"

text \<open>Step 5: \<open>n\<close> counts the new lots; an exception of the repository leaves the loop.\<close>

fun store_lots :: "cyc_env \<Rightarrow> lot list \<Rightarrow> nat \<Rightarrow> mon \<Rightarrow> mon \<times> nat res" where
  "store_lots env [] n st = (st, Inr n)"
| "store_lots env (l # ls) n st =
     (case store_upsert env l st of
        (st1, Inl e) \<Rightarrow> (st1, Inl e)
      | (st1, Inr upsert_result) \<Rightarrow>
          (if ur_was_new upsert_result
           then store_lots env ls (Suc n) (st1\<lparr>m_dispatched := m_dispatched st1 @ [lot_to_public_dto l]\<rparr>)
           else store_lots env ls n (announce_changes l (ur_changes upsert_result) st1)))"

definition list_lots :: "parsed_list_page \<Rightarrow> time \<Rightarrow> lot list" where
  "list_lots page now =
     map (\<lambda>row. parsed_row_to_lot row now (subject_id_by_title (Some (row_region row)))) (page_rows page)"

definition enriched :: "cyc_env \<Rightarrow> lot list \<Rightarrow> lot list" where
  "enriched env lots = (case enrich_lots (ce_enrich env) lots of Inl _ \<Rightarrow> lots | Inr lots' \<Rightarrow> lots')"

text \<open>Steps 2c to 6, once the page is parsed.\<close>

definition cycle_page ::
  "cyc_env \<Rightarrow> int \<Rightarrow> int \<Rightarrow> time \<Rightarrow> parsed_list_page \<Rightarrow> mon \<Rightarrow> mon \<times> cycle_result res" where
  "cycle_page env region cycle_id started_at page st =
     (case delta_check env region page st of
        (st1, Inl e) \<Rightarrow> (st1, Inl e)
      | (st1, Inr _) \<Rightarrow>
          (let lots = enriched env (list_lots page (m_now st1))
           in case store_lots env lots 0 (m_tick st1) of
                (st2, Inl e) \<Rightarrow> (st2, Inl e)
              | (st2, Inr new_lots) \<Rightarrow>
                  close_cycle env cycle_id region started_at Cycle_ok (int (length lots)) (int new_lots) None st2))"

definition read_page :: "cyc_env \<Rightarrow> http_response \<Rightarrow> parsed_list_page res" where
  "read_page env response =
     (if 300 \<le> resp_status response \<and> resp_status response < 400 then Inl SessionExpiredError
      else ce_parse env (resp_text response))"

definition run_cycle_inner ::
  "cyc_env \<Rightarrow> int \<Rightarrow> int \<Rightarrow> time \<Rightarrow> mon \<Rightarrow> mon \<times> cycle_result res" where
  "run_cycle_inner env region cycle_id started_at st =
     (let st1 = publish_checking_status env st in
      case res_bind (lot_list_url (ce_base env) region DEFAULT_LIST_SORT 1 (Some 20)) (ce_get env) of
        Inl e \<Rightarrow>
          (case e of
             UpstreamError c \<Rightarrow> close_with_upstream_error env c cycle_id region started_at st1
           | _ \<Rightarrow> (st1, Inl e))
      | Inr response \<Rightarrow>
          (case read_page env response of
             Inl e \<Rightarrow>
               (case e of
                  UpstreamError c \<Rightarrow> close_with_upstream_error env c cycle_id region started_at st1
                | SessionExpiredError \<Rightarrow> close_session_expired env cycle_id region started_at st1
                | ParseBugError sel ctx \<Rightarrow> close_with_parse_bug env e cycle_id region started_at st1
                | _ \<Rightarrow> (st1, Inl e))
           | Inr page \<Rightarrow> cycle_page env region cycle_id started_at page st1))"

definition is_domain_error :: "exc \<Rightarrow> bool" where
  "is_domain_error e =
     (case e of UpstreamError _ \<Rightarrow> True | ParseBugError _ _ \<Rightarrow> True | ParserVersionMismatch \<Rightarrow> True
      | SessionExpiredError \<Rightarrow> True | _ \<Rightarrow> False)"

definition run_cycle :: "cyc_env \<Rightarrow> int \<Rightarrow> mon \<Rightarrow> mon \<times> cycle_result res" where
  "run_cycle env region st =
     (let started_at = m_now st;
          (ct, cycle_id) = cy_open region started_at (m_cycles st);
          st1 = (pub (SseCycleStarted started_at cycle_id) ((m_tick st)\<lparr>m_cycles := ct\<rparr>))\<lparr>m_terminal := False\<rparr>
      in if db_locked env st then (m_tick st, Inl OperationalError)
         else case run_cycle_inner env region cycle_id started_at st1 of
           (st2, Inr result) \<Rightarrow> (st2, Inr result)
         | (st2, Inl e) \<Rightarrow>
             (if is_domain_error e
              then (if m_terminal st2 then st2
                    else m_tick (pub (SseStatus (m_now st2) St_error 0 dash []) st2), Inl e)
              else case close_with_unexpected_error env e cycle_id region started_at st2 of
                     (st3, Inl e') \<Rightarrow> (st3, Inl e')
                   | (st3, Inr _) \<Rightarrow> (st3, Inl e)))"

subsection \<open>The scheduler\<close>

definition DEFAULT_POLL_INTERVAL_SEC :: int where "DEFAULT_POLL_INTERVAL_SEC = 60"

definition poll_interval :: "int \<Rightarrow> int" where
  "poll_interval interval_minutes =
     (if interval_minutes > 0 then interval_minutes * 60 else DEFAULT_POLL_INTERVAL_SEC)"

text \<open>
  One pass: its settings, whether a state repository is bound, the readings of the stop event
  before the fetch, and the cycle's environment. \<open>awaiting\<close> is the local flag of the loop;
  the third component says whether the stop event ended the loop before the fetch.
\<close>

record pass_env =
  pe_settings :: settings
  pe_has_state :: bool
  pe_stop :: bool
  pe_cycle :: cyc_env

definition backfill_done :: "pass_env \<Rightarrow> mon \<Rightarrow> bool" where
  "backfill_done env st \<longleftrightarrow> \<not> pe_has_state env \<or> bf_is_done st"

definition gate_pass :: "pass_env \<Rightarrow> bool \<Rightarrow> mon \<Rightarrow> mon \<times> bool" where
  "gate_pass env awaiting st =
     (if backfill_done env st then (st, False)
      else if awaiting then (st, True)
      else (m_tick (pub (SseStatus (m_now st) St_awaiting_backfill
                           (set_interval_minutes (pe_settings env)) dash []) st), True))"

definition scheduler_pass :: "pass_env \<Rightarrow> bool \<Rightarrow> mon \<Rightarrow> mon \<times> bool \<times> bool" where
  "scheduler_pass env awaiting st =
     (let (st1, awaiting') = gate_pass env awaiting st
      in if \<not> backfill_done env st then (st1, awaiting', False)
         else case set_regions (pe_settings env) of
                [] \<Rightarrow> (st1, awaiting', False)
              | region # _ \<Rightarrow>
                  (if pe_stop env then (st1, awaiting', True)
                   else if region \<in> m_in_backfill st1 then (st1, awaiting', False)
                   else (fst (run_cycle (pe_cycle env) region st1), awaiting', False)))"

text \<open>
  The wait between passes; \<open>stopped\<close> is the stop event, and a pending trigger is consumed and
  ends the wait. The result says whether a trigger did.
\<close>

definition wait_for_next_pass :: "bool \<Rightarrow> mon \<Rightarrow> mon \<times> bool" where
  "wait_for_next_pass stopped st =
     (if stopped then (st, False)
      else if m_trigger st then (st\<lparr>m_trigger := False\<rparr>, True) else (st, False))"

definition last_delta_decision :: "int \<Rightarrow> mon \<Rightarrow> string option" where
  "last_delta_decision region st = m_delta st region"

subsection \<open>Steps that neither close a cycle nor announce its end\<close>

fun is_done_call :: "bus_call \<Rightarrow> bool" where
  "is_done_call (Published (SseCycleDone _ _ _ _ _ _ _)) = True"
| "is_done_call _ = False"

definition no_done :: "bus_call list \<Rightarrow> bool" where
  "no_done xs \<longleftrightarrow> (\<forall>c \<in> set xs. \<not> is_done_call c)"

definition quiet :: "mon \<Rightarrow> mon \<Rightarrow> bool" where
  "quiet st st' \<longleftrightarrow> m_cycles st' = m_cycles st \<and> (\<exists>xs. m_bus st' = m_bus st @ xs \<and> no_done xs)"

lemma no_done_simps [simp]:
  "no_done []" "no_done (c # xs) \<longleftrightarrow> \<not> is_done_call c \<and> no_done xs"
  "no_done (xs @ ys) \<longleftrightarrow> no_done xs \<and> no_done ys"
  by (auto simp: no_done_def)

lemma quiet_refl [simp]: "quiet st st"
  by (simp add: quiet_def exI [of _ "[]"])

lemma quiet_trans: "quiet a b \<Longrightarrow> quiet b c \<Longrightarrow> quiet a c"
  unfolding quiet_def by (metis append.assoc no_done_simps(3))

lemma quietI: "m_cycles st' = m_cycles st \<Longrightarrow> m_bus st' = m_bus st @ xs \<Longrightarrow> no_done xs \<Longrightarrow> quiet st st'"
  by (auto simp: quiet_def)

lemma quiet_same: "m_cycles st' = m_cycles st \<Longrightarrow> m_bus st' = m_bus st \<Longrightarrow> quiet st st'"
  by (rule quietI [of _ _ "[]"]) simp_all

lemma quiet_pub: "\<not> is_done_call (Published e) \<Longrightarrow> quiet st (m_tick (pub e st))"
  by (rule quietI [of _ _ "[Published e]"]) simp_all

lemma build_status_frame:
  assumes "build_status_fields env place st = (st1, r)"
  shows "st1 = m_tick st"
  using assms by (auto simp: build_status_fields_def Let_def split: option.splits)

lemma publish_checking_frame [simp]:
  "m_db (publish_checking_status env st) = m_db st"
  "m_dispatched (publish_checking_status env st) = m_dispatched st"
  "m_in_backfill (publish_checking_status env st) = m_in_backfill st"
  "m_cycles (publish_checking_status env st) = m_cycles st"
  by (auto simp: publish_checking_status_def Let_def split: prod.splits option.splits dest: build_status_frame)

lemma publish_checking_bus:
  "\<exists>evs. m_bus (publish_checking_status env st) = m_bus st @ evs
     \<and> (evs = [] \<or> (\<exists>t i h. evs = [Published (SseStatus t St_checking i h []), Evicted ''status'']))"
  by (auto simp: publish_checking_status_def Let_def split: prod.splits option.splits dest: build_status_frame)

lemma quiet_publish_checking: "quiet st (publish_checking_status env st)"
  using publish_checking_bus [of env st] by (auto simp: quiet_def)

lemma publish_status_frame [simp]:
  "m_db (publish_status env result st) = m_db st"
  "m_dispatched (publish_status env result st) = m_dispatched st"
  "m_in_backfill (publish_status env result st) = m_in_backfill st"
  "m_cycles (publish_status env result st) = m_cycles st"
  by (auto simp: publish_status_def Let_def split: prod.splits option.splits dest: build_status_frame)

lemma publish_status_bus:
  "\<exists>evs. m_bus (publish_status env result st) = m_bus st @ evs
     \<and> (evs = [] \<or> (\<exists>t s i h. evs = [Published (SseStatus t s i h [])] \<and> s \<noteq> St_checking))"
  by (auto simp: publish_status_def Let_def split: prod.splits option.splits if_splits dest: build_status_frame)

lemma publish_cycle_done_frame [simp]:
  "m_db (publish_cycle_done env result st) = m_db st"
  "m_dispatched (publish_cycle_done env result st) = m_dispatched st"
  "m_in_backfill (publish_cycle_done env result st) = m_in_backfill st"
  "m_cycles (publish_cycle_done env result st) = m_cycles st"
  by (simp_all add: publish_cycle_done_def Let_def)

text \<open>The call that announces the end of a cycle with this result.\<close>

definition done_call :: "cycle_result \<Rightarrow> bus_call \<Rightarrow> bool" where
  "done_call result c \<longleftrightarrow>
     (\<exists>t hhmm. c = Published (SseCycleDone t (cr_id result) (cr_status result) (cr_lots_fetched result)
                             (cr_new_lots result) (duration_ms result) hhmm))"

lemma publish_cycle_done_bus:
  "\<exists>c ys. m_bus (publish_cycle_done env result st) = m_bus st @ c # ys \<and> done_call result c \<and> no_done ys"
proof -
  let ?hhmm = "case ce_zone env 1 of None \<Rightarrow> [] | Some tz \<Rightarrow> hh_mm (tz (m_now st))"
  let ?c = "SseCycleDone (m_now st) (cr_id result) (cr_status result) (cr_lots_fetched result)
      (cr_new_lots result) (duration_ms result) ?hhmm"
  obtain evs where "m_bus (publish_status env result (pub ?c (m_tick st))) = m_bus st @ Published ?c # evs"
    "no_done evs"
    using publish_status_bus [of env result "pub ?c (m_tick st)"] by auto
  moreover have "done_call result (Published ?c)" by (auto simp: done_call_def)
  ultimately show ?thesis by (auto simp: publish_cycle_done_def Let_def)
qed

text \<open>Closing a row that exists: it succeeds and ends the cycle.\<close>

lemma close_cycle_open:
  assumes "cy_get (m_cycles st) cycle_id \<noteq> None" "\<not> db_locked env st"
  shows "\<exists>result c ys. snd (close_cycle env cycle_id region started_at status fetched new err st) = Inr result
     \<and> result = \<lparr> cr_id = cycle_id, cr_region = region, cr_started_at = started_at,
                     cr_finished_at = m_now st, cr_status = status, cr_lots_fetched = fetched,
                     cr_new_lots = new, cr_error = err, cr_id_schema_check = Schema_ok \<rparr>
     \<and> m_cycles (fst (close_cycle env cycle_id region started_at status fetched new err st)) =
         fst (cy_close cycle_id result (m_cycles st))
     \<and> m_bus (fst (close_cycle env cycle_id region started_at status fetched new err st)) = m_bus st @ c # ys
     \<and> done_call result c \<and> no_done ys"
proof -
  let ?r = "\<lparr> cr_id = cycle_id, cr_region = region, cr_started_at = started_at,
                     cr_finished_at = m_now st, cr_status = status, cr_lots_fetched = fetched,
                     cr_new_lots = new, cr_error = err, cr_id_schema_check = Schema_ok \<rparr>"
  let ?st = "(m_tick st)\<lparr>m_cycles := fst (cy_close cycle_id ?r (m_cycles st))\<rparr>"
  have "snd (cy_close cycle_id ?r (m_cycles st)) = Inr ()" using cyl.close_result assms(1) by simp
  then have "close_cycle env cycle_id region started_at status fetched new err st =
      (publish_cycle_done env ?r ?st, Inr ?r)"
    using assms(2) by (simp add: close_cycle_def Let_def case_prod_beta)
  moreover obtain c ys where "m_bus (publish_cycle_done env ?r ?st) = m_bus st @ c # ys" "done_call ?r c" "no_done ys"
    using publish_cycle_done_bus [of env ?r ?st] by auto
  ultimately show ?thesis by (intro exI [of _ ?r] exI [of _ c] exI [of _ ys]) simp
qed

lemma close_cycle_frame [simp]:
  "m_db (fst (close_cycle env cid g t s f n err st)) = m_db st"
  "m_dispatched (fst (close_cycle env cid g t s f n err st)) = m_dispatched st"
  "m_in_backfill (fst (close_cycle env cid g t s f n err st)) = m_in_backfill st"
  by (auto simp: close_cycle_def Let_def case_prod_beta split: sum.splits)

subsection \<open>The page steps\<close>

lemma maybe_start_frame [simp]:
  "m_cycles (fst (maybe_start g s d h st)) = m_cycles st" "m_bus (fst (maybe_start g s d h st)) = m_bus st"
  "m_dispatched (fst (maybe_start g s d h st)) = m_dispatched st"
  "m_in_backfill (fst (maybe_start g s d h st)) = m_in_backfill st"
  "lr_row (m_db (fst (maybe_start g s d h st))) i = lr_row (m_db st) i"
  "lr_inv (m_db (fst (maybe_start g s d h st))) = lr_inv (m_db st)"
  by (auto simp: maybe_start_def launch_def split: sum.splits bf_decision.splits)

lemma maybe_start_error: "snd (maybe_start g s d h st) = Inl e \<Longrightarrow> e = ValueError"
  by (auto simp: maybe_start_def read_total_def int_of_str_def
      split: sum.splits bf_decision.splits option.splits stored.splits list.splits if_splits)

lemma delta_check_frame [simp]:
  "m_cycles (fst (delta_check env g page st)) = m_cycles st" "m_bus (fst (delta_check env g page st)) = m_bus st"
  "m_dispatched (fst (delta_check env g page st)) = m_dispatched st"
  "m_in_backfill (fst (delta_check env g page st)) = m_in_backfill st"
  "lr_row (m_db (fst (delta_check env g page st))) i = lr_row (m_db st) i"
  "lr_inv (m_db (fst (delta_check env g page st))) = lr_inv (m_db st)"
  by (simp_all add: delta_check_def Let_def case_prod_beta split: option.splits sum.splits)

lemma delta_check_error: "snd (delta_check env g page st) = Inl e \<Longrightarrow> e = ValueError"
  by (auto simp: delta_check_def Let_def case_prod_beta dest: maybe_start_error split: option.splits sum.splits if_splits)

lemma announce_changes_frame [simp]:
  "m_db (announce_changes l cs st) = m_db st" "m_cycles (announce_changes l cs st) = m_cycles st"
  "m_dispatched (announce_changes l cs st) = m_dispatched st"
  "m_in_backfill (announce_changes l cs st) = m_in_backfill st"
  by (auto simp: announce_changes_def split: option.splits)

lemma store_upsert_Inr: "store_upsert env l st = (st1, Inr res) \<Longrightarrow> m_upsert False l st = (st1, Inr res)"
  by (simp add: store_upsert_def split: if_splits)

lemma store_upsert_frame [simp]:
  "m_cycles (fst (store_upsert env l st)) = m_cycles st" "m_bus (fst (store_upsert env l st)) = m_bus st"
  "m_dispatched (fst (store_upsert env l st)) = m_dispatched st"
  "m_in_backfill (fst (store_upsert env l st)) = m_in_backfill st"
  by (simp_all add: store_upsert_def)

text \<open>A failed upsert leaves the tables as they were.\<close>

lemma store_upsert_Inl: "snd (store_upsert env l st) = Inl e \<Longrightarrow> m_db (fst (store_upsert env l st)) = m_db st"
  using m_upsert_db [of False l st]
  by (auto simp: store_upsert_def lr_upsert_def mk_lot_upsert_result_def upsert_tx_def compute_changes_def Let_def
      res_bind_Inr_iff split: sum.splits if_splits option.splits)

text \<open>Which calls the loop over the lots makes on the bus.\<close>

definition lot_status_calls :: "bus_call list \<Rightarrow> bool" where
  "lot_status_calls xs \<longleftrightarrow> (\<forall>c \<in> set xs. \<exists>i s. c = Published (SseLotStatus i s Ev_changed))"

lemma store_lots_bus:
  "m_cycles (fst (store_lots env ls n st)) = m_cycles st \<and> m_in_backfill (fst (store_lots env ls n st)) = m_in_backfill st
   \<and> (\<exists>xs. m_bus (fst (store_lots env ls n st)) = m_bus st @ xs \<and> lot_status_calls xs)"
proof (induction env ls n st rule: store_lots.induct)
  case (2 env l ls n st)
  obtain st1 r where u: "store_upsert env l st = (st1, r)" by fastforce
  have st1: "m_cycles st1 = m_cycles st" "m_bus st1 = m_bus st" "m_in_backfill st1 = m_in_backfill st"
    using store_upsert_frame(1,2,4) [of env l st] u by simp_all
  show ?case
  proof (cases r)
    case (Inl e)
    with u st1 show ?thesis by (simp add: lot_status_calls_def)
  next
    case (Inr res)
    show ?thesis
    proof (cases "ur_was_new res")
      case True
      with 2(1) [OF u [symmetric] Inr True] u Inr st1 show ?thesis by simp
    next
      case False
      obtain ys where ys: "m_bus (announce_changes l (ur_changes res) st1) = m_bus st @ ys" "lot_status_calls ys"
        using st1 by (cases "find (\<lambda>c. ch_field c = ''status'') (ur_changes res)")
          (auto simp: announce_changes_def lot_status_calls_def)
      from 2(2) [OF u [symmetric] Inr False] u Inr st1 False ys show ?thesis
        by (auto simp: lot_status_calls_def)
    qed
  qed
qed (simp add: lot_status_calls_def)

lemma lr_upsert_not_domain: "snd (lr_upsert tr b t l s) = Inl e \<Longrightarrow> \<not> is_domain_error e"
proof -
  have c: "check_tracked fs = Inl e \<Longrightarrow> e = ValueError \<or> e = NotImplementedError" for fs e
    by (induction fs) (auto split: if_splits)
  have cc: "compute_changes old l tr = Inl e \<Longrightarrow> e = ValueError \<or> e = NotImplementedError" for old e
    using c by (cases "check_tracked tr") (auto simp: compute_changes_def split: option.splits)
  have g: "sync_geo i a b' c' d rt = Inl e \<Longrightarrow> e = IntegrityError" for i a b' c' d rt e
    by (auto simp: sync_geo_def Let_def split: if_splits)
  have b: "res_bind m f = Inl e \<Longrightarrow> m = Inl e \<or> (\<exists>x. m = Inr x \<and> f x = Inl e)" for m :: "'x res" and f :: "'x \<Rightarrow> 'y res" and e
    by (cases m) auto
  have tx: "upsert_tx tr b t l s = Inl e \<Longrightarrow> e \<in> {ValueError, NotImplementedError, IntegrityError, ValidationError}" for e
    using cc g row_to_lot_error
    by (auto simp: upsert_tx_def Let_def dest!: b split: option.splits)
  assume "snd (lr_upsert tr b t l s) = Inl e"
  then have "e \<in> {ValueError, NotImplementedError, IntegrityError, ValidationError}"
    using tx by (auto simp: lr_upsert_def tracked_allowed_def mk_lot_upsert_result_def split: sum.splits if_splits)
  then show ?thesis by (auto simp: is_domain_error_def)
qed

lemma store_lots_error: "snd (store_lots env ls n st) = Inl e \<Longrightarrow> \<not> is_domain_error e"
proof (induction env ls n st rule: store_lots.induct)
  case (2 env l ls n st)
  obtain st1 r where u: "store_upsert env l st = (st1, r)" by fastforce
  show ?case
  proof (cases r)
    case (Inl e')
    with 2(3) u show ?thesis using m_upsert_db(2) [of False l st] lr_upsert_not_domain
      by (auto simp: store_upsert_def OperationalError_def is_domain_error_def split: if_splits)
  next
    case (Inr res)
    with 2 u show ?thesis by (cases "ur_was_new res") auto
  qed
qed simp

subsection \<open>How a cycle ends\<close>

definition ended :: "mon \<Rightarrow> mon \<Rightarrow> cycle_result \<Rightarrow> bool" where
  "ended st st' result \<longleftrightarrow>
     m_cycles st' = fst (cy_close (cr_id result) result (m_cycles st))
     \<and> (\<exists>xs c ys. m_bus st' = m_bus st @ xs @ c # ys \<and> no_done xs \<and> done_call result c \<and> no_done ys)"

definition cycle_of :: "int \<Rightarrow> int \<Rightarrow> time \<Rightarrow> cycle_result \<Rightarrow> bool" where
  "cycle_of cycle_id region started_at result \<longleftrightarrow>
     cr_id result = cycle_id \<and> cr_region result = region \<and> cr_started_at result = started_at
     \<and> cycle_result_ok result"

definition short_error :: "string option \<Rightarrow> bool" where
  "short_error err \<longleftrightarrow> (case err of None \<Rightarrow> True | Some e \<Rightarrow> length e \<le> 200)"

lemma quiet_ended: "quiet st st1 \<Longrightarrow> ended st1 st2 result \<Longrightarrow> ended st st2 result"
  unfolding quiet_def ended_def by (metis append.assoc no_done_simps(3))

text \<open>
  Closing ends the cycle, unless the database is locked: then nothing was closed or announced
  and the lock's exception is raised.
\<close>

definition locked_out :: "cyc_env \<Rightarrow> mon \<Rightarrow> mon \<times> cycle_result res \<Rightarrow> bool" where
  "locked_out env st out \<longleftrightarrow>
     snd out = Inl OperationalError \<and> quiet st (fst out) \<and> (\<exists>n. ce_locked env n)"

lemma close_cycle_locked: "db_locked env st \<Longrightarrow> close_cycle env i g t s f n err st = (m_tick st, Inl OperationalError)"
  by (simp add: close_cycle_def Let_def case_prod_beta)

lemma close_cycle_ended:
  assumes "quiet st st1" "cy_get (m_cycles st) cycle_id \<noteq> None" "short_error err"
    and out: "close_cycle env cycle_id region started_at status fetched new err st1 = out"
    and free: "\<not> locked_out env st out"
  shows "\<exists>result. snd out = Inr result
     \<and> ended st (fst out) result
     \<and> cycle_of cycle_id region started_at result \<and> cr_status result = status
     \<and> cr_lots_fetched result = fetched \<and> cr_new_lots result = new \<and> cr_error result = err"
proof -
  have "cy_get (m_cycles st1) cycle_id \<noteq> None" using assms(1,2) by (simp add: quiet_def)
  moreover have "\<not> db_locked env st1"
  proof
    assume l: "db_locked env st1"
    have "quiet st (m_tick st1)" by (rule quiet_trans [OF assms(1)], rule quiet_same) simp_all
    then have "locked_out env st out"
      using l out close_cycle_locked [OF l] by (auto simp: locked_out_def db_locked_def)
    with free show False ..
  qed
  ultimately obtain result c ys where
    r: "snd out = Inr result"
    and f: "result = \<lparr> cr_id = cycle_id, cr_region = region, cr_started_at = started_at,
                     cr_finished_at = m_now st1, cr_status = status, cr_lots_fetched = fetched,
                     cr_new_lots = new, cr_error = err, cr_id_schema_check = Schema_ok \<rparr>"
    and e: "m_cycles (fst out) = fst (cy_close cycle_id result (m_cycles st1))"
      "m_bus (fst out) = m_bus st1 @ c # ys"
      "done_call result c" "no_done ys"
    using close_cycle_open [of st1 cycle_id env region started_at status fetched new err] out by blast
  have id: "cr_id result = cycle_id" using f by simp
  have "ended st1 (fst out) result"
    unfolding ended_def id
    by (intro conjI exI [of _ "[]"] exI [of _ c] exI [of _ ys]) (use e in simp_all)
  with quiet_ended [OF assms(1)] r f assms(3) show ?thesis
    by (simp add: cycle_of_def cycle_result_ok_def short_error_def)
qed

lemma short_safe_error [simp]: "short_error (Some (safe_error_str env e))" "short_error None"
    "short_error (Some ''session_expired'')"
  by (simp_all add: short_error_def safe_error_str_def)

lemma close_with_error_ended:
  assumes "quiet st st1" "cy_get (m_cycles st) cycle_id \<noteq> None"
    and out: "close_with_error env cat e cycle_id region started_at st1 = out"
    and free: "\<not> locked_out env st out"
  shows "\<exists>result. snd out = Inr result \<and> ended st (fst out) result
     \<and> cycle_of cycle_id region started_at result \<and> cr_status result = Cycle_error
     \<and> cr_error result = Some (safe_error_str env e)"
proof -
  have "quiet st (m_tick (pub (SseCycleError (m_now st1) cycle_id cat) st1))"
    using quiet_trans [OF assms(1) quiet_pub] by simp
  from close_cycle_ended [OF this assms(2), of "Some (safe_error_str env e)" env region started_at Cycle_error 0 0] out free
  show ?thesis unfolding close_with_error_def by auto
qed

lemma close_session_expired_ended:
  assumes "quiet st st1" "cy_get (m_cycles st) cycle_id \<noteq> None"
    and out: "close_session_expired env cycle_id region started_at st1 = out"
    and free: "\<not> locked_out env st out"
  shows "\<exists>result. snd out = Inr result \<and> ended st (fst out) result
     \<and> cycle_of cycle_id region started_at result \<and> cr_status result = Cycle_error"
proof -
  have "quiet st (m_tick (pub (SseSessionExpired (m_now st1)) st1))"
    using quiet_trans [OF assms(1) quiet_pub] by simp
  from close_cycle_ended [OF this assms(2), of "Some ''session_expired''" env region started_at Cycle_error 0 0] out free
  show ?thesis unfolding close_session_expired_def by auto
qed

text \<open>
  A cycle step either finished the cycle or left it open with an exception that is not one
  of the domain's.
\<close>

definition finishes :: "int \<Rightarrow> int \<Rightarrow> time \<Rightarrow> mon \<Rightarrow> mon \<times> cycle_result res \<Rightarrow> bool" where
  "finishes cycle_id region started_at st out \<longleftrightarrow>
     (case snd out of
        Inr result \<Rightarrow> ended st (fst out) result \<and> cycle_of cycle_id region started_at result
      | Inl e \<Rightarrow> quiet st (fst out) \<and> \<not> is_domain_error e)"

lemma finishes_locked: "locked_out env st out \<Longrightarrow> finishes i g t st out"
  by (simp add: finishes_def locked_out_def OperationalError_def is_domain_error_def)

lemma finishesI:
  "(\<not> locked_out env st out \<Longrightarrow> \<exists>result. snd out = Inr result \<and> ended st (fst out) result
      \<and> cycle_of i g t result) \<Longrightarrow> finishes i g t st out"
  using finishes_locked [of env st out i g t] by (cases "locked_out env st out") (auto simp: finishes_def)

lemma no_done_lot_status: "lot_status_calls xs \<Longrightarrow> no_done xs"
  by (auto simp: lot_status_calls_def no_done_def)

lemma quiet_store_lots: "quiet st (fst (store_lots env ls n st))"
  using store_lots_bus [of env ls n st] no_done_lot_status by (auto simp: quiet_def)

lemma cycle_page_finishes:
  assumes "quiet st st1" "cy_get (m_cycles st) cycle_id \<noteq> None"
  shows "finishes cycle_id region started_at st (cycle_page env region cycle_id started_at page st1)"
proof -
  obtain st2 r where d: "delta_check env region page st1 = (st2, r)" by fastforce
  have "quiet st1 st2" using delta_check_frame(1,2) [of env region page st1] d by (intro quiet_same) simp_all
  with assms(1) have q: "quiet st st2" by (rule quiet_trans)
  show ?thesis
  proof (cases r)
    case (Inl e)
    then have "e = ValueError" using delta_check_error [of env region page st1] d by simp
    with Inl d q show ?thesis by (simp add: cycle_page_def finishes_def is_domain_error_def)
  next
    case (Inr u)
    let ?lots = "enriched env (list_lots page (m_now st2))"
    obtain st3 r3 where sl: "store_lots env ?lots 0 (m_tick st2) = (st3, r3)" by fastforce
    have "quiet st2 (m_tick st2)" by (rule quiet_same) simp_all
    then have q3: "quiet st st3"
      using quiet_trans [OF q] quiet_trans quiet_store_lots [of "m_tick st2" env ?lots 0] sl by fastforce
    show ?thesis
    proof (cases r3)
      case (Inl e)
      then have "\<not> is_domain_error e" using store_lots_error [of env ?lots 0 "m_tick st2"] sl by simp
      with Inl Inr d sl q3 show ?thesis by (simp add: cycle_page_def finishes_def)
    next
      case r3: (Inr n)
      have eq: "cycle_page env region cycle_id started_at page st1 =
          close_cycle env cycle_id region started_at Cycle_ok (int (length ?lots)) (int n) None st3"
        using d Inr sl r3 by (simp add: cycle_page_def)
      let ?out = "close_cycle env cycle_id region started_at Cycle_ok (int (length ?lots)) (int n) None st3"
      show ?thesis
      proof (cases "locked_out env st ?out")
        case False
        from close_cycle_ended [OF q3 assms(2) short_safe_error(2) refl False] show ?thesis
          by (auto simp: eq finishes_def)
      qed (simp add: eq finishes_locked)
    qed
  qed
qed

text \<open>What the cycle relies on: which exceptions the client and the parser raise.\<close>

definition env_raises_ok :: "cyc_env \<Rightarrow> bool" where
  "env_raises_ok env \<longleftrightarrow>
     (\<forall>u e. ce_get env u = Inl e \<longrightarrow> \<not> is_domain_error e \<or> (\<exists>c. e = UpstreamError c))
     \<and> (\<forall>t. ce_parse env t \<noteq> Inl ParserVersionMismatch)"

lemma list_url_ok: "\<exists>u. lot_list_url b g sort_by 1 (Some 20) = Inr u"
  by (simp add: lot_list_url_def)

lemma finishes_error:
  assumes "quiet st st1" "cy_get (m_cycles st) cycle_id \<noteq> None"
  shows "finishes cycle_id region started_at st (close_with_error env cat e cycle_id region started_at st1)"
    and "finishes cycle_id region started_at st (close_session_expired env cycle_id region started_at st1)"
  by (rule finishesI [of env], use close_with_error_ended [OF assms refl, of env cat e region started_at] in blast)
    (rule finishesI [of env], use close_session_expired_ended [OF assms refl, of env region started_at] in blast)

lemma run_cycle_inner_finishes:
  assumes "env_raises_ok env" "cy_get (m_cycles st) cycle_id \<noteq> None"
  shows "finishes cycle_id region started_at st (run_cycle_inner env region cycle_id started_at st)"
proof -
  let ?st = "publish_checking_status env st"
  note q = quiet_publish_checking [of st env]
  note err = finishes_error [OF q assms(2), of region started_at env]
  obtain u where u: "lot_list_url (ce_base env) region DEFAULT_LIST_SORT 1 (Some 20) = Inr u"
    using list_url_ok by blast
  show ?thesis
  proof (cases "ce_get env u")
    case (Inl e)
    then have "\<not> is_domain_error e \<or> (\<exists>c. e = UpstreamError c)" using assms(1) by (auto simp: env_raises_ok_def)
    with Inl u err q show ?thesis
      by (cases e) (simp_all add: run_cycle_inner_def close_with_upstream_error_def finishes_def [of _ _ _ _ "(_, Inl _)"]
        is_domain_error_def)
  next
    case (Inr response)
    show ?thesis
    proof (cases "read_page env response")
      case (Inl e)
      have "e \<noteq> ParserVersionMismatch"
        using Inl assms(1) by (auto simp: read_page_def env_raises_ok_def split: if_splits)
      with Inl Inr u err q show ?thesis
        by (cases e) (simp_all add: run_cycle_inner_def close_with_upstream_error_def close_with_parse_bug_def
          finishes_def [of _ _ _ _ "(_, Inl _)"] is_domain_error_def)
    next
      case page: (Inr page)
      with Inr u cycle_page_finishes [OF q assms(2)] show ?thesis by (simp add: run_cycle_inner_def)
    qed
  qed
qed

text \<open>The state in which the body of the cycle starts.\<close>

definition cycle_begin :: "int \<Rightarrow> mon \<Rightarrow> mon" where
  "cycle_begin region st =
     (pub (SseCycleStarted (m_now st) (snd (cy_open region (m_now st) (m_cycles st))))
        ((m_tick st)\<lparr>m_cycles := fst (cy_open region (m_now st) (m_cycles st))\<rparr>))\<lparr>m_terminal := False\<rparr>"

lemma cycle_begin_simps [simp]:
  "m_db (cycle_begin g st) = m_db st" "m_dispatched (cycle_begin g st) = m_dispatched st"
  "m_in_backfill (cycle_begin g st) = m_in_backfill st"
  "m_cycles (cycle_begin g st) = fst (cy_open g (m_now st) (m_cycles st))"
  "m_bus (cycle_begin g st) =
     m_bus st @ [Published (SseCycleStarted (m_now st) (snd (cy_open g (m_now st) (m_cycles st))))]"
  by (simp_all add: cycle_begin_def)

lemma run_cycle_eq:
  "run_cycle env region st =
     (let cycle_id = snd (cy_open region (m_now st) (m_cycles st))
      in if db_locked env st then (m_tick st, Inl OperationalError)
         else case run_cycle_inner env region cycle_id (m_now st) (cycle_begin region st) of
           (st2, Inr result) \<Rightarrow> (st2, Inr result)
         | (st2, Inl e) \<Rightarrow>
             (if is_domain_error e
              then (if m_terminal st2 then st2
                    else m_tick (pub (SseStatus (m_now st2) St_error 0 dash []) st2), Inl e)
              else case close_with_unexpected_error env e cycle_id region (m_now st) st2 of
                     (st3, Inl e') \<Rightarrow> (st3, Inl e')
                   | (st3, Inr _) \<Rightarrow> (st3, Inl e)))"
  by (simp add: run_cycle_def cycle_begin_def Let_def case_prod_beta)

text \<open>
  Whatever happens, the row is closed and the end is announced once, or the database was
  locked at the opening, or at the last attempt to close.
\<close>

lemma run_cycle_ended:
  assumes "ct_inv (m_cycles st)" "env_raises_ok env" and out: "run_cycle env region st = out"
  shows "(\<exists>result. ended (cycle_begin region st) (fst out) result
       \<and> cycle_of (snd (cy_open region (m_now st) (m_cycles st))) region (m_now st) result
       \<and> (case snd out of
            Inr r \<Rightarrow> r = result
          | Inl e \<Rightarrow> \<not> is_domain_error e \<and> cr_status result = Cycle_error
              \<and> cr_error result = Some (safe_error_str env e)))
     \<or> locked_out env (cycle_begin region st) out
     \<or> (out = (m_tick st, Inl OperationalError) \<and> (\<exists>n. ce_locked env n))"
proof (cases "db_locked env st")
  case True
  with out show ?thesis by (auto simp: run_cycle_eq db_locked_def)
next
  case opened: False
  let ?id = "snd (cy_open region (m_now st) (m_cycles st))"
  let ?b = "cycle_begin region st"
  have g: "cy_get (m_cycles ?b) ?id \<noteq> None" using cyl.open_get [OF assms(1)] by simp
  obtain st2 r where i: "run_cycle_inner env region ?id (m_now st) ?b = (st2, r)" by fastforce
  note fin = run_cycle_inner_finishes [OF assms(2) g, of region "m_now st", unfolded i finishes_def]
  show ?thesis
  proof (cases r)
    case (Inr result)
    then have "out = (st2, Inr result)" using i opened out by (simp add: run_cycle_eq Let_def)
    with fin Inr show ?thesis by (intro disjI1 exI [of _ result]) simp
  next
    case (Inl e)
    with fin have q: "quiet ?b st2" "\<not> is_domain_error e" by simp_all
    let ?c = "close_with_error env Cat_internal_error e ?id region (m_now st) st2"
    have run: "out = (fst ?c, Inl (case snd ?c of Inl e' \<Rightarrow> e' | Inr _ \<Rightarrow> e))"
      using i Inl q(2) opened out
      by (auto simp: run_cycle_eq close_with_unexpected_error_def split: prod.splits sum.splits)
    show ?thesis
    proof (cases "locked_out env ?b ?c")
      case True
      with run show ?thesis by (simp add: locked_out_def)
    next
      case False
      from close_with_error_ended [OF q(1) g refl False] run q(2) show ?thesis by auto
    qed
  qed
qed

subsection \<open>What a cycle stores and dispatches\<close>

text \<open>
  \<open>dispatched st st'\<close>: the lots handed to the dispatcher in between were unknown before and
  are stored after, each once; nothing stored is forgotten.
\<close>

definition dispatched :: "mon \<Rightarrow> mon \<Rightarrow> lot_public list \<Rightarrow> bool" where
  "dispatched st st' news \<longleftrightarrow>
     lr_inv (m_db st') \<and> m_dispatched st' = m_dispatched st @ news \<and> announces (m_db st) (m_db st') news
     \<and> (\<forall>i. lr_row (m_db st) i \<noteq> None \<longrightarrow> lr_row (m_db st') i \<noteq> None)"

lemma dispatched_trans:
  assumes "dispatched a b xs" "dispatched b c ys"
  shows "dispatched a c (xs @ ys)"
  using assms announces_append [of "m_db a" "m_db b" xs "m_db c" ys] unfolding dispatched_def by auto

lemma dispatched_same:
  "lr_inv (m_db st') \<Longrightarrow> m_dispatched st' = m_dispatched st \<Longrightarrow> (\<And>i. lr_row (m_db st') i = lr_row (m_db st) i)
   \<Longrightarrow> dispatched st st' []"
  by (simp add: dispatched_def announces_def)

lemma dispatched_frame:
  assumes "dispatched a b xs" "m_dispatched a' = m_dispatched a" "\<And>i. lr_row (m_db a') i = lr_row (m_db a) i"
  shows "dispatched a' b xs"
  using assms by (simp add: dispatched_def announces_def)

text \<open>The ids of a page that are new, in order of first occurrence.\<close>

definition first_unknown :: "lots_db \<Rightarrow> int list \<Rightarrow> int list" where
  "first_unknown db ids = filter (\<lambda>i. lr_row db i = None) (rev (remdups (rev ids)))"

lemma first_occurrences_Cons: "rev (remdups (rev (x # xs))) = x # filter (\<lambda>y. y \<noteq> x) (rev (remdups (rev xs)))"
proof -
  have "remdups (ys @ [x]) = filter (\<lambda>y. y \<noteq> x) (remdups ys) @ [x]" for ys
    by (induction ys) auto
  then show ?thesis by (simp add: rev_filter)
qed

lemma first_unknown_known: "lr_row db i \<noteq> None \<Longrightarrow> first_unknown db (i # ids) = first_unknown db ids"
  unfolding first_unknown_def first_occurrences_Cons
  by (auto simp: filter_filter intro!: filter_cong)

lemma first_unknown_new:
  assumes "lr_row db i = None" "\<And>j. lr_row db' j = None \<longleftrightarrow> lr_row db j = None \<and> j \<noteq> i"
  shows "first_unknown db (i # ids) = i # first_unknown db' ids"
  unfolding first_unknown_def first_occurrences_Cons using assms
  by (simp add: filter_filter) (rule filter_cong, auto)

lemma first_unknown_cong: "(\<And>j. (lr_row db' j = None) = (lr_row db j = None)) \<Longrightarrow> first_unknown db' ids = first_unknown db ids"
  by (simp add: first_unknown_def)

lemma m_upsert_step:
  assumes "lr_inv (m_db st)" "m_upsert b l st = (st1, Inr res)"
  shows "lr_inv (m_db st1)" "m_dispatched st1 = m_dispatched st"
    and "lr_row (m_db st1) j = None \<longleftrightarrow> lr_row (m_db st) j = None \<and> j \<noteq> lot_id l"
    and "ur_was_new res \<longleftrightarrow> lr_row (m_db st) (lot_id l) = None"
proof -
  have s: "snd (lr_upsert DEFAULT_TRACKED_FIELDS b (m_now st) l (m_db st)) = Inr res"
    using m_upsert_db(2) [of b l st] assms(2) by simp
  have d: "m_db st1 = fst (lr_upsert DEFAULT_TRACKED_FIELDS b (m_now st) l (m_db st))"
    using m_upsert_db(1) [of b l st] assms(2) by simp
  show "lr_inv (m_db st1)" using m_upsert_inv [OF assms(1), of b l] assms(2) by simp
  show "m_dispatched st1 = m_dispatched st" using m_upsert_frame(3) [of b l st] assms(2) by simp
  show "lr_row (m_db st1) j = None \<longleftrightarrow> lr_row (m_db st) j = None \<and> j \<noteq> lot_id l"
    using lr_upsert_rows [OF assms(1), of DEFAULT_TRACKED_FIELDS b "m_now st" l j] s d by auto
  show "ur_was_new res \<longleftrightarrow> lr_row (m_db st) (lot_id l) = None" by (rule lr_upsert_new [OF assms(1) s])
qed

lemma store_lots_dispatched:
  "lr_inv (m_db st) \<Longrightarrow> \<exists>news. dispatched st (fst (store_lots env ls n st)) news
     \<and> (\<forall>k. snd (store_lots env ls n st) = Inr k \<longrightarrow>
          k = n + length news \<and> map lot_id news = first_unknown (m_db st) (map lot_id ls)
          \<and> (\<forall>l \<in> set ls. lr_row (m_db (fst (store_lots env ls n st))) (lot_id l) \<noteq> None))"
proof (induction env ls n st rule: store_lots.induct)
  case (1 env n st)
  then show ?case by (intro exI [of _ "[]"]) (simp add: dispatched_same first_unknown_def)
next
  case (2 env l ls n st)
  obtain st1 r where u: "store_upsert env l st = (st1, r)" by fastforce
  show ?case
  proof (cases r)
    case (Inl e)
    have "m_db st1 = m_db st"
      using Inl u store_upsert_Inl [of env l st] by simp
    moreover have "m_dispatched st1 = m_dispatched st" using store_upsert_frame(3) [of env l st] u by simp
    ultimately show ?thesis using 2(3) u Inl by (intro exI [of _ "[]"]) (simp add: dispatched_same)
  next
    case (Inr res)
    note st1 = m_upsert_step [OF 2(3) store_upsert_Inr [OF u [unfolded Inr]]]
    show ?thesis
    proof (cases "ur_was_new res")
      case True
      let ?st = "st1\<lparr>m_dispatched := m_dispatched st1 @ [lot_to_public_dto l]\<rparr>"
      have un: "lr_row (m_db st) (lot_id l) = None" using True st1(4) by simp
      have a: "dispatched st ?st [lot_to_public_dto l]"
        using st1(1,2) st1(3) [of "lot_id l"] st1(3) un by (auto simp: dispatched_def announces_def)
      from 2(1) [OF u [symmetric] Inr True] st1(1) obtain news where
        n: "dispatched ?st (fst (store_lots env ls (Suc n) ?st)) news"
          "\<forall>k. snd (store_lots env ls (Suc n) ?st) = Inr k \<longrightarrow>
            k = Suc n + length news \<and> map lot_id news = first_unknown (m_db st1) (map lot_id ls)
            \<and> (\<forall>l \<in> set ls. lr_row (m_db (fst (store_lots env ls (Suc n) ?st))) (lot_id l) \<noteq> None)" by auto
      have "lr_row (m_db (fst (store_lots env ls (Suc n) ?st))) (lot_id l) \<noteq> None"
        using n(1) st1(3) [of "lot_id l"] by (auto simp: dispatched_def)
      with dispatched_trans [OF a n(1)] n(2) first_unknown_new [OF un, of "m_db st1" "map lot_id ls"] st1(3) u Inr True
      show ?thesis by (intro exI [of _ "lot_to_public_dto l # news"]) simp
    next
      case False
      let ?st = "announce_changes l (ur_changes res) st1"
      have kn: "lr_row (m_db st) (lot_id l) \<noteq> None" using False st1(4) by simp
      then have same: "lr_row (m_db st1) j = None \<longleftrightarrow> lr_row (m_db st) j = None" for j using st1(3) [of j] by auto
      have a: "dispatched st ?st []" using st1(1,2) same by (auto simp: dispatched_def announces_def)
      from 2(2) [OF u [symmetric] Inr False] st1(1) obtain news where
        n: "dispatched ?st (fst (store_lots env ls n ?st)) news"
          "\<forall>k. snd (store_lots env ls n ?st) = Inr k \<longrightarrow>
            k = n + length news \<and> map lot_id news = first_unknown (m_db st1) (map lot_id ls)
            \<and> (\<forall>l \<in> set ls. lr_row (m_db (fst (store_lots env ls n ?st))) (lot_id l) \<noteq> None)" by auto
      have "lr_row (m_db (fst (store_lots env ls n ?st))) (lot_id l) \<noteq> None"
        using n(1) same kn by (auto simp: dispatched_def)
      with dispatched_trans [OF a n(1)] n(2) first_unknown_known [OF kn, of "map lot_id ls"]
        first_unknown_cong [of "m_db st1" "m_db st" "map lot_id ls"] same u Inr False
      show ?thesis by (intro exI [of _ news]) simp
    qed
  qed
qed

lemma enriched_ids: "map lot_id (enriched env lots) = map lot_id lots"
  by (auto simp: enriched_def enrich_lots_ids split: sum.splits)

lemma enriched_length: "length (enriched env lots) = length lots"
  using arg_cong [OF enriched_ids [of env lots], of length] by simp

lemma list_lots_ids: "map lot_id (list_lots page now) = map row_id (page_rows page)"
  by (simp add: list_lots_def)

lemma close_cycle_result:
  "snd (close_cycle env cid g t s f n err st) = Inr result \<Longrightarrow>
     cr_status result = s \<and> cr_lots_fetched result = f \<and> cr_new_lots result = n"
  by (auto simp: close_cycle_def Let_def case_prod_beta split: sum.splits if_splits)

lemma close_with_error_frame [simp]:
  "m_db (fst (close_with_error env cat e cid g t st)) = m_db st"
  "m_dispatched (fst (close_with_error env cat e cid g t st)) = m_dispatched st"
  "m_in_backfill (fst (close_with_error env cat e cid g t st)) = m_in_backfill st"
  "m_db (fst (close_session_expired env cid g t st)) = m_db st"
  "m_dispatched (fst (close_session_expired env cid g t st)) = m_dispatched st"
  "m_in_backfill (fst (close_session_expired env cid g t st)) = m_in_backfill st"
  by (simp_all add: close_with_error_def close_session_expired_def)

lemma close_with_error_status:
  "snd (close_with_error env cat e cid g t st) = Inr result \<Longrightarrow> cr_status result = Cycle_error"
  "snd (close_session_expired env cid g t st) = Inr result \<Longrightarrow> cr_status result = Cycle_error"
  by (auto simp: close_with_error_def close_session_expired_def dest: close_cycle_result)

text \<open>The report of a good cycle over a page.\<close>

definition good_cycle :: "mon \<Rightarrow> mon \<Rightarrow> parsed_list_page \<Rightarrow> lot_public list \<Rightarrow> cycle_result \<Rightarrow> bool" where
  "good_cycle st st' page news result \<longleftrightarrow>
     cr_lots_fetched result = int (length (page_rows page)) \<and> cr_new_lots result = int (length news)
     \<and> map lot_id news = first_unknown (m_db st) (map row_id (page_rows page))
     \<and> (\<forall>row \<in> set (page_rows page). lr_row (m_db st') (row_id row) \<noteq> None)"

lemma good_cycle_cong: "m_db a = m_db b \<Longrightarrow> good_cycle a st' page news result = good_cycle b st' page news result"
  by (simp add: good_cycle_def)

lemma cycle_page_dispatched:
  assumes "lr_inv (m_db st)"
  shows "\<exists>news. dispatched st (fst (cycle_page env g cid t page st)) news
     \<and> m_in_backfill (fst (cycle_page env g cid t page st)) = m_in_backfill st
     \<and> (\<forall>result. snd (cycle_page env g cid t page st) = Inr result \<longrightarrow>
          cr_status result = Cycle_ok \<and> good_cycle st (fst (cycle_page env g cid t page st)) page news result)"
proof -
  obtain st2 r where d: "delta_check env g page st = (st2, r)" by fastforce
  have st2: "m_dispatched st2 = m_dispatched st" "m_in_backfill st2 = m_in_backfill st"
    "\<And>i. lr_row (m_db st2) i = lr_row (m_db st) i" "lr_inv (m_db st2)"
    using delta_check_frame(3-6) [of env g page st] assms d by simp_all
  show ?thesis
  proof (cases r)
    case (Inl e)
    with d have "cycle_page env g cid t page st = (st2, Inl e)" by (simp add: cycle_page_def)
    with st2 show ?thesis by (intro exI [of _ "[]"]) (simp add: dispatched_same)
  next
    case (Inr u)
    let ?lots = "enriched env (list_lots page (m_now st2))"
    have ids: "map lot_id ?lots = map row_id (page_rows page)"
      using enriched_ids list_lots_ids by simp
    have len: "length ?lots = length (page_rows page)"
      by (simp add: enriched_length list_lots_def)
    have inv: "lr_inv (m_db (m_tick st2))" using st2(4) by simp
    obtain st3 r3 where sl: "store_lots env ?lots 0 (m_tick st2) = (st3, r3)" by fastforce
    from store_lots_dispatched [OF inv, of env ?lots 0] obtain news where
      n: "dispatched (m_tick st2) st3 news"
        "\<forall>k. r3 = Inr k \<longrightarrow> k = length news \<and> map lot_id news = first_unknown (m_db st2) (map lot_id ?lots)
          \<and> (\<forall>l \<in> set ?lots. lr_row (m_db st3) (lot_id l) \<noteq> None)" using sl by auto
    have a: "dispatched st st3 news" by (rule dispatched_frame [OF n(1)]) (simp_all add: st2)
    have bf: "m_in_backfill st3 = m_in_backfill st" using store_lots_bus [of env ?lots 0 "m_tick st2"] sl st2(2) by simp
    show ?thesis
    proof (cases r3)
      case (Inl e)
      with Inr d sl have "cycle_page env g cid t page st = (st3, Inl e)" by (simp add: cycle_page_def)
      with a bf show ?thesis by (intro exI [of _ news]) simp
    next
      case r3: (Inr k)
      let ?out = "close_cycle env cid g t Cycle_ok (int (length ?lots)) (int k) None st3"
      have eq: "cycle_page env g cid t page st = ?out" using d Inr sl r3 by (simp add: cycle_page_def)
      have fu: "first_unknown (m_db st2) ids = first_unknown (m_db st) ids" for ids
        by (rule first_unknown_cong) (simp add: st2(3))
      have stored: "lr_row (m_db st3) (row_id row) \<noteq> None" if "row \<in> set (page_rows page)" for row
      proof -
        have "row_id row \<in> set (map lot_id ?lots)" unfolding ids using that by simp
        then show ?thesis using n(2) r3 by auto
      qed
      have g: "good_cycle st (fst ?out) page news result \<and> cr_status result = Cycle_ok" if "snd ?out = Inr result" for result
        using close_cycle_result [OF that] n(2) r3 ids fu stored len by (simp add: good_cycle_def)
      have "dispatched st (fst ?out) news" using a by (simp add: dispatched_def)
      with bf g show ?thesis unfolding eq by (intro exI [of _ news]) simp
    qed
  qed
qed

lemma run_cycle_inner_dispatched:
  assumes "lr_inv (m_db st)"
  shows "\<exists>news. dispatched st (fst (run_cycle_inner env g cid t st)) news
     \<and> m_in_backfill (fst (run_cycle_inner env g cid t st)) = m_in_backfill st
     \<and> (\<forall>result. snd (run_cycle_inner env g cid t st) = Inr result \<longrightarrow>
          (cr_status result = Cycle_error \<and> news = []
             \<and> m_db (fst (run_cycle_inner env g cid t st)) = m_db st)
          \<or> (cr_status result = Cycle_ok \<and> (\<exists>u response page. ce_get env u = Inr response
               \<and> read_page env response = Inr page
               \<and> good_cycle st (fst (run_cycle_inner env g cid t st)) page news result)))"
proof -
  let ?st = "publish_checking_status env st"
  obtain u where u: "lot_list_url (ce_base env) g DEFAULT_LIST_SORT 1 (Some 20) = Inr u"
    using list_url_ok by blast
  consider (page) response page where "ce_get env u = Inr response" "read_page env response = Inr page"
      "run_cycle_inner env g cid t st = cycle_page env g cid t page ?st"
    | (err) cat e where "run_cycle_inner env g cid t st = close_with_error env cat e cid g t ?st"
    | (sess) "run_cycle_inner env g cid t st = close_session_expired env cid g t ?st"
    | (raises) e where "run_cycle_inner env g cid t st = (?st, Inl e)"
  proof (cases "ce_get env u")
    case (Inl e)
    with u err raises show ?thesis
      by (cases e) (simp_all add: run_cycle_inner_def close_with_upstream_error_def)
  next
    case (Inr response)
    show ?thesis
    proof (cases "read_page env response")
      case (Inl e)
      with Inr u err sess raises show ?thesis
        by (cases e) (simp_all add: run_cycle_inner_def close_with_upstream_error_def close_with_parse_bug_def)
    next
      case p: (Inr page)
      with Inr u page show ?thesis by (simp add: run_cycle_inner_def)
    qed
  qed
  then show ?thesis
  proof cases
    case page
    have "lr_inv (m_db ?st)" using assms by simp
    from cycle_page_dispatched [OF this, of env g cid t page] obtain news where
      n: "dispatched ?st (fst (cycle_page env g cid t page ?st)) news"
        "m_in_backfill (fst (cycle_page env g cid t page ?st)) = m_in_backfill ?st"
        "\<forall>result. snd (cycle_page env g cid t page ?st) = Inr result \<longrightarrow>
          cr_status result = Cycle_ok \<and> good_cycle ?st (fst (cycle_page env g cid t page ?st)) page news result"
      by blast
    have "dispatched st (fst (cycle_page env g cid t page ?st)) news"
      by (rule dispatched_frame [OF n(1)]) simp_all
    with n page(1,2) good_cycle_cong [of ?st st] show ?thesis unfolding page(3)
      by (intro exI [of _ news]) (simp, blast)
  next
    case err
    with assms show ?thesis
      by (intro exI [of _ "[]"]) (auto simp: dispatched_same dest: close_with_error_status)
  next
    case sess
    with assms show ?thesis
      by (intro exI [of _ "[]"]) (auto simp: dispatched_same dest: close_with_error_status)
  next
    case raises
    with assms show ?thesis by (intro exI [of _ "[]"]) (simp add: dispatched_same)
  qed
qed

lemma run_cycle_dispatched:
  assumes "lr_inv (m_db st)"
  shows "\<exists>news. dispatched st (fst (run_cycle env g st)) news
     \<and> m_in_backfill (fst (run_cycle env g st)) = m_in_backfill st
     \<and> (\<forall>result. snd (run_cycle env g st) = Inr result \<longrightarrow>
          (cr_status result = Cycle_error \<and> news = [] \<and> m_db (fst (run_cycle env g st)) = m_db st)
          \<or> (cr_status result = Cycle_ok \<and> (\<exists>u response page. ce_get env u = Inr response
               \<and> read_page env response = Inr page
               \<and> good_cycle st (fst (run_cycle env g st)) page news result)))"
proof -
  let ?b = "cycle_begin g st" and ?id = "snd (cy_open g (m_now st) (m_cycles st))"
  have "lr_inv (m_db ?b)" using assms by simp
  from run_cycle_inner_dispatched [OF this, of env g ?id "m_now st"] obtain news where
    n: "dispatched ?b (fst (run_cycle_inner env g ?id (m_now st) ?b)) news"
      "m_in_backfill (fst (run_cycle_inner env g ?id (m_now st) ?b)) = m_in_backfill ?b"
      "\<forall>result. snd (run_cycle_inner env g ?id (m_now st) ?b) = Inr result \<longrightarrow>
          (cr_status result = Cycle_error \<and> news = []
             \<and> m_db (fst (run_cycle_inner env g ?id (m_now st) ?b)) = m_db ?b)
          \<or> (cr_status result = Cycle_ok \<and> (\<exists>u response page. ce_get env u = Inr response
               \<and> read_page env response = Inr page
               \<and> good_cycle ?b (fst (run_cycle_inner env g ?id (m_now st) ?b)) page news result))" by blast
  have a: "dispatched st (fst (run_cycle_inner env g ?id (m_now st) ?b)) news"
    by (rule dispatched_frame [OF n(1)]) simp_all
  obtain st2 r where i: "run_cycle_inner env g ?id (m_now st) ?b = (st2, r)" by fastforce
  show ?thesis
  proof (cases "db_locked env st")
    case True
    then have "run_cycle env g st = (m_tick st, Inl OperationalError)" by (simp add: run_cycle_eq Let_def)
    with assms show ?thesis by (intro exI [of _ "[]"]) (simp add: dispatched_same)
  next
    case opened: False
    show ?thesis
  proof (cases r)
    case (Inr result)
    then have "run_cycle env g st = (st2, Inr result)" using i opened by (simp add: run_cycle_eq Let_def)
    with a n i Inr good_cycle_cong [of ?b st] show ?thesis by (intro exI [of _ news]) simp
  next
    case (Inl e)
    obtain x1 rx where x: "close_with_error env Cat_internal_error e ?id g (m_now st) st2 = (x1, rx)" by fastforce
    have fr: "m_db x1 = m_db st2" "m_dispatched x1 = m_dispatched st2" "m_in_backfill x1 = m_in_backfill st2"
      using close_with_error_frame(1-3) [of env Cat_internal_error e ?id g "m_now st" st2] x by simp_all
    have "m_db (fst (run_cycle env g st)) = m_db st2 \<and> m_dispatched (fst (run_cycle env g st)) = m_dispatched st2
      \<and> m_in_backfill (fst (run_cycle env g st)) = m_in_backfill st2 \<and> (\<exists>e'. snd (run_cycle env g st) = Inl e')"
    proof (cases "is_domain_error e")
      case True
      with i Inl opened show ?thesis by (simp add: run_cycle_eq Let_def)
    next
      case False
      with i Inl x fr opened show ?thesis
        by (cases rx) (simp_all add: run_cycle_eq Let_def close_with_unexpected_error_def)
    qed
    with a n(2) i show ?thesis by (intro exI [of _ news]) (auto simp: dispatched_def)
  qed
  qed
qed

end
