(* ===== verification/Monitor_System.thy ===== *)
theory Monitor_System
  imports Monitor_Cycle Full_Scan "HOL-Library.Multiset"
begin

text \<open>
  The services together: the scheduler's passes, the backfill worker, the removal scan and the
  requests of the user interface interleave over one state, one step at a time, and the
  process may restart between any two of them. The properties of the monitor cycle, and those
  that hold over every such history, are here.
\<close>

subsection \<open>Histories\<close>

record sys =
  s_mon :: mon
  s_awaiting :: bool
  s_stopped :: bool

text \<open>
  A restart loses what is in memory and keeps the database; \<open>m_bus\<close> and \<open>m_dispatched\<close> stay,
  as they are the record of what was announced and not state of the program.
\<close>

definition restarted :: "sys \<Rightarrow> sys" where
  "restarted s =
     \<lparr>s_mon = (s_mon s)\<lparr>m_trigger := False, m_in_backfill := {}, m_miss := Map.empty, m_delta := Map.empty,
        m_terminal := False, bf_running := False, bf_stop := False, bf_worker := None, bf_prog := no_progress\<rparr>,
      s_awaiting = False, s_stopped = False\<rparr>"

datatype sys_op =
    Sys_pass pass_env
  | Sys_wait
  | Sys_worker bf_env
  | Sys_start "int list option"
  | Sys_cancel
  | Sys_run_now
  | Sys_scan fs_env
  | Sys_restart

definition scan_step :: "fs_env \<Rightarrow> mon \<Rightarrow> mon" where
  "scan_step env st =
     (let fs = fst (run_once env \<lparr>fs_db = m_db st, fs_events = []\<rparr>)
      in st\<lparr>m_db := fs_db fs, m_bus := m_bus st @ map Published (fs_events fs)\<rparr>)"

fun sys_step :: "sys_op \<Rightarrow> sys \<Rightarrow> sys" where
  "sys_step (Sys_pass env) s =
     (if s_stopped s then s
      else let (st, awaiting, stopped) = scheduler_pass env (s_awaiting s) (s_mon s)
           in \<lparr>s_mon = st, s_awaiting = awaiting, s_stopped = stopped\<rparr>)"
| "sys_step Sys_wait s = s\<lparr>s_mon := fst (wait_for_next_pass (s_stopped s) (s_mon s))\<rparr>"
| "sys_step (Sys_worker env) s = s\<lparr>s_mon := bf_worker_step env (s_mon s)\<rparr>"
| "sys_step (Sys_start regions) s = s\<lparr>s_mon := fst (bf_start regions (s_mon s))\<rparr>"
| "sys_step Sys_cancel s = s\<lparr>s_mon := bf_cancel (s_mon s)\<rparr>"
| "sys_step Sys_run_now s = s\<lparr>s_mon := request_run_now (s_mon s)\<rparr>"
| "sys_step (Sys_scan env) s = s\<lparr>s_mon := scan_step env (s_mon s)\<rparr>"
| "sys_step Sys_restart s = restarted s"

subsection \<open>The announcements of a cycle\<close>

text \<open>The lots a sequence of calls announces as stored by a backfill.\<close>

fun backfill_lot :: "bus_call \<Rightarrow> lot_public list" where
  "backfill_lot (Published (SseLotNew l True)) = [l]"
| "backfill_lot _ = []"

definition backfill_lots :: "bus_call list \<Rightarrow> lot_public list" where
  "backfill_lots xs = concat (map backfill_lot xs)"

lemma backfill_lots_simps [simp]:
  "backfill_lots [] = []" "backfill_lots (c # xs) = backfill_lot c @ backfill_lots xs"
  "backfill_lots (xs @ ys) = backfill_lots xs @ backfill_lots ys"
  "backfill_lots (backfill_calls news) = news"
  by (simp_all add: backfill_lots_def backfill_calls_def) (induction news; simp)

definition no_lots :: "mon \<Rightarrow> mon \<Rightarrow> bool" where
  "no_lots st st' \<longleftrightarrow> (\<exists>xs. m_bus st' = m_bus st @ xs \<and> backfill_lots xs = [])"

lemma no_lots_trans: "no_lots a b \<Longrightarrow> no_lots b c \<Longrightarrow> no_lots a c"
  unfolding no_lots_def by (metis append.assoc append_Nil backfill_lots_simps(3))

lemma no_lotsI: "m_bus st' = m_bus st @ xs \<Longrightarrow> backfill_lots xs = [] \<Longrightarrow> no_lots st st'"
  by (auto simp: no_lots_def)

lemma no_lots_same: "m_bus st' = m_bus st \<Longrightarrow> no_lots st st'"
  by (rule no_lotsI [of _ _ "[]"]) simp_all

lemma no_lots_checking: "no_lots st (publish_checking_status env st)"
  using publish_checking_bus [of env st] by (auto simp: no_lots_def)

lemma no_lots_done: "no_lots st (publish_cycle_done env result st)"
proof -
  let ?st = "pub (SseCycleDone (m_now st) (cr_id result) (cr_status result) (cr_lots_fetched result)
      (cr_new_lots result) (duration_ms result)
      (case ce_zone env 1 of None \<Rightarrow> [] | Some tz \<Rightarrow> hh_mm (tz (m_now st)))) (m_tick st)"
  have "no_lots ?st (publish_status env result ?st)"
    using publish_status_bus [of env result ?st] by (auto simp: no_lots_def)
  moreover have "no_lots st ?st" by (auto simp: no_lots_def)
  ultimately show ?thesis using no_lots_trans by (fastforce simp: publish_cycle_done_def Let_def)
qed

lemma no_lots_close: "no_lots st (fst (close_cycle env cid g t s f n err st))"
proof -
  obtain ct r where c: "cy_close cid \<lparr> cr_id = cid, cr_region = g, cr_started_at = t, cr_finished_at = m_now st,
      cr_status = s, cr_lots_fetched = f, cr_new_lots = n, cr_error = err, cr_id_schema_check = Schema_ok \<rparr>
      (m_cycles st) = (ct, r)" by fastforce
  have "no_lots st ((m_tick st)\<lparr>m_cycles := ct\<rparr>)" "no_lots st (m_tick st)"
    by (simp_all add: no_lots_same)
  with c show ?thesis
    by (cases r) (auto simp: close_cycle_def Let_def intro: no_lots_trans [OF _ no_lots_done])
qed

lemma no_lots_close_error:
  "no_lots st (fst (close_with_error env cat e cid g t st))"
  "no_lots st (fst (close_session_expired env cid g t st))"
proof -
  have "backfill_lots [Published e] = [] \<Longrightarrow> no_lots st (m_tick (pub e st))" for e
    by (rule no_lotsI [of _ _ "[Published e]"]) simp_all
  note step = no_lots_trans [OF this no_lots_close]
  show "no_lots st (fst (close_with_error env cat e cid g t st))"
    unfolding close_with_error_def by (rule step) simp
  show "no_lots st (fst (close_session_expired env cid g t st))"
    unfolding close_session_expired_def by (rule step) simp
qed

lemma no_lots_store: "no_lots st (fst (store_lots env ls n st))"
proof -
  obtain xs where xs: "m_bus (fst (store_lots env ls n st)) = m_bus st @ xs" "lot_status_calls xs"
    using store_lots_bus [of env ls n st] by blast
  have "backfill_lots xs = []"
    using xs(2) by (auto simp: lot_status_calls_def backfill_lots_def)
  with xs(1) show ?thesis by (rule no_lotsI)
qed

lemma no_lots_page: "no_lots st (fst (cycle_page env g cid t page st))"
proof -
  obtain st1 r where d: "delta_check env g page st = (st1, r)" by fastforce
  have q: "no_lots st st1" using delta_check_frame(2) [of env g page st] d by (auto intro: no_lots_same)
  obtain st2 r2 where s: "store_lots env (enriched env (list_lots page (m_now st1))) 0 (m_tick st1) = (st2, r2)"
    by fastforce
  have "no_lots st1 (m_tick st1)" by (rule no_lots_same) simp
  then have "no_lots st st2"
    using no_lots_trans [OF q no_lots_trans [OF _ no_lots_store]] s by (metis fst_conv)
  with q d s show ?thesis
    by (auto simp: cycle_page_def Let_def split: sum.splits intro: no_lots_trans [OF _ no_lots_close])
qed

lemma no_lots_inner: "no_lots st (fst (run_cycle_inner env g cid t st))"
  using no_lots_checking [of st env]
  by (auto simp: run_cycle_inner_def Let_def close_with_upstream_error_def close_with_parse_bug_def
      split: sum.splits exc.splits intro: no_lots_trans [OF _ no_lots_page] no_lots_trans [OF _ no_lots_close_error(1)]
      no_lots_trans [OF _ no_lots_close_error(2)])

lemma no_lots_cycle: "no_lots st (fst (run_cycle env g st))"
proof -
  let ?id = "snd (cy_open g (m_now st) (m_cycles st))"
  have b: "no_lots st (cycle_begin g st)" by (auto simp: no_lots_def)
  obtain st2 r where i: "run_cycle_inner env g ?id (m_now st) (cycle_begin g st) = (st2, r)" by fastforce
  have q: "no_lots st st2" using no_lots_trans [OF b no_lots_inner] i by (metis fst_conv)
  have locked: "no_lots st (m_tick st)" by (rule no_lots_same) simp
  show ?thesis
  proof (cases r)
    case (Inr result)
    with i q locked show ?thesis by (simp add: run_cycle_eq Let_def)
  next
    case (Inl e)
    obtain st3 r3 where x: "close_with_error env Cat_internal_error e ?id g (m_now st) st2 = (st3, r3)" by fastforce
    have q3: "no_lots st st3" using no_lots_trans [OF q no_lots_close_error(1)] x by (metis fst_conv)
    have q2: "no_lots st (m_tick (pub (SseStatus (m_now st2) St_error 0 dash []) st2))"
      by (rule no_lots_trans [OF q]) (auto simp: no_lots_def)
    from Inl i x q q2 q3 locked show ?thesis
      by (cases r3; cases "is_domain_error e")
        (auto simp: run_cycle_eq Let_def close_with_unexpected_error_def)
  qed
qed

subsection \<open>One step of a history\<close>

text \<open>
  \<open>advances st st'\<close>: whatever was dispatched or announced in between is new, announced once
  and stored; nothing stored is forgotten and a finished backfill stays finished.
\<close>

definition advances :: "mon \<Rightarrow> mon \<Rightarrow> bool" where
  "advances st st' \<longleftrightarrow>
     lr_inv (m_db st') \<and> (bf_is_done st \<longrightarrow> bf_is_done st')
     \<and> (\<forall>i. lr_row (m_db st) i \<noteq> None \<longrightarrow> lr_row (m_db st') i \<noteq> None)
     \<and> (\<exists>news xs. m_dispatched st' = m_dispatched st @ news \<and> m_bus st' = m_bus st @ xs
          \<and> announces (m_db st) (m_db st') (news @ backfill_lots xs))"

lemma announces_perm: "mset ys = mset xs \<Longrightarrow> announces a b xs \<Longrightarrow> announces a b ys"
proof -
  assume p: "mset ys = mset xs" and a: "announces a b xs"
  have "set ys = set xs" by (rule mset_eq_setD [OF p])
  moreover have "distinct (map lot_id ys) = distinct (map lot_id xs)"
    using p by (metis mset_eq_imp_distinct_iff mset_map)
  ultimately show ?thesis using a by (simp add: announces_def)
qed

lemma advances_trans:
  assumes "advances a b" "advances b c"
  shows "advances a c"
proof -
  from assms obtain n xs n' xs' where
    1: "m_dispatched b = m_dispatched a @ n" "m_bus b = m_bus a @ xs"
      "announces (m_db a) (m_db b) (n @ backfill_lots xs)"
    and 2: "m_dispatched c = m_dispatched b @ n'" "m_bus c = m_bus b @ xs'"
      "announces (m_db b) (m_db c) (n' @ backfill_lots xs')"
    unfolding advances_def by blast
  have "announces (m_db a) (m_db c) ((n @ backfill_lots xs) @ (n' @ backfill_lots xs'))"
    using announces_append [OF 1(3) 2(3)] assms unfolding advances_def by blast
  then have "announces (m_db a) (m_db c) ((n @ n') @ backfill_lots (xs @ xs'))"
    by (rule announces_perm [rotated]) simp
  with 1 2 assms show ?thesis unfolding advances_def
    by (intro conjI exI [of _ "n @ n'"] exI [of _ "xs @ xs'"]) auto
qed

lemma advances_same:
  "lr_inv (m_db st) \<Longrightarrow> m_db st' = m_db st \<Longrightarrow> m_dispatched st' = m_dispatched st \<Longrightarrow> m_bus st' = m_bus st @ xs
   \<Longrightarrow> backfill_lots xs = [] \<Longrightarrow> advances st st'"
  by (auto simp: advances_def announces_def bf_is_done_def)

lemma done_state: "ld_state (m_db st') = ld_state (m_db st) \<Longrightarrow> bf_is_done st' = bf_is_done st"
  by (simp add: bf_is_done_def)

text \<open>A cycle never touches the done flag.\<close>

definition keeps_done :: "mon \<Rightarrow> mon \<Rightarrow> bool" where
  "keeps_done st st' \<longleftrightarrow> bf_is_done st' = bf_is_done st"

lemma keeps_done_trans: "keeps_done a b \<Longrightarrow> keeps_done b c \<Longrightarrow> keeps_done a c"
  by (simp add: keeps_done_def)

lemma keeps_done_db: "m_db st' = m_db st \<Longrightarrow> keeps_done st st'"
  by (simp add: keeps_done_def bf_is_done_def)

lemma keeps_done_delta: "keeps_done st (fst (delta_check env g page st))"
proof -
  have "keeps_done a (fst (maybe_start g s d h a))" for a s d h
    by (auto simp: keeps_done_def bf_is_done_def maybe_start_def launch_def STATE_KEY_DONE_def STATE_KEY_TOTAL_def
        split: sum.splits bf_decision.splits)
  then show ?thesis
    by (fastforce simp: keeps_done_def bf_is_done_def delta_check_def Let_def case_prod_beta
        split: option.splits sum.splits)
qed

lemma keeps_done_store: "keeps_done st (fst (store_lots env ls n st))"
proof (induction env ls n st rule: store_lots.induct)
  case (1 env n st)
  then show ?case by (simp add: keeps_done_def)
next
  case (2 env l ls n st)
  obtain st1 r where u: "store_upsert env l st = (st1, r)" by fastforce
  have st1: "bf_is_done st1 = bf_is_done st"
    using m_upsert_db(1) [of False l st] u lr_upsert_state
    by (auto simp: bf_is_done_def store_upsert_def split: if_splits)
  show ?case
  proof (cases r)
    case (Inr res)
    show ?thesis
    proof (cases "ur_was_new res")
      case True
      with 2(1) [OF u [symmetric] Inr True] u Inr st1 show ?thesis by (simp add: keeps_done_def bf_is_done_def)
    next
      case False
      with 2(2) [OF u [symmetric] Inr False] u Inr st1 show ?thesis by (simp add: keeps_done_def bf_is_done_def)
    qed
  qed (use u st1 in \<open>simp add: keeps_done_def\<close>)
qed

lemma keeps_done_page: "keeps_done st (fst (cycle_page env g cid t page st))"
proof -
  obtain st1 r where d: "delta_check env g page st = (st1, r)" by fastforce
  have q: "keeps_done st st1" using keeps_done_delta [of st env g page] d by simp
  obtain st2 r2 where s: "store_lots env (enriched env (list_lots page (m_now st1))) 0 (m_tick st1) = (st2, r2)"
    by fastforce
  have "keeps_done st st2"
    using keeps_done_trans [OF q] keeps_done_store [of "m_tick st1"] s
    by (metis fst_conv keeps_done_db keeps_done_trans m_frame(1))
  moreover have "keeps_done st2 (fst (close_cycle env cid g t x f n err st2))" for x f n err
    by (rule keeps_done_db) simp
  ultimately show ?thesis using q d s
    by (auto simp: cycle_page_def Let_def split: sum.splits intro: keeps_done_trans)
qed

lemma keeps_done_inner: "keeps_done st (fst (run_cycle_inner env g cid t st))"
proof -
  have q: "keeps_done st (publish_checking_status env st)" by (rule keeps_done_db) simp
  then show ?thesis
    by (auto simp: run_cycle_inner_def Let_def close_with_upstream_error_def close_with_parse_bug_def
        split: sum.splits exc.splits intro: keeps_done_trans [OF _ keeps_done_page] keeps_done_trans [OF _ keeps_done_db])
qed

lemma keeps_done_cycle: "keeps_done st (fst (run_cycle env g st))"
proof -
  let ?id = "snd (cy_open g (m_now st) (m_cycles st))"
  obtain st2 r where i: "run_cycle_inner env g ?id (m_now st) (cycle_begin g st) = (st2, r)" by fastforce
  have q: "keeps_done st st2"
    using keeps_done_trans [OF keeps_done_db keeps_done_inner] i by (metis cycle_begin_simps(1) fst_conv)
  have "m_db (fst (run_cycle env g st)) = (if db_locked env st then m_db st else m_db st2)"
  proof (cases r)
    case (Inr result)
    with i show ?thesis by (simp add: run_cycle_eq Let_def)
  next
    case (Inl e)
    obtain st3 r3 where x: "close_with_error env Cat_internal_error e ?id g (m_now st) st2 = (st3, r3)" by fastforce
    have "m_db st3 = m_db st2" using close_with_error_frame(1) [of env Cat_internal_error e ?id g "m_now st" st2] x by simp
    with Inl i x show ?thesis
      by (cases r3; cases "is_domain_error e") (simp_all add: run_cycle_eq Let_def close_with_unexpected_error_def)
  qed
  with q show ?thesis by (auto intro: keeps_done_db keeps_done_trans split: if_splits)
qed

lemma run_cycle_advances:
  assumes "lr_inv (m_db st)"
  shows "advances st (fst (run_cycle env g st))"
proof -
  from run_cycle_dispatched [OF assms, of env g] obtain news where "dispatched st (fst (run_cycle env g st)) news"
    by blast
  moreover obtain xs where "m_bus (fst (run_cycle env g st)) = m_bus st @ xs" "backfill_lots xs = []"
    using no_lots_cycle [of st env g] by (auto simp: no_lots_def)
  ultimately show ?thesis
    using keeps_done_cycle [of st env g] by (auto simp: advances_def dispatched_def keeps_done_def)
qed

lemma gate_advances: "lr_inv (m_db st) \<Longrightarrow> advances st (fst (gate_pass env awaiting st))"
  by (auto simp: gate_pass_def intro: advances_same [of _ _ "[]"] advances_same [of _ _ "[Published _]"])

lemma pass_advances:
  assumes "lr_inv (m_db st)"
  shows "advances st (fst (scheduler_pass env awaiting st))"
proof -
  obtain st1 aw where g: "gate_pass env awaiting st = (st1, aw)" by fastforce
  have a: "advances st st1" using gate_advances [OF assms, of env awaiting] g by simp
  then have "lr_inv (m_db st1)" by (simp add: advances_def)
  from advances_trans [OF a run_cycle_advances [OF this]] a g show ?thesis
    by (auto simp: scheduler_pass_def split: list.splits)
qed

lemma worker_advances:
  assumes "lr_inv (m_db st)"
  shows "advances st (bf_worker_step env st)"
proof (cases "bf_worker st")
  case None
  with assms show ?thesis by (simp add: bf_worker_step_def advances_same [of _ _ "[]"])
next
  case (Some regions)
  let ?st = "st\<lparr>bf_worker := None\<rparr>"
  have inv: "lr_inv (m_db ?st)" using assms by simp
  from bf_run_spec [OF inv, of env regions] obtain news evs where
    s: "m_bus (bf_run env regions ?st) = m_bus ?st @ backfill_calls news @ map Published evs"
      "announces (m_db ?st) (m_db (bf_run env regions ?st)) news" "error_tail evs"
      "m_dispatched (bf_run env regions ?st) = m_dispatched ?st" "lr_inv (m_db (bf_run env regions ?st))"
      "\<forall>i. lr_row (m_db ?st) i \<noteq> None \<longrightarrow> lr_row (m_db (bf_run env regions ?st)) i \<noteq> None"
      "bf_is_done ?st \<longrightarrow> bf_is_done (bf_run env regions ?st)" by blast
  have "backfill_lots (map Published evs) = []"
    using s(3) by (auto simp: error_tail_def)
  with s Some show ?thesis
    by (auto simp: bf_worker_step_def Let_def advances_def bf_is_done_def intro!: exI [of _ "[]"])
qed

text \<open>A scan forgets no lot, adds none and leaves the state table alone.\<close>

lemma run_once_scanned:
  assumes "lr_inv (fs_db st)"
  shows "\<exists>ids c. scanned ids c (fz_now env) (fs_db st) (fs_db (fst (run_once env st)))
     \<and> lr_inv (fs_db (fst (run_once env st)))"
proof -
  obtain st1 r where f: "fetch_region_ids env st = (st1, r)" by fastforce
  have db: "fs_db st1 = fs_db st" using fetch_keeps_db [of env st] f by simp
  show ?thesis
  proof (cases "set_regions (fz_settings env) = [] \<or> (\<forall>ids c. r = Inr (ids, c) \<longrightarrow> ids = [])")
    case True
    then have "fs_db (fst (run_once env st)) = fs_db st"
      using f db by (cases r) (auto simp: run_once_def Let_def)
    with assms show ?thesis by (metis scanned_refl)
  next
    case False
    then obtain ids c where "r = Inr (ids, c)" "ids \<noteq> []" "set_regions (fz_settings env) \<noteq> []" by auto
    with f have "fs_db (fst (run_once env st)) = fst (process_batches env ids c 0 0 (fs_db st))"
      using run_once_fetched by blast
    then show ?thesis using process_batches_scanned [OF assms, of ids c env 0 0] by auto
  qed
qed

lemma run_once_events:
  "fs_events (fst (run_once env st)) = fs_events st
   \<or> fs_events (fst (run_once env st)) = fs_events st @ [SseSessionExpired (fz_now' env)]"
proof -
  obtain st1 r where f: "fetch_region_ids env st = (st1, r)" by fastforce
  have "fs_events st1 = fs_events st \<or> fs_events st1 = fs_events st @ [SseSessionExpired (fz_now' env)]"
    using f by (auto simp: fetch_region_ids_def fetch_region_ids_paginated_def fetch_region_ids_single_page_def
        Let_def split: if_splits prod.splits sum.splits walk_end.splits)
  then show ?thesis using f
    by (cases r) (auto simp: run_once_def Let_def case_prod_beta split: prod.splits)
qed

lemma scan_advances:
  assumes "lr_inv (m_db st)"
  shows "advances st (scan_step env st)"
proof -
  let ?st = "\<lparr>fs_db = m_db st, fs_events = []\<rparr>"
  let ?db = "fs_db (fst (run_once env ?st))"
  have "lr_inv (fs_db ?st)" using assms by simp
  from run_once_scanned [OF this, of env] obtain ids c where
    s: "scanned ids c (fz_now env) (m_db st) ?db" "lr_inv ?db" by auto
  have keep: "\<forall>i. lr_row (m_db st) i \<noteq> None \<longrightarrow> lr_row ?db i \<noteq> None"
    using scanned_rowD(2) [OF s(1)] by fastforce
  have "ld_state ?db = ld_state (m_db st)" using s(1) by (simp add: scanned_def)
  then have done_flag: "bf_is_done (scan_step env st) = bf_is_done st"
    by (simp add: bf_is_done_def scan_step_def Let_def)
  have "fs_events (fst (run_once env ?st)) = [] \<or>
      fs_events (fst (run_once env ?st)) = [SseSessionExpired (fz_now' env)]"
    using run_once_events [of env ?st] by simp
  then have "backfill_lots (map Published (fs_events (fst (run_once env ?st)))) = []"
    by auto
  with s(2) keep done_flag show ?thesis
    by (auto simp: advances_def scan_step_def Let_def announces_def intro!: exI [of _ "[]"])
qed

lemma sys_step_advances:
  assumes "lr_inv (m_db (s_mon s))"
  shows "advances (s_mon s) (s_mon (sys_step c s))"
proof (cases c)
  case (Sys_pass env)
  with pass_advances [OF assms, of env "s_awaiting s"] assms show ?thesis
    by (auto simp: advances_same [of _ _ "[]"] case_prod_beta)
next
  case (Sys_worker env)
  with worker_advances [OF assms] show ?thesis by simp
next
  case (Sys_scan env)
  with scan_advances [OF assms] show ?thesis by simp
qed (use assms in \<open>auto simp: wait_for_next_pass_def bf_start_def launch_def bf_cancel_def request_run_now_def
      restarted_def intro!: advances_same [of _ _ "[]"]\<close>)

lemma history_advances:
  "lr_inv (m_db (s_mon s)) \<Longrightarrow> advances (s_mon s) (s_mon (fold sys_step ops s))"
proof (induction ops arbitrary: s)
  case Nil
  then show ?case by (simp add: advances_same [of _ _ "[]"])
next
  case (Cons c ops)
  have a: "advances (s_mon s) (s_mon (sys_step c s))" by (rule sys_step_advances [OF Cons.prems])
  then have "lr_inv (m_db (s_mon (sys_step c s)))" by (simp add: advances_def)
  from advances_trans [OF a Cons.IH [OF this]] show ?case by simp
qed

subsection \<open>Passes before the backfill is done\<close>

lemma pass_blocked:
  assumes "pe_has_state env" "\<not> bf_is_done st"
  shows "scheduler_pass env awaiting st =
     (if awaiting then st
      else m_tick (pub (SseStatus (m_now st) St_awaiting_backfill (set_interval_minutes (pe_settings env)) dash []) st),
      True, False)"
  using assms by (simp add: scheduler_pass_def gate_pass_def backfill_done_def)

lemma pass_open:
  assumes "\<not> pe_has_state env \<or> bf_is_done st"
  shows "scheduler_pass env awaiting st =
     (case set_regions (pe_settings env) of
        [] \<Rightarrow> (st, False, False)
      | region # _ \<Rightarrow>
          (if pe_stop env then (st, False, True)
           else if region \<in> m_in_backfill st then (st, False, False)
           else (fst (run_cycle (pe_cycle env) region st), False, False)))"
proof -
  have "backfill_done env st" using assms by (auto simp: backfill_done_def)
  then show ?thesis by (simp add: scheduler_pass_def gate_pass_def)
qed

fun is_awaiting :: "bus_call \<Rightarrow> bool" where
  "is_awaiting (Published (SseStatus _ St_awaiting_backfill _ _ _)) = True"
| "is_awaiting _ = False"

text \<open>\<open>idle st st' n\<close>: no cycle, no dispatch, and \<open>n\<close> awaiting statuses.\<close>

definition idle :: "mon \<Rightarrow> mon \<Rightarrow> nat \<Rightarrow> bool" where
  "idle st st' n \<longleftrightarrow> m_cycles st' = m_cycles st \<and> m_dispatched st' = m_dispatched st
     \<and> (\<exists>xs. m_bus st' = m_bus st @ xs \<and> length (filter is_awaiting xs) = n)"

lemma idle_trans: "idle a b m \<Longrightarrow> idle b c n \<Longrightarrow> idle a c (m + n)"
proof -
  assume "idle a b m" "idle b c n"
  then obtain xs ys where "m_bus b = m_bus a @ xs" "length (filter is_awaiting xs) = m"
    "m_bus c = m_bus b @ ys" "length (filter is_awaiting ys) = n" unfolding idle_def by blast
  then have "m_bus c = m_bus a @ (xs @ ys) \<and> length (filter is_awaiting (xs @ ys)) = m + n" by simp
  with \<open>idle a b m\<close> \<open>idle b c n\<close> show "idle a c (m + n)" unfolding idle_def by metis
qed

lemma idle_same: "m_cycles st' = m_cycles st \<Longrightarrow> m_dispatched st' = m_dispatched st \<Longrightarrow> m_bus st' = m_bus st @ xs
   \<Longrightarrow> filter is_awaiting xs = [] \<Longrightarrow> idle st st' 0"
  by (auto simp: idle_def)

lemma worker_idle:
  assumes "lr_inv (m_db st)"
  shows "idle st (bf_worker_step env st) 0"
proof (cases "bf_worker st")
  case None
  then show ?thesis by (simp add: bf_worker_step_def idle_same [of _ _ "[]"])
next
  case (Some regions)
  let ?st = "st\<lparr>bf_worker := None\<rparr>"
  have inv: "lr_inv (m_db ?st)" using assms by simp
  from bf_run_spec [OF inv, of env regions] obtain news evs where
    s: "m_bus (bf_run env regions ?st) = m_bus ?st @ backfill_calls news @ map Published evs" "error_tail evs"
      "m_dispatched (bf_run env regions ?st) = m_dispatched ?st"
      "m_cycles (bf_run env regions ?st) = m_cycles ?st" by blast
  have "filter is_awaiting (backfill_calls news @ map Published evs) = []"
    using s(2) by (auto simp: error_tail_def backfill_calls_def filter_empty_conv)
  with s Some show ?thesis
    by (intro idle_same [of _ _ "backfill_calls news @ map Published evs"]) (simp_all add: bf_worker_step_def Let_def)
qed

lemma scan_idle: "idle st (scan_step env st) 0"
  using run_once_events [of env "\<lparr>fs_db = m_db st, fs_events = []\<rparr>"]
  by (intro idle_same [of _ _ "map Published (fs_events (fst (run_once env \<lparr>fs_db = m_db st, fs_events = []\<rparr>)))"])
    (auto simp: scan_step_def Let_def)

text \<open>The operations of one process life whose passes see the state repository.\<close>

fun gated_op :: "sys_op \<Rightarrow> bool" where
  "gated_op (Sys_pass env) = pe_has_state env"
| "gated_op Sys_restart = False"
| "gated_op _ = True"

fun is_pass :: "sys_op \<Rightarrow> bool" where
  "is_pass (Sys_pass _) = True"
| "is_pass _ = False"

lemma gated_step:
  assumes "gated_op c" "lr_inv (m_db (s_mon s))" "\<not> bf_is_done (s_mon s)"
  shows "s_stopped (sys_step c s) = s_stopped s
     \<and> s_awaiting (sys_step c s) = (s_awaiting s \<or> (is_pass c \<and> \<not> s_stopped s))
     \<and> idle (s_mon s) (s_mon (sys_step c s)) (if is_pass c \<and> \<not> s_stopped s \<and> \<not> s_awaiting s then 1 else 0)"
proof (cases c)
  case (Sys_pass env)
  with assms(1) have "pe_has_state env" by simp
  from pass_blocked [OF this assms(3)] Sys_pass show ?thesis
    by (auto simp: idle_def)
next
  case (Sys_worker env)
  with worker_idle [OF assms(2)] show ?thesis by simp
next
  case (Sys_scan env)
  then show ?thesis by (simp add: scan_idle)
qed (use assms(1) in \<open>auto simp: wait_for_next_pass_def bf_start_def launch_def bf_cancel_def request_run_now_def
      intro!: idle_same [of _ _ "[]"]\<close>)

lemma gated_history:
  assumes "\<forall>c \<in> set ops. gated_op c" "lr_inv (m_db (s_mon s))" "\<not> bf_is_done (s_mon (fold sys_step ops s))"
  shows "idle (s_mon s) (s_mon (fold sys_step ops s))
     (if (\<exists>c \<in> set ops. is_pass c) \<and> \<not> s_stopped s \<and> \<not> s_awaiting s then 1 else 0)"
  using assms
proof (induction ops arbitrary: s)
  case Nil
  then show ?case by (simp add: idle_same [of _ _ "[]"])
next
  case (Cons c ops)
  have inv: "lr_inv (m_db (s_mon (sys_step c s)))"
    using sys_step_advances [OF Cons.prems(2)] by (simp add: advances_def)
  have nd: "\<not> bf_is_done (s_mon s)"
    using history_advances [OF Cons.prems(2), of "c # ops"] Cons.prems(3) by (auto simp: advances_def)
  have g: "gated_op c" using Cons.prems(1) by simp
  note step = gated_step [OF g Cons.prems(2) nd]
  have rest: "idle (s_mon (sys_step c s)) (s_mon (fold sys_step ops (sys_step c s)))
     (if (\<exists>c \<in> set ops. is_pass c) \<and> \<not> s_stopped (sys_step c s) \<and> \<not> s_awaiting (sys_step c s) then 1 else 0)"
    using Cons.IH [OF _ inv] Cons.prems by simp
  from idle_trans [OF conjunct2 [OF conjunct2 [OF step]] rest] step show ?case
    by (auto split: if_splits)
qed

subsection \<open>Readable rows\<close>

text \<open>With every row readable, a page that is read makes a good cycle.\<close>

lemma default_tracked_ok: "check_tracked DEFAULT_TRACKED_FIELDS = Inr ()"
  by (simp add: DEFAULT_TRACKED_FIELDS_def UNIMPLEMENTED_FIELDS_def ALLOWED_TRACKED_FIELDS_def)

lemma lr_upsert_ok:
  assumes "lr_inv s" "\<And>r. lr_row s (lot_id l) = Some r \<Longrightarrow> \<exists>o'. row_to_lot r = Inr o'"
  shows "\<exists>res. snd (lr_upsert DEFAULT_TRACKED_FIELDS b t l s) = Inr res"
  using assms(1)
  by (cases rule: lr_upsert_cases [where l = l and tracked = DEFAULT_TRACKED_FIELDS and b = b and now = t])
   (use assms(2) default_tracked_ok in force)+

definition readable :: "lots_db \<Rightarrow> bool" where
  "readable s \<longleftrightarrow> (\<forall>r \<in> set (ld_rows s). \<exists>l. row_to_lot r = Inr l)"

lemma readable_upsert: "lr_inv s \<Longrightarrow> readable s \<Longrightarrow> readable (fst (lr_upsert tr b t l s))"
  by (erule lr_upsert_cases [where l = l and tracked = tr and b = b and now = t])
   (auto simp: readable_def)

definition never_locked :: "cyc_env \<Rightarrow> bool" where
  "never_locked env \<longleftrightarrow> (\<forall>n. \<not> ce_locked env n)"

lemma never_lockedD: "never_locked env \<Longrightarrow> \<not> db_locked env st" "never_locked env \<Longrightarrow> \<not> locked_out env st out"
  by (simp_all add: never_locked_def db_locked_def locked_out_def)

lemma store_lots_ok: "lr_inv (m_db st) \<Longrightarrow> readable (m_db st) \<Longrightarrow> never_locked env
   \<Longrightarrow> \<exists>k. snd (store_lots env ls n st) = Inr k"
proof (induction env ls n st rule: store_lots.induct)
  case (2 env l ls n st)
  obtain st1 r where u: "store_upsert env l st = (st1, r)" by fastforce
  have "\<exists>res. r = Inr res"
  proof -
    have "\<exists>x. row_to_lot row = Inr x" if "lr_row (m_db st) (lot_id l) = Some row" for row
      using 2(4) lr_row_key [OF that] by (auto simp: readable_def)
    from lr_upsert_ok [OF 2(3) this, where b = False and t = "m_now st"] show ?thesis
      using m_upsert_db(2) [of False l st] u never_lockedD(1) [OF 2(5)] by (simp add: store_upsert_def)
  qed
  then obtain res where res: "r = Inr res" by blast
  have st1: "lr_inv (m_db st1)" "readable (m_db st1)"
    using m_upsert_db(1) [of False l st] store_upsert_Inr [OF u [unfolded res]] lr_upsert_inv [OF 2(3)]
      readable_upsert [OF 2(3,4)] by simp_all
  show ?case
  proof (cases "ur_was_new res")
    case True
    with 2(1) [OF u [symmetric] res True] u res st1 2(5) show ?thesis by simp
  next
    case False
    with 2(2) [OF u [symmetric] res False] u res st1 2(5) show ?thesis by simp
  qed
qed simp

lemma cycle_page_ok:
  assumes "lr_inv (m_db st)" "readable (m_db st)" "cy_get (m_cycles st) cid \<noteq> None" "never_locked env"
    and "snd (delta_check env g page st) = Inr ()" "ld_rows (m_db (fst (delta_check env g page st))) = ld_rows (m_db st)"
  shows "\<exists>result. snd (cycle_page env g cid t page st) = Inr result \<and> cr_status result = Cycle_ok"
proof -
  obtain st1 where d: "delta_check env g page st = (st1, Inr ())" using assms(5) by (metis prod.collapse)
  let ?lots = "enriched env (list_lots page (m_now st1))"
  have "lr_inv (m_db (m_tick st1))" using delta_check_frame(6) [of env g page st] assms(1) d by simp
  moreover have "readable (m_db (m_tick st1))" using assms(2,6) d by (simp add: readable_def)
  ultimately obtain k where "snd (store_lots env ?lots 0 (m_tick st1)) = Inr k" using store_lots_ok [OF _ _ assms(4)] by blast
  then obtain st2 where s: "store_lots env ?lots 0 (m_tick st1) = (st2, Inr k)" by (metis prod.collapse)
  have "m_cycles st2 = m_cycles st"
    using store_lots_bus [of env ?lots 0 "m_tick st1"] s delta_check_frame(1) [of env g page st] d by simp
  with assms(3) have "cy_get (m_cycles st2) cid \<noteq> None" by simp
  from close_cycle_open [OF this never_lockedD(1) [OF assms(4)], of g t Cycle_ok "int (length ?lots)" "int k" None]
  obtain result where "snd (close_cycle env cid g t Cycle_ok (int (length ?lots)) (int k) None st2) = Inr result"
    "cr_status result = Cycle_ok" by auto
  with d s show ?thesis by (simp add: cycle_page_def)
qed

subsection \<open>Properties\<close>


definition demo_cyc :: cyc_env where
  "demo_cyc = \<lparr>ce_base = ''http://fis'', ce_get = (\<lambda>_. Inr \<lparr>resp_status = 200, resp_text = [], resp_final_url = []\<rparr>),
     ce_parse = (\<lambda>_. Inr \<lparr>page_rows = [sample_row 7, sample_row 8, sample_row 7], page_total_count = None\<rparr>),
     ce_enrich = \<lparr>en_base = ''http://fis'', en_get = (\<lambda>_. Inl RequestException), en_parse = (\<lambda>_. Inl RuntimeError),
       en_now = (\<lambda>_. 0)\<rparr>,
     ce_interval = (\<lambda>_. 5), ce_zone = (\<lambda>_. None), ce_msg = (\<lambda>_. ''offline''), ce_has_backfill = True,
     ce_locked = (\<lambda>_. False)\<rparr>"

definition demo_page :: parsed_list_page where
  "demo_page = \<lparr>page_rows = [sample_row 7, sample_row 8, sample_row 7], page_total_count = None\<rparr>"


definition demo_pass :: "bool \<Rightarrow> pass_env" where
  "demo_pass has_state =
     \<lparr>pe_settings = \<lparr>set_interval_minutes = 5, set_regions = [25], set_filters = \<lparr>rf_subjects = []\<rparr>,
        set_full_scan_time = ''04:00'', set_email_enabled = False, set_email_recipients = []\<rparr>,
      pe_has_state = has_state, pe_stop = False, pe_cycle = demo_cyc\<rparr>"

lemma demo_cycle:
  "\<exists>st' result. run_cycle demo_cyc 25 demo_mon = (st', Inr result) \<and> cr_status result = Cycle_ok"
proof -
  let ?id = "snd (cy_open 25 (m_now demo_mon) (m_cycles demo_mon))"
  let ?b = "cycle_begin 25 demo_mon"
  let ?st = "publish_checking_status demo_cyc ?b"
  obtain u where u: "lot_list_url (ce_base demo_cyc) 25 DEFAULT_LIST_SORT 1 (Some 20) = Inr u"
    using list_url_ok by blast
  have "run_cycle_inner demo_cyc 25 ?id (m_now demo_mon) ?b = cycle_page demo_cyc 25 ?id (m_now demo_mon) demo_page ?st"
    using u by (simp add: run_cycle_inner_def read_page_def demo_cyc_def demo_page_def)
  moreover have "\<exists>result. snd (cycle_page demo_cyc 25 ?id (m_now demo_mon) demo_page ?st) = Inr result
      \<and> cr_status result = Cycle_ok"
  proof (rule cycle_page_ok)
    show "lr_inv (m_db ?st)" using demo_bf_coherent(3) by simp
    show "readable (m_db ?st)" by (simp add: readable_def demo_mon_def empty_db_def)
    show "cy_get (m_cycles ?st) ?id \<noteq> None" by (simp add: demo_mon_def cy_open_def cy_get_def)
    show "never_locked demo_cyc" by (simp add: never_locked_def demo_cyc_def)
    show "snd (delta_check demo_cyc 25 demo_page ?st) = Inr ()"
      "ld_rows (m_db (fst (delta_check demo_cyc 25 demo_page ?st))) = ld_rows (m_db ?st)"
      by (simp_all add: delta_check_def demo_page_def)
  qed
  moreover have "\<not> db_locked demo_cyc demo_mon" by (simp add: db_locked_def demo_cyc_def)
  ultimately show ?thesis by (auto simp: run_cycle_eq Let_def split: prod.splits)
qed


text \<open>
  C5. What a cycle hands to the dispatcher: exactly the lots it stored first. A successful
  cycle stores every lot of the page, dispatches the ones unknown before, each once, in the
  order of their first appearance, and counts them in \<^verbatim>\<open>new_lots\<close>; a cycle that returns an
  error result stores and dispatches nothing; one that raises may have stored and dispatched
  part of the page, and then too what it dispatched is exactly some lots that were unknown
  before and are stored now, each once. No cycle forgets a stored lot, and the set of regions
  in backfill is untouched.
\<close>

theorem cycle_dispatches_exactly_new:
  assumes "lr_inv (m_db st)" "run_cycle env region st = (st', r)"
  shows "\<exists>news. m_dispatched st' = m_dispatched st @ news \<and> announces (m_db st) (m_db st') news
     \<and> lr_inv (m_db st') \<and> m_in_backfill st' = m_in_backfill st
     \<and> (\<forall>i. lr_row (m_db st) i \<noteq> None \<longrightarrow> lr_row (m_db st') i \<noteq> None)
     \<and> (\<forall>result. r = Inr result \<longrightarrow>
          (cr_status result = Cycle_error \<and> news = [] \<and> m_db st' = m_db st)
          \<or> (cr_status result = Cycle_ok
             \<and> (\<exists>u response page. ce_get env u = Inr response \<and> read_page env response = Inr page
                  \<and> map lot_id news = first_unknown (m_db st) (map row_id (page_rows page))
                  \<and> cr_new_lots result = int (length news)
                  \<and> cr_lots_fetched result = int (length (page_rows page))
                  \<and> (\<forall>row \<in> set (page_rows page). lr_row (m_db st') (row_id row) \<noteq> None))))"
proof -
  from run_cycle_dispatched [OF assms(1), of env region] assms(2) obtain news where
    "dispatched st st' news" "m_in_backfill st' = m_in_backfill st"
    and x: "\<forall>result. r = Inr result \<longrightarrow>
          (cr_status result = Cycle_error \<and> news = [] \<and> m_db st' = m_db st)
          \<or> (cr_status result = Cycle_ok \<and> (\<exists>u response page. ce_get env u = Inr response
               \<and> read_page env response = Inr page \<and> good_cycle st st' page news result))" by auto
  then show ?thesis unfolding good_cycle_def dispatched_def by (intro exI [of _ news]) (simp, blast)
qed

theorem cycle_dispatches_exactly_new_witness:
  "map lot_id (m_dispatched (fst (run_cycle demo_cyc 25 demo_mon))) = [7, 8]"
proof -
  obtain st' result where rc: "run_cycle demo_cyc 25 demo_mon = (st', Inr result)" "cr_status result = Cycle_ok"
    using demo_cycle by blast
  have only: "read_page demo_cyc response = Inr page \<Longrightarrow> ce_get demo_cyc u = Inr response \<Longrightarrow> page = demo_page"
    for u response page by (auto simp: read_page_def demo_cyc_def demo_page_def split: if_splits)
  have "first_unknown (m_db demo_mon) (map row_id (page_rows demo_page)) = [7, 8]"
    by (simp add: first_unknown_def demo_mon_def empty_db_def lr_row_def demo_page_def sample_row_def)
  moreover have "m_dispatched demo_mon = []" by (simp add: demo_mon_def)
  ultimately show ?thesis
    using cycle_dispatches_exactly_new [OF demo_bf_coherent(3) rc(1)] rc only by fastforce
qed

text \<open>
  C1. No lot is announced twice. Over any interleaving of scheduler passes, waits, backfill
  runs and their starts and cancellations, removal scans and restarts of the process, the
  lots handed to the dispatcher by cycles and the lots announced by backfills are all
  different: each was unknown at the beginning, is announced by one of the two only, and is
  stored at the end. Nothing stored is forgotten, the R-tree mirrors the rows throughout and
  a finished backfill stays finished.
\<close>

theorem no_lot_announced_twice:
  assumes "lr_inv (m_db (s_mon s))"
  shows "\<exists>news xs. let s' = fold sys_step ops s in
     m_dispatched (s_mon s') = m_dispatched (s_mon s) @ news
     \<and> m_bus (s_mon s') = m_bus (s_mon s) @ xs
     \<and> distinct (map lot_id (news @ backfill_lots xs))
     \<and> (\<forall>l \<in> set (news @ backfill_lots xs).
          lr_row (m_db (s_mon s)) (lot_id l) = None \<and> lr_row (m_db (s_mon s')) (lot_id l) \<noteq> None)
     \<and> (\<forall>i. lr_row (m_db (s_mon s)) i \<noteq> None \<longrightarrow> lr_row (m_db (s_mon s')) i \<noteq> None)
     \<and> lr_inv (m_db (s_mon s')) \<and> (bf_is_done (s_mon s) \<longrightarrow> bf_is_done (s_mon s'))"
  using history_advances [OF assms, of ops] unfolding advances_def announces_def Let_def by blast

theorem no_lot_announced_twice_witness:
  "let s = fold sys_step [Sys_pass (demo_pass False), Sys_start None, Sys_worker demo_bf, Sys_restart]
      \<lparr>s_mon = demo_mon, s_awaiting = False, s_stopped = False\<rparr>
   in distinct (map lot_id (m_dispatched (s_mon s) @ backfill_lots (m_bus (s_mon s))))"
  using no_lot_announced_twice [where s = "\<lparr>s_mon = demo_mon, s_awaiting = False, s_stopped = False\<rparr>"
      and ops = "[Sys_pass (demo_pass False), Sys_start None, Sys_worker demo_bf, Sys_restart]"] demo_bf_coherent(3)
  by (auto simp: Let_def demo_mon_def)

text \<open>
  C9. The gate before the first backfill: as long as the done flag is not set, any history of
  one process life, whatever the backfill worker, the user and the removal scan do, opens no
  cycle and dispatches nothing, and the scheduler announces \<^verbatim>\<open>awaiting_backfill\<close> exactly once,
  at its first pass, however many passes follow.
\<close>

theorem scheduler_gate:
  assumes "\<forall>c \<in> set ops. gated_op c" "lr_inv (m_db (s_mon s))" "\<not> s_awaiting s" "\<not> s_stopped s"
    and "\<not> bf_is_done (s_mon (fold sys_step ops s))"
  shows "\<exists>xs. let s' = fold sys_step ops s in
     m_cycles (s_mon s') = m_cycles (s_mon s) \<and> m_dispatched (s_mon s') = m_dispatched (s_mon s)
     \<and> m_bus (s_mon s') = m_bus (s_mon s) @ xs
     \<and> length (filter is_awaiting xs) = (if \<exists>c \<in> set ops. is_pass c then 1 else 0)"
  using gated_history [OF assms(1,2,5)] assms(3,4) unfolding idle_def Let_def by auto

theorem scheduler_gate_witness:
  "m_cycles (s_mon (fold sys_step (replicate 3 (Sys_pass (demo_pass True))) \<lparr>s_mon = demo_mon, s_awaiting = False, s_stopped = False\<rparr>))
   = m_cycles demo_mon"
proof -
  let ?s = "\<lparr>s_mon = demo_mon, s_awaiting = False, s_stopped = False\<rparr>"
  let ?p = "demo_pass True"
  have p: "scheduler_pass ?p aw st = (if aw then st else m_tick (pub (SseStatus (m_now st) St_awaiting_backfill
      (set_interval_minutes (pe_settings ?p)) dash []) st), True, False)" if "\<not> bf_is_done st" for aw st
    using pass_blocked [of ?p st aw] that by (simp add: demo_pass_def)
  have "\<not> bf_is_done (s_mon (fold sys_step (replicate 3 (Sys_pass ?p)) ?s))"
    using demo_bf_coherent(4) by (simp add: numeral_3_eq_3 p bf_is_done_def)
  from scheduler_gate [OF _ _ _ _ this] demo_bf_coherent(3) show ?thesis by (simp add: Let_def demo_pass_def)
qed

text \<open>
  C10. The hand-over from the first backfill to the cycles: when the worker's walk does not
  raise and nothing cancels it, the worker leaves the done flag, frees the flight and its
  region, and wakes the scheduler; the next pass over a configured region then runs its cycle.
\<close>

theorem backfill_hands_over:
  assumes "bf_worker st = Some regions" "lr_inv (m_db st)" "\<not> bf_is_done st" "\<not> bf_stop st"
    and "\<not> be_cancelled env" "\<not> be_stop_start env"
    and "\<And>e. snd (iterate (be_fetch env (fetch_region_of env regions)) (Some BACKFILL_MAX_PAGES) 1 True True) \<noteq> Raised e"
    and "m_in_backfill st \<subseteq> {fetch_region_of env regions}"
    and "set_regions (pe_settings penv) = region # others" "\<not> pe_stop penv"
  shows "\<exists>st2. wait_for_next_pass False (bf_worker_step env st) = (st2, True)
     \<and> bf_is_done st2 \<and> \<not> bf_running st2 \<and> m_in_backfill st2 = {}
     \<and> scheduler_pass penv awaiting st2 = (fst (run_cycle (pe_cycle penv) region st2), False, False)"
proof -
  let ?st = "st\<lparr>bf_worker := None\<rparr>" and ?st1 = "bf_worker_step env st"
  have inv: "lr_inv (m_db ?st)" and stop: "\<not> bf_stop ?st" using assms(2,4) by simp_all
  have flag: "bf_is_done (bf_run env regions ?st)"
    by (rule bf_run_completes [OF assms(7,5) stop inv])
  have nd: "\<not> bf_is_done ?st" using assms(3) by (simp add: bf_is_done_def)
  from bf_run_spec [OF inv, of env regions] nd flag have "m_trigger (bf_run env regions ?st)"
    "m_in_backfill (bf_run env regions ?st) = m_in_backfill st - {fetch_region_of env regions}"
    using assms(6) by auto
  with assms(1,8) flag have st1: "m_trigger ?st1" "m_in_backfill ?st1 = {}" "bf_is_done ?st1" "\<not> bf_running ?st1"
    by (auto simp: bf_worker_step_def Let_def bf_is_done_def)
  let ?st2 = "?st1\<lparr>m_trigger := False\<rparr>"
  have "bf_is_done ?st2" using st1(3) by (simp add: bf_is_done_def)
  with pass_open [of penv ?st2 awaiting] st1 assms(9,10) show ?thesis
    by (intro exI [of _ ?st2]) (simp add: wait_for_next_pass_def)
qed

theorem backfill_hands_over_witness:
  "\<exists>st2. wait_for_next_pass False (bf_worker_step demo_bf (demo_mon\<lparr>bf_running := True, bf_worker := Some None\<rparr>)) =
     (st2, True) \<and> bf_is_done st2"
proof -
  let ?st = "demo_mon\<lparr>bf_running := True, bf_worker := Some None\<rparr>"
  let ?p = "demo_pass True"
  have w: "\<And>e. snd (iterate (be_fetch demo_bf (fetch_region_of demo_bf None)) (Some BACKFILL_MAX_PAGES) 1 True True) \<noteq> Raised e"
    by (simp add: demo_bf_def demo_walk BACKFILL_MAX_PAGES_def)
  have i: "lr_inv (m_db ?st)" "\<not> bf_is_done ?st" using demo_bf_coherent(3,4) by (simp_all add: bf_is_done_def)
  show ?thesis
    using backfill_hands_over [OF _ i _ _ _ w, of ?p 25 "[]" False]
    by (auto simp: demo_mon_def demo_bf_def demo_pass_def)
qed

text \<open>
  C39. A failed detail fetch forgets what earlier ones found. Lots of a list page carry no
  coordinates; when the detail page cannot be fetched, or is fetched but its parser raises
  anything but a version mismatch, enrichment passes the lot on
  marked \<^verbatim>\<open>failed\<close>, and storing it over an enriched row clears the row's coordinates, its
  R-tree entry and the time of the detail fetch. The backfill, which never enriches, has the
  same effect on every lot it meets again.
\<close>

theorem failed_enrichment_erases_coordinates:
  assumes "lr_inv db" "lr_row db (row_id row) = Some r" "row_to_lot r = Inr old"
    and "l = parsed_row_to_lot row now subject"
    and "en_get env (lot_detail_url (en_base env) (row_id row)) = Inl e
      \<or> (\<exists>response. en_get env (lot_detail_url (en_base env) (row_id row)) = Inr response
            \<and> en_parse env (resp_text response) = Inl e)" "e \<noteq> ParserVersionMismatch"
  shows "enrich_one env l = Inr (enrich_failed l)
     \<and> (\<forall>stored \<in> {l, enrich_failed l}. \<exists>r'.
          lr_row (fst (lr_upsert DEFAULT_TRACKED_FIELDS b t stored db)) (row_id row) = Some r'
          \<and> db_lat r' = None \<and> db_lon r' = None \<and> db_detail_fetched_at r' = None
          \<and> ld_rtree (fst (lr_upsert DEFAULT_TRACKED_FIELDS b t stored db)) (row_id row) = None
          \<and> db_first_seen r' = lot_first_seen old)"
proof
  have l: "lot_id l = row_id row" "lot_lat l = None" "lot_lon l = None" "lot_detail_fetched_at l = None"
    by (simp_all add: assms(4) parsed_row_to_lot_def)
  show "enrich_one env l = Inr (enrich_failed l)" using assms(5,6) l(1) by (auto simp: enrich_one_def)
  show "\<forall>stored \<in> {l, enrich_failed l}. \<exists>r'.
          lr_row (fst (lr_upsert DEFAULT_TRACKED_FIELDS b t stored db)) (row_id row) = Some r'
          \<and> db_lat r' = None \<and> db_lon r' = None \<and> db_detail_fetched_at r' = None
          \<and> ld_rtree (fst (lr_upsert DEFAULT_TRACKED_FIELDS b t stored db)) (row_id row) = None
          \<and> db_first_seen r' = lot_first_seen old"
  proof
    fix stored assume "stored \<in> {l, enrich_failed l}"
    then have s: "lot_id stored = row_id row" "lot_lat stored = None" "lot_lon stored = None"
      "lot_detail_fetched_at stored = None" using l by (auto simp: enrich_failed_def)
    note u = lr_upsert_known [OF assms(1) _ assms(3) default_tracked_ok, of stored b t]
    show "\<exists>r'. lr_row (fst (lr_upsert DEFAULT_TRACKED_FIELDS b t stored db)) (row_id row) = Some r'
          \<and> db_lat r' = None \<and> db_lon r' = None \<and> db_detail_fetched_at r' = None
          \<and> ld_rtree (fst (lr_upsert DEFAULT_TRACKED_FIELDS b t stored db)) (row_id row) = None
          \<and> db_first_seen r' = lot_first_seen old"
      using u assms(2) lr_row_key [OF assms(2)] s
      by (simp add: lr_row_upsert_known updated_row_def point_def)
  qed
qed

definition located_lot :: lot where
  "located_lot = merge_detail \<lparr>det_lat = Some 55, det_lon = Some 37, det_has_boundaries = Some True,
     det_date_update = None, det_date_registry = None, det_raw_json = [], det_parser_version = 1\<rparr> 3 (sample_lot 7)"

theorem failed_enrichment_erases_coordinates_witness:
  "ld_rtree (fst (lr_upsert DEFAULT_TRACKED_FIELDS False 0 located_lot empty_db)) 7 = Some (55, 37)
   \<and> ld_rtree (fst (lr_upsert DEFAULT_TRACKED_FIELDS False 9 (parsed_row_to_lot (sample_row 7) 9 None)
       (fst (lr_upsert DEFAULT_TRACKED_FIELDS False 0 located_lot empty_db)))) 7 = None"
proof -
  let ?db = "fst (lr_upsert DEFAULT_TRACKED_FIELDS False 0 located_lot empty_db)"
  have i: "lot_id located_lot = 7" "point (lot_lat located_lot) (lot_lon located_lot) = Some (55, 37)"
    by (simp_all add: located_lot_def merge_detail_def point_def)
  have un: "lr_row empty_db (lot_id located_lot) = None" by (simp add: lr_row_def empty_db_def)
  note u = lr_upsert_fresh [OF lr_inv_empty un default_tracked_ok, of False 0]
  have row: "lr_row ?db (row_id (sample_row 7)) = Some (inserted_row located_lot False)"
    unfolding u using lr_row_upsert_fresh [OF un] i(1) by (simp add: sample_row_def)
  have inv: "lr_inv ?db" by (rule lr_upsert_inv [OF lr_inv_empty])
  have rid: "row_id (sample_row 7) = 7" by (simp add: sample_row_def)
  have "ld_rtree ?db 7 = Some (55, 37)" unfolding u using i by simp
  moreover have "ld_rtree (fst (lr_upsert DEFAULT_TRACKED_FIELDS False 9 (parsed_row_to_lot (sample_row 7) 9 None) ?db)) 7 = None"
    using failed_enrichment_erases_coordinates [OF inv row row_to_lot_inserted refl,
      of "ce_enrich demo_cyc" RequestException 9 None False 9] rid
    by (auto simp: demo_cyc_def)
  ultimately show ?thesis by simp
qed

end
