(* ===== verification/Iso_Text.thy ===== *)
theory Iso_Text
  imports Prelude
begin

text \<open>
  The text a timestamp has in the database: \<^verbatim>\<open>datetime.isoformat()\<close> of a UTC time, in the
  proleptic Gregorian calendar, with the fraction only when it is not zero; and the order in
  which SQLite compares two texts, byte by byte. The epoch of \<open>time\<close> is taken to be
  2000-01-01T00:00:00, the first day of a 400-year cycle.
\<close>

subsection \<open>Byte order of texts\<close>

fun text_less :: "string \<Rightarrow> string \<Rightarrow> bool" where
  "text_less _ [] = False"
| "text_less [] (_ # _) = True"
| "text_less (x # xs) (y # ys) \<longleftrightarrow>
     (of_char x :: nat) < of_char y \<or> (x = y \<and> text_less xs ys)"

lemma text_less_append:
  "length a = length b \<Longrightarrow> text_less (a @ x) (b @ y) \<longleftrightarrow> text_less a b \<or> (a = b \<and> text_less x y)"
  by (induction a b rule: list_induct2) auto

lemma text_less_irrefl [simp]: "\<not> text_less x x"
  by (induction x) auto

lemma text_less_total: "text_less x y \<or> x = y \<or> text_less y x"
proof (induction x y rule: text_less.induct)
  case (1 x)
  then show ?case by (cases x) auto
next
  case (3 x xs y ys)
  then show ?case by (metis linorder_neqE_nat of_char_eq_iff text_less.simps(3))
qed simp

subsection \<open>Fixed-width decimal numbers\<close>

fun pad :: "nat \<Rightarrow> nat \<Rightarrow> string" where
  "pad 0 n = []"
| "pad (Suc w) n = pad w (n div 10) @ [digit_char (n mod 10)]"

lemma length_pad [simp]: "length (pad w n) = w"
  by (induction w arbitrary: n) auto

lemma digit_char_less: "d < 10 \<Longrightarrow> e < 10 \<Longrightarrow> (of_char (digit_char d) :: nat) < of_char (digit_char e) \<longleftrightarrow> d < e"
  by (simp add: of_char_digit_char)

lemma digit_char_inject: "d < 10 \<Longrightarrow> e < 10 \<Longrightarrow> digit_char d = digit_char e \<longleftrightarrow> d = e"
  by (metis digit_char_simps(2))

lemma pad_inject: "m < 10 ^ w \<Longrightarrow> n < 10 ^ w \<Longrightarrow> pad w m = pad w n \<longleftrightarrow> m = n"
proof (induction w arbitrary: m n)
  case (Suc w)
  have "m div 10 < 10 ^ w" "n div 10 < 10 ^ w" using Suc.prems by auto
  with Suc.IH [of "m div 10" "n div 10"] show ?case
    by (auto simp: digit_char_inject) (metis div_mult_mod_eq)
qed simp

lemma pad_less: "m < 10 ^ w \<Longrightarrow> n < 10 ^ w \<Longrightarrow> text_less (pad w m) (pad w n) \<longleftrightarrow> m < n"
proof (induction w arbitrary: m n)
  case (Suc w)
  have b: "m div 10 < 10 ^ w" "n div 10 < 10 ^ w" using Suc.prems by auto
  have "m = 10 * (m div 10) + m mod 10" "n = 10 * (n div 10) + n mod 10" "m mod 10 < 10" "n mod 10 < 10" by simp_all
  then have "m < n \<longleftrightarrow> m div 10 < n div 10 \<or> (m div 10 = n div 10 \<and> m mod 10 < n mod 10)" by linarith
  with Suc.IH [OF b] pad_inject [OF b] show ?case
    by (simp add: text_less_append digit_char_less)
qed simp

subsection \<open>The calendar\<close>

definition is_leap :: "nat \<Rightarrow> bool" where
  "is_leap y \<longleftrightarrow> y mod 4 = 0 \<and> (y mod 100 \<noteq> 0 \<or> y mod 400 = 0)"

definition year_days :: "nat \<Rightarrow> nat" where
  "year_days y = (if is_leap y then 366 else 365)"

definition month_lengths :: "nat \<Rightarrow> nat list" where
  "month_lengths y = [31, if is_leap y then 29 else 28, 31, 30, 31, 30, 31, 31, 30, 31, 30, 31]"

text \<open>The year and the day within it, counting from the start of year \<open>y\<close>.\<close>

lemma year_days_pos [simp]: "0 < year_days y"
  by (simp add: year_days_def)

function year_of :: "nat \<Rightarrow> nat \<Rightarrow> nat \<times> nat" where
  "year_of y d = (if d < year_days y then (y, d) else year_of (Suc y) (d - year_days y))"
  by pat_completeness auto
termination by (relation "measure snd") (auto simp: year_days_def split: if_splits)

declare year_of.simps [simp del]

fun month_of :: "nat list \<Rightarrow> nat \<Rightarrow> nat \<Rightarrow> nat \<times> nat" where
  "month_of [] m d = (m, d)"
| "month_of (l # ls) m d = (if d < l then (m, d) else month_of ls (Suc m) (d - l))"

text \<open>Year, month from 1 and day from 1 of a day number; years before 1 or after 9999 do not exist.\<close>

definition civil :: "int \<Rightarrow> int \<times> nat \<times> nat" where
  "civil day =
     (let (yy, doy) = year_of 0 (nat (day mod 146097));
          (m, d) = month_of (month_lengths yy) 1 doy
      in (2000 + 400 * (day div 146097) + int yy, m, Suc d))"

definition us_per_sec :: int where "us_per_sec = 1000000"

definition iso_date :: "int \<Rightarrow> string" where
  "iso_date day = (let (y, m, d) = civil day in pad 4 (nat y) @ ''-'' @ pad 2 m @ ''-'' @ pad 2 d)"

definition iso_clock :: "int \<Rightarrow> string" where
  "iso_clock us =
     (let s = nat (us div us_per_sec); frac = nat (us mod us_per_sec)
      in (pad 2 (s div 3600) @ '':'' @ pad 2 (s div 60 mod 60) @ '':'' @ pad 2 (s mod 60))
         @ (if frac = 0 then [] else ''.'' @ pad 6 frac) @ ''+00:00'')"

definition isoformat :: "time \<Rightarrow> string" where
  "isoformat t = iso_date (t div us_per_day) @ ''T'' @ iso_clock (t mod us_per_day)"

definition in_calendar :: "time \<Rightarrow> bool" where
  "in_calendar t \<longleftrightarrow> 1 \<le> fst (civil (date_of t)) \<and> fst (civil (date_of t)) \<le> 9999"


subsection \<open>The calendar is ordered\<close>

text \<open>Lexicographic order of a pair and of the three parts of a date.\<close>

fun pair_less :: "nat \<times> nat \<Rightarrow> nat \<times> nat \<Rightarrow> bool" where
  "pair_less (a, b) (c, d) \<longleftrightarrow> a < c \<or> (a = c \<and> b < d)"

lemma year_of_bounds: "year_of y d = (y', d') \<Longrightarrow> y \<le> y' \<and> d' < year_days y' \<and> d = (\<Sum>i = y..<y'. year_days i) + d'"
proof (induction y d arbitrary: y' d' rule: year_of.induct)
  case (1 y d)
  show ?case
  proof (cases "d < year_days y")
    case True
    with 1(2) show ?thesis by (subst (asm) year_of.simps) auto
  next
    case False
    then have "year_of (Suc y) (d - year_days y) = (y', d')" using 1(2) by (subst (asm) year_of.simps) simp
    from 1(1) [OF False this] have "Suc y \<le> y'" "d' < year_days y'"
      "d - year_days y = (\<Sum>i = Suc y..<y'. year_days i) + d'" by simp_all
    moreover from this(1) have "(\<Sum>i = y..<y'. year_days i) = year_days y + (\<Sum>i = Suc y..<y'. year_days i)"
      by (simp add: sum.atLeast_Suc_lessThan)
    ultimately show ?thesis using False by linarith
  qed
qed

lemma year_of_less: "d < e \<Longrightarrow> pair_less (year_of y d) (year_of y e)"
proof (induction y d arbitrary: e rule: year_of.induct)
  case (1 y d)
  show ?case
  proof (cases "d < year_days y")
    case True
    obtain y' e' where e: "year_of (Suc y) (e - year_days y) = (y', e')" by fastforce
    with True 1(2) year_of_bounds [OF e] show ?thesis by (auto simp: year_of.simps [of y])
  next
    case False
    with 1(1) [OF False, of "e - year_days y"] 1(2) show ?thesis by (simp add: year_of.simps [of y])
  qed
qed

lemma div_step: "(n + k) div k = (n + (k - 1)) div k + (if n mod k = 0 then 1 else 0)" if "0 < k" for n k :: nat
  using div_Suc [of "n + (k - 1)" k] mod_Suc [of "n + (k - 1)" k] that by auto

lemma days_before_year:
  "(\<Sum>i = 0..<n. year_days i) + (n + 99) div 100 = 365 * n + (n + 3) div 4 + (n + 399) div 400"
proof (induction n)
  case (Suc n)
  have "(n + 4) div 4 = (n + 3) div 4 + (if n mod 4 = 0 then 1 else 0)"
    "(n + 100) div 100 = (n + 99) div 100 + (if n mod 100 = 0 then 1 else 0)"
    "(n + 400) div 400 = (n + 399) div 400 + (if n mod 400 = 0 then 1 else 0)"
    using div_step [of 4 n] div_step [of 100 n] div_step [of 400 n] by simp_all
  moreover have "year_days n + (if n mod 100 = 0 then 1 else 0) =
      365 + (if n mod 4 = 0 then 1 else 0) + (if n mod 400 = 0 then 1 else 0)"
  proof -
    have "n mod 100 = 0 \<Longrightarrow> n mod 4 = 0" "n mod 400 = 0 \<Longrightarrow> n mod 100 = 0"
      using mod_mod_cancel [of 4 100 n] mod_mod_cancel [of 100 400 n] by simp_all
    then show ?thesis unfolding year_days_def is_leap_def
      by (cases "n mod 4 = 0"; cases "n mod 100 = 0"; cases "n mod 400 = 0") simp_all
  qed
  moreover have "(\<Sum>i = 0..<Suc n. year_days i) = (\<Sum>i = 0..<n. year_days i) + year_days n" by simp
  moreover have "Suc n + 99 = n + 100" "Suc n + 3 = n + 4" "Suc n + 399 = n + 400" "365 * Suc n = 365 * n + 365" by simp_all
  ultimately show ?case using Suc by (simp only:)
qed simp

lemma cycle_length: "(\<Sum>i = 0..<400. year_days i) = 146097"
proof -
  have "(400 + 99) div 100 = (4::nat)" "(400 + 3) div 4 = (100::nat)" "(400 + 399) div 400 = (1::nat)" by simp_all
  then show ?thesis using days_before_year [of 400] by linarith
qed

lemma year_of_cycle: "d < 146097 \<Longrightarrow> fst (year_of 0 d) < 400"
proof (rule ccontr)
  assume d: "d < 146097" and n: "\<not> fst (year_of 0 d) < 400"
  obtain y' d' where e: "year_of 0 d = (y', d')" by fastforce
  with n have "400 \<le> y'" by simp
  then have "(\<Sum>i = 0..<400. year_days i) \<le> (\<Sum>i = 0..<y'. year_days i)" by (intro sum_mono2) auto
  with year_of_bounds [OF e] d cycle_length show False by simp
qed

lemma month_of_bounds:
  "d < sum_list ls \<Longrightarrow> month_of ls m d = (m', d') \<Longrightarrow> m \<le> m' \<and> m' < m + length ls \<and> d' < ls ! (m' - m)"
proof (induction ls m d rule: month_of.induct)
  case (2 l ls m d)
  show ?case
  proof (cases "d < l")
    case False
    with 2 have "Suc m \<le> m' \<and> m' < Suc m + length ls \<and> d' < ls ! (m' - Suc m)" by simp
    then show ?thesis by (auto simp: nth_Cons' Suc_diff_Suc)
  qed (use 2 in auto)
qed simp

lemma month_of_less: "d < e \<Longrightarrow> e < sum_list ls \<Longrightarrow> pair_less (month_of ls m d) (month_of ls m e)"
proof (induction ls arbitrary: m d e)
  case (Cons l ls)
  show ?case
  proof (cases "d < l")
    case True
    obtain m' e' where e: "month_of ls (Suc m) (e - l) = (m', e')" by fastforce
    show ?thesis
    proof (cases "e < l")
      case False
      then have "e - l < sum_list ls" using Cons.prems(2) by simp
      from month_of_bounds [OF this e] True False e show ?thesis by simp
    qed (use True Cons.prems in simp)
  next
    case False
    with Cons.IH [of "d - l" "e - l" "Suc m"] Cons.prems show ?thesis by simp
  qed
qed simp

lemma month_lengths_sum: "sum_list (month_lengths y) = year_days y"
  by (simp add: month_lengths_def year_days_def)

fun civil_less :: "int \<times> nat \<times> nat \<Rightarrow> int \<times> nat \<times> nat \<Rightarrow> bool" where
  "civil_less (y, p) (z, q) \<longleftrightarrow> y < z \<or> (y = z \<and> pair_less p q)"

lemma civil_bounds:
  assumes "civil n = (y, m, d)"
  shows "1 \<le> m \<and> m \<le> 12 \<and> 1 \<le> d \<and> d \<le> 31"
proof -
  obtain yy doy where y: "year_of 0 (nat (n mod 146097)) = (yy, doy)" by fastforce
  obtain m' d' where md: "month_of (month_lengths yy) 1 doy = (m', d')" by fastforce
  have "doy < sum_list (month_lengths yy)" using year_of_bounds [OF y] by (simp add: month_lengths_sum)
  from month_of_bounds [OF this md] have b: "1 \<le> m' \<and> m' < 13 \<and> d' < month_lengths yy ! (m' - 1)"
    by (simp add: month_lengths_def)
  have "month_lengths yy ! k \<le> 31" if "k < 12" for k
  proof -
    have "\<forall>l \<in> set (month_lengths yy). l \<le> 31" by (simp add: month_lengths_def)
    moreover have "month_lengths yy ! k \<in> set (month_lengths yy)" using that by (intro nth_mem) (simp add: month_lengths_def)
    ultimately show ?thesis by blast
  qed
  moreover have "m' - 1 < 12" using b by arith
  ultimately have "month_lengths yy ! (m' - 1) \<le> 31" by blast
  with b have "d' < 31" by (meson less_le_trans)
  with assms y md b show ?thesis by (auto simp: civil_def)
qed

lemma civil_less:
  assumes "i < j"
  shows "civil_less (civil i) (civil j)"
proof -
  obtain yi di where yi: "year_of 0 (nat (i mod 146097)) = (yi, di)" by fastforce
  obtain yj dj where yj: "year_of 0 (nat (j mod 146097)) = (yj, dj)" by fastforce
  have c: "yi < 400" "yj < 400"
    using year_of_cycle [of "nat (i mod 146097)"] year_of_cycle [of "nat (j mod 146097)"] yi yj by simp_all
  have bi: "di < sum_list (month_lengths yi)" and bj: "dj < sum_list (month_lengths yj)"
    using year_of_bounds [OF yi] year_of_bounds [OF yj] by (simp_all add: month_lengths_sum)
  show ?thesis
  proof (cases "i div 146097 = j div 146097")
    case False
    with assms have "i div 146097 + 1 \<le> j div 146097" using zdiv_mono1 [of i j 146097] by simp
    with c yi yj show ?thesis by (simp add: civil_def case_prod_beta)
  next
    case True
    then have "i mod 146097 < j mod 146097" using assms by (metis add_less_cancel_left mult_div_mod_eq)
    then have "nat (i mod 146097) < nat (j mod 146097)" by simp
    from year_of_less [OF this, of 0] yi yj have "yi < yj \<or> (yi = yj \<and> di < dj)" by simp
    then show ?thesis
    proof
      assume "yi = yj \<and> di < dj"
      moreover with month_of_less [of di dj "month_lengths yi" 1] bj
      have "pair_less (month_of (month_lengths yi) 1 di) (month_of (month_lengths yj) 1 dj)" by simp
      ultimately show ?thesis using True yi yj
        by (cases "month_of (month_lengths yi) 1 di"; cases "month_of (month_lengths yj) 1 dj")
          (auto simp: civil_def)
    qed (use True yi yj in \<open>simp add: civil_def case_prod_beta\<close>)
  qed
qed

subsection \<open>The order of the texts\<close>

lemma isoformat_date_less:
  assumes "in_calendar s" "in_calendar t" "date_of s < date_of t"
  shows "text_less (isoformat s) (isoformat t)"
proof -
  obtain y m d where a: "civil (date_of s) = (y, m, d)" by (cases "civil (date_of s)") auto
  obtain y' m' d' where b: "civil (date_of t) = (y', m', d')" by (cases "civil (date_of t)") auto
  have "y < y' \<or> (y = y' \<and> (m < m' \<or> (m = m' \<and> d < d')))"
    using civil_less [OF assms(3)] a b by simp
  moreover have "1 \<le> y" "y \<le> 9999" "1 \<le> y'" "y' \<le> 9999" using assms(1,2) a b by (simp_all add: in_calendar_def)
  moreover from this have "nat y < 10 ^ 4" "nat y' < 10 ^ 4" by simp_all
  moreover have "m < 10 ^ 2" "d < 10 ^ 2" "m' < 10 ^ 2" "d' < 10 ^ 2"
    using civil_bounds [OF a] civil_bounds [OF b] by simp_all
  ultimately show ?thesis using a b
    by (auto simp: isoformat_def iso_date_def date_of_def text_less_append pad_less simp del: pad.simps power.simps)
qed

lemma sexagesimal: "n = 3600 * (n div 3600) + 60 * (n div 60 mod 60) + n mod 60" for n :: nat
proof -
  have "n div 3600 = n div 60 div 60" by (simp add: div_mult2_eq)
  then have "n div 60 = 60 * (n div 3600) + n div 60 mod 60" by simp
  moreover have "n = 60 * (n div 60) + n mod 60" by simp
  ultimately show ?thesis by linarith
qed

lemma seconds_less:
  "m < n \<longleftrightarrow> m div 3600 < n div 3600 \<or> (m div 3600 = n div 3600
     \<and> (m div 60 mod 60 < n div 60 mod 60 \<or> (m div 60 mod 60 = n div 60 mod 60 \<and> m mod 60 < n mod 60)))"
  for m n :: nat
proof -
  have parts: "3600 * a + 60 * b + c < 3600 * a' + 60 * b' + c' \<longleftrightarrow> a < a' \<or> (a = a' \<and> (b < b' \<or> (b = b' \<and> c < c')))"
    if "b < 60" "c < 60" "b' < 60" "c' < 60" for a b c a' b' c' :: nat
    using that by linarith
  have "m div 60 mod 60 < 60" "m mod 60 < 60" "n div 60 mod 60 < 60" "n mod 60 < 60" by simp_all
  from parts [OF this, of "m div 3600" "n div 3600"] show ?thesis
    using sexagesimal [of m] sexagesimal [of n] by simp
qed

lemma fields_less:
  assumes "a < 10 ^ 2" "b < 10 ^ 2" "c < 10 ^ 2" "a' < 10 ^ 2" "b' < 10 ^ 2" "c' < 10 ^ 2"
  shows "text_less (pad 2 a @ '':'' @ pad 2 b @ '':'' @ pad 2 c) (pad 2 a' @ '':'' @ pad 2 b' @ '':'' @ pad 2 c')
     \<longleftrightarrow> a < a' \<or> (a = a' \<and> (b < b' \<or> (b = b' \<and> c < c')))"
  by (simp add: text_less_append pad_less [OF assms(1,4)] pad_less [OF assms(2,5)] pad_less [OF assms(3,6)]
      pad_inject [OF assms(1,4)] pad_inject [OF assms(2,5)] del: pad.simps power.simps)

lemma isoformat_time_less:
  assumes "date_of s = date_of t" "s < t"
  shows "text_less (isoformat s) (isoformat t)"
proof -
  let ?u = "s mod us_per_day" and ?v = "t mod us_per_day"
  let ?m = "nat (?u div us_per_sec)" and ?n = "nat (?v div us_per_sec)"
  let ?f = "nat (?u mod us_per_sec)" and ?g = "nat (?v mod us_per_sec)"
  have ps: "0 < us_per_sec" by (simp add: us_per_sec_def)
  have uv: "?u < ?v" using assms unfolding date_of_def by (metis add_less_cancel_left mult_div_mod_eq)
  have ub: "0 \<le> ?u" "?u < us_per_day" "0 \<le> ?v" "?v < us_per_day" by simp_all
  have day: "us_per_day = 86400 * us_per_sec" by (simp add: us_per_day_def us_per_minute_def us_per_sec_def)
  have mb: "?m < 86400" "?n < 86400"
    using ub by (simp_all add: us_per_day_def us_per_minute_def us_per_sec_def nat_less_iff pos_imp_zdiv_nonneg_iff
        int_div_less_self)
  have fb: "?f < 10 ^ 6" "?g < 10 ^ 6" by (simp_all add: us_per_sec_def nat_less_iff)
  have split: "?m < ?n \<or> (?m = ?n \<and> ?f < ?g)"
  proof -
    have "?u div us_per_sec \<le> ?v div us_per_sec" using uv ps by (simp add: zdiv_mono1)
    moreover have "?u mod us_per_sec < ?v mod us_per_sec" if "?u div us_per_sec = ?v div us_per_sec"
      using uv that by (metis add_less_cancel_left mult_div_mod_eq)
    moreover have "0 \<le> ?u div us_per_sec" "0 \<le> ?v div us_per_sec" "0 \<le> ?u mod us_per_sec" "0 \<le> ?v mod us_per_sec"
      using ub ps by (simp_all add: pos_imp_zdiv_nonneg_iff)
    ultimately show ?thesis by linarith
  qed
  let ?h = "\<lambda>n. pad 2 (n div 3600) @ '':'' @ pad 2 (n div 60 mod 60) @ '':'' @ pad 2 (n mod 60)"
  let ?w = "\<lambda>f. (if f = 0 then [] else ''.'' @ pad 6 f) @ ''+00:00''"
  have len: "length (?h ?m) = length (?h ?n)" by simp
  have hms: "text_less (?h ?m) (?h ?n) \<longleftrightarrow> ?m < ?n"
  proof -
    have "?m div 3600 < 10 ^ 2" "?n div 3600 < 10 ^ 2" "?m div 60 mod 60 < 10 ^ 2" "?n div 60 mod 60 < 10 ^ 2"
      "?m mod 60 < 10 ^ 2" "?n mod 60 < 10 ^ 2" using mb by simp_all
    from fields_less [OF this(1,3,5,2,4,6)] show ?thesis unfolding seconds_less [of ?m ?n] .
  qed
  have "text_less (?w ?f) (?w ?g)" if "?f < ?g"
    using that fb pad_less [of ?f 6 ?g] by (auto simp: text_less_append simp del: pad.simps)
  moreover have "?m = ?n \<Longrightarrow> ?h ?m = ?h ?n" by (rule arg_cong)
  ultimately have "text_less (?h ?m @ ?w ?f) (?h ?n @ ?w ?g)"
    unfolding text_less_append [OF len] using split hms by blast
  then have "text_less (iso_clock ?u) (iso_clock ?v)" by (simp only: iso_clock_def Let_def)
  then show ?thesis using assms(1) by (simp add: isoformat_def date_of_def text_less_append)
qed

lemma isoformat_less:
  assumes "in_calendar s" "in_calendar t" "s < t"
  shows "text_less (isoformat s) (isoformat t)"
  using isoformat_date_less [OF assms(1,2)] isoformat_time_less [OF _ assms(3)] date_of_mono [of s t] assms(3)
  by (cases "date_of s = date_of t") auto

lemma text_less_asym: "text_less x y \<Longrightarrow> \<not> text_less y x"
  by (induction x y rule: text_less.induct) auto

lemma isoformat_less_iff:
  assumes "in_calendar s" "in_calendar t"
  shows "text_less (isoformat s) (isoformat t) \<longleftrightarrow> s < t"
proof (cases s t rule: linorder_cases)
  case less
  then show ?thesis using isoformat_less [OF assms] by simp
next
  case greater
  then have "text_less (isoformat t) (isoformat s)" by (rule isoformat_less [OF assms(2,1)])
  with greater show ?thesis using text_less_asym by auto
qed simp

lemma isoformat_inject:
  assumes "in_calendar s" "in_calendar t"
  shows "isoformat s = isoformat t \<longleftrightarrow> s = t"
proof
  assume "isoformat s = isoformat t"
  then have "\<not> text_less (isoformat s) (isoformat t)" "\<not> text_less (isoformat t) (isoformat s)" by simp_all
  then show "s = t" using isoformat_less_iff [OF assms] isoformat_less_iff [OF assms(2,1)] by simp
qed simp

lemma in_calendar_epoch: "in_calendar 0" "in_calendar us_per_day"
proof -
  have y: "year_of 0 0 = (0, 0)" "year_of 0 1 = (0, 1)"
    by (subst year_of.simps, simp add: year_days_def is_leap_def)+
  then have "year_of 0 (Suc 0) = (0, 1)" by simp
  show "in_calendar 0" "in_calendar us_per_day"
    using us_per_day_pos by (simp_all add: in_calendar_def date_of_def civil_def y \<open>year_of 0 (Suc 0) = (0, 1)\<close> case_prod_beta del: us_per_day_pos)
qed
subsection \<open>Reading the calendar back\<close>

definition day_of_civil :: "nat \<Rightarrow> nat \<Rightarrow> nat \<Rightarrow> int option" where
  "day_of_civil y m d =
     (let yy = y mod 400
      in if 1 \<le> y \<and> 1 \<le> m \<and> m \<le> 12 \<and> 1 \<le> d \<and> d \<le> month_lengths yy ! (m - 1)
         then Some (146097 * ((int y - 2000) div 400)
                    + int (sum_list (map year_days [0..<yy]) + sum_list (take (m - 1) (month_lengths yy)) + (d - 1)))
         else None)"

lemma month_of_sum:
  "d < sum_list ls \<Longrightarrow> month_of ls m d = (m', d') \<Longrightarrow> d = sum_list (take (m' - m) ls) + d'"
proof (induction ls m d rule: month_of.induct)
  case (2 l ls m d)
  show ?case
  proof (cases "d < l")
    case False
    then have IH: "d - l = sum_list (take (m' - Suc m) ls) + d'" using 2 by simp
    have "Suc m \<le> m'" using month_of_bounds [of "d - l" ls "Suc m" m' d'] 2(2,3) False by simp
    then have "take (m' - m) (l # ls) = l # take (m' - Suc m) ls" by (simp add: take_Cons' Suc_diff_Suc)
    with IH False show ?thesis by simp
  qed (use 2 in simp)
qed simp

text \<open>The calendar read back.\<close>

lemma day_of_civil_civil:
  assumes "civil n = (y, m, d)" "1 \<le> y"
  shows "day_of_civil (nat y) m d = Some n"
proof -
  obtain yy doy where yd: "year_of 0 (nat (n mod 146097)) = (yy, doy)" by fastforce
  obtain d0 where md: "month_of (month_lengths yy) 1 doy = (m, d0)" and d: "d = Suc d0"
    and y: "y = 2000 + 400 * (n div 146097) + int yy"
    using assms(1) yd by (auto simp: civil_def split: prod.splits)
  have yb: "doy < sum_list (month_lengths yy)" "nat (n mod 146097) = (\<Sum>i = 0..<yy. year_days i) + doy"
    using year_of_bounds [OF yd] by (simp_all add: month_lengths_sum)
  have c: "yy < 400" using year_of_cycle [of "nat (n mod 146097)"] yd by simp
  have mb: "1 \<le> m" "m \<le> 12" "d0 < month_lengths yy ! (m - 1)"
    using month_of_bounds [OF yb(1) md] by (auto simp: month_lengths_def)
  have "int (nat y mod 400) = y mod 400" using assms(2) by (simp add: zmod_int)
  also have "y mod 400 = int yy" unfolding y using c by (simp add: mod_add_eq [symmetric] mod_mult_self2)
  finally have ym: "nat y mod 400 = yy" by simp
  have yq: "(int (nat y) - 2000) div 400 = n div 146097" using assms(2) c by (simp add: y)
  have "n = 146097 * (n div 146097) + int (nat (n mod 146097))" by simp
  also have "nat (n mod 146097) = sum_list (map year_days [0..<yy]) + sum_list (take (m - 1) (month_lengths yy)) + d0"
    using yb(2) month_of_sum [OF yb(1) md] by (simp add: interv_sum_list_conv_sum_set_nat atLeast0LessThan)
  finally have "n = 146097 * (n div 146097)
      + int (sum_list (map year_days [0..<yy]) + sum_list (take (m - 1) (month_lengths yy)) + d0)" .
  with ym yq mb d assms(2) show ?thesis by (simp add: day_of_civil_def Let_def)
qed

end
