(* ===== verification/Cursor.thy ===== *)
theory Cursor
  imports Iso_Text
begin

text \<open>
  The page cursor of \<^verbatim>\<open>services/lot_query.py\<close>: the date text and the id of the last lot of a
  page, in URL-safe base64. The library's decoder is modelled as it behaves: it skips
  characters outside the alphabet, accepts both alphabets, and stops at a complete padding.
  Bytes are numbers below 256; the decoded payload is checked to be UTF-8 and kept as bytes.
\<close>

subsection \<open>Base64\<close>

definition b64_char :: "nat \<Rightarrow> char" where
  "b64_char n =
     (if n < 26 then char_of (65 + n) else if n < 52 then char_of (71 + n)
      else if n < 62 then char_of (n - 4) else if n = 62 then CHR ''-'' else CHR ''_'')"

definition b64_val :: "char \<Rightarrow> nat option" where
  "b64_val c =
     (let n = (of_char c :: nat)
      in if 65 \<le> n \<and> n \<le> 90 then Some (n - 65)
         else if 97 \<le> n \<and> n \<le> 122 then Some (n - 71)
         else if 48 \<le> n \<and> n \<le> 57 then Some (n + 4)
         else if n = 45 \<or> n = 43 then Some 62
         else if n = 95 \<or> n = 47 then Some 63
         else None)"

fun b64encode :: "nat list \<Rightarrow> string" where
  "b64encode [] = []"
| "b64encode [a] = [b64_char (a div 4), b64_char (a mod 4 * 16), CHR ''='', CHR ''='']"
| "b64encode [a, b] =
     [b64_char (a div 4), b64_char (a mod 4 * 16 + b div 16), b64_char (b mod 16 * 4), CHR ''='']"
| "b64encode (a # b # c # bs) =
     b64_char (a div 4) # b64_char (a mod 4 * 16 + b div 16) # b64_char (b mod 16 * 4 + c div 64)
       # b64_char (c mod 64) # b64encode bs"

definition res_cons :: "'a \<Rightarrow> 'a list res \<Rightarrow> 'a list res" where
  "res_cons x r = (case r of Inl e \<Rightarrow> Inl e | Inr xs \<Rightarrow> Inr (x # xs))"

text \<open>\<open>quad\<close> is the position in a group of four, \<open>left\<close> the bits not yet output.\<close>

fun a2b :: "nat \<Rightarrow> nat \<Rightarrow> nat \<Rightarrow> string \<Rightarrow> nat list res" where
  "a2b quad left pads [] = (if quad = 0 then Inr [] else Inl ValueError)"
| "a2b quad left pads (c # cs) =
     (if c = CHR ''=''
      then (if 2 \<le> quad \<and> 4 \<le> quad + Suc pads then Inr []
            else a2b quad left (if 2 \<le> quad then Suc pads else pads) cs)
      else case b64_val c of
             None \<Rightarrow> a2b quad left pads cs
           | Some v \<Rightarrow>
               (if quad = 0 then a2b 1 v 0 cs
                else if quad = 1 then res_cons (left * 4 + v div 16) (a2b 2 (v mod 16) 0 cs)
                else if quad = 2 then res_cons (left * 16 + v div 4) (a2b 3 (v mod 4) 0 cs)
                else res_cons (left * 64 + v) (a2b 0 0 0 cs)))"

definition b64decode :: "string \<Rightarrow> nat list res" where
  "b64decode s = a2b 0 0 0 s"

lemma of_char_b64:
  "n < 64 \<Longrightarrow> (of_char (b64_char n) :: nat) =
     (if n < 26 then 65 + n else if n < 52 then 71 + n else if n < 62 then n - 4 else if n = 62 then 45 else 95)"
  by (simp add: b64_char_def of_char_of)

lemma b64_char_val [simp]: "n < 64 \<Longrightarrow> b64_val (b64_char n) = Some n"
  using of_char_b64 [of n] by (simp add: b64_val_def Let_def) linarith

lemma b64_char_not_pad [simp]: "n < 64 \<Longrightarrow> b64_char n \<noteq> CHR ''=''"
proof
  assume "n < 64" "b64_char n = CHR ''=''"
  then show False using of_char_b64 [of n] by (auto split: if_splits)
qed

lemma a2b_char:
  "n < 64 \<Longrightarrow> a2b 0 l p (b64_char n # cs) = a2b 1 n 0 cs"
  "n < 64 \<Longrightarrow> a2b 1 l p (b64_char n # cs) = res_cons (l * 4 + n div 16) (a2b 2 (n mod 16) 0 cs)"
  "n < 64 \<Longrightarrow> a2b 2 l p (b64_char n # cs) = res_cons (l * 16 + n div 4) (a2b 3 (n mod 4) 0 cs)"
  "n < 64 \<Longrightarrow> a2b 3 l p (b64_char n # cs) = res_cons (l * 64 + n) (a2b 0 0 0 cs)"
  by simp_all

lemma res_cons_Inr [simp]: "res_cons x (Inr xs) = Inr (x # xs)"
  by (simp add: res_cons_def)

lemma base64_roundtrip: "\<forall>b \<in> set bs. b < 256 \<Longrightarrow> b64decode (b64encode bs) = Inr bs"
  unfolding b64decode_def
proof (induction bs rule: b64encode.induct)
  case (2 a)
  then have "a div 4 < 64" "a mod 4 * 16 < 64" by auto
  moreover have "a div 4 * 4 + a mod 4 = a" by simp
  ultimately show ?case by (simp add: a2b_char del: a2b.simps(2)) simp
next
  case (3 a b)
  then have "a div 4 < 64" "a mod 4 * 16 + b div 16 < 64" "b mod 16 * 4 < 64" by auto
  moreover have "a div 4 * 4 + (a mod 4 * 16 + b div 16) div 16 = a" "(a mod 4 * 16 + b div 16) mod 16 = b div 16"
    "b div 16 * 16 + b mod 16 = b" using 3 by auto
  ultimately show ?case by (simp add: a2b_char del: a2b.simps(2)) simp
next
  case (4 a b c bs)
  then have "a div 4 < 64" "a mod 4 * 16 + b div 16 < 64" "b mod 16 * 4 + c div 64 < 64" "c mod 64 < 64" by auto
  moreover have "a div 4 * 4 + (a mod 4 * 16 + b div 16) div 16 = a" "(a mod 4 * 16 + b div 16) mod 16 = b div 16"
    "b div 16 * 16 + (b mod 16 * 4 + c div 64) div 4 = b" "(b mod 16 * 4 + c div 64) mod 4 = c div 64"
    "c div 64 * 64 + c mod 64 = c" using 4 by auto
  ultimately show ?case using 4 by (simp add: a2b_char a2b_char(2) [unfolded One_nat_def] del: a2b.simps(2))
qed simp

subsection \<open>The cursor\<close>

text \<open>Whether a byte sequence is UTF-8 (no overlong forms, no surrogates, at most U+10FFFF).\<close>

definition continues :: "nat \<Rightarrow> bool" where "continues b \<longleftrightarrow> 128 \<le> b \<and> b \<le> 191"

fun valid_utf8 :: "nat list \<Rightarrow> bool" where
  "valid_utf8 [] = True"
| "valid_utf8 (b # bs) =
     (if b < 128 then valid_utf8 bs
      else if 194 \<le> b \<and> b \<le> 223 then (case bs of c # r \<Rightarrow> continues c \<and> valid_utf8 r | _ \<Rightarrow> False)
      else if 224 \<le> b \<and> b \<le> 239 then
        (case bs of c # d # r \<Rightarrow> continues c \<and> continues d \<and> (b = 224 \<longrightarrow> 160 \<le> c) \<and> (b = 237 \<longrightarrow> c \<le> 159) \<and> valid_utf8 r
         | _ \<Rightarrow> False)
      else if 240 \<le> b \<and> b \<le> 244 then
        (case bs of c # d # e # r \<Rightarrow> continues c \<and> continues d \<and> continues e \<and> (b = 240 \<longrightarrow> 144 \<le> c)
             \<and> (b = 244 \<longrightarrow> c \<le> 143) \<and> valid_utf8 r
         | _ \<Rightarrow> False)
      else False)"

definition rsplit_colon :: "string \<Rightarrow> (string \<times> string) option" where
  "rsplit_colon s =
     (let tail = takeWhile (\<lambda>c. c \<noteq> CHR '':'') (rev s)
      in if length tail = length s then None
         else Some (rev (drop (Suc (length tail)) (rev s)), rev tail))"

definition encode_cursor :: "time \<Rightarrow> int \<Rightarrow> string" where
  "encode_cursor date_create lot_id =
     b64encode (map of_char (isoformat date_create @ '':'' @ str_of_int lot_id))"

definition decode_cursor :: "string \<Rightarrow> (string \<times> int) res" where
  "decode_cursor cursor =
     (case b64decode cursor of
        Inl _ \<Rightarrow> Inl ValueError
      | Inr bytes \<Rightarrow>
          (if \<not> valid_utf8 bytes then Inl ValueError
           else case rsplit_colon (map char_of bytes) of
                  None \<Rightarrow> Inl ValueError
                | Some (date_iso, id_text) \<Rightarrow> res_bind (int_of_str id_text) (\<lambda>lot_id. Inr (date_iso, lot_id))))"

lemma rsplit_colon_append:
  "\<forall>c \<in> set b. c \<noteq> CHR '':'' \<Longrightarrow> rsplit_colon (a @ '':'' @ b) = Some (a, b)"
proof -
  assume b: "\<forall>c \<in> set b. c \<noteq> CHR '':''"
  then have "takeWhile (\<lambda>c. c \<noteq> CHR '':'') (rev b @ CHR '':'' # rev a) = rev b"
    by (subst takeWhile_append2) auto
  then show ?thesis by (simp add: rsplit_colon_def Let_def)
qed

lemma ascii_valid: "\<forall>b \<in> set bs. b < 128 \<Longrightarrow> valid_utf8 bs"
  by (induction bs) auto

definition ascii :: "string \<Rightarrow> bool" where "ascii s \<longleftrightarrow> (\<forall>c \<in> set s. (of_char c :: nat) < 128)"

lemma ascii_append [simp]: "ascii (a @ b) \<longleftrightarrow> ascii a \<and> ascii b"
  by (auto simp: ascii_def)

lemma ascii_digits: "\<forall>c \<in> set s. is_digit c \<Longrightarrow> ascii s"
  by (auto simp: ascii_def is_digit_def)

lemma ascii_pad: "ascii (pad w n)"
proof (induction w arbitrary: n)
  case (Suc w)
  have "(of_char (digit_char (n mod 10)) :: nat) < 128" by (simp add: of_char_digit_char)
  with Suc show ?case by (simp add: ascii_def)
qed (simp add: ascii_def)

lemma ascii_isoformat: "ascii (isoformat t)"
proof -
  have "ascii ''-''" "ascii '':''" "ascii ''.''" "ascii ''T''" "ascii ''+00:00''" "ascii []" by (simp_all add: ascii_def)
  then show ?thesis by (auto simp: isoformat_def iso_date_def iso_clock_def Let_def case_prod_beta ascii_pad
      simp del: ascii_append) (auto simp: ascii_def ascii_pad [unfolded ascii_def])
qed

lemma str_of_int_chars: "c \<in> set (str_of_int i) \<Longrightarrow> is_digit c \<or> c = CHR ''-''"
  using str_of_nat_digits by (auto simp: str_of_int_def split: if_splits)

lemma cursor_roundtrip: "decode_cursor (encode_cursor d i) = Inr (isoformat d, i)"
proof -
  let ?text = "isoformat d @ '':'' @ str_of_int i"
  have nc: "\<forall>c \<in> set (str_of_int i). c \<noteq> CHR '':''"
    using str_of_int_chars [of "CHR '':''" i] by (auto simp: is_digit_def)
  have "ascii (str_of_int i)"
    unfolding ascii_def
  proof
    fix c assume "c \<in> set (str_of_int i)"
    from str_of_int_chars [OF this] show "(of_char c :: nat) < 128" by (auto simp: is_digit_def)
  qed
  then have a: "ascii ?text" using ascii_isoformat [of d] by (auto simp: ascii_def)
  have "\<forall>b \<in> set (map of_char ?text). b < (256 :: nat)" using a by (auto simp: ascii_def)
  then have "b64decode (encode_cursor d i) = Inr (map of_char ?text)"
    unfolding encode_cursor_def by (rule base64_roundtrip)
  moreover have "valid_utf8 (map of_char ?text)" using a by (intro ascii_valid) (auto simp: ascii_def)
  moreover have "map char_of (map (of_char :: char \<Rightarrow> nat) ?text) = ?text" by (simp only: map_map comp_def char_of_char map_ident)
  ultimately show ?thesis using rsplit_colon_append [OF nc] by (simp add: decode_cursor_def)
qed

end
