(* ===== verification/User_State.thy ===== *)
theory User_State
  imports Lot_Repo
begin

text \<open>
  The small tables of the user: the region subscriptions
  (\<^verbatim>\<open>infra/sqlite/repositories/region_subscriptions.py\<close>), the per-lot state
  (\<^verbatim>\<open>infra/sqlite/repositories/user_state.py\<close>) and the service over it
  (\<^verbatim>\<open>services/lot_user_state.py\<close>). A table is the list of its rows.
\<close>

subsection \<open>Region subscriptions\<close>

type_synonym subscriptions = "(int \<times> time) list"

definition get_subscribed_at :: "int \<Rightarrow> subscriptions \<Rightarrow> time option" where
  "get_subscribed_at region_id subs = map_of subs region_id"

definition set_if_absent :: "int \<Rightarrow> time \<Rightarrow> subscriptions \<Rightarrow> subscriptions \<times> bool" where
  "set_if_absent region_id subscribed_at subs =
     (if region_id \<in> fst ` set subs then (subs, False) else (subs @ [(region_id, subscribed_at)], True))"

definition delete_subscription :: "int \<Rightarrow> subscriptions \<Rightarrow> subscriptions" where
  "delete_subscription region_id subs = filter (\<lambda>(g, _). g \<noteq> region_id) subs"

definition list_subscribed_region_ids :: "subscriptions \<Rightarrow> int set" where
  "list_subscribed_region_ids subs = fst ` set subs"

lemma get_set_if_absent [simp]:
  "get_subscribed_at g (fst (set_if_absent g' t subs)) =
     (if g = g' \<and> get_subscribed_at g subs = None then Some t else get_subscribed_at g subs)"
proof -
  have "g' \<in> fst ` set subs \<longleftrightarrow> map_of subs g' \<noteq> None" by (simp add: map_of_eq_None_iff)
  then show ?thesis
    by (cases "map_of subs g'") (auto simp: get_subscribed_at_def set_if_absent_def map_add_def split: option.splits)
qed

lemma get_delete_subscription [simp]:
  "get_subscribed_at g (delete_subscription g' subs) = (if g = g' then None else get_subscribed_at g subs)"
  by (induction subs) (auto simp: get_subscribed_at_def delete_subscription_def)

lemma list_subscribed_iff: "g \<in> list_subscribed_region_ids subs \<longleftrightarrow> get_subscribed_at g subs \<noteq> None"
  by (simp add: list_subscribed_region_ids_def get_subscribed_at_def map_of_eq_None_iff)

subsection \<open>The per-lot table\<close>

record user_row =
  us_lot_id :: int
  us_submitted :: bool
  us_submitted_at :: "time option"
  us_note :: "ustr option"
  us_seen_at :: "time option"
  us_updated_at :: time

type_synonym user_table = "user_row list"

definition fresh_user_row :: "int \<Rightarrow> time \<Rightarrow> user_row" where
  "fresh_user_row i now = \<lparr>us_lot_id = i, us_submitted = False, us_submitted_at = None, us_note = None,
     us_seen_at = None, us_updated_at = now\<rparr>"

definition us_get :: "user_table \<Rightarrow> int \<Rightarrow> user_row option" where
  "us_get tab i = find (\<lambda>r. us_lot_id r = i) tab"

text \<open>One \<^verbatim>\<open>SELECT ... WHERE lot_id IN (...)\<close> per chunk, collected in one dictionary.\<close>

definition CHUNK_SIZE :: nat where "CHUNK_SIZE = 500"

definition add_rows :: "user_row list \<Rightarrow> (int \<rightharpoonup> user_row) \<Rightarrow> (int \<rightharpoonup> user_row)" where
  "add_rows rows m = fold (\<lambda>r m. m(us_lot_id r \<mapsto> r)) rows m"

function get_chunks :: "nat \<Rightarrow> int list \<Rightarrow> user_table \<Rightarrow> (int \<rightharpoonup> user_row) \<Rightarrow> (int \<rightharpoonup> user_row)" where
  "get_chunks n ids tab m =
     (if ids = [] \<or> n = 0 then m
      else get_chunks n (drop n ids) tab (add_rows (filter (\<lambda>r. us_lot_id r \<in> set (take n ids)) tab) m))"
  by pat_completeness auto
termination by (relation "measure (\<lambda>(n, ids, _). length ids)") auto

declare get_chunks.simps [simp del]

definition us_get_many :: "user_table \<Rightarrow> int list \<Rightarrow> (int \<rightharpoonup> user_row)" where
  "us_get_many tab ids = get_chunks CHUNK_SIZE ids tab Map.empty"

text \<open>An upsert that touches the columns \<open>f\<close> sets, over the defaults of a new row.\<close>

definition us_upsert :: "int \<Rightarrow> time \<Rightarrow> (user_row \<Rightarrow> user_row) \<Rightarrow> user_table \<Rightarrow> user_table" where
  "us_upsert i now f tab =
     (if us_get tab i = None then tab @ [f (fresh_user_row i now)]
      else map (\<lambda>r. if us_lot_id r = i then f r else r) tab)"

definition us_set_submitted :: "int \<Rightarrow> bool \<Rightarrow> time option \<Rightarrow> time \<Rightarrow> user_table \<Rightarrow> user_table" where
  "us_set_submitted i v at' now =
     us_upsert i now (\<lambda>r. r\<lparr>us_submitted := v, us_submitted_at := at', us_updated_at := now\<rparr>)"

definition us_set_note :: "int \<Rightarrow> ustr option \<Rightarrow> time \<Rightarrow> user_table \<Rightarrow> user_table" where
  "us_set_note i note now = us_upsert i now (\<lambda>r. r\<lparr>us_note := note, us_updated_at := now\<rparr>)"

definition LAST_VISIT_KEY :: string where "LAST_VISIT_KEY = ''last_visit_at''"

definition last_visit :: "kv \<Rightarrow> time option res" where
  "last_visit s =
     (case kv_get s LAST_VISIT_KEY of
        None \<Rightarrow> Inr None
      | Some v \<Rightarrow> (case parse_dt v of Inl e \<Rightarrow> Inl e | Inr t \<Rightarrow> Inr (Some t)))"

definition mark_visited :: "time \<Rightarrow> time \<Rightarrow> kv \<Rightarrow> kv" where
  "mark_visited at' now s = kv_set now LAST_VISIT_KEY (Iso at') s"

lemma visit_roundtrip: "last_visit (mark_visited t now s) = Inr (Some t)"
  by (simp add: last_visit_def mark_visited_def kv.get_put)

lemma us_get_upsert:
  assumes "\<And>r. us_lot_id (f r) = us_lot_id r"
  shows "us_get (us_upsert i now f tab) j =
    (if j = i then Some (f (case us_get tab i of None \<Rightarrow> fresh_user_row i now | Some r \<Rightarrow> r)) else us_get tab j)"
proof (cases "us_get tab i")
  case None
  then have "find (\<lambda>r. us_lot_id r = i) tab = None" by (simp add: us_get_def)
  with None assms show ?thesis
    by (auto simp: us_upsert_def us_get_def find_append fresh_user_row_def split: option.splits)
next
  case (Some r)
  have "find (\<lambda>r. us_lot_id r = j) (map (\<lambda>r. if us_lot_id r = i then f r else r) tab) =
      map_option (\<lambda>r. if us_lot_id r = i then f r else r) (find (\<lambda>r. us_lot_id r = j) tab)"
    by (rule find_map_key) (simp add: assms)
  then have eq: "us_get (us_upsert i now f tab) j = map_option (\<lambda>r. if us_lot_id r = i then f r else r) (us_get tab j)"
    using Some by (simp only: us_upsert_def us_get_def if_False option.distinct)
  show ?thesis
  proof (cases "us_get tab j")
    case None
    with Some show ?thesis unfolding eq by auto
  next
    case (Some q)
    have "us_lot_id q = j" using Some find_SomeD [of "\<lambda>r. us_lot_id r = j" tab q] by (simp add: us_get_def)
    with Some show ?thesis unfolding eq by (cases "j = i") simp_all
  qed
qed

lemma us_upsert_distinct:
  assumes "\<And>r. us_lot_id (f r) = us_lot_id r" "distinct (map us_lot_id tab)"
  shows "distinct (map us_lot_id (us_upsert i now f tab))"
proof (cases "us_get tab i")
  case None
  then have "i \<notin> us_lot_id ` set tab" by (auto simp: us_get_def find_None_iff_all)
  with None assms show ?thesis by (simp add: us_upsert_def fresh_user_row_def)
next
  case (Some r)
  have "us_lot_id (if us_lot_id r = i then f r else r) = us_lot_id r" for r by (simp add: assms(1))
  then have "map us_lot_id (map (\<lambda>r. if us_lot_id r = i then f r else r) tab) = map us_lot_id tab"
    by (simp only: map_map comp_def)
  with Some assms(2) show ?thesis by (simp add: us_upsert_def del: map_map)
qed

text \<open>The chunked reading is the pointwise one.\<close>

lemma add_rows_get:
  assumes "distinct (map us_lot_id tab)"
  shows "add_rows (filter (\<lambda>r. us_lot_id r \<in> I) tab) m j = (if j \<in> I \<and> us_get tab j \<noteq> None then us_get tab j else m j)"
  using assms
proof (induction tab arbitrary: m)
  case Nil
  then show ?case by (simp add: add_rows_def us_get_def)
next
  case (Cons r tab)
  have un: "us_get tab (us_lot_id r) = None" using Cons.prems by (auto simp: us_get_def find_None_iff_all image_iff)
  show ?case
  proof (cases "us_lot_id r \<in> I")
    case True
    then have "add_rows (filter (\<lambda>r. us_lot_id r \<in> I) (r # tab)) m j =
        add_rows (filter (\<lambda>r. us_lot_id r \<in> I) tab) (m(us_lot_id r \<mapsto> r)) j" by (simp add: add_rows_def)
    also have "\<dots> = (if j \<in> I \<and> us_get tab j \<noteq> None then us_get tab j else (m(us_lot_id r \<mapsto> r)) j)"
      using Cons by simp
    finally show ?thesis using un True by (auto simp: us_get_def)
  next
    case False
    with Cons un show ?thesis by (auto simp: us_get_def)
  qed
qed

lemma get_chunks_get:
  assumes "distinct (map us_lot_id tab)" "n \<noteq> 0"
  shows "get_chunks n ids tab m j = (if j \<in> set ids \<and> us_get tab j \<noteq> None then us_get tab j else m j)"
  using assms
proof (induction n ids tab m rule: get_chunks.induct)
  case (1 n ids tab m)
  show ?case
  proof (cases "ids = []")
    case True
    then show ?thesis by (subst get_chunks.simps) simp
  next
    case False
    have split: "j \<in> set ids \<longleftrightarrow> j \<in> set (take n ids) \<or> j \<in> set (drop n ids)"
      by (metis Un_iff append_take_drop_id set_append)
    have "get_chunks n ids tab m j =
        get_chunks n (drop n ids) tab (add_rows (filter (\<lambda>r. us_lot_id r \<in> set (take n ids)) tab) m) j"
      using False 1(3) by (subst get_chunks.simps) simp
    also have "\<dots> = (if j \<in> set (drop n ids) \<and> us_get tab j \<noteq> None then us_get tab j
        else add_rows (filter (\<lambda>r. us_lot_id r \<in> set (take n ids)) tab) m j)"
      using 1 False by simp
    finally show ?thesis using add_rows_get [OF 1(2)] split by auto
  qed
qed

lemma us_get_many_eq:
  "distinct (map us_lot_id tab) \<Longrightarrow> us_get_many tab ids j = (if j \<in> set ids then us_get tab j else None)"
  by (simp add: us_get_many_def get_chunks_get CHUNK_SIZE_def)

subsection \<open>The service\<close>

definition NOTE_MAX_LENGTH :: nat where "NOTE_MAX_LENGTH = 4096"

definition LotNotFoundError :: exc where "LotNotFoundError = OtherException ''LotNotFoundError''"

definition require_lot :: "lots_db \<Rightarrow> int \<Rightarrow> unit res" where
  "require_lot db i = res_bind (lr_get db i) (\<lambda>l. case l of None \<Rightarrow> Inl LotNotFoundError | Some _ \<Rightarrow> Inr ())"

definition lot_details :: "lots_db \<Rightarrow> user_table \<Rightarrow> int \<Rightarrow> (lot \<times> user_row option) option res" where
  "lot_details db tab i =
     res_bind (lr_get db i) (\<lambda>l. Inr (case l of None \<Rightarrow> None | Some l \<Rightarrow> Some (l, us_get tab i)))"

definition toggle_archive :: "lots_db \<Rightarrow> int \<Rightarrow> time \<Rightarrow> user_table \<Rightarrow> user_table \<times> unit res" where
  "toggle_archive db i now tab =
     (case require_lot db i of
        Inl e \<Rightarrow> (tab, Inl e)
      | Inr _ \<Rightarrow>
          (let new_value = (case us_get tab i of None \<Rightarrow> True | Some r \<Rightarrow> \<not> us_submitted r)
           in (us_set_submitted i new_value None now tab, Inr ())))"

definition set_note :: "lots_db \<Rightarrow> int \<Rightarrow> ustr option \<Rightarrow> time \<Rightarrow> user_table \<Rightarrow> user_table \<times> unit res" where
  "set_note db i note now tab =
     (if (case note of None \<Rightarrow> False | Some s \<Rightarrow> NOTE_MAX_LENGTH < length s) then (tab, Inl ValueError)
      else case require_lot db i of
             Inl e \<Rightarrow> (tab, Inl e)
           | Inr _ \<Rightarrow> (us_set_note i note now tab, Inr ()))"

lemma us_get_set [simp]:
  "us_get (us_set_submitted i v t now tab) j =
     (if j = i then Some ((case us_get tab i of None \<Rightarrow> fresh_user_row i now | Some r \<Rightarrow> r)
        \<lparr>us_submitted := v, us_submitted_at := t, us_updated_at := now\<rparr>) else us_get tab j)"
  "us_get (us_set_note i note now tab) j =
     (if j = i then Some ((case us_get tab i of None \<Rightarrow> fresh_user_row i now | Some r \<Rightarrow> r)
        \<lparr>us_note := note, us_updated_at := now\<rparr>) else us_get tab j)"
  unfolding us_set_submitted_def us_set_note_def by (subst us_get_upsert; simp)+

subsection \<open>What the service promises\<close>

text \<open>The abstract view: an archive flag and a note per lot, and what an operation does to it.\<close>

type_synonym lot_marks = "int \<Rightarrow> bool \<times> ustr option"

definition marks_of :: "user_table \<Rightarrow> lot_marks" where
  "marks_of tab i = (case us_get tab i of None \<Rightarrow> (False, None) | Some r \<Rightarrow> (us_submitted r, us_note r))"

datatype mark_op = Toggle_archive int time | Set_note int "ustr option" time

fun mark_step :: "lots_db \<Rightarrow> mark_op \<Rightarrow> user_table \<Rightarrow> user_table" where
  "mark_step db (Toggle_archive i now) tab = fst (toggle_archive db i now tab)"
| "mark_step db (Set_note i note now) tab = fst (set_note db i note now tab)"

definition note_fits :: "ustr option \<Rightarrow> bool" where
  "note_fits note \<longleftrightarrow> (case note of None \<Rightarrow> True | Some s \<Rightarrow> length s \<le> 4096)"

definition lot_readable :: "lots_db \<Rightarrow> int \<Rightarrow> bool" where
  "lot_readable db i \<longleftrightarrow> (case lr_get db i of Inr (Some _) \<Rightarrow> True | _ \<Rightarrow> False)"

fun spec_step :: "lots_db \<Rightarrow> mark_op \<Rightarrow> lot_marks \<Rightarrow> lot_marks" where
  "spec_step db (Toggle_archive i now) m = (if lot_readable db i then m(i := (\<not> fst (m i), snd (m i))) else m)"
| "spec_step db (Set_note i note now) m =
     (if note_fits note \<and> lot_readable db i then m(i := (fst (m i), note)) else m)"

lemma require_lot_iff: "(require_lot db i = Inr ()) = lot_readable db i"
  by (cases "lr_get db i") (auto simp: require_lot_def lot_readable_def split: option.splits)

lemma require_lot_error: "\<not> lot_readable db i \<Longrightarrow> \<exists>e. require_lot db i = Inl e"
  using require_lot_iff [of db i] by (cases "require_lot db i") auto

lemma marks_step: "marks_of (mark_step db c tab) = spec_step db c (marks_of tab)"
proof (cases c)
  case (Toggle_archive i now)
  show ?thesis
  proof (cases "lot_readable db i")
    case True
    then have "require_lot db i = Inr ()" by (simp add: require_lot_iff)
    with Toggle_archive True show ?thesis
      by (auto simp: toggle_archive_def Let_def marks_of_def fresh_user_row_def split: option.splits)
  next
    case False
    with require_lot_error [OF False] Toggle_archive show ?thesis by (auto simp: toggle_archive_def)
  qed
next
  case (Set_note i nt now)
  have fits: "(case nt of None \<Rightarrow> False | Some s \<Rightarrow> NOTE_MAX_LENGTH < length s) \<longleftrightarrow> \<not> note_fits nt"
    by (auto simp: note_fits_def NOTE_MAX_LENGTH_def split: option.splits)
  show ?thesis
  proof (cases "note_fits nt \<and> lot_readable db i")
    case True
    then have "require_lot db i = Inr ()" by (simp add: require_lot_iff)
    with Set_note True fits show ?thesis
      by (auto simp: set_note_def marks_of_def fresh_user_row_def split: option.splits)
  next
    case False
    with require_lot_error [of db i] Set_note fits show ?thesis
      by (cases "note_fits nt") (auto simp: set_note_def)
  qed
qed

lemma mark_step_distinct:
  assumes "distinct (map us_lot_id tab)"
  shows "distinct (map us_lot_id (mark_step db c tab))"
proof -
  have "distinct (map us_lot_id (us_set_submitted i v t now tab))" for i v t now
    unfolding us_set_submitted_def by (rule us_upsert_distinct [OF _ assms]) simp
  moreover have "distinct (map us_lot_id (us_set_note i nt now tab))" for i nt now
    unfolding us_set_note_def by (rule us_upsert_distinct [OF _ assms]) simp
  ultimately show ?thesis using assms
    by (cases c) (simp_all add: toggle_archive_def set_note_def Let_def split: sum.split)
qed

lemma mark_steps_distinct: "distinct (map us_lot_id tab) \<Longrightarrow> distinct (map us_lot_id (fold (mark_step db) ops tab))"
  by (induction ops arbitrary: tab) (simp_all add: mark_step_distinct)

lemma us_get_member: "distinct (map us_lot_id tab) \<Longrightarrow> r \<in> set tab \<Longrightarrow> us_get tab (us_lot_id r) = Some r"
  by (induction tab) (auto simp: us_get_def image_iff)

text \<open>
  \<open>seen_kept tab tab'\<close>: every row is still there with the \<^verbatim>\<open>seen_at\<close> it had, and a row that
  came in between has none.
\<close>

definition seen_kept :: "user_table \<Rightarrow> user_table \<Rightarrow> bool" where
  "seen_kept tab tab' \<longleftrightarrow>
     (\<forall>j. case us_get tab j of
            Some r \<Rightarrow> (\<exists>r'. us_get tab' j = Some r' \<and> us_seen_at r' = us_seen_at r)
          | None \<Rightarrow> (\<forall>r'. us_get tab' j = Some r' \<longrightarrow> us_seen_at r' = None))"

lemma seen_kept_refl: "seen_kept tab tab"
  by (simp add: seen_kept_def split: option.split)

lemma seen_kept_trans:
  assumes "seen_kept a b" "seen_kept b c"
  shows "seen_kept a c"
  unfolding seen_kept_def
proof
  fix j
  show "case us_get a j of
      Some r \<Rightarrow> (\<exists>r'. us_get c j = Some r' \<and> us_seen_at r' = us_seen_at r)
    | None \<Rightarrow> (\<forall>r'. us_get c j = Some r' \<longrightarrow> us_seen_at r' = None)"
    using spec [OF assms(1) [unfolded seen_kept_def], of j] spec [OF assms(2) [unfolded seen_kept_def], of j]
    by (cases "us_get a j"; cases "us_get b j") auto
qed

lemma mark_step_seen: "seen_kept tab (mark_step db c tab)"
proof -
  have "seen_kept tab (us_set_submitted i v t now tab)" "seen_kept tab (us_set_note i nt now tab)" for i v t now nt
    by (auto simp: seen_kept_def fresh_user_row_def split: option.splits)
  then show ?thesis
    by (cases c) (simp_all add: toggle_archive_def set_note_def Let_def seen_kept_refl split: sum.split)
qed

lemma mark_steps_seen: "seen_kept tab (fold (mark_step db) ops tab)"
proof (induction ops arbitrary: tab)
  case (Cons c ops)
  show ?case using seen_kept_trans [OF mark_step_seen Cons.IH] by simp
qed (simp add: seen_kept_refl)

text \<open>In particular, a table without any such time keeps none.\<close>

lemma mark_steps_rows:
  assumes "distinct (map us_lot_id tab)" "\<forall>r \<in> set tab. us_seen_at r = None"
  shows "distinct (map us_lot_id (fold (mark_step db) ops tab))
    \<and> (\<forall>r \<in> set (fold (mark_step db) ops tab). us_seen_at r = None)"
proof -
  let ?tab = "fold (mark_step db) ops tab"
  have d: "distinct (map us_lot_id ?tab)" by (rule mark_steps_distinct [OF assms(1)])
  have "us_seen_at r = None" if "r \<in> set ?tab" for r
  proof -
    have new: "us_get ?tab (us_lot_id r) = Some r" using us_get_member [OF d that] .
    note kept = spec [OF mark_steps_seen [of tab db ops, unfolded seen_kept_def], of "us_lot_id r"]
    show ?thesis
    proof (cases "us_get tab (us_lot_id r)")
      case None
      with kept new show ?thesis by simp
    next
      case (Some q)
      then have "q \<in> set tab" using find_SomeD [of "\<lambda>q. us_lot_id q = us_lot_id r" tab q] by (simp add: us_get_def)
      with kept new Some assms(2) show ?thesis by simp
    qed
  qed
  with d show ?thesis by blast
qed

subsection \<open>Properties\<close>

text \<open>
  C16. The user's marks refine an archive flag and a note per lot: over any history of the
  service, from any table with one row per lot, the table means what the abstract operations
  do to the flag and the note of the one lot they name; a lot that does not exist or cannot be
  read, and a note over 4096 characters, change nothing. Reading any number of lots in chunks
  of 500 is reading each. No operation writes \<^verbatim>\<open>seen_at\<close> or loses a row: every row of the
  table is still there with the value it had, and a row that is added has none.
\<close>

theorem user_marks_refine:
  assumes "distinct (map us_lot_id tab)"
  shows "(let tab' = fold (mark_step db) ops tab in
     marks_of tab' = fold (spec_step db) ops (marks_of tab)
     \<and> us_get_many tab' ids i = (if i \<in> set ids then us_get tab' i else None)
     \<and> (\<forall>j. case us_get tab j of
              Some r \<Rightarrow> (\<exists>r'. us_get tab' j = Some r' \<and> us_seen_at r' = us_seen_at r)
            | None \<Rightarrow> (\<forall>r'. us_get tab' j = Some r' \<longrightarrow> us_seen_at r' = None)))"
proof -
  have "marks_of (fold (mark_step db) ops tab) = fold (spec_step db) ops (marks_of tab)"
    by (induction ops arbitrary: tab) (simp_all add: marks_step)
  then show ?thesis
    using mark_steps_seen [of tab db ops] mark_steps_distinct [OF assms, of db ops]
    unfolding Let_def by (intro conjI) (simp_all add: us_get_many_eq seen_kept_def)
qed

theorem user_marks_refine_witness:
  "let db = fst (lr_upsert DEFAULT_TRACKED_FIELDS False 0 (sample_lot 7) empty_db);
       tab = [(fresh_user_row 7 0)\<lparr>us_seen_at := Some 5\<rparr>];
       tab' = fold (mark_step db)
         [Toggle_archive 7 1, Set_note 7 (Some [72]) 2, Set_note 8 (Some [72]) 3, Toggle_archive 7 4] tab
   in marks_of tab' 7 = (False, Some [72]) \<and> (\<exists>r. us_get tab' 7 = Some r \<and> us_seen_at r = Some 5)"
proof -
  obtain db where db: "db = fst (lr_upsert DEFAULT_TRACKED_FIELDS False 0 (sample_lot 7) empty_db)" by blast
  have un: "lr_row empty_db (lot_id (sample_lot 7)) = None" by (simp add: lr_row_def empty_db_def)
  have tr: "check_tracked DEFAULT_TRACKED_FIELDS = Inr ()"
    by (simp add: DEFAULT_TRACKED_FIELDS_def UNIMPLEMENTED_FIELDS_def ALLOWED_TRACKED_FIELDS_def)
  have "lr_row db j = (if j = 7 then Some (inserted_row (sample_lot 7) False) else None)" for j
    unfolding db lr_upsert_fresh [OF lr_inv_empty un tr] using lr_row_upsert_fresh [OF un]
    by (simp add: lr_row_def empty_db_def)
  then have r: "lot_readable db 7" "\<not> lot_readable db 8" by (simp_all add: lot_readable_def lr_get_def)
  let ?tab = "[(fresh_user_row 7 0)\<lparr>us_seen_at := Some 5\<rparr>]"
  have one: "distinct (map us_lot_id ?tab)" by simp
  have got: "us_get ?tab 7 = Some ((fresh_user_row 7 0)\<lparr>us_seen_at := Some 5\<rparr>)"
    by (simp add: us_get_def fresh_user_row_def)
  let ?ops = "[Toggle_archive 7 1, Set_note 7 (Some [72]) 2, Set_note 8 (Some [72]) 3, Toggle_archive 7 4]"
  let ?tab' = "fold (mark_step db) ?ops ?tab"
  note t = user_marks_refine [OF one, where db = db and ops = ?ops, unfolded Let_def]
  have "marks_of ?tab' = fold (spec_step db) ?ops (marks_of ?tab)" using t by blast
  moreover have "fold (spec_step db) ?ops (marks_of ?tab) 7 = (False, Some [72])"
    using r got by (simp add: marks_of_def note_fits_def fresh_user_row_def)
  moreover have "\<exists>r. us_get ?tab' 7 = Some r \<and> us_seen_at r = Some 5"
    using spec [OF t [THEN conjunct2, THEN conjunct2], of 7] unfolding got by simp
  ultimately show ?thesis unfolding Let_def db [symmetric] by metis
qed

end
