(* ===== verification/Lot_Query.thy ===== *)
theory Lot_Query
  imports Cursor User_State Regions
begin

text \<open>
  The read side of the lot catalogue (\<^verbatim>\<open>services/lot_query.py\<close>): filters, the page query with
  its keyset cursor, and the count. The SQL is the list functions it denotes; comparisons of
  \<^verbatim>\<open>date_create\<close> are the ones of the stored texts (\<open>Iso_Text\<close>). Seconds of age are the whole
  part of the difference. The lot a DTO is built from is the row's (\<open>row_to_lot\<close>).
\<close>

subsection \<open>Filters\<close>

record lot_filters =
  lf_regions :: "int list"
  lf_subject_display_names :: "ustr list"
  lf_area_sqm_min :: "rat option"
  lf_area_sqm_max :: "rat option"
  lf_status :: "ustr option"
  lf_fts_query :: "ustr option"
  lf_apply_subscription_cutoff :: bool
  lf_filter_subscribed_subjects :: bool

definition KNOWN_STATUSES :: "ustr list" where
  "KNOWN_STATUSES =
     [[1057, 1074, 1086, 1073, 1086, 1076, 1077, 1085],
      [1047, 1072, 1088, 1077, 1079, 1077, 1088, 1074, 1080, 1088, 1086, 1074, 1072, 1085]]"

definition mk_lot_filters :: "lot_filters \<Rightarrow> lot_filters res" where
  "mk_lot_filters f =
     (if lf_regions f \<noteq> [] \<and> lf_subject_display_names f \<noteq> [] then Inl ValueError
      else if lf_apply_subscription_cutoff f \<and> lf_filter_subscribed_subjects f then Inl ValueError
      else if (case lf_status f of None \<Rightarrow> False | Some s \<Rightarrow> s \<notin> set KNOWN_STATUSES) then Inl ValueError
      else Inr f)"

text \<open>\<^verbatim>\<open>int(Decimal)\<close> cuts towards zero.\<close>

definition int_of_decimal :: "rat \<Rightarrow> int" where
  "int_of_decimal d = (if d < 0 then - \<lfloor>- d\<rfloor> else \<lfloor>d\<rfloor>)"

definition text_of_int :: "int \<Rightarrow> ustr" where
  "text_of_int i = map of_char (str_of_int i)"

text \<open>One conjunct of the \<^verbatim>\<open>WHERE\<close> clause per filter; a comparison with \<^verbatim>\<open>NULL\<close> is not true.\<close>

definition sql_at_least :: "int option \<Rightarrow> rat option \<Rightarrow> bool" where
  "sql_at_least v bound =
     (case bound of None \<Rightarrow> True | Some b \<Rightarrow> (case v of None \<Rightarrow> False | Some a \<Rightarrow> int_of_decimal b \<le> a))"

definition sql_at_most :: "int option \<Rightarrow> rat option \<Rightarrow> bool" where
  "sql_at_most v bound =
     (case bound of None \<Rightarrow> True | Some b \<Rightarrow> (case v of None \<Rightarrow> False | Some a \<Rightarrow> a \<le> int_of_decimal b))"

definition cutoff_condition :: "subscriptions \<Rightarrow> db_row \<Rightarrow> bool" where
  "cutoff_condition subs r =
     (case db_region_id r of
        None \<Rightarrow> True
      | Some g \<Rightarrow>
          (case get_subscribed_at g subs of
             None \<Rightarrow> True
           | Some subscribed_at \<Rightarrow> date_of subscribed_at \<le> date_of (db_date_create r)))"

definition where_clause :: "lot_filters \<Rightarrow> subscriptions \<Rightarrow> db_row \<Rightarrow> bool" where
  "where_clause f subs r \<longleftrightarrow>
     db_is_active r = 1
     \<and> (lf_regions f = [] \<or> db_region r \<in> set (map text_of_int (lf_regions f)))
     \<and> (lf_subject_display_names f = [] \<or> db_region r \<in> set (lf_subject_display_names f))
     \<and> sql_at_least (db_area_sqm r) (lf_area_sqm_min f)
     \<and> sql_at_most (db_area_sqm r) (lf_area_sqm_max f)
     \<and> (case lf_status f of None \<Rightarrow> True | Some s \<Rightarrow> db_status r = s)
     \<and> (lf_apply_subscription_cutoff f \<longrightarrow> cutoff_condition subs r)
     \<and> (lf_filter_subscribed_subjects f \<longrightarrow>
          (case db_region_id r of None \<Rightarrow> True | Some g \<Rightarrow> g \<in> list_subscribed_region_ids subs))"

subsection \<open>The page query\<close>

definition row_before :: "db_row \<Rightarrow> db_row \<Rightarrow> bool" where
  "row_before r s \<longleftrightarrow>
     text_less (isoformat (db_date_create s)) (isoformat (db_date_create r))
     \<or> (isoformat (db_date_create s) = isoformat (db_date_create r) \<and> db_id s < db_id r)"

fun insert_row :: "db_row \<Rightarrow> db_row list \<Rightarrow> db_row list" where
  "insert_row r [] = [r]"
| "insert_row r (s # ss) = (if row_before r s then r # s # ss else s # insert_row r ss)"

definition order_rows :: "db_row list \<Rightarrow> db_row list" where
  "order_rows rs = foldr insert_row rs []"

definition after_cursor :: "(string \<times> int) option \<Rightarrow> db_row \<Rightarrow> bool" where
  "after_cursor last_cursor r =
     (case last_cursor of
        None \<Rightarrow> True
      | Some (date_iso, last_id) \<Rightarrow>
          text_less (isoformat (db_date_create r)) date_iso
          \<or> (isoformat (db_date_create r) = date_iso \<and> db_id r < last_id))"

definition query_rows :: "lot_filters \<Rightarrow> subscriptions \<Rightarrow> (string \<times> int) option \<Rightarrow> nat \<Rightarrow> lots_db \<Rightarrow> db_row list" where
  "query_rows f subs last_cursor limit db =
     take limit (order_rows (filter (\<lambda>r. where_clause f subs r \<and> after_cursor last_cursor r) (ld_rows db)))"

subsection \<open>DTOs\<close>

definition compute_freshness :: "int \<Rightarrow> freshness" where
  "compute_freshness age_seconds = (if age_seconds < 3600 then Hot else if age_seconds < 86400 then Warm else Cold)"

record lot_user_dto = lot_public +
  dto_submitted :: bool
  dto_submitted_at :: "time option"
  dto_note :: "ustr option"
  dto_seen_at :: "time option"
  dto_was_new :: bool

definition age_seconds :: "time \<Rightarrow> time \<Rightarrow> int" where
  "age_seconds now first_seen = max 0 ((now - first_seen) div us_per_sec)"

definition lot_to_user_dto :: "lot \<Rightarrow> user_row option \<Rightarrow> time \<Rightarrow> lot_user_dto" where
  "lot_to_user_dto l user_state now =
     (let age = age_seconds now (lot_first_seen l);
          pub = lot.extend l (lot_public.fields age Tier_match (compute_freshness age))
      in lot_public.extend pub
           (case user_state of
              None \<Rightarrow> lot_user_dto.fields False None None None False
            | Some u \<Rightarrow> lot_user_dto.fields (us_submitted u) (us_submitted_at u) (us_note u) (us_seen_at u) False))"

record page =
  pg_items :: "lot_user_dto list"
  pg_next_cursor :: "string option"
  pg_has_more :: bool

definition get_by_id :: "lots_db \<Rightarrow> user_table \<Rightarrow> time \<Rightarrow> int \<Rightarrow> lot_user_dto option res" where
  "get_by_id db tab now i =
     res_bind (lr_get db i) (\<lambda>l. Inr (case l of None \<Rightarrow> None
       | Some l \<Rightarrow> Some (lot_to_user_dto l (us_get_many tab [i] i) now)))"

definition search ::
  "lots_db \<Rightarrow> subscriptions \<Rightarrow> user_table \<Rightarrow> time \<Rightarrow> lot_filters \<Rightarrow> int \<Rightarrow> string option \<Rightarrow> page res" where
  "search db subs tab now f page_size cursor =
     (if \<not> (1 \<le> page_size \<and> page_size \<le> 200) then Inl ValueError
      else if lf_fts_query f \<noteq> None then Inl NotImplementedError
      else res_bind (case cursor of None \<Rightarrow> Inr None | Some c \<Rightarrow> res_bind (decode_cursor c) (\<lambda>p. Inr (Some p)))
        (\<lambda>last_cursor.
           let rows = query_rows f subs last_cursor (nat page_size + 1) db;
               has_more = nat page_size < length rows
           in res_bind (map_res row_to_lot (take (nat page_size) rows)) (\<lambda>lots.
             let user_states = (if lots = [] then Map.empty else us_get_many tab (map lot_id lots))
             in Inr \<lparr>pg_items = map (\<lambda>l. lot_to_user_dto l (user_states (lot_id l)) now) lots,
                     pg_next_cursor =
                       (if has_more \<and> lots \<noteq> []
                        then Some (encode_cursor (lot_date_create (last lots)) (lot_id (last lots))) else None),
                     pg_has_more = has_more\<rparr>)))"

definition count_lots :: "lots_db \<Rightarrow> subscriptions \<Rightarrow> lot_filters \<Rightarrow> nat res" where
  "count_lots db subs f =
     (if lf_fts_query f \<noteq> None then Inl NotImplementedError
      else Inr (length (filter (where_clause f subs) (ld_rows db))))"

lemma lot_to_user_dto_sel [simp]:
  "lot_id (lot_to_user_dto l u now) = lot_id l"
  "lot_region_id (lot_to_user_dto l u now) = lot_region_id l"
  "dto_seen_at (lot_to_user_dto l None now) = None"
  "dto_seen_at (lot_to_user_dto l (Some u') now) = us_seen_at u'"
  by (simp_all add: lot_to_user_dto_def Let_def lot.defs lot_public.defs lot_user_dto.defs)

text \<open>The filter on the cutoff is the predicate the notifications use.\<close>

lemma cutoff_condition_passes:
  "cutoff_condition subs r =
     passes_subscription_cutoff (db_date_create r)
       (case db_region_id r of None \<Rightarrow> None | Some g \<Rightarrow> get_subscribed_at g subs) (db_region_id r)"
  by (auto simp: cutoff_condition_def passes_subscription_cutoff_def split: option.splits)

subsection \<open>Keyset pagination\<close>

text \<open>
  Paging by a strict order: \<open>before\<close> is the \<^verbatim>\<open>ORDER BY\<close> of the query and its cursor condition,
  \<open>ins\<close> the ordered insertion, on the rows whose dates the calendar can write.
\<close>

locale keyset =
  fixes ok :: "'r \<Rightarrow> bool"
    and key :: "'r \<Rightarrow> 'k"
    and before :: "'r \<Rightarrow> 'r \<Rightarrow> bool"
    and ins :: "'r \<Rightarrow> 'r list \<Rightarrow> 'r list"
  assumes irrefl: "ok r \<Longrightarrow> \<not> before r r"
    and trans: "ok r \<Longrightarrow> ok s \<Longrightarrow> ok t \<Longrightarrow> before r s \<Longrightarrow> before s t \<Longrightarrow> before r t"
    and total: "ok r \<Longrightarrow> ok s \<Longrightarrow> key r \<noteq> key s \<Longrightarrow> before r s \<or> before s r"
    and ins_Nil: "ins r [] = [r]"
    and ins_Cons: "ins r (s # ss) = (if before r s then r # s # ss else s # ins r ss)"
begin

abbreviation ordered :: "'r list \<Rightarrow> 'r list" where "ordered rs \<equiv> foldr ins rs []"

lemma set_ins [simp]: "set (ins r ss) = insert r (set ss)"
  by (induction ss) (auto simp: ins_Nil ins_Cons)

lemma length_ins [simp]: "length (ins r ss) = Suc (length ss)"
  by (induction ss) (simp_all add: ins_Nil ins_Cons)

lemma distinct_ins: "distinct (map key (ins r ss)) = (key r \<notin> key ` set ss \<and> distinct (map key ss))"
  by (induction ss) (auto simp: ins_Nil ins_Cons)

lemma set_ordered [simp]: "set (ordered rs) = set rs"
  by (induction rs) auto

lemma length_ordered [simp]: "length (ordered rs) = length rs"
  by (induction rs) auto

lemma distinct_ordered: "distinct (map key (ordered rs)) = distinct (map key rs)"
  by (induction rs) (auto simp: distinct_ins)

lemma sorted_ins:
  assumes "sorted_wrt before ss" "\<forall>s \<in> set ss. ok s" "ok r" "key r \<notin> key ` set ss"
  shows "sorted_wrt before (ins r ss)"
  using assms
proof (induction ss)
  case (Cons s ss)
  show ?case
  proof (cases "before r s")
    case True
    have "before r t" if "t \<in> set ss" for t
      using trans [OF Cons.prems(3) _ _ True, of t] Cons.prems(1,2) that by simp
    with True Cons.prems(1) show ?thesis by (simp add: ins_Cons)
  next
    case False
    then have "before s r" using total [of r s] Cons.prems by auto
    with False Cons show ?thesis by (simp add: ins_Cons)
  qed
qed (simp add: ins_Nil)

lemma sorted_ordered:
  "\<forall>r \<in> set rs. ok r \<Longrightarrow> distinct (map key rs) \<Longrightarrow> sorted_wrt before (ordered rs)"
  by (induction rs) (auto intro!: sorted_ins)

lemma filter_ins:
  assumes "sorted_wrt before ss" "\<forall>s \<in> set ss. ok s" "ok r"
  shows "filter P (ins r ss) = (if P r then ins r (filter P ss) else filter P ss)"
  using assms
proof (induction ss)
  case (Cons s ss)
  show ?case
  proof (cases "before r s")
    case True
    have all: "before r t" if "t \<in> set ss" for t
      using trans [OF Cons.prems(3) _ _ True, of t] Cons.prems(1,2) that by simp
    have "ins r (filter P ss) = r # filter P ss"
    proof (cases "filter P ss")
      case (Cons a as)
      then have "a \<in> set ss" by (metis (no_types) filter_eq_ConsD in_set_conv_decomp)
      with all Cons show ?thesis by (simp add: ins_Cons)
    qed (simp add: ins_Nil)
    with True show ?thesis by (simp add: ins_Cons)
  next
    case False
    with Cons show ?thesis by (simp add: ins_Cons)
  qed
qed (simp add: ins_Nil)

lemma filter_ordered:
  "\<forall>r \<in> set rs. ok r \<Longrightarrow> distinct (map key rs) \<Longrightarrow> ordered (filter P rs) = filter P (ordered rs)"
  by (induction rs) (simp_all add: filter_ins sorted_ordered)

text \<open>The rows after the one at \<open>i\<close> are the rest of the ordered list.\<close>

lemma after_position:
  "sorted_wrt before L \<Longrightarrow> \<forall>r \<in> set L. ok r \<Longrightarrow> i < length L \<Longrightarrow> filter (before (L ! i)) L = drop (Suc i) L"
proof (induction L arbitrary: i)
  case (Cons r L)
  show ?case
  proof (cases i)
    case 0
    with Cons.prems irrefl [of r] show ?thesis by (simp add: filter_id_conv)
  next
    case (Suc j)
    have "before r (L ! j)" using Cons.prems Suc by simp
    then have "\<not> before (L ! j) r"
      using trans [of r "L ! j" r] irrefl [of r] Cons.prems Suc by auto
    with Cons Suc show ?thesis by simp
  qed
qed simp

text \<open>One page: the rows after the cursor row, cut to a limit.\<close>

lemma page_after:
  assumes "\<forall>r \<in> set rs. ok r" "distinct (map key rs)" "i < length rs"
  shows "take n (ordered (filter (before (ordered rs ! i)) rs)) = take n (drop (Suc i) (ordered rs))"
  using after_position [OF sorted_ordered [OF assms(1,2)]] assms filter_ordered [OF assms(1,2)] by simp

end

definition calendar_row :: "db_row \<Rightarrow> bool" where
  "calendar_row r \<longleftrightarrow> in_calendar (db_date_create r)"

lemma row_before_iff:
  "calendar_row r \<Longrightarrow> calendar_row s \<Longrightarrow> row_before r s \<longleftrightarrow>
     db_date_create s < db_date_create r \<or> (db_date_create s = db_date_create r \<and> db_id s < db_id r)"
  by (simp add: row_before_def calendar_row_def isoformat_less_iff isoformat_inject)

interpretation rk: keyset calendar_row db_id row_before insert_row
  by unfold_locales (auto simp: row_before_iff)

subsection \<open>Pages\<close>

text \<open>The rows a filter selects, newest first.\<close>

definition catalogue :: "lot_filters \<Rightarrow> subscriptions \<Rightarrow> lots_db \<Rightarrow> db_row list" where
  "catalogue f subs db = order_rows (filter (where_clause f subs) (ld_rows db))"

text \<open>What the pages rely on: every selected row can be read and its date written.\<close>

definition pageable :: "lot_filters \<Rightarrow> subscriptions \<Rightarrow> lots_db \<Rightarrow> bool" where
  "pageable f subs db \<longleftrightarrow> lf_fts_query f = None \<and> distinct (map db_id (ld_rows db))
     \<and> (\<forall>r \<in> set (filter (where_clause f subs) (ld_rows db)). calendar_row r \<and> (\<exists>l. row_to_lot r = Inr l))"

lemma catalogue_facts:
  assumes "pageable f subs db"
  shows "sorted_wrt row_before (catalogue f subs db)" "distinct (map db_id (catalogue f subs db))"
    and "set (catalogue f subs db) = {r \<in> set (ld_rows db). where_clause f subs r}"
    and "length (catalogue f subs db) = length (filter (where_clause f subs) (ld_rows db))"
proof -
  let ?rs = "filter (where_clause f subs) (ld_rows db)"
  have ok: "\<forall>r \<in> set ?rs. calendar_row r" "distinct (map db_id ?rs)"
    using assms by (simp_all add: pageable_def distinct_map_filter)
  show "sorted_wrt row_before (catalogue f subs db)" "distinct (map db_id (catalogue f subs db))"
    "length (catalogue f subs db) = length ?rs"
    using rk.sorted_ordered [OF ok] ok(2) by (simp_all add: catalogue_def order_rows_def rk.distinct_ordered)
  show "set (catalogue f subs db) = {r \<in> set (ld_rows db). where_clause f subs r}"
    by (simp add: catalogue_def order_rows_def)
qed

definition page_cursor :: "db_row list \<Rightarrow> nat \<Rightarrow> string option" where
  "page_cursor L k = (if k = 0 then None else Some (encode_cursor (db_date_create (L ! (k - 1))) (db_id (L ! (k - 1)))))"

lemma query_rows_at:
  assumes "pageable f subs db" "k \<le> length (catalogue f subs db)"
  shows "\<exists>last. (case page_cursor (catalogue f subs db) k of None \<Rightarrow> Inr None
        | Some c \<Rightarrow> res_bind (decode_cursor c) (\<lambda>p. Inr (Some p))) = Inr last
     \<and> query_rows f subs last n db = take n (drop k (catalogue f subs db))"
proof (cases k)
  case 0
  then show ?thesis by (intro exI [of _ None])
    (simp add: page_cursor_def query_rows_def catalogue_def after_cursor_def)
next
  case (Suc i)
  let ?L = "catalogue f subs db" and ?rs = "filter (where_clause f subs) (ld_rows db)"
  let ?last = "(isoformat (db_date_create (?L ! i)), db_id (?L ! i))"
  have ok: "\<forall>r \<in> set ?rs. calendar_row r" "distinct (map db_id ?rs)"
    using assms by (simp_all add: pageable_def distinct_map_filter)
  have i: "i < length ?rs" using Suc assms(2) catalogue_facts(4) [OF assms(1)] by simp
  have "after_cursor (Some ?last) = row_before (?L ! i)"
    by (auto simp: after_cursor_def row_before_def fun_eq_iff)
  then have "filter (\<lambda>r. where_clause f subs r \<and> after_cursor (Some ?last) r) (ld_rows db) =
      filter (row_before (?L ! i)) ?rs" by (simp add: conj_commute)
  then have "query_rows f subs (Some ?last) n db = take n (drop k ?L)"
    using rk.page_after [OF ok i, of n] Suc by (simp add: query_rows_def catalogue_def order_rows_def)
  moreover have "(case page_cursor ?L k of None \<Rightarrow> Inr None
        | Some c \<Rightarrow> res_bind (decode_cursor c) (\<lambda>p. Inr (Some p))) = Inr (Some ?last)"
    using Suc by (simp add: page_cursor_def cursor_roundtrip)
  ultimately show ?thesis by blast
qed

lemma row_to_lot_date: "row_to_lot r = Inr l \<Longrightarrow> lot_date_create l = db_date_create r"
  by (auto simp: row_to_lot_def res_bind_Inr_iff)

lemma search_page:
  assumes "pageable f subs db" "k \<le> length (catalogue f subs db)" "1 \<le> n" "n \<le> 200"
  shows "\<exists>items. search db subs tab now f (int n) (page_cursor (catalogue f subs db) k) =
      Inr \<lparr>pg_items = items,
           pg_next_cursor = (if k + n < length (catalogue f subs db) then page_cursor (catalogue f subs db) (k + n) else None),
           pg_has_more = (k + n < length (catalogue f subs db))\<rparr>
    \<and> map lot_id items = map db_id (take n (drop k (catalogue f subs db)))"
proof -
  let ?L = "catalogue f subs db"
  let ?rows = "take (Suc n) (drop k ?L)" and ?page = "take n (drop k ?L)"
  obtain c where c: "(case page_cursor ?L k of None \<Rightarrow> Inr None
        | Some c \<Rightarrow> res_bind (decode_cursor c) (\<lambda>p. Inr (Some p))) = Inr c"
    "query_rows f subs c (Suc n) db = ?rows"
    using query_rows_at [OF assms(1,2)] by blast
  have "\<forall>r \<in> set ?L. \<exists>l. row_to_lot r = Inr l"
    using catalogue_facts(3) [OF assms(1)] assms(1) by (auto simp: pageable_def)
  then obtain g where g: "\<forall>r \<in> set ?L. row_to_lot r = Inr (g r)" by metis
  have sub: "set ?page \<subseteq> set ?L" by (meson order_trans set_drop_subset set_take_subset)
  then have lots: "map_res row_to_lot ?page = Inr (map g ?page)"
    using g by (intro map_res_Inr_map) blast
  have more: "n < length ?rows \<longleftrightarrow> k + n < length ?L" by auto
  have cur: "Some (encode_cursor (lot_date_create (last (map g ?page))) (lot_id (last (map g ?page)))) = page_cursor ?L (k + n)"
    if "k + n < length ?L"
  proof -
    have ne: "?page \<noteq> []" "length ?page = n" using that assms(3) by auto
    then have "last (map g ?page) = g (?page ! (n - 1))" by (simp add: last_map last_conv_nth)
    also have "?page ! (n - 1) = ?L ! (k + n - 1)" using that assms(3) by simp
    finally have l: "last (map g ?page) = g (?L ! (k + n - 1))" .
    have "?L ! (k + n - 1) \<in> set ?L" using that by (intro nth_mem) simp
    with g have "row_to_lot (?L ! (k + n - 1)) = Inr (g (?L ! (k + n - 1)))" by blast
    from row_to_lot_date [OF this] row_to_lot_id [OF this] l assms(3) show ?thesis by (simp add: page_cursor_def)
  qed
  have ids: "map lot_id (map g ?page) = map db_id ?page"
    using sub g row_to_lot_id by (fastforce intro: map_cong)
  let ?states = "if map g ?page = [] then Map.empty else us_get_many tab (map lot_id (map g ?page))"
  let ?items = "map (\<lambda>l. lot_to_user_dto l (?states (lot_id l)) now) (map g ?page)"
  have tk: "take n ?rows = ?page" by simp
  have ne: "map g ?page \<noteq> []" if "k + n < length ?L" using that assms(3) by auto
  have "search db subs tab now f (int n) (page_cursor ?L k) =
      Inr \<lparr>pg_items = ?items, pg_next_cursor = (if k + n < length ?L then page_cursor ?L (k + n) else None),
           pg_has_more = (k + n < length ?L)\<rparr>"
    using assms c lots more cur ne by (simp add: search_def pageable_def Let_def tk)
  moreover have "map lot_id ?items = map lot_id (map g ?page)" by simp
  ultimately show ?thesis using ids by (intro exI [of _ ?items]) simp
qed

text \<open>Following \<^verbatim>\<open>next_cursor\<close> from a first page; \<^verbatim>\<open>None\<close> when \<open>k\<close> pages were not enough.\<close>

fun browse ::
  "nat \<Rightarrow> lots_db \<Rightarrow> subscriptions \<Rightarrow> user_table \<Rightarrow> time \<Rightarrow> lot_filters \<Rightarrow> int \<Rightarrow> string option \<Rightarrow>
   lot_user_dto list res option" where
  "browse 0 db subs tab now f n cursor = None"
| "browse (Suc k) db subs tab now f n cursor =
     (case search db subs tab now f n cursor of
        Inl e \<Rightarrow> Some (Inl e)
      | Inr p \<Rightarrow>
          (case pg_next_cursor p of
             None \<Rightarrow> Some (Inr (pg_items p))
           | Some c \<Rightarrow>
               (case browse k db subs tab now f n (Some c) of
                  Some (Inr rest) \<Rightarrow> Some (Inr (pg_items p @ rest))
                | r \<Rightarrow> r)))"

lemma browse_from:
  assumes "pageable f subs db" "1 \<le> n" "n \<le> 200"
  shows "k \<le> length (catalogue f subs db) \<Longrightarrow> length (catalogue f subs db) - k < fuel \<Longrightarrow>
    \<exists>items. browse fuel db subs tab now f (int n) (page_cursor (catalogue f subs db) k) = Some (Inr items)
      \<and> map lot_id items = map db_id (drop k (catalogue f subs db))"
proof (induction fuel arbitrary: k)
  case (Suc fuel)
  let ?L = "catalogue f subs db"
  obtain items where p: "search db subs tab now f (int n) (page_cursor ?L k) =
      Inr \<lparr>pg_items = items, pg_next_cursor = (if k + n < length ?L then page_cursor ?L (k + n) else None),
           pg_has_more = (k + n < length ?L)\<rparr>" "map lot_id items = map db_id (take n (drop k ?L))"
    using search_page [OF assms(1) Suc.prems(1) assms(2,3)] by blast
  show ?case
  proof (cases "k + n < length ?L")
    case False
    with p show ?thesis by simp
  next
    case True
    have "k + n \<le> length ?L" "length ?L - (k + n) < fuel" using True Suc.prems(2) assms(2) by linarith+
    from Suc.IH [OF this] obtain rest where
      r: "browse fuel db subs tab now f (int n) (page_cursor ?L (k + n)) = Some (Inr rest)"
        "map lot_id rest = map db_id (drop (k + n) ?L)" by blast
    obtain c where c: "page_cursor ?L (k + n) = Some c" using assms(2) by (simp add: page_cursor_def)
    have "map db_id (take n (drop k ?L)) @ map db_id (drop (k + n) ?L) = map db_id (drop k ?L)"
      by (metis add.commute append_take_drop_id drop_drop map_append)
    with p r c True show ?thesis by simp
  qed
qed simp

subsection \<open>Properties\<close>

text \<open>
  C15. Paging is complete. For any page size from 1 to 200, following the cursors from the
  first page ends within one page more than there are lots and lists exactly the active lots
  the filters select, each once, newest first (by date, then by id), as many as the count says,
  however many lots share a date; no page is cut by the base64 cursor or by the text comparison
  of the dates.
\<close>

theorem pages_cover_catalogue:
  assumes "pageable f subs db" "1 \<le> n" "n \<le> 200"
  shows "\<exists>items rows. browse (Suc (length (ld_rows db))) db subs tab now f (int n) None = Some (Inr items)
     \<and> map lot_id items = map db_id rows
     \<and> set rows = {r \<in> set (ld_rows db). where_clause f subs r} \<and> distinct (map db_id rows)
     \<and> sorted_wrt (\<lambda>r s. db_date_create s < db_date_create r
          \<or> (db_date_create s = db_date_create r \<and> db_id s < db_id r)) rows
     \<and> count_lots db subs f = Inr (length items)"
proof -
  let ?L = "catalogue f subs db"
  note L = catalogue_facts [OF assms(1)]
  have "length ?L < Suc (length (ld_rows db))" 
    by (metis L(4) length_filter_le le_imp_less_Suc)
  then obtain items where b: "browse (Suc (length (ld_rows db))) db subs tab now f (int n) None = Some (Inr items)"
    "map lot_id items = map db_id ?L"
    using browse_from [OF assms, of 0 "Suc (length (ld_rows db))"] by (auto simp: page_cursor_def)
  have cal: "\<forall>r \<in> set ?L. calendar_row r" using L(3) assms(1) by (auto simp: pageable_def)
  have "sorted_wrt (\<lambda>r s. db_date_create s < db_date_create r
          \<or> (db_date_create s = db_date_create r \<and> db_id s < db_id r)) ?L"
    by (rule sorted_wrt_mono_rel [OF _ L(1)]) (use cal row_before_iff in blast)
  moreover have "count_lots db subs f = Inr (length items)"
    using assms(1) L(4) arg_cong [OF b(2), of length] by (simp add: count_lots_def pageable_def)
  ultimately show ?thesis using b L by (intro exI [of _ items] exI [of _ ?L]) simp
qed

definition plain_filters :: lot_filters where
  "plain_filters = \<lparr>lf_regions = [], lf_subject_display_names = [], lf_area_sqm_min = None, lf_area_sqm_max = None,
     lf_status = None, lf_fts_query = None, lf_apply_subscription_cutoff = False, lf_filter_subscribed_subjects = False\<rparr>"

definition dated_lot :: "int \<Rightarrow> time \<Rightarrow> lot" where
  "dated_lot i d = (sample_lot i)\<lparr>lot_date_create := d\<rparr>"

definition dated_db :: lots_db where
  "dated_db = empty_db\<lparr>ld_rows := map (\<lambda>l. inserted_row l False) [dated_lot 1 0, dated_lot 2 us_per_day, dated_lot 3 0]\<rparr>"

lemma dated_db_pageable: "pageable plain_filters [] dated_db"
  by (simp add: pageable_def plain_filters_def dated_db_def dated_lot_def empty_db_def calendar_row_def in_calendar_epoch
      inserted_row_def row_to_lot_def)

theorem pages_cover_catalogue_witness:
  "\<exists>items. browse 4 dated_db [] [] 0 plain_filters 1 None = Some (Inr items) \<and> length items = 3"
proof -
  have c: "count_lots dated_db [] plain_filters = Inr 3"
    by (simp add: count_lots_def plain_filters_def where_clause_def dated_db_def empty_db_def inserted_row_def
        dated_lot_def sample_lot_def parsed_row_to_lot_def sql_at_least_def sql_at_most_def)
  have l: "Suc (length (ld_rows dated_db)) = 4" by (simp add: dated_db_def)
  from pages_cover_catalogue [OF dated_db_pageable, of 1 "[]" 0] show ?thesis
    unfolding l by (auto simp: c)
qed

end
