(* ===== verification/View_Filters.thy ===== *)
theory View_Filters
  imports Lot_Query
begin

text \<open>
  What the user has narrowed the feed to: the validated \<^verbatim>\<open>ViewFilters\<close>
  (\<^verbatim>\<open>services/view_filters.py\<close>), the form that sets them (\<^verbatim>\<open>web/routes/filters.py\<close>), their
  reading as a page query (\<^verbatim>\<open>web/feed_context.py\<close>, \<^verbatim>\<open>/feed/more\<close>), and the predicate of a live
  event stream (\<^verbatim>\<open>services/sse_view_filter.py\<close>, \<^verbatim>\<open>web/routes/events.py\<close>). Subjects and form
  values are ASCII texts; the cookie is the value it decodes to, \<^verbatim>\<open>None\<close> when it does not.
\<close>

subsection \<open>The filters\<close>

record view_filters =
  vf_subjects :: "string list"
  vf_area_min :: "int option"
  vf_area_max :: "int option"
  vf_only_new :: bool

definition default_filters :: view_filters where
  "default_filters = \<lparr>vf_subjects = [], vf_area_min = None, vf_area_max = None, vf_only_new = False\<rparr>"

definition area_range_consistent :: "view_filters \<Rightarrow> bool" where
  "area_range_consistent vf =
     (case (vf_area_min vf, vf_area_max vf) of (Some a, Some b) \<Rightarrow> \<not> b < a | _ \<Rightarrow> True)"

definition mk_view_filters :: "view_filters \<Rightarrow> view_filters res" where
  "mk_view_filters vf =
     (if 50 < length (vf_subjects vf) \<or> (\<exists>s \<in> set (vf_subjects vf). 128 < length s)
         \<or> (case vf_area_min vf of None \<Rightarrow> False | Some a \<Rightarrow> a < 0)
         \<or> (case vf_area_max vf of None \<Rightarrow> False | Some b \<Rightarrow> b < 0)
      then Inl ValidationError
      else if \<not> area_range_consistent vf then Inl ValidationError
      else Inr vf)"

definition HTTP_422 :: exc where "HTTP_422 = OtherException ''HTTPException(422)''"

definition parse_int_or_none :: "string option \<Rightarrow> int option res" where
  "parse_int_or_none v =
     (case v of
        None \<Rightarrow> Inr None
      | Some s \<Rightarrow>
          (if s = '''' then Inr None
           else (case int_of_str s of
                   Inl _ \<Rightarrow> Inl HTTP_422
                 | Inr i \<Rightarrow> if i < 0 then Inl HTTP_422 else Inr (Some i))))"

definition form_filters ::
  "string list \<Rightarrow> string option \<Rightarrow> string option \<Rightarrow> string option \<Rightarrow> view_filters res" where
  "form_filters subjects area_min area_max only_new =
     (if 50 < length subjects then Inl HTTP_422
      else if \<exists>s \<in> set subjects. 128 < length s then Inl HTTP_422
      else res_bind (parse_int_or_none area_min) (\<lambda>a.
           res_bind (parse_int_or_none area_max) (\<lambda>b.
             (case mk_view_filters \<lparr>vf_subjects = subjects, vf_area_min = a, vf_area_max = b,
                                    vf_only_new = (only_new \<noteq> None)\<rparr> of
                Inl _ \<Rightarrow> Inl HTTP_422
              | Inr vf \<Rightarrow> Inr vf))))"

subsection \<open>The page\<close>

fun site_ids :: "string list \<Rightarrow> int list" where
  "site_ids [] = []"
| "site_ids (s # ss) = (case int_of_str s of Inl _ \<Rightarrow> site_ids ss | Inr i \<Rightarrow> i # site_ids ss)"

definition view_filters_to_lot_filters :: "view_filters \<Rightarrow> lot_filters" where
  "view_filters_to_lot_filters vf =
     \<lparr>lf_regions = [],
      lf_subject_display_names = List.map_filter (map_of SUBJECT_TITLE_BY_ID) (site_ids (vf_subjects vf)),
      lf_area_sqm_min = map_option of_int (vf_area_min vf),
      lf_area_sqm_max = map_option of_int (vf_area_max vf),
      lf_status = None, lf_fts_query = None,
      lf_apply_subscription_cutoff = False, lf_filter_subscribed_subjects = True\<rparr>"

definition filters_are_active :: "view_filters \<Rightarrow> bool" where
  "filters_are_active vf \<longleftrightarrow> vf_subjects vf \<noteq> [] \<or> vf_area_min vf \<noteq> None \<or> vf_area_max vf \<noteq> None \<or> vf_only_new vf"

definition lot_passes_only_new :: "lot_user_dto \<Rightarrow> bool \<Rightarrow> bool" where
  "lot_passes_only_new dto only_new = (if \<not> only_new then True else dto_seen_at dto = None)"

definition assemble_feed_zones :: "lot_user_dto list \<Rightarrow> view_filters \<Rightarrow> lot_user_dto list \<times> nat" where
  "assemble_feed_zones items vf = (filter (\<lambda>dto. lot_passes_only_new dto (vf_only_new vf)) items, 0)"

definition FEED_PAGE_SIZE :: int where "FEED_PAGE_SIZE = 200"

record feed_context =
  fc_today :: "lot_user_dto list"
  fc_archive_count :: nat
  fc_next_cursor :: "string option"
  fc_lot_count :: nat
  fc_active_lot_count :: nat
  fc_filters_active :: bool

definition build_feed_context ::
  "lots_db \<Rightarrow> subscriptions \<Rightarrow> user_table \<Rightarrow> time \<Rightarrow> view_filters \<Rightarrow> nat \<Rightarrow> feed_context res" where
  "build_feed_context db subs tab now vf active_lot_count =
     (let f = view_filters_to_lot_filters vf in
      res_bind (search db subs tab now f FEED_PAGE_SIZE None) (\<lambda>p.
      res_bind (count_lots db subs f) (\<lambda>lot_count.
        let (today, archive_count) = assemble_feed_zones (pg_items p) vf
        in Inr \<lparr>fc_today = today, fc_archive_count = archive_count, fc_next_cursor = pg_next_cursor p,
                fc_lot_count = lot_count, fc_active_lot_count = active_lot_count,
                fc_filters_active = filters_are_active vf\<rparr>)))"

text \<open>\<^verbatim>\<open>GET /feed/more\<close>: the visible lots of the page, its cursor and the running counter.\<close>

definition feed_more ::
  "lots_db \<Rightarrow> subscriptions \<Rightarrow> user_table \<Rightarrow> time \<Rightarrow> view_filters option \<Rightarrow> string \<Rightarrow> nat \<Rightarrow>
   (lot_user_dto list \<times> string option \<times> nat) res" where
  "feed_more db subs tab now cookie cursor shown =
     (let vf = (case cookie of None \<Rightarrow> default_filters | Some v \<Rightarrow> v) in
      (case search db subs tab now (view_filters_to_lot_filters vf) FEED_PAGE_SIZE (Some cursor) of
         Inl e \<Rightarrow> Inl (if e = ValueError \<or> e = ValidationError then HTTP_422 else e)
       | Inr p \<Rightarrow>
           (let visible = filter (\<lambda>dto. lot_passes_only_new dto (vf_only_new vf)) (pg_items p)
            in Inr (visible, pg_next_cursor p, shown + length visible))))"

text \<open>\<^verbatim>\<open>POST /filters/view\<close>: the new cookie and the first page under it.\<close>

definition post_view_filters ::
  "lots_db \<Rightarrow> subscriptions \<Rightarrow> user_table \<Rightarrow> time \<Rightarrow> string list \<Rightarrow> string option \<Rightarrow> string option \<Rightarrow>
   string option \<Rightarrow> (view_filters \<times> feed_context) res" where
  "post_view_filters db subs tab now subjects area_min area_max only_new =
     res_bind (form_filters subjects area_min area_max only_new) (\<lambda>vf.
     res_bind (build_feed_context db subs tab now vf (lr_count_active [] db)) (\<lambda>ctx. Inr (vf, ctx)))"

subsection \<open>The live stream\<close>

definition is_default :: "view_filters \<Rightarrow> bool" where
  "is_default vf \<longleftrightarrow> vf_subjects vf = [] \<and> vf_area_min vf = None \<and> vf_area_max vf = None"

definition make_sse_view_filter :: "view_filters \<Rightarrow> sse_event \<Rightarrow> bool" where
  "make_sse_view_filter vf event =
     (if is_default vf then True
      else
        (let subject_ids = set (site_ids (vf_subjects vf)) in
         (case event of
            SseLotNew l _ \<Rightarrow>
              (if subject_ids \<noteq> {} \<and> (case lot_region_id l of None \<Rightarrow> True | Some g \<Rightarrow> g \<notin> subject_ids) then False
               else if (case (vf_area_min vf, lot_area_sqm l) of (Some b, Some a) \<Rightarrow> a < b | _ \<Rightarrow> False) then False
               else if (case (vf_area_max vf, lot_area_sqm l) of (Some b, Some a) \<Rightarrow> b < a | _ \<Rightarrow> False) then False
               else True)
          | _ \<Rightarrow> True)))"

definition make_sse_membership_filter :: "int set \<Rightarrow> sse_event \<Rightarrow> bool" where
  "make_sse_membership_filter subscribed event =
     (case event of
        SseLotNew l _ \<Rightarrow> (case lot_region_id l of None \<Rightarrow> True | Some g \<Rightarrow> g \<in> subscribed)
      | _ \<Rightarrow> True)"

definition build_event_filter :: "view_filters option \<Rightarrow> int set \<Rightarrow> sse_event \<Rightarrow> bool" where
  "build_event_filter cookie subscribed event =
     (case cookie of
        None \<Rightarrow> make_sse_membership_filter subscribed event
      | Some vf \<Rightarrow> make_sse_membership_filter subscribed event \<and> make_sse_view_filter vf event)"

subsection \<open>The two readings of the filters agree\<close>

lemma catalog_entry: "map_of SUBJECT_TITLE_BY_ID i = Some t \<longleftrightarrow> subject_id_by_title (Some t) = Some i"
proof -
  have "distinct (map fst SUBJECT_TITLE_BY_ID)" by (simp add: SUBJECT_TITLE_BY_ID_def)
  then show ?thesis by (simp add: subject_id_by_title_iff)
qed

lemma in_map_filter: "t \<in> set (List.map_filter f xs) \<longleftrightarrow> (\<exists>x \<in> set xs. f x = Some t)"
  by (induction xs) (auto simp: map_filter_simps split: option.splits)

lemma subject_names:
  "t \<in> set (lf_subject_display_names (view_filters_to_lot_filters vf)) \<longleftrightarrow>
     (case subject_id_by_title (Some t) of None \<Rightarrow> False | Some g \<Rightarrow> g \<in> set (site_ids (vf_subjects vf)))"
  by (auto simp: view_filters_to_lot_filters_def in_map_filter catalog_entry split: option.splits)

lemma int_of_decimal_of_int [simp]: "int_of_decimal (of_int i) = i"
  by (simp add: int_of_decimal_def)

lemma area_conditions:
  "sql_at_least v (map_option of_int bound) \<longleftrightarrow> (case bound of None \<Rightarrow> True | Some b \<Rightarrow> v \<noteq> None \<and> b \<le> the v)"
  "sql_at_most v (map_option of_int bound) \<longleftrightarrow> (case bound of None \<Rightarrow> True | Some b \<Rightarrow> v \<noteq> None \<and> the v \<le> b)"
  by (auto simp: sql_at_least_def sql_at_most_def split: option.splits)

text \<open>An area that is not known yet passes the stream and not the page.\<close>

definition area_decided :: "view_filters \<Rightarrow> int option \<Rightarrow> bool" where
  "area_decided vf area \<longleftrightarrow> area \<noteq> None \<or> (vf_area_min vf = None \<and> vf_area_max vf = None)"

text \<open>Some chosen subject is in the catalogue, or no chosen text is a number.\<close>

definition subjects_decided :: "view_filters \<Rightarrow> bool" where
  "subjects_decided vf \<longleftrightarrow>
     site_ids (vf_subjects vf) = [] \<or> lf_subject_display_names (view_filters_to_lot_filters vf) \<noteq> []"

lemma stream_filter_lot:
  "make_sse_view_filter vf (SseLotNew l b) \<longleftrightarrow>
     (site_ids (vf_subjects vf) = [] \<or> (\<exists>g \<in> set (site_ids (vf_subjects vf)). lot_region_id l = Some g))
     \<and> (case (vf_area_min vf, lot_area_sqm l) of (Some m, Some a) \<Rightarrow> m \<le> a | _ \<Rightarrow> True)
     \<and> (case (vf_area_max vf, lot_area_sqm l) of (Some m, Some a) \<Rightarrow> a \<le> m | _ \<Rightarrow> True)"
  by (auto simp: make_sse_view_filter_def is_default_def Let_def split: option.splits)

text \<open>
  C17. The page and the live stream decide alike. For an active stored lot whose subject is the
  one its region title names, the page query lists it under the user's filters exactly when the
  connection's predicate forwards its \<^verbatim>\<open>lot.new\<close> event: subscribed region or none, one of the
  chosen subjects, area within the bounds. The two exceptions are excluded by hypothesis: an
  unknown area with a bound set, and a choice of numbers none of which the catalogue knows.
\<close>

theorem page_and_stream_agree:
  assumes "row_to_lot r = Inr (lot.truncate l)" "db_is_active r = 1"
    and "db_region_id r = subject_id_by_title (Some (db_region r))"
    and "area_decided vf (db_area_sqm r)" "subjects_decided vf"
  shows "where_clause (view_filters_to_lot_filters vf) subs r
    \<longleftrightarrow> build_event_filter (Some vf) (list_subscribed_region_ids subs) (SseLotNew l backfill)"
proof -
  have l: "lot_region_id l = db_region_id r" "lot_area_sqm l = db_area_sqm r"
    using assms(1) by (auto simp: row_to_lot_def res_bind_Inr_iff lot.truncate_def)
  have member: "make_sse_membership_filter (list_subscribed_region_ids subs) (SseLotNew l backfill) \<longleftrightarrow>
      (case db_region_id r of None \<Rightarrow> True | Some g \<Rightarrow> g \<in> list_subscribed_region_ids subs)"
    by (simp add: make_sse_membership_filter_def l)
  have subj: "(lf_subject_display_names (view_filters_to_lot_filters vf) = []
       \<or> db_region r \<in> set (lf_subject_display_names (view_filters_to_lot_filters vf)))
     \<longleftrightarrow> (site_ids (vf_subjects vf) = [] \<or> (\<exists>g \<in> set (site_ids (vf_subjects vf)). lot_region_id l = Some g))"
    using assms(3,5) unfolding subject_names l
    by (auto simp: subjects_decided_def view_filters_to_lot_filters_def map_filter_def split: option.splits)
  show ?thesis
    using assms(2,4) member subj unfolding build_event_filter_def where_clause_def stream_filter_lot
    by (auto simp: view_filters_to_lot_filters_def area_conditions area_decided_def l split: option.splits)
qed

definition chosen_filters :: view_filters where
  "chosen_filters = \<lparr>vf_subjects = [''34'', ''999''], vf_area_min = Some 100, vf_area_max = None, vf_only_new = False\<rparr>"

text \<open>A lot of site-id 34 of 10000 square metres, as it is announced.\<close>

definition announced :: lot_public where
  "announced = lot.extend ((sample_lot 5)\<lparr>lot_region := the (map_of SUBJECT_TITLE_BY_ID 34), lot_region_id := Some 34,
       lot_area_sqm := Some 10000\<rparr>) (lot_public.fields 0 Tier_match Hot)"

theorem page_and_stream_agree_witness:
  "where_clause (view_filters_to_lot_filters chosen_filters) [(34, 0)] (inserted_row (lot.truncate announced) False)
    \<longleftrightarrow> build_event_filter (Some chosen_filters) {34} (SseLotNew announced False)"
proof -
  let ?r = "inserted_row (lot.truncate announced) False"
  obtain title where t: "map_of SUBJECT_TITLE_BY_ID 34 = Some title" by (simp add: SUBJECT_TITLE_BY_ID_def)
  have ids: "site_ids (vf_subjects chosen_filters) = [34, 999]" by (simp add: chosen_filters_def) code_simp
  have r: "db_is_active ?r = 1" "db_region_id ?r = Some 34" "db_region ?r = title" "db_area_sqm ?r = Some 10000"
    by (simp_all add: announced_def inserted_row_def lot.truncate_def lot.defs sample_lot_def parsed_row_to_lot_def t)
  have "title \<in> set (lf_subject_display_names (view_filters_to_lot_filters chosen_filters))"
    unfolding subject_names ids using t by (simp add: catalog_entry)
  then have "subjects_decided chosen_filters" by (auto simp: subjects_decided_def)
  then show ?thesis
    using r page_and_stream_agree [of ?r announced chosen_filters "[(34, 0)]" False] t
    by (simp add: area_decided_def list_subscribed_region_ids_def catalog_entry)
qed

text \<open>What the two readings do where the hypotheses fail.\<close>

lemma unknown_area_diverges:
  assumes "db_area_sqm r = None" "vf_area_min vf \<noteq> None"
  shows "\<not> where_clause (view_filters_to_lot_filters vf) subs r"
    and "vf_subjects vf = [] \<Longrightarrow> lot_area_sqm l = None \<Longrightarrow> make_sse_view_filter vf (SseLotNew l b)"
  using assms by (auto simp: where_clause_def view_filters_to_lot_filters_def area_conditions stream_filter_lot
      split: option.splits)

text \<open>
  A stale choice of subjects, none of which the catalogue knows: the page lists every subject,
  the stream forwards no lot.
\<close>

lemma stale_subjects_diverge:
  assumes "\<forall>i \<in> set (site_ids (vf_subjects vf)). map_of SUBJECT_TITLE_BY_ID i = None"
    and "site_ids (vf_subjects vf) \<noteq> []" "lot_region_id l = subject_id_by_title (Some (lot_region l))"
  shows "lf_subject_display_names (view_filters_to_lot_filters vf) = []"
    and "\<not> make_sse_view_filter vf (SseLotNew l b)"
proof -
  have no: "subject_id_by_title (Some t) = Some i \<Longrightarrow> i \<notin> set (site_ids (vf_subjects vf))" for t i
    using assms(1) catalog_entry [of i t] by auto
  then show "\<not> make_sse_view_filter vf (SseLotNew l b)" using assms(2,3) by (auto simp: stream_filter_lot)
  show "lf_subject_display_names (view_filters_to_lot_filters vf) = []"
    using assms(1) by (auto simp: view_filters_to_lot_filters_def map_filter_def filter_empty_conv)
qed

subsection \<open>Only new lots\<close>

text \<open>
  No operation writes \<^verbatim>\<open>seen_at\<close>, so the filter on it never hides a lot: with \<^verbatim>\<open>only_new\<close> or
  without, the page is the same.
\<close>

lemma only_new_hides_nothing:
  assumes "search db subs (fold (mark_step db') ops []) now f n cursor = Inr p"
  shows "assemble_feed_zones (pg_items p) vf = (pg_items p, 0)"
proof -
  let ?tab = "fold (mark_step db') ops []"
  have tab: "distinct (map us_lot_id ?tab) \<and> (\<forall>r \<in> set ?tab. us_seen_at r = None)" by (rule mark_steps_rows) simp_all
  have seen: "us_get_many ?tab ids i = Some u \<Longrightarrow> us_seen_at u = None" for ids i u
    using tab by (auto simp: us_get_many_eq us_get_def split: if_splits dest: find_SomeD)
  have none: "dto_seen_at (lot_to_user_dto l (us_get_many ?tab ids i) now) = None" for l ids i
    using seen [of ids i] by (cases "us_get_many ?tab ids i") auto
  have "\<forall>dto \<in> set (pg_items p). dto_seen_at dto = None"
    using assms none by (auto simp: search_def res_bind_Inr_iff Let_def split: if_splits)
  then show ?thesis by (simp add: assemble_feed_zones_def lot_passes_only_new_def filter_id_conv)
qed

end
