(* ===== verification/Sse_Stream.thy ===== *)
theory Sse_Stream
  imports View_Filters Event_Bus
begin

text \<open>
  The event stream of one browser tab: the frames of \<^verbatim>\<open>web/sse_encoder.py\<close> and
  \<^verbatim>\<open>infra/sse/sse_stream.py\<close>, and the generator \<^verbatim>\<open>SseStreamer.stream\<close> over the bus. A frame is
  its text; the bytes on the wire are its UTF-8. The JSON of an event (\<open>json\<close>, pydantic) and
  the rendered fragment (\<open>render\<close>, Jinja2, which may raise) are parameters. A turn of the
  generator's loop is what the rest of the program does to the bus before and during the wait,
  and the reading of the shutdown flag after it; no further turn means the client is gone.
\<close>

subsection \<open>Frames\<close>

abbreviation u :: "string \<Rightarrow> ustr" where "u s \<equiv> map of_char s"

fun split_lf :: "ustr \<Rightarrow> ustr list" where
  "split_lf [] = [[]]"
| "split_lf (c # cs) = (if c = 10 then [] # split_lf cs else (c # hd (split_lf cs)) # tl (split_lf cs))"

fun join_lf :: "ustr list \<Rightarrow> ustr" where
  "join_lf [] = []"
| "join_lf [l] = l"
| "join_lf (l # ls) = l @ 10 # join_lf ls"

definition sse_frame :: "string \<Rightarrow> ustr \<Rightarrow> ustr" where
  "sse_frame name payload =
     u ''event: '' @ u name @ [10] @ join_lf (map (\<lambda>line. u ''data: '' @ line) (split_lf payload)) @ [10, 10]"

definition encode_ping :: ustr where
  "encode_ping = u ''event: ping'' @ [10] @ u ''data: '' @ [10, 10]"

definition KNOWN_SSE_EVENTS :: "string list" where
  "KNOWN_SSE_EVENTS = [''cycle.error'', ''smtp.failed'', ''session.expired'', ''lot.new'', ''lot.status'',
     ''cycle.done'', ''cycle.started'', ''status'', ''login.succeeded'', ''license.expired'']"

definition encode_sse_event :: "(sse_event \<Rightarrow> ustr) \<Rightarrow> sse_event \<Rightarrow> ustr" where
  "encode_sse_event json e =
     (if event_name e \<notin> set KNOWN_SSE_EVENTS then [] else sse_frame (event_name e) (json e))"

text \<open>The events rendered as HTML; \<^verbatim>\<open>fragment_template\<close> is always \<^verbatim>\<open>poster\<close>.\<close>

definition html_encode :: "(sse_event \<Rightarrow> ustr res) \<Rightarrow> (sse_event \<Rightarrow> ustr) \<Rightarrow> sse_event \<Rightarrow> ustr res" where
  "html_encode render json e =
     (case e of
        SseCycleDone _ _ _ _ _ _ _ \<Rightarrow> res_bind (render e) (\<lambda>html. Inr (sse_frame (event_name e) html))
      | SseStatus _ _ _ _ _ \<Rightarrow> res_bind (render e) (\<lambda>html. Inr (sse_frame (event_name e) html))
      | SseLoginSucceeded _ \<Rightarrow> res_bind (render e) (\<lambda>html. Inr (sse_frame (event_name e) html))
      | SseLotNew _ _ \<Rightarrow> res_bind (render e) (\<lambda>html. Inr (sse_frame (event_name e) html))
      | _ \<Rightarrow> Inr (encode_sse_event json e))"

subsection \<open>The generator\<close>

definition drain_one :: "nat \<Rightarrow> bus \<Rightarrow> bus \<times> sse_event list option" where
  "drain_one i b =
     (case wait_one i b of
        (b1, None) \<Rightarrow> (b1, if i < length (b_subs b1) \<and> s_alive (b_subs b1 ! i) then Some [] else None)
      | (b1, Some e) \<Rightarrow> (drain_iter i b1, Some (e # s_queue (b_subs b1 ! i))))"

record turn =
  t_ops :: "bus_op list"
  t_shutting_down :: bool

text \<open>The frames of one batch, and whether the encoder raised.\<close>

fun emit_batch :: "(sse_event \<Rightarrow> bool res) option \<Rightarrow> (sse_event \<Rightarrow> ustr res) \<Rightarrow> sse_event list \<Rightarrow> ustr list \<times> bool" where
  "emit_batch flt enc [] = ([], False)"
| "emit_batch flt enc (e # es) =
     (if (case flt of None \<Rightarrow> False | Some f \<Rightarrow> f e = Inr False) then emit_batch flt enc es
      else
        (case enc e of
           Inl _ \<Rightarrow> ([], True)
         | Inr encoded \<Rightarrow>
             (let (out, raised) = emit_batch flt enc es
              in (if encoded = [] then out else encoded # out, raised))))"

fun stream_loop ::
  "(sse_event \<Rightarrow> bool res) option \<Rightarrow> (sse_event \<Rightarrow> ustr res) \<Rightarrow> nat \<Rightarrow> turn list \<Rightarrow> bus \<Rightarrow> bus \<times> ustr list" where
  "stream_loop flt enc i [] b = (b, [])"
| "stream_loop flt enc i (t # ts) b =
     (let (b1, events) = drain_one i (fold bus_step (t_ops t) b)
      in if t_shutting_down t then (b1, [])
         else (case events of
                 None \<Rightarrow> (b1, [])
               | Some [] \<Rightarrow> (let (b2, out) = stream_loop flt enc i ts b1 in (b2, encode_ping # out))
               | Some es \<Rightarrow>
                   (let (out, raised) = emit_batch flt enc es
                    in if raised then (b1, out)
                       else (let (b2, out') = stream_loop flt enc i ts b1 in (b2, out @ out')))))"

text \<open>The whole connection: the bus afterwards, the frames, the count of active subscribers.\<close>

definition stream ::
  "(sse_event \<Rightarrow> bool res) option \<Rightarrow> (sse_event \<Rightarrow> ustr res) \<Rightarrow> time \<Rightarrow> turn list \<Rightarrow> bus \<times> int \<Rightarrow>
   (bus \<times> int) \<times> ustr list" where
  "stream flt enc now ts st =
     (let (b, active) = st;
          (b1, i) = subscribe now b;
          (b2, out) = stream_loop flt enc i ts b1
      in ((remove_subscriber i b2, (active + 1) - 1), encode_ping # out))"

subsection \<open>The reader in the browser\<close>

text \<open>
  How a browser reads an event stream, as a reference: lines end at LF, CR or CR LF, an empty
  line dispatches the data collected since the last one, an unfinished event is dropped.
\<close>

function es_lines :: "ustr \<Rightarrow> ustr \<Rightarrow> ustr list" where
  "es_lines cur [] = []"
| "es_lines cur (c # cs) =
     (if c = 10 then cur # es_lines [] cs
      else if c = 13 then cur # es_lines [] (if cs \<noteq> [] \<and> hd cs = 10 then tl cs else cs)
      else es_lines (cur @ [c]) cs)"
  by pat_completeness auto
termination by (relation "measure (length \<circ> snd)") auto

definition es_value :: "ustr \<Rightarrow> ustr" where
  "es_value l = (let v = drop 1 (dropWhile (\<lambda>c. c \<noteq> 58) l) in if v \<noteq> [] \<and> hd v = 32 then tl v else v)"

fun es_run :: "ustr \<Rightarrow> ustr \<Rightarrow> ustr list \<Rightarrow> (ustr \<times> ustr) list" where
  "es_run name payload [] = []"
| "es_run name payload (l # ls) =
     (if l = [] then
        (if payload = [] then es_run [] [] ls
         else (if name = [] then u ''message'' else name, butlast payload) # es_run [] [] ls)
      else if takeWhile (\<lambda>c. c \<noteq> 58) l = u ''event'' then es_run (es_value l) payload ls
      else if takeWhile (\<lambda>c. c \<noteq> 58) l = u ''data'' then es_run name (payload @ es_value l @ [10]) ls
      else es_run name payload ls)"

definition es_parse :: "ustr \<Rightarrow> (ustr \<times> ustr) list" where
  "es_parse wire = es_run [] [] (es_lines [] wire)"

definition ended :: "ustr \<Rightarrow> ustr" where "ended l = l @ [10]"

lemma es_lines_line: "10 \<notin> set l \<Longrightarrow> 13 \<notin> set l \<Longrightarrow> es_lines cur (ended l @ s) = (cur @ l) # es_lines [] s"
  by (induction l arbitrary: cur) (auto simp: ended_def)

lemma es_lines_lines:
  "\<forall>l \<in> set ls. 10 \<notin> set l \<and> 13 \<notin> set l \<Longrightarrow> es_lines [] (concat (map ended ls) @ s) = ls @ es_lines [] s"
  by (induction ls) (simp_all add: es_lines_line)

lemma split_lf_nonempty [simp]: "split_lf s \<noteq> []"
  by (cases s) auto

lemma split_lf_lines: "concat (map ended (split_lf s)) = ended s"
proof (induction s)
  case (Cons c s)
  obtain l ls where "split_lf s = l # ls" by (cases "split_lf s") (simp_all add: split_lf_nonempty)
  with Cons show ?case by (simp add: ended_def)
qed (simp add: ended_def)

lemma split_lf_no_lf: "l \<in> set (split_lf s) \<Longrightarrow> 10 \<notin> set l \<and> set l \<subseteq> set s"
proof (induction s arbitrary: l)
  case (Cons c s)
  obtain k ks where "split_lf s = k # ks" by (cases "split_lf s") (simp_all add: split_lf_nonempty)
  with Cons.prems Cons.IH [of k] Cons.IH [of l] show ?case by (auto split: if_splits)
qed simp

lemma join_lf_ended: "ls \<noteq> [] \<Longrightarrow> join_lf ls @ [10] = concat (map ended ls)"
  by (induction ls rule: join_lf.induct) (simp_all add: ended_def)

lemma sse_frame_lines:
  "sse_frame name payload = concat (map ended ((u ''event: '' @ u name) # map (\<lambda>l. u ''data: '' @ l) (split_lf payload) @ [[]]))"
proof -
  let ?ls = "map (\<lambda>l. u ''data: '' @ l) (split_lf payload)"
  have "join_lf ?ls @ [10, 10] = (join_lf ?ls @ [10]) @ [10]" by simp
  also have "\<dots> = concat (map ended ?ls) @ [10]" by (subst join_lf_ended) simp_all
  finally show ?thesis by (simp add: sse_frame_def ended_def)
qed

lemma es_run_data:
  "es_run name payload (map (\<lambda>l. u ''data: '' @ l) ls @ rest) = es_run name (payload @ concat (map ended ls)) rest"
  by (induction ls arbitrary: payload) (simp_all add: es_value_def ended_def)

lemma ping_frame: "encode_ping = sse_frame ''ping'' []"
  by (simp add: encode_ping_def sse_frame_def)

definition plain_name :: "string \<Rightarrow> bool" where
  "plain_name n \<longleftrightarrow> n \<noteq> [] \<and> (\<forall>c \<in> set n. (of_char c :: nat) \<noteq> 10 \<and> (of_char c :: nat) \<noteq> 13)"

lemma es_run_frame:
  "n \<noteq> [] \<Longrightarrow> es_run [] [] ((u ''event: '' @ u n) # map (\<lambda>l. u ''data: '' @ l) (split_lf payload) @ [] # ls)
     = (u n, payload) # es_run [] [] ls"
  using es_run_data [of "u n" "[]" "split_lf payload" "[] # ls"] by (simp add: es_value_def split_lf_lines ended_def)

lemma es_parse_frame:
  assumes "plain_name n" "13 \<notin> set payload"
  shows "es_parse (sse_frame n payload @ s) = (u n, payload) # es_parse s"
proof -
  let ?ls = "(u ''event: '' @ u n) # map (\<lambda>l. u ''data: '' @ l) (split_lf payload) @ [[]]"
  have "\<forall>l \<in> set ?ls. 10 \<notin> set l \<and> 13 \<notin> set l"
    using assms split_lf_no_lf [of _ payload] by (fastforce simp: plain_name_def)
  then have "es_lines [] (sse_frame n payload @ s) = ?ls @ es_lines [] s"
    unfolding sse_frame_lines by (rule es_lines_lines)
  moreover have "n \<noteq> []" using assms(1) by (simp add: plain_name_def)
  note es_run_frame [OF this, of payload "es_lines [] s"]
  ultimately show ?thesis unfolding es_parse_def by simp
qed

text \<open>Frames are read back as they were written.\<close>

lemma es_parse_frames:
  "\<forall>(n, payload) \<in> set fs. plain_name n \<and> 13 \<notin> set payload \<Longrightarrow>
     es_parse (concat (map (\<lambda>(n, payload). sse_frame n payload) fs)) = map (\<lambda>(n, payload). (u n, payload)) fs"
  by (induction fs) (auto simp: es_parse_frame, simp add: es_parse_def)

lemma event_name_plain: "plain_name (event_name e)" "event_name e \<in> set KNOWN_SSE_EVENTS" "event_name e \<noteq> ''ping''"
  by (cases e; simp add: plain_name_def KNOWN_SSE_EVENTS_def)+

subsection \<open>The handle of the stream\<close>

text \<open>Only the stream reads its handle; everything else may publish, subscribe and remove.\<close>

fun hands_off :: "nat \<Rightarrow> bus_op \<Rightarrow> bool" where
  "hands_off i (Publish mt dr e) = (\<not> dr i)"
| "hands_off i (Wait j) = (j \<noteq> i)"
| "hands_off i (Drain j) = (j \<noteq> i)"
| "hands_off i _ = True"

lemma taken_step:
  assumes "bus_inv b" "i < length (b_subs b)" "hands_off i c"
  shows "bus_inv (bus_step c b) \<and> i < length (b_subs (bus_step c b))
    \<and> s_taken (b_subs (bus_step c b) ! i) = s_taken (b_subs b ! i)"
proof -
  have "i < length (b_subs (bus_step c b)) \<and> s_taken (b_subs (bus_step c b) ! i) = s_taken (b_subs b ! i)"
    using assms
    by (cases c)
      (auto simp: publish_def publish_normal_spec publish_critical_spec subscribe_spec Let_def nth_append
        deliver_normal_def enqueue_def remove_subscriber_nth wait_one_def drain_iter_def update_sub_nth
        evict_normal_replay_def split: priority.split)
  with bus_step_inv [OF assms(1)] show ?thesis by blast
qed

lemma taken_fold:
  "bus_inv b \<Longrightarrow> i < length (b_subs b) \<Longrightarrow> \<forall>c \<in> set ops. hands_off i c \<Longrightarrow>
    bus_inv (fold bus_step ops b) \<and> i < length (b_subs (fold bus_step ops b))
    \<and> s_taken (b_subs (fold bus_step ops b) ! i) = s_taken (b_subs b ! i)"
proof (induction ops arbitrary: b)
  case (Cons c ops)
  have st: "bus_inv (bus_step c b) \<and> i < length (b_subs (bus_step c b))
    \<and> s_taken (b_subs (bus_step c b) ! i) = s_taken (b_subs b ! i)"
    using taken_step [of b i c] Cons.prems by simp
  then show ?case using Cons.IH [of "bus_step c b"] Cons.prems(3) by simp
qed simp

lemma drain_one_spec:
  assumes "bus_inv b" "i < length (b_subs b)" "drain_one i b = (b1, r)"
  shows "bus_inv b1 \<and> i < length (b_subs b1)
    \<and> s_taken (b_subs b1 ! i) = s_taken (b_subs b ! i) @ (case r of None \<Rightarrow> [] | Some es \<Rightarrow> es)"
proof -
  have w: "bus_inv (fst (wait_one i b))" using bus_step_inv [OF assms(1), of "Wait i"] by simp
  have d: "bus_inv b' \<Longrightarrow> bus_inv (drain_iter i b')" for b' using bus_step_inv [of b' "Drain i"] by simp
  show ?thesis
    using assms w d [of "fst (wait_one i b)"]
    by (auto simp: drain_one_def wait_one_def drain_iter_def update_sub_nth take_one_def
        split: prod.splits option.splits list.splits if_splits)
qed

subsection \<open>What a connection writes\<close>

definition passes :: "(sse_event \<Rightarrow> bool res) option \<Rightarrow> sse_event \<Rightarrow> bool" where
  "passes flt e \<longleftrightarrow> (case flt of None \<Rightarrow> True | Some f \<Rightarrow> f e \<noteq> Inr False)"

definition is_html :: "sse_event \<Rightarrow> bool" where
  "is_html e \<longleftrightarrow> event_name e \<in> {''cycle.done'', ''status'', ''login.succeeded'', ''lot.new''}"

definition payload_of :: "(sse_event \<Rightarrow> ustr res) \<Rightarrow> (sse_event \<Rightarrow> ustr) \<Rightarrow> sse_event \<Rightarrow> ustr res" where
  "payload_of render json e = (if is_html e then render e else Inr (json e))"

definition message :: "(sse_event \<Rightarrow> ustr res) \<Rightarrow> (sse_event \<Rightarrow> ustr) \<Rightarrow> sse_event \<Rightarrow> string \<times> ustr" where
  "message render json e = (event_name e, projr (payload_of render json e))"

lemma html_encode_eq:
  "html_encode render json e = res_bind (payload_of render json e) (\<lambda>p. Inr (sse_frame (event_name e) p))"
  by (cases e) (simp_all add: html_encode_def payload_of_def is_html_def encode_sse_event_def KNOWN_SSE_EVENTS_def)

lemma sse_frame_nonempty [simp]: "sse_frame n p \<noteq> []"
  by (simp add: sse_frame_def)

lemma emit_batch_spec:
  "\<exists>k \<le> length es. fst (emit_batch flt (html_encode render json) es)
       = map (\<lambda>(n, p). sse_frame n p) (map (message render json) (filter (passes flt) (take k es)))
     \<and> (\<forall>e \<in> set (filter (passes flt) (take k es)). \<exists>p. payload_of render json e = Inr p)
     \<and> (if snd (emit_batch flt (html_encode render json) es)
        then \<exists>e \<in> set es. passes flt e \<and> (\<exists>x. payload_of render json e = Inl x) else k = length es)"
proof (induction es)
  case (Cons e es)
  then obtain k where k: "k \<le> length es" "fst (emit_batch flt (html_encode render json) es)
       = map (\<lambda>(n, p). sse_frame n p) (map (message render json) (filter (passes flt) (take k es)))"
    "\<forall>e \<in> set (filter (passes flt) (take k es)). \<exists>p. payload_of render json e = Inr p"
    "if snd (emit_batch flt (html_encode render json) es)
        then \<exists>e \<in> set es. passes flt e \<and> (\<exists>x. payload_of render json e = Inl x) else k = length es" by blast
  have sup: "(case flt of None \<Rightarrow> False | Some f \<Rightarrow> f e = Inr False) \<longleftrightarrow> \<not> passes flt e"
    by (simp add: passes_def split: option.split)
  show ?case
  proof (cases "passes flt e \<and> (\<exists>x. payload_of render json e = Inl x)")
    case True
    then show ?thesis unfolding emit_batch.simps sup by (intro exI [of _ 0]) (auto simp: html_encode_eq)
  next
    case False
    with k show ?thesis unfolding emit_batch.simps sup
      by (intro exI [of _ "Suc k"])
        (cases "payload_of render json e", auto simp: html_encode_eq message_def Let_def case_prod_beta split: if_splits)
  qed
qed simp

text \<open>A keep-alive, or the message of one of these events that passes the predicate.\<close>

definition carries ::
  "(sse_event \<Rightarrow> bool res) option \<Rightarrow> (sse_event \<Rightarrow> ustr res) \<Rightarrow> (sse_event \<Rightarrow> ustr) \<Rightarrow> sse_event list \<Rightarrow>
   string \<times> ustr \<Rightarrow> bool" where
  "carries flt render json es m \<longleftrightarrow>
     m = (''ping'', [])
     \<or> (\<exists>e \<in> set es. passes flt e \<and> fst m = event_name e \<and> payload_of render json e = Inr (snd m))"

lemma carries_mono: "carries flt render json es m \<Longrightarrow> set es \<subseteq> set es' \<Longrightarrow> carries flt render json es' m"
  by (auto simp: carries_def)

text \<open>The encoder turns each of these events into a frame, if they pass the predicate.\<close>

definition renders_all ::
  "(sse_event \<Rightarrow> bool res) option \<Rightarrow> (sse_event \<Rightarrow> ustr res) \<Rightarrow> (sse_event \<Rightarrow> ustr) \<Rightarrow> sse_event list \<Rightarrow> bool" where
  "renders_all flt render json es \<longleftrightarrow> (\<forall>e \<in> set es. passes flt e \<longrightarrow> (\<exists>p. payload_of render json e = Inr p))"

lemma renders_all_append:
  "renders_all flt render json (xs @ ys) \<Longrightarrow> renders_all flt render json ys"
  by (auto simp: renders_all_def)

lemma stream_loop_spec:
  "bus_inv b \<Longrightarrow> i < length (b_subs b) \<Longrightarrow> \<forall>t \<in> set ts. \<forall>c \<in> set (t_ops t). hands_off i c \<Longrightarrow>
    stream_loop flt (html_encode render json) i ts b = (b', out) \<Longrightarrow>
    \<exists>ms new k. out = map (\<lambda>(n, p). sse_frame n p) ms \<and> (\<forall>m \<in> set ms. carries flt render json new m)
      \<and> bus_inv b' \<and> i < length (b_subs b') \<and> s_taken (b_subs b' ! i) = s_taken (b_subs b ! i) @ new
      \<and> filter (\<lambda>m. fst m \<noteq> ''ping'') ms = map (message render json) (filter (passes flt) (take k new))
      \<and> ((\<forall>t \<in> set ts. \<not> t_shutting_down t) \<and> renders_all flt render json new \<longrightarrow> k = length new)"
proof (induction ts arbitrary: b b' out)
  case Nil
  then show ?case by (intro exI [of _ "[]"]) simp
next
  case (Cons t ts)
  obtain b1 r where d: "drain_one i (fold bus_step (t_ops t) b) = (b1, r)" by fastforce
  have f: "bus_inv (fold bus_step (t_ops t) b)" "i < length (b_subs (fold bus_step (t_ops t) b))"
    "s_taken (b_subs (fold bus_step (t_ops t) b) ! i) = s_taken (b_subs b ! i)"
    using taken_fold [of b i "t_ops t"] Cons.prems by auto
  note d1 = drain_one_spec [OF f(1,2) d]
  obtain b2 o2 where rest: "stream_loop flt (html_encode render json) i ts b1 = (b2, o2)" by fastforce
  have pre: "bus_inv b1" "i < length (b_subs b1)" "\<forall>t \<in> set ts. \<forall>c \<in> set (t_ops t). hands_off i c"
    using d1 Cons.prems(3) by auto
  from Cons.IH [OF pre rest] obtain ms new k where IH: "o2 = map (\<lambda>(n, p). sse_frame n p) ms" "\<forall>m \<in> set ms. carries flt render json new m" "bus_inv b2"
    "i < length (b_subs b2)" "s_taken (b_subs b2 ! i) = s_taken (b_subs b1 ! i) @ new"
    "filter (\<lambda>m. fst m \<noteq> ''ping'') ms = map (message render json) (filter (passes flt) (take k new))"
    "(\<forall>t \<in> set ts. \<not> t_shutting_down t) \<and> renders_all flt render json new \<longrightarrow> k = length new"
    by blast
  consider (stop) "t_shutting_down t \<or> r = None" | (idle) "\<not> t_shutting_down t" "r = Some []"
    | (batch) e es where "\<not> t_shutting_down t" "r = Some (e # es)"
    by (cases r; cases "the r") auto
  then show ?case
  proof cases
    case stop
    with Cons.prems(4) d have "out = []" "b' = b1" by (auto simp: Let_def split: if_splits)
    moreover have "r = None \<Longrightarrow> (case r of None \<Rightarrow> [] | Some es \<Rightarrow> es) = ([] :: sse_event list)" by simp
    ultimately show ?thesis using d1 f(3) stop
      by (intro exI [of _ "[]"] exI [of _ "case r of None \<Rightarrow> [] | Some es \<Rightarrow> es"] exI [of _ 0]) auto
  next
    case idle
    with Cons.prems(4) d rest have "out = encode_ping # o2" "b' = b2" by (auto simp: Let_def)
    moreover have "s_taken (b_subs b1 ! i) = s_taken (b_subs b ! i)" using d1 f(3) idle by simp
    moreover have "carries flt render json new (''ping'', [])" by (simp add: carries_def)
    ultimately show ?thesis using IH idle
      by (intro exI [of _ "(''ping'', []) # ms"] exI [of _ new] exI [of _ k]) (simp add: ping_frame)
  next
    case batch
    let ?es = "e # es"
    obtain j where j: "j \<le> length ?es" "fst (emit_batch flt (html_encode render json) ?es)
         = map (\<lambda>(n, p). sse_frame n p) (map (message render json) (filter (passes flt) (take j ?es)))"
      "\<forall>e \<in> set (filter (passes flt) (take j ?es)). \<exists>p. payload_of render json e = Inr p"
      "if snd (emit_batch flt (html_encode render json) ?es)
          then \<exists>e \<in> set ?es. passes flt e \<and> (\<exists>x. payload_of render json e = Inl x) else j = length ?es"
      using emit_batch_spec [of ?es flt render json] by blast
    let ?ms = "map (message render json) (filter (passes flt) (take j ?es))"
    have rd: "\<forall>m \<in> set ?ms. carries flt render json ?es m"
    proof
      fix m assume "m \<in> set ?ms"
      then obtain x where x: "x \<in> set (filter (passes flt) (take j ?es))" "m = message render json x" by auto
      then obtain p where "payload_of render json x = Inr p" using j(3) by blast
      moreover have "x \<in> set ?es" "passes flt x" using x(1) in_set_takeD by fastforce+
      ultimately show "carries flt render json ?es m" using x(2) by (auto simp: carries_def message_def)
    qed
    have nop: "filter (\<lambda>m. fst m \<noteq> ''ping'') ?ms = ?ms"
      using event_name_plain(3) by (auto simp: filter_id_conv message_def)
    have tk: "s_taken (b_subs b1 ! i) = s_taken (b_subs b ! i) @ ?es" using d1 f(3) batch by simp
    show ?thesis
    proof (cases "snd (emit_batch flt (html_encode render json) ?es)")
      case True
      with Cons.prems(4) d batch have o: "out = fst (emit_batch flt (html_encode render json) ?es)" "b' = b1"
        by (auto simp: Let_def case_prod_beta simp del: emit_batch.simps)
      from True j(4) have neg: "\<not> renders_all flt render json ?es" unfolding renders_all_def by force
      show ?thesis using o d1 j(2) rd nop tk
        by (intro exI [of _ ?ms] exI [of _ ?es] exI [of _ j]) (simp add: neg del: emit_batch.simps)
    next
      case False
      with Cons.prems(4) d batch rest
      have "out = fst (emit_batch flt (html_encode render json) ?es) @ o2" "b' = b2"
        by (auto simp: Let_def case_prod_beta simp del: emit_batch.simps)
      moreover from False j(4) have "take j ?es = ?es" by simp
      moreover have "\<forall>m \<in> set (?ms @ ms). carries flt render json (?es @ new) m"
      proof
        fix m assume "m \<in> set (?ms @ ms)"
        then have "carries flt render json ?es m \<or> carries flt render json new m" using rd IH(2) by auto
        then show "carries flt render json (?es @ new) m" by (auto intro: carries_mono)
      qed
      ultimately show ?thesis using IH(1,3-) j(2) nop tk
        by (intro exI [of _ "?ms @ ms"] exI [of _ "?es @ new"] exI [of _ "length ?es + k"]) (use renders_all_append [of flt render json ?es new] in simp)
    qed
  qed
qed

lemma u_inject [simp]: "u a = u b \<longleftrightarrow> a = b"
  by (rule inj_map_eq_map) (simp add: inj_def)

lemma filter_messages:
  "filter (\<lambda>m. fst m \<noteq> u ''ping'') (map (\<lambda>(n, p). (u n, p)) ms)
     = map (\<lambda>(n, p). (u n, p)) (filter (\<lambda>m. fst m \<noteq> ''ping'') ms)"
  by (simp only: filter_map o_def case_prod_beta fst_conv u_inject)

text \<open>
  C19. A tab receives its events. Whatever the rest of the program does meanwhile (publish,
  subscribe, remove, except take from this tab's queue), a connection first yields a ping; when
  it ends its handle is removed from the bus and the count of active subscribers restored. The
  browser reading its bytes as an event stream gets, pings aside, the events the stream took
  from its own queue, in order, filtered by the connection's predicate (one that raises lets the
  event pass), each with its name and its complete payload whatever newlines it has: all of
  them, unless the server shut down or the encoder raised on one of these very events, then the
  first ones. For the reading, the payloads of the events it took that pass the predicate are
  assumed free of carriage returns, which a browser takes for line ends.
\<close>

theorem stream_delivers:
  assumes "bus_inv b" "\<forall>t \<in> set ts. \<forall>c \<in> set (t_ops t). hands_off (length (b_subs b)) c"
    and "stream flt (html_encode render json) now ts (b, active) = ((b', active'), out)"
  defines "taken \<equiv> s_taken (b_subs b' ! length (b_subs b))"
  shows "active' = active \<and> length (b_subs b) \<notin> set (b_live b') \<and> \<not> s_alive (b_subs b' ! length (b_subs b))
    \<and> hd out = encode_ping
    \<and> ((\<forall>e \<in> set taken. \<forall>p. passes flt e \<and> payload_of render json e = Inr p \<longrightarrow> 13 \<notin> set p)
       \<longrightarrow> (\<exists>k. filter (\<lambda>m. fst m \<noteq> u ''ping'') (es_parse (concat out))
             = map (\<lambda>e. (u (event_name e), projr (payload_of render json e))) (filter (passes flt) (take k taken))
          \<and> ((\<forall>t \<in> set ts. \<not> t_shutting_down t)
               \<and> (\<forall>e \<in> set taken. passes flt e \<longrightarrow> (\<exists>p. payload_of render json e = Inr p))
             \<longrightarrow> k = length taken)))"
proof -
  let ?i = "length (b_subs b)"
  obtain b1 where b1: "subscribe now b = (b1, ?i)" using subscribe_spec [OF assms(1), of now] by (simp add: Let_def)
  have s1: "bus_inv b1" "?i < length (b_subs b1)" "s_taken (b_subs b1 ! ?i) = []"
    using bus_step_inv [OF assms(1), of "Subscribe now"] subscribe_spec [OF assms(1), of now] b1 by (auto simp: Let_def)
  obtain b2 o2 where loop: "stream_loop flt (html_encode render json) ?i ts b1 = (b2, o2)" by fastforce
  with assms(3) b1 have r: "b' = remove_subscriber ?i b2" "active' = active" "out = encode_ping # o2"
    by (auto simp: stream_def)
  from stream_loop_spec [OF s1(1,2) assms(2) loop] obtain ms new k where
    L: "o2 = map (\<lambda>(n, p). sse_frame n p) ms" "\<forall>m \<in> set ms. carries flt render json new m"
      "bus_inv b2" "?i < length (b_subs b2)" "s_taken (b_subs b2 ! ?i) = new"
      "filter (\<lambda>m. fst m \<noteq> ''ping'') ms = map (message render json) (filter (passes flt) (take k new))"
      "(\<forall>t \<in> set ts. \<not> t_shutting_down t) \<and> renders_all flt render json new \<longrightarrow> k = length new"
    unfolding s1(3) append_Nil by blast
  have tk: "taken = new" and dead: "\<not> s_alive (b_subs b' ! ?i)" and off: "?i \<notin> set (b_live b')"
    using L(3-5) bus_invD(1) [OF L(3)]
    by (simp_all add: taken_def r(1) remove_subscriber_nth distinct_remove1_removeAll)
  have "filter (\<lambda>m. fst m \<noteq> u ''ping'') (es_parse (concat out))
      = map (\<lambda>e. (u (event_name e), projr (payload_of render json e))) (filter (passes flt) (take k new))"
    if cr: "\<forall>e \<in> set taken. \<forall>p. passes flt e \<and> payload_of render json e = Inr p \<longrightarrow> 13 \<notin> set p"
  proof -
    let ?all = "(''ping'', []) # ms"
    have "concat out = concat (map (\<lambda>(n, p). sse_frame n p) ?all)" by (simp add: r(3) L(1) ping_frame)
    moreover have "plain_name (fst m) \<and> 13 \<notin> set (snd m)" if "m \<in> set ?all" for m
    proof -
      have "carries flt render json new m" using that L(2) by (auto simp: carries_def)
      then consider "m = (''ping'', [])"
        | e where "e \<in> set new" "passes flt e" "fst m = event_name e" "payload_of render json e = Inr (snd m)"
        unfolding carries_def by blast
      then show ?thesis
      proof cases
        case 1
        then show ?thesis by (simp add: plain_name_def)
      next
        case 2
        with cr event_name_plain(1) [of e] show ?thesis unfolding tk by simp
      qed
    qed
    then have "\<forall>(n, p) \<in> set ?all. plain_name n \<and> 13 \<notin> set p" by fastforce
    ultimately have "es_parse (concat out) = map (\<lambda>(n, p). (u n, p)) ?all" by (simp only: es_parse_frames)
    then show ?thesis by (simp only: filter_messages) (simp add: L(6) message_def)
  qed
  then show ?thesis using r(2,3) off dead L(7) unfolding tk renders_all_def by auto
qed

definition quiet_turns :: "turn list" where
  "quiet_turns =
     [\<lparr>t_ops = [Publish 5 (\<lambda>_. False) (SseCycleStarted 4 1)], t_shutting_down = False\<rparr>,
      \<lparr>t_ops = [], t_shutting_down = False\<rparr>]"

theorem stream_delivers_witness:
  "\<exists>b' active' out. stream None (html_encode (\<lambda>_. Inr []) (\<lambda>_. u ''{}'')) 3 quiet_turns (empty_bus, 0) = ((b', active'), out)
     \<and> filter (\<lambda>m. fst m \<noteq> u ''ping'') (es_parse (concat out)) = [(u ''cycle.started'', u ''{}'')]"
proof -
  let ?enc = "html_encode (\<lambda>_. Inr []) (\<lambda>_. u ''{}'')"
  have p: "payload_of (\<lambda>_. Inr []) (\<lambda>_. u ''{}'') e = Inr p \<Longrightarrow> 13 \<notin> set p" for e p
    by (auto simp: payload_of_def split: if_splits)
  have ex: "\<exists>p. payload_of (\<lambda>_. Inr []) (\<lambda>_. u ''{}'') e = Inr p" for e by (simp add: payload_of_def)
  have off: "\<forall>t \<in> set quiet_turns. \<forall>c \<in> set (t_ops t). hands_off (length (b_subs empty_bus)) c"
    by (simp add: quiet_turns_def)
  have down: "\<forall>t \<in> set quiet_turns. \<not> t_shutting_down t" by (simp add: quiet_turns_def)
  obtain b' active' out where st: "stream None ?enc 3 quiet_turns (empty_bus, 0) = ((b', active'), out)" by (metis prod.exhaust)
  then have tk: "s_taken (b_subs b' ! 0) = [SseCycleStarted 4 1]"
    by (auto simp: stream_def subscribe_def empty_bus_def quiet_turns_def drain_one_def wait_one_def publish_def
        publish_normal_def update_sub_def deliver_normal_def queue_full_def QUEUE_MAXSIZE_def enqueue_def take_one_def
        drain_iter_def remove_subscriber_def html_encode_eq payload_of_def is_html_def Let_def)
  have l: "length (b_subs empty_bus) = 0" by (simp add: empty_bus_def)
  from stream_delivers [OF bus_inv_empty off st] ex down p
  have "filter (\<lambda>m. fst m \<noteq> u ''ping'') (es_parse (concat out)) = [(u ''cycle.started'', u ''{}'')]"
    unfolding l tk by (auto simp: passes_def payload_of_def is_html_def)
  with st show ?thesis by blast
qed

end
