(* ===== verification/Web_Gate.thy ===== *)
theory Web_Gate
  imports Onboarding
begin

text \<open>
  What a request passes before a route sees it: the origin check and its allow-lists
  (\<^verbatim>\<open>web/middleware.py\<close>), the onboarding gate with its one-second cache
  (\<^verbatim>\<open>web/onboarding_gate.py\<close>), stacked as \<^verbatim>\<open>app.py\<close> stacks them, and the rate limiter of the
  single routes (\<^verbatim>\<open>web/rate_limit.py\<close>). Header texts are Latin-1, methods ASCII; readings of
  the monotonic clock are microseconds.
\<close>

subsection \<open>Rate limiter\<close>

type_synonym windows = "string \<rightharpoonup> time list"

definition acquire :: "nat \<Rightarrow> int \<Rightarrow> string \<Rightarrow> time \<Rightarrow> windows \<Rightarrow> windows \<times> bool" where
  "acquire max_requests window key now w =
     (let cutoff = now - window;
          timestamps = filter (\<lambda>t. cutoff < t) (case w key of None \<Rightarrow> [] | Some ts \<Rightarrow> ts)
      in if max_requests \<le> length timestamps then (w(key \<mapsto> timestamps), False)
         else (w(key \<mapsto> timestamps @ [now]), True))"

definition mk_rate_limiter :: "int \<Rightarrow> int \<Rightarrow> windows res" where
  "mk_rate_limiter max_requests window =
     (if max_requests < 1 then Inl ValueError else if window \<le> 0 then Inl ValueError else Inr Map.empty)"

text \<open>A history of calls: the state and, per call in order, key, time and answer.\<close>

fun rl_run :: "nat \<Rightarrow> int \<Rightarrow> (string \<times> time) list \<Rightarrow> windows \<Rightarrow> windows \<times> (string \<times> time \<times> bool) list" where
  "rl_run m win [] w = (w, [])"
| "rl_run m win ((key, now) # cs) w =
     (let (w1, ok) = acquire m win key now w; (w2, rs) = rl_run m win cs w1
      in (w2, (key, now, ok) # rs))"

definition grants :: "string \<Rightarrow> (string \<times> time \<times> bool) list \<Rightarrow> time list" where
  "grants key rs = map (\<lambda>(_, now, _). now) (filter (\<lambda>(k, _, ok). k = key \<and> ok) rs)"

lemma grants_simps [simp]:
  "grants key [] = []"
  "grants key ((k, now, ok) # rs) = (if k = key \<and> ok then now # grants key rs else grants key rs)"
  "grants key (rs @ rs') = grants key rs @ grants key rs'"
  by (simp_all add: grants_def)

text \<open>
  The stored list holds every grant of the key that is still inside the window, and grants are
  spaced: the one \<open>m\<close> places later comes at least a window later.
\<close>

definition spaced :: "nat \<Rightarrow> int \<Rightarrow> time list \<Rightarrow> bool" where
  "spaced m win gs \<longleftrightarrow> sorted gs \<and> (\<forall>i. i + m < length gs \<longrightarrow> gs ! i + win \<le> gs ! (i + m))"

definition keeps :: "int \<Rightarrow> time \<Rightarrow> windows \<Rightarrow> string \<Rightarrow> time list \<Rightarrow> bool" where
  "keeps win now w key gs \<longleftrightarrow>
     filter (\<lambda>t. now - win < t) (case w key of None \<Rightarrow> [] | Some ts \<Rightarrow> ts) = filter (\<lambda>t. now - win < t) gs"

lemma keeps_later: "keeps win now w key gs \<Longrightarrow> now \<le> now' \<Longrightarrow> keeps win now' w key gs"
proof -
  assume k: "keeps win now w key gs" and le: "now \<le> now'"
  have "filter (\<lambda>t. now' - win < t) xs = filter (\<lambda>t. now' - win < t) (filter (\<lambda>t. now - win < t) xs)" for xs
    using le by (auto intro!: filter_cong)
  with k show ?thesis unfolding keeps_def by metis
qed

lemma spaced_append:
  assumes "spaced m win gs" "0 < m" "\<forall>t \<in> set gs. t \<le> now" "length (filter (\<lambda>t. now - win < t) gs) < m"
  shows "spaced m win (gs @ [now])"
proof -
  have "gs ! i + win \<le> now" if i: "i + m = length gs" for i
  proof (rule ccontr)
    assume "\<not> gs ! i + win \<le> now"
    moreover have "\<forall>t \<in> set (drop i gs). gs ! i \<le> t"
      using assms(1) i unfolding spaced_def by (auto simp: in_set_conv_nth sorted_iff_nth_mono)
    ultimately have "filter (\<lambda>t. now - win < t) (drop i gs) = drop i gs" by (force simp: filter_id_conv)
    moreover have "filter (\<lambda>t. now - win < t) gs =
        filter (\<lambda>t. now - win < t) (take i gs) @ filter (\<lambda>t. now - win < t) (drop i gs)"
      by (metis append_take_drop_id filter_append)
    ultimately have "m \<le> length (filter (\<lambda>t. now - win < t) gs)" using i by simp
    with assms(4) show False by simp
  qed
  with assms(1-3) show ?thesis
    by (auto simp: spaced_def sorted_append nth_append not_less less_Suc_eq)
qed

lemma rl_run_Cons:
  "acquire m win k t w = (w1, ok) \<Longrightarrow> snd (rl_run m win ((k, t) # cs) w) = (k, t, ok) # snd (rl_run m win cs w1)"
  by (simp split: prod.splits)

lemma acquire_keeps:
  assumes "acquire m win k t w = (w1, ok)" "keeps win now w key gs" "now \<le> t"
  shows "keeps win t w1 key (if k = key \<and> ok then gs @ [t] else gs)"
    and "k = key \<Longrightarrow> ok \<longleftrightarrow> length (filter (\<lambda>x. t - win < x) gs) < m"
  using keeps_later [OF assms(2,3)] assms(1)
  by (auto simp: keeps_def acquire_def Let_def not_less split: if_splits)

lemma rl_run_spaced:
  assumes "0 < m"
  shows "sorted (map snd cs) \<Longrightarrow> \<forall>c \<in> set cs. now \<le> snd c \<Longrightarrow> \<forall>t \<in> set gs. t \<le> now \<Longrightarrow>
     keeps win now w key gs \<Longrightarrow> spaced m win gs \<Longrightarrow> spaced m win (gs @ grants key (snd (rl_run m win cs w)))"
proof (induction cs arbitrary: now w gs)
  case (Cons c cs)
  obtain k t where c: "c = (k, t)" by (cases c)
  obtain w1 ok where a: "acquire m win k t w = (w1, ok)" by fastforce
  have t: "now \<le> t" "\<forall>x \<in> set gs. x \<le> t" "\<forall>c \<in> set cs. t \<le> snd c" "sorted (map snd cs)"
    using Cons.prems(1-3) by (auto simp: c)
  note ak = acquire_keeps [OF a Cons.prems(4) t(1)]
  let ?gs = "if k = key \<and> ok then gs @ [t] else gs"
  have "spaced m win ?gs" using spaced_append [OF Cons.prems(5) assms t(2)] Cons.prems(5) ak(2) by auto
  moreover have "\<forall>x \<in> set ?gs. x \<le> t" using t(2) by auto
  ultimately have "spaced m win (?gs @ grants key (snd (rl_run m win cs w1)))"
    using Cons.IH [OF t(4,3)] ak(1) by blast
  then show ?case unfolding c rl_run_Cons [OF a] by (cases "k = key \<and> ok") auto
qed simp

lemma rl_run_refused:
  "sorted (map snd cs) \<Longrightarrow> \<forall>c \<in> set cs. now \<le> snd c \<Longrightarrow> \<forall>t \<in> set gs. t \<le> now \<Longrightarrow> keeps win now w key gs \<Longrightarrow>
     n < length cs \<Longrightarrow> fst (cs ! n) = key \<Longrightarrow> \<not> snd (snd (snd (rl_run m win cs w) ! n)) \<Longrightarrow>
     m \<le> length (filter (\<lambda>x. snd (cs ! n) - win < x \<and> x \<le> snd (cs ! n)) (gs @ grants key (take n (snd (rl_run m win cs w)))))"
proof (induction cs arbitrary: now w gs n)
  case (Cons c cs)
  obtain k t where c: "c = (k, t)" by (cases c)
  obtain w1 ok where a: "acquire m win k t w = (w1, ok)" by fastforce
  have t: "now \<le> t" "\<forall>x \<in> set gs. x \<le> t" "\<forall>c \<in> set cs. t \<le> snd c" "sorted (map snd cs)"
    using Cons.prems(1-3) by (auto simp: c)
  note ak = acquire_keeps [OF a Cons.prems(4) t(1)]
  have run: "snd (rl_run m win (c # cs) w) = (k, t, ok) # snd (rl_run m win cs w1)"
    unfolding c by (rule rl_run_Cons [OF a])
  show ?case
  proof (cases n)
    case 0
    have "filter (\<lambda>x. t - win < x \<and> x \<le> t) gs = filter (\<lambda>x. t - win < x) gs" using t(2) by (auto intro: filter_cong)
    with 0 Cons.prems(6,7) ak(2) run show ?thesis by (simp add: c)
  next
    case (Suc j)
    let ?gs = "if k = key \<and> ok then gs @ [t] else gs"
    have "\<forall>x \<in> set ?gs. x \<le> t" using t(2) by auto
    from Cons.IH [OF t(4,3) this ak(1), of j] Cons.prems(5-7) Suc run show ?thesis
      by (cases "k = key \<and> ok") auto
  qed
qed simp

text \<open>
  The limiter holds its rate. For any limiter the constructor accepts and any calls at
  times that do not go back, the granted calls of each key are so spaced that the one
  \<^verbatim>\<open>max_requests\<close> after another comes at least a window later, other keys and refused calls
  making no difference; and a call is refused only when that many grants of its key lie within
  the last window.
\<close>

theorem rate_limit_holds:
  assumes "mk_rate_limiter (int m) win = Inr w0" "sorted (map snd cs)"
  shows "spaced m win (grants key (snd (rl_run m win cs w0)))
    \<and> (\<forall>n < length cs. fst (cs ! n) = key \<and> \<not> snd (snd (snd (rl_run m win cs w0) ! n)) \<longrightarrow>
         m \<le> length (filter (\<lambda>t. snd (cs ! n) - win < t \<and> t \<le> snd (cs ! n))
                (grants key (take n (snd (rl_run m win cs w0))))))"
proof -
  have m: "0 < m" "w0 = Map.empty" using assms(1) by (auto simp: mk_rate_limiter_def split: if_splits)
  obtain now where now: "\<forall>c \<in> set cs. now \<le> snd c"
  proof (cases cs)
    case (Cons c ds)
    with assms(2) show ?thesis by (intro that [of "snd c"]) auto
  qed (simp add: that)
  have k: "keeps win now w0 key []" by (simp add: keeps_def m(2))
  show ?thesis
    using rl_run_spaced [OF m(1) assms(2) now _ k] rl_run_refused [OF assms(2) now _ k]
    by (auto simp: spaced_def)
qed

theorem rate_limit_holds_witness:
  "spaced 2 10 (grants ''ip'' (snd (rl_run 2 10 [(''ip'', 0), (''ip'', 1), (''x'', 2), (''ip'', 5), (''ip'', 11)] Map.empty)))
     \<and> grants ''ip'' (snd (rl_run 2 10 [(''ip'', 0), (''ip'', 1), (''x'', 2), (''ip'', 5), (''ip'', 11)] Map.empty)) = [0, 1, 11]"
  using rate_limit_holds [of 2 10 Map.empty "[(''ip'', 0), (''ip'', 1), (''x'', 2), (''ip'', 5), (''ip'', 11)]" "''ip''"]
  by (simp add: mk_rate_limiter_def acquire_def)

subsection \<open>Host and origin\<close>

record request =
  rq_is_http :: bool
  rq_method :: string
  rq_path :: string
  rq_headers :: "(string \<times> string) list"

datatype decision = To_app | Misdirected_421 | Redirect_302 string

text \<open>\<^verbatim>\<open>str.lower\<close> on Latin-1 text, \<^verbatim>\<open>str.upper\<close> on ASCII text.\<close>

definition lower_char :: "char \<Rightarrow> char" where
  "lower_char c =
     (let n = of_char c :: nat
      in if (65 \<le> n \<and> n \<le> 90) \<or> (192 \<le> n \<and> n \<le> 222 \<and> n \<noteq> 215) then char_of (n + 32) else c)"

definition upper_char :: "char \<Rightarrow> char" where
  "upper_char c = (let n = of_char c :: nat in if 97 \<le> n \<and> n \<le> 122 then char_of (n - 32) else c)"

definition lower :: "string \<Rightarrow> string" where "lower = map lower_char"
definition upper :: "string \<Rightarrow> string" where "upper = map upper_char"

definition safe_methods :: "string list" where "safe_methods = [''GET'', ''HEAD'', ''OPTIONS'']"

text \<open>\<^verbatim>\<open>dict(headers)\<close>: the last value of a name wins.\<close>

definition header :: "string \<Rightarrow> request \<Rightarrow> string option" where
  "header name rq = map_of (rev (rq_headers rq)) name"

definition csrf_check :: "string list \<Rightarrow> string list \<Rightarrow> request \<Rightarrow> decision" where
  "csrf_check host_allowlist origin_whitelist rq =
     (if \<not> rq_is_http rq then To_app
      else if upper (rq_method rq) \<in> set safe_methods then To_app
      else if lower (case header ''host'' rq of None \<Rightarrow> '''' | Some h \<Rightarrow> h) \<notin> set (map lower host_allowlist)
      then Misdirected_421
      else (case header ''origin'' rq of
              None \<Rightarrow> Misdirected_421
            | Some origin \<Rightarrow>
                if lower origin \<notin> set (map lower origin_whitelist) then Misdirected_421 else To_app))"

definition LOOPBACK_HOSTS :: "string list" where
  "LOOPBACK_HOSTS = [''127.0.0.1'', ''localhost'', ''::1'']"

text \<open>The allow-lists as lists; \<open>local_ipv4s\<close> are the addresses detected or passed in.\<close>

definition csrf_config_for_bind :: "string \<Rightarrow> int \<Rightarrow> string list \<Rightarrow> string list \<times> string list" where
  "csrf_config_for_bind host port local_ipv4s =
     (let at_port = (\<lambda>h. h @ '':'' @ str_of_int port);
          loopback = map at_port [''127.0.0.1'', ''localhost'', ''[::1]''];
          extra = (if host \<in> set LOOPBACK_HOSTS then []
                   else at_port host # (if host = ''0.0.0.0'' then map at_port local_ipv4s else []))
      in (loopback @ extra, map (\<lambda>h. ''http://'' @ h) (loopback @ extra)))"

definition get_local_ipv4s :: "string list res \<Rightarrow> string list" where
  "get_local_ipv4s addr_list =
     (case addr_list of
        Inl _ \<Rightarrow> []
      | Inr addrs \<Rightarrow> filter (\<lambda>addr. addr \<noteq> [] \<and> take 4 addr \<noteq> ''127.'' \<and> addr \<noteq> ''::1'') addrs)"

subsection \<open>The onboarding gate\<close>

definition WHITELIST_PREFIXES :: "string list" where
  "WHITELIST_PREFIXES = [''/static/'', ''/events'', ''/api/health'', ''/onboarding/'', ''/auth/'', ''/settings/smtp/suggest'']"

definition CACHE_TTL :: int where "CACHE_TTL = 1000000"

type_synonym gate_cache = "(onboarding_state \<times> string \<times> time) option"

definition get_state_and_url :: "kv \<Rightarrow> time \<Rightarrow> gate_cache \<Rightarrow> gate_cache \<times> (onboarding_state \<times> string) res" where
  "get_state_and_url s now cache =
     (case cache of
        Some (st, url, expires_at) \<Rightarrow>
          if now < expires_at then (cache, Inr (st, url))
          else (case res_bind (get_onboarding kv_get s) (\<lambda>st. res_bind (url_for_current_step kv_get s) (\<lambda>url. Inr (st, url))) of
                  Inl e \<Rightarrow> (cache, Inl e)
                | Inr (st, url) \<Rightarrow> (Some (st, url, now + CACHE_TTL), Inr (st, url)))
      | None \<Rightarrow>
          (case res_bind (get_onboarding kv_get s) (\<lambda>st. res_bind (url_for_current_step kv_get s) (\<lambda>url. Inr (st, url))) of
             Inl e \<Rightarrow> (cache, Inl e)
           | Inr (st, url) \<Rightarrow> (Some (st, url, now + CACHE_TTL), Inr (st, url))))"

definition whitelisted :: "request \<Rightarrow> bool" where
  "whitelisted rq \<longleftrightarrow>
     upper (rq_method rq) = ''OPTIONS''
     \<or> rq_path rq = ''/onboarding'' \<or> (\<exists>p \<in> set WHITELIST_PREFIXES. take (length p) (rq_path rq) = p)"

definition onboarding_gate :: "kv \<Rightarrow> time \<Rightarrow> request \<Rightarrow> gate_cache \<Rightarrow> gate_cache \<times> decision res" where
  "onboarding_gate s now rq cache =
     (if \<not> rq_is_http rq \<or> whitelisted rq then (cache, Inr To_app)
      else (case get_state_and_url s now cache of
              (cache', Inl e) \<Rightarrow> (cache', Inl e)
            | (cache', Inr (st, url)) \<Rightarrow>
                (cache', Inr (if onboarding_value st \<noteq> ''completed'' then Redirect_302 url else To_app))))"

text \<open>The stack of \<^verbatim>\<open>app.py\<close>: the origin check is outside the gate.\<close>

definition web_stack :: "string list \<times> string list \<Rightarrow> kv \<Rightarrow> time \<Rightarrow> request \<Rightarrow> gate_cache \<Rightarrow> gate_cache \<times> decision res" where
  "web_stack cfg s now rq cache =
     (case csrf_check (fst cfg) (snd cfg) rq of
        To_app \<Rightarrow> onboarding_gate s now rq cache
      | d \<Rightarrow> (cache, Inr d))"

text \<open>Histories: the store changes between requests, the clock readings are arbitrary.\<close>

datatype web_op = Change ob_cmd | Serve time request

fun web_run :: "time \<Rightarrow> string list \<times> string list \<Rightarrow> web_op list \<Rightarrow> kv \<times> gate_cache \<Rightarrow> (kv \<times> gate_cache) \<times> (request \<times> kv \<times> decision res) list" where
  "web_run wt cfg [] st = (st, [])"
| "web_run wt cfg (Change c # ops) (s, cache) = web_run wt cfg ops (ob_exec wt c s, cache)"
| "web_run wt cfg (Serve now rq # ops) (s, cache) =
     (let (cache', d) = web_stack cfg s now rq cache;
          (st, rs) = web_run wt cfg ops (s, cache')
      in (st, (rq, s, d) # rs))"

text \<open>The cache never runs ahead of the store.\<close>

definition cache_behind :: "kv \<Rightarrow> gate_cache \<Rightarrow> bool" where
  "cache_behind s cache \<longleftrightarrow>
     (\<exists>cur. get_onboarding kv_get s = Inr cur \<and>
       (case cache of None \<Rightarrow> True | Some (st, url, _) \<Rightarrow> ob_rank st \<le> ob_rank cur \<and> url = state_url st))"

lemma ob_rank_completed: "ob_rank Completed \<le> ob_rank st \<longleftrightarrow> st = Completed"
  by (cases st) (simp_all add: ob_rank_def)

lemma value_completed: "onboarding_value st = ''completed'' \<longleftrightarrow> st = Completed"
  by (cases st) simp_all

lemma exec_behind:
  assumes "cache_behind s cache"
  shows "cache_behind (ob_exec wt c s) cache"
proof -
  obtain cur where cur: "get_onboarding kv_get s = Inr cur"
    "case cache of None \<Rightarrow> True | Some (st, url, _) \<Rightarrow> ob_rank st \<le> ob_rank cur \<and> url = state_url st"
    using assms by (auto simp: cache_behind_def)
  from ob_run_rank_mono [OF cur(1), of wt "[c]"] cur(2) show ?thesis
    by (fastforce simp: cache_behind_def ob_run_def split: option.splits)
qed

lemma gate_behind:
  assumes "cache_behind s cache" "get_state_and_url s now cache = (cache', r)"
  shows "cache_behind s cache' \<and> (\<exists>st cur. r = Inr (st, state_url st)
    \<and> get_onboarding kv_get s = Inr cur \<and> ob_rank st \<le> ob_rank cur)"
  using assms
  by (auto simp: cache_behind_def get_state_and_url_def url_for_current_step_def split: option.splits if_splits)

lemma web_run_behind:
  "cache_behind s cache \<Longrightarrow> (rq, s', d) \<in> set (snd (web_run wt cfg ops (s, cache))) \<Longrightarrow>
     \<exists>cache'. cache_behind s' cache' \<and> (\<exists>now. d = snd (web_stack cfg s' now rq cache'))"
proof (induction wt cfg ops "(s, cache)" arbitrary: s cache rule: web_run.induct)
  case (2 wt cfg c ops s cache)
  then show ?case using exec_behind by simp
next
  case (3 wt cfg now rq0 ops s cache)
  obtain cache' d0 where w: "web_stack cfg s now rq0 cache = (cache', d0)" by fastforce
  have "cache_behind s cache'"
    using w 3(2) gate_behind [OF 3(2)]
    by (auto simp: web_stack_def onboarding_gate_def split: decision.splits if_splits prod.splits sum.splits)
  with 3 w show ?case by (auto split: prod.splits) (metis snd_conv)+
qed simp

lemma step_page_whitelisted: "st \<noteq> Completed \<Longrightarrow> rq_path rq = state_url st \<Longrightarrow> whitelisted rq"
  by (cases st) (simp_all add: whitelisted_def WHITELIST_PREFIXES_def)

text \<open>
  C22. Nobody gets past the onboarding and no foreign page changes state. From an empty store,
  over any interleaving of requests with the onboarding commands and at any clock readings, the
  stack never fails; a request that reaches the application either asks for a whitelisted path
  or method, or the stored state was completed at that moment, the cache notwithstanding; one
  with a state-changing method carries a host and an origin of the program's own bind address;
  and one that is redirected goes to the page of a step not beyond the current one, which is
  itself whitelisted, so redirects do not loop.
\<close>

theorem web_stack_guards:
  assumes "(rq, s, d) \<in> set (snd (web_run wt (csrf_config_for_bind host port ips) ops (Map.empty, None)))"
  shows "\<exists>x. d = Inr x \<and>
    (case x of
       To_app \<Rightarrow> rq_is_http rq \<longrightarrow>
         (whitelisted rq \<or> get_onboarding kv_get s = Inr Completed)
         \<and> (upper (rq_method rq) \<in> set safe_methods
            \<or> (\<exists>h h' o'. header ''host'' rq = Some h \<and> header ''origin'' rq = Some o'
                 \<and> lower h \<in> lower ` set (fst (csrf_config_for_bind host port ips))
                 \<and> h' \<in> set (fst (csrf_config_for_bind host port ips)) \<and> lower o' = lower (''http://'' @ h')))
     | Misdirected_421 \<Rightarrow> rq_is_http rq \<and> upper (rq_method rq) \<notin> set safe_methods
     | Redirect_302 url \<Rightarrow> \<not> whitelisted rq \<and>
         (\<exists>st cur. get_onboarding kv_get s = Inr cur \<and> url = state_url st \<and> st \<noteq> Completed \<and> ob_rank st \<le> ob_rank cur)
         \<and> (\<forall>rq'. rq_path rq' = url \<longrightarrow> whitelisted rq'))"
proof -
  let ?cfg = "csrf_config_for_bind host port ips"
  have "cache_behind Map.empty None" by (simp add: cache_behind_def get_onboarding_def kv_get_def)
  from web_run_behind [OF this assms] obtain cache now where
    c: "cache_behind s cache" and d: "d = snd (web_stack ?cfg s now rq cache)" by blast
  obtain cache' r where g: "get_state_and_url s now cache = (cache', r)" by fastforce
  from gate_behind [OF c g] obtain st cur where r: "r = Inr (st, state_url st)"
    "get_onboarding kv_get s = Inr cur" "ob_rank st \<le> ob_rank cur" by blast
  have nonempty: "lower '''' \<notin> lower ` set (fst ?cfg)"
    by (auto simp: csrf_config_for_bind_def lower_def Let_def)
  have origins: "set (snd ?cfg) = (\<lambda>h. ''http://'' @ h) ` set (fst ?cfg)"
    by (auto simp: csrf_config_for_bind_def Let_def)
  show ?thesis
  proof (cases "csrf_check (fst ?cfg) (snd ?cfg) rq")
    case To_app
    then have ok: "\<not> rq_is_http rq \<or> upper (rq_method rq) \<in> set safe_methods
            \<or> (\<exists>h h' o'. header ''host'' rq = Some h \<and> header ''origin'' rq = Some o'
                 \<and> lower h \<in> lower ` set (fst ?cfg) \<and> h' \<in> set (fst ?cfg) \<and> lower o' = lower (''http://'' @ h'))"
      using nonempty origins by (auto simp: csrf_check_def split: if_splits option.splits)
    with To_app d g r show ?thesis
      by (auto simp: web_stack_def onboarding_gate_def value_completed ob_rank_completed intro: step_page_whitelisted)
  next
    case Misdirected_421
    with d show ?thesis by (auto simp: web_stack_def csrf_check_def split: if_splits)
  next
    case (Redirect_302 url)
    then show ?thesis by (auto simp: csrf_check_def split: if_splits option.splits)
  qed
qed

definition home_page :: request where
  "home_page = \<lparr>rq_is_http = True, rq_method = ''GET'', rq_path = ''/'', rq_headers = [(''host'', ''localhost:8000'')]\<rparr>"

theorem web_stack_guards_witness:
  "(home_page, Map.empty, Inr (Redirect_302 ''/onboarding/regions''))
      \<in> set (snd (web_run 0 (csrf_config_for_bind ''127.0.0.1'' 8000 []) [Serve 5 home_page] (Map.empty, None)))
   \<and> \<not> whitelisted home_page"
proof -
  have "csrf_check hs os home_page = To_app" for hs os
    by (simp add: csrf_check_def home_page_def safe_methods_def upper_def upper_char_def)
  moreover have "\<not> whitelisted home_page"
    by (simp add: whitelisted_def home_page_def WHITELIST_PREFIXES_def upper_def upper_char_def)
  ultimately have "(home_page, Map.empty, Inr (Redirect_302 ''/onboarding/regions''))
      \<in> set (snd (web_run 0 (csrf_config_for_bind ''127.0.0.1'' 8000 []) [Serve 5 home_page] (Map.empty, None)))"
    by (simp add: web_stack_def onboarding_gate_def get_state_and_url_def url_for_current_step_def get_onboarding_def
        kv_get_def home_page_def)
  with web_stack_guards [OF this] show ?thesis by auto
qed

end
