(* ===== verification/Login.thy ===== *)
theory Login
  imports Web_Gate Monitor_Cycle
begin

text \<open>
  The session with the site: the probe (\<^verbatim>\<open>services/session_monitor.py\<close>), the single-flight login
  service (\<^verbatim>\<open>services/login.py\<close>) with its routes (\<^verbatim>\<open>web/routes/auth.py\<close>), and the callback a
  headed login triggers (\<^verbatim>\<open>composition.py\<close>). The browser driver is outside: a job ends with any
  outcome or exception. A job is numbered by its submission; the threads are the interleavings
  of the steps below, each of which runs under a lock of the code or touches one field.
\<close>

subsection \<open>The probe\<close>

datatype session_status = Session_active | Session_expiring | Session_expired

fun has_infix :: "string \<Rightarrow> string \<Rightarrow> bool" where
  "has_infix p [] = (p = [])"
| "has_infix p (c # cs) = (take (length p) (c # cs) = p \<or> has_infix p cs)"

definition PROBE_PATH :: string where "PROBE_PATH = ''/cabinet/''"
definition LOGIN_REDIRECT_FRAGMENT :: string where "LOGIN_REDIRECT_FRAGMENT = ''/login''"

text \<open>The events published and the status; an exception of the client passes through.\<close>

definition session_check ::
  "(string \<Rightarrow> http_response res) \<Rightarrow> string \<Rightarrow> time \<Rightarrow> sse_event list \<times> session_status res" where
  "session_check client_get base_url now =
     (case client_get (base_url @ PROBE_PATH) of
        Inl e \<Rightarrow> ([], Inl e)
      | Inr resp \<Rightarrow>
          (if has_infix LOGIN_REDIRECT_FRAGMENT (resp_final_url resp) then ([SseSessionExpired now], Inr Session_expired)
           else if resp_status resp = 200 then ([], Inr Session_active)
           else ([SseSessionExpired now], Inr Session_expired)))"

subsection \<open>The login service\<close>

datatype login_kind = Headed | Refresh

record login_outcome =
  lo_success :: bool
  lo_cookies_updated :: bool
  lo_error :: "string option"

record login_job =
  lj_kind :: login_kind
  lj_result :: "login_outcome res option"
  lj_armed :: bool
  lj_recorded :: bool
  lj_hooked :: bool

datatype hook = On_any_success | On_login_success

record login_st =
  lg_browser_available :: bool
  lg_unavailable_logged :: bool
  lg_executor :: bool
  lg_locked :: bool
  lg_active :: "nat option"
  lg_last :: "login_outcome option"
  lg_jobs :: "login_job list"
  lg_calls :: "(hook \<times> nat \<times> login_outcome) list"

definition login_init :: login_st where
  "login_init = \<lparr>lg_browser_available = True, lg_unavailable_logged = False, lg_executor = False, lg_locked = False,
     lg_active = None, lg_last = None, lg_jobs = [], lg_calls = []\<rparr>"

definition BrowserUnavailableError :: exc where "BrowserUnavailableError = OtherException ''BrowserUnavailableError''"
definition LoginBusyError :: exc where "LoginBusyError = OtherException ''LoginBusyError''"

definition login_submit :: "login_kind \<Rightarrow> unit res \<Rightarrow> login_st \<Rightarrow> login_st \<times> nat res" where
  "login_submit kind submitted st =
     (if \<not> lg_browser_available st then (st, Inl BrowserUnavailableError)
      else if lg_locked st then (st, Inl LoginBusyError)
      else if \<not> lg_executor st then (st, Inl RuntimeError)
      else (case submitted of
              Inl e \<Rightarrow> (st, Inl e)
            | Inr _ \<Rightarrow>
                (st\<lparr>lg_locked := True,
                    lg_jobs := lg_jobs st @ [\<lparr>lj_kind = kind, lj_result = None, lj_armed = False,
                                              lj_recorded = False, lj_hooked = False\<rparr>]\<rparr>,
                 Inr (length (lg_jobs st)))))"

definition update_job :: "nat \<Rightarrow> (login_job \<Rightarrow> login_job) \<Rightarrow> login_st \<Rightarrow> login_st" where
  "update_job i f st = st\<lparr>lg_jobs := (lg_jobs st)[i := f (lg_jobs st ! i)]\<rparr>"

definition login_arm :: "nat \<Rightarrow> login_st \<Rightarrow> login_st" where
  "login_arm i st = (update_job i (\<lambda>j. j\<lparr>lj_armed := True\<rparr>) st)\<lparr>lg_active := Some i\<rparr>"

definition job_ends :: "nat \<Rightarrow> login_outcome res \<Rightarrow> login_st \<Rightarrow> login_st" where
  "job_ends i r = update_job i (\<lambda>j. j\<lparr>lj_result := Some r\<rparr>)"

definition outcome_of :: "login_outcome res option \<Rightarrow> login_outcome" where
  "outcome_of r =
     (case r of
        Some (Inr outcome) \<Rightarrow> outcome
      | _ \<Rightarrow> \<lparr>lo_success = False, lo_cookies_updated = False, lo_error = Some ''playwright_other''\<rparr>)"

text \<open>The done callback: the state and the lock first, then the hooks, whose exceptions are swallowed.\<close>

definition on_done_record :: "nat \<Rightarrow> login_st \<Rightarrow> login_st" where
  "on_done_record i st =
     (update_job i (\<lambda>j. j\<lparr>lj_recorded := True\<rparr>) st)
       \<lparr>lg_last := Some (outcome_of (lj_result (lg_jobs st ! i))), lg_active := None, lg_locked := False\<rparr>"

definition hook_calls :: "nat \<Rightarrow> login_job \<Rightarrow> (hook \<times> nat \<times> login_outcome) list" where
  "hook_calls i j =
     (let outcome = outcome_of (lj_result j)
      in (if lo_success outcome then [(On_any_success, i, outcome)] else [])
         @ (case (lj_kind j, lj_result j) of
              (Headed, Some (Inr o')) \<Rightarrow> if lo_success o' then [(On_login_success, i, o')] else []
            | _ \<Rightarrow> []))"

definition on_done_hooks :: "nat \<Rightarrow> login_st \<Rightarrow> login_st" where
  "on_done_hooks i st =
     (update_job i (\<lambda>j. j\<lparr>lj_hooked := True\<rparr>) st)\<lparr>lg_calls := lg_calls st @ hook_calls i (lg_jobs st ! i)\<rparr>"

definition login_status :: "login_st \<Rightarrow> bool \<times> login_outcome option" where
  "login_status st =
     ((case lg_active st of None \<Rightarrow> False | Some i \<Rightarrow> lj_result (lg_jobs st ! i) = None), lg_last st)"

definition bind_executor :: "login_st \<Rightarrow> login_st" where
  "bind_executor st = st\<lparr>lg_executor := True\<rparr>"

definition mark_browser_unavailable :: "login_st \<Rightarrow> login_st" where
  "mark_browser_unavailable st = st\<lparr>lg_browser_available := False, lg_unavailable_logged := True\<rparr>"

subsection \<open>Steps\<close>

inductive login_step :: "login_st \<Rightarrow> login_st \<Rightarrow> bool" where
  Submit: "login_step st (fst (login_submit kind submitted st))"
| Arm: "i < length (lg_jobs st) \<Longrightarrow> \<not> lj_armed (lg_jobs st ! i) \<Longrightarrow> login_step st (login_arm i st)"
| Ends: "i < length (lg_jobs st) \<Longrightarrow> lj_result (lg_jobs st ! i) = None \<Longrightarrow> login_step st (job_ends i r st)"
| Recorded: "i < length (lg_jobs st) \<Longrightarrow> lj_armed (lg_jobs st ! i) \<Longrightarrow> lj_result (lg_jobs st ! i) \<noteq> None \<Longrightarrow>
    \<not> lj_recorded (lg_jobs st ! i) \<Longrightarrow> login_step st (on_done_record i st)"
| Hooks: "i < length (lg_jobs st) \<Longrightarrow> lj_recorded (lg_jobs st ! i) \<Longrightarrow> \<not> lj_hooked (lg_jobs st ! i) \<Longrightarrow>
    login_step st (on_done_hooks i st)"
| Bind: "login_step st (bind_executor st)"
| Unavailable: "login_step st (mark_browser_unavailable st)"

inductive login_reach :: "login_st \<Rightarrow> bool" where
  Start: "login_reach login_init"
| Step: "login_reach st \<Longrightarrow> login_step st st' \<Longrightarrow> login_reach st'"

text \<open>Only the newest job can be unrecorded, and the lock is held exactly while it is.\<close>

definition login_inv :: "login_st \<Rightarrow> bool" where
  "login_inv st \<longleftrightarrow>
     (\<forall>i < length (lg_jobs st). let j = lg_jobs st ! i in
        (\<not> lj_recorded j \<longrightarrow> Suc i = length (lg_jobs st) \<and> lg_locked st)
        \<and> (lj_recorded j \<longrightarrow> lj_armed j \<and> lj_result j \<noteq> None)
        \<and> (lj_hooked j \<longrightarrow> lj_recorded j)
        \<and> filter (\<lambda>c. fst (snd c) = i) (lg_calls st) = (if lj_hooked j then hook_calls i j else []))
     \<and> (\<forall>c \<in> set (lg_calls st). fst (snd c) < length (lg_jobs st))
     \<and> (lg_locked st \<longrightarrow> 0 < length (lg_jobs st) \<and> \<not> lj_recorded (lg_jobs st ! (length (lg_jobs st) - 1)))
     \<and> (\<forall>i. lg_active st = Some i \<longleftrightarrow> i < length (lg_jobs st) \<and> lj_armed (lg_jobs st ! i) \<and> \<not> lj_recorded (lg_jobs st ! i))
     \<and> (\<not> lg_locked st \<and> 0 < length (lg_jobs st) \<longrightarrow>
          lg_last st = Some (outcome_of (lj_result (lg_jobs st ! (length (lg_jobs st) - 1)))))"

lemma update_job_simps [simp]:
  "length (lg_jobs (update_job i f st)) = length (lg_jobs st)"
  "lg_locked (update_job i f st) = lg_locked st" "lg_active (update_job i f st) = lg_active st"
  "lg_last (update_job i f st) = lg_last st" "lg_calls (update_job i f st) = lg_calls st"
  by (simp_all add: update_job_def)

lemma update_job_nth:
  "k < length (lg_jobs st) \<Longrightarrow> lg_jobs (update_job i f st) ! k = (if k = i then f (lg_jobs st ! i) else lg_jobs st ! k)"
  by (auto simp: update_job_def nth_list_update)

lemma login_invD:
  assumes "login_inv st"
  shows "i < length (lg_jobs st) \<Longrightarrow> \<not> lj_recorded (lg_jobs st ! i) \<Longrightarrow> Suc i = length (lg_jobs st) \<and> lg_locked st"
    and "i < length (lg_jobs st) \<Longrightarrow> lj_recorded (lg_jobs st ! i) \<Longrightarrow> lj_armed (lg_jobs st ! i) \<and> lj_result (lg_jobs st ! i) \<noteq> None"
    and "i < length (lg_jobs st) \<Longrightarrow> lj_hooked (lg_jobs st ! i) \<Longrightarrow> lj_recorded (lg_jobs st ! i)"
    and "i < length (lg_jobs st) \<Longrightarrow> filter (\<lambda>c. fst (snd c) = i) (lg_calls st)
      = (if lj_hooked (lg_jobs st ! i) then hook_calls i (lg_jobs st ! i) else [])"
    and "c \<in> set (lg_calls st) \<Longrightarrow> fst (snd c) < length (lg_jobs st)"
    and "lg_locked st \<Longrightarrow> 0 < length (lg_jobs st) \<and> \<not> lj_recorded (lg_jobs st ! (length (lg_jobs st) - 1))"
    and "lg_active st = Some i \<longleftrightarrow> i < length (lg_jobs st) \<and> lj_armed (lg_jobs st ! i) \<and> \<not> lj_recorded (lg_jobs st ! i)"
    and "\<not> lg_locked st \<Longrightarrow> 0 < length (lg_jobs st) \<Longrightarrow>
      lg_last st = Some (outcome_of (lj_result (lg_jobs st ! (length (lg_jobs st) - 1))))"
  using assms unfolding login_inv_def Let_def by blast+

lemma login_locked_iff:
  assumes "login_inv st"
  shows "lg_locked st \<longleftrightarrow> (\<exists>i < length (lg_jobs st). \<not> lj_recorded (lg_jobs st ! i))"
  using login_invD(1,6) [OF assms] by (metis diff_less zero_less_one)

lemma inv_submit:
  assumes "login_inv st"
  shows "login_inv (fst (login_submit kind submitted st))"
proof (cases "lg_browser_available st \<and> \<not> lg_locked st \<and> lg_executor st \<and> submitted = Inr ()")
  case True
  have rec: "lj_recorded (lg_jobs st ! i)" if "i < length (lg_jobs st)" for i
    using login_invD(1) [OF assms that] True by blast
  have "filter (\<lambda>c. fst (snd c) = length (lg_jobs st)) (lg_calls st) = []"
    using login_invD(5) [OF assms] by (fastforce simp: filter_empty_conv)
  with True rec login_invD(2-5,7) [OF assms] show ?thesis
    unfolding login_inv_def Let_def
    by (auto simp: login_submit_def nth_append less_Suc_eq)
next
  case False
  then have "fst (login_submit kind submitted st) = st"
    by (auto simp: login_submit_def split: sum.split)
  with assms show ?thesis by simp
qed

lemma hook_calls_index: "c \<in> set (hook_calls i j) \<Longrightarrow> fst (snd c) = i"
  by (auto simp: hook_calls_def Let_def split: login_kind.splits option.splits sum.splits if_splits)

lemma hook_calls_filter: "filter (\<lambda>c. fst (snd c) = k) (hook_calls i j) = (if k = i then hook_calls i j else [])"
  using hook_calls_index by (auto simp: filter_id_conv filter_empty_conv)

lemma hook_calls_cong [simp]:
  "hook_calls i (j\<lparr>lj_armed := a\<rparr>) = hook_calls i j" "hook_calls i (j\<lparr>lj_recorded := a\<rparr>) = hook_calls i j"
  "hook_calls i (j\<lparr>lj_hooked := a\<rparr>) = hook_calls i j"
  by (simp_all add: hook_calls_def)

lemma inv_arm:
  assumes "login_inv st" "i < length (lg_jobs st)" "\<not> lj_armed (lg_jobs st ! i)"
  shows "login_inv (login_arm i st)"
proof -
  have i: "\<not> lj_recorded (lg_jobs st ! i)" "Suc i = length (lg_jobs st)" "lg_locked st"
    using login_invD(1,2) [OF assms(1,2)] assms(3) by auto
  have n: "length (lg_jobs st) - 1 = i" using i(2) by simp
  have others: "k < length (lg_jobs st) \<Longrightarrow> k \<noteq> i \<Longrightarrow> lj_recorded (lg_jobs st ! k)" for k
    using login_invD(1) [OF assms(1), of k] i by auto
  show ?thesis
    using i(1,3) i(2) others login_invD(2-5) [OF assms(1)]
    unfolding login_inv_def Let_def
    by (auto simp: login_arm_def update_job_nth n split: if_splits)
qed

lemma inv_ends:
  assumes "login_inv st" "i < length (lg_jobs st)" "lj_result (lg_jobs st ! i) = None"
  shows "login_inv (job_ends i r st)"
proof -
  have i: "\<not> lj_recorded (lg_jobs st ! i)" "Suc i = length (lg_jobs st)" "lg_locked st"
    using login_invD(1,2) [OF assms(1,2)] assms(3) by auto
  have n: "length (lg_jobs st) - 1 = i" using i(2) by simp
  have "\<not> lj_hooked (lg_jobs st ! i)" using login_invD(3) [OF assms(1,2)] i(1) by blast
  with i(1,3) login_invD(2-7) [OF assms(1)] login_invD(1) [OF assms(1)] i(2) show ?thesis
    unfolding login_inv_def Let_def
    by (auto simp: job_ends_def update_job_nth n split: if_splits)
qed

lemma inv_recorded:
  assumes "login_inv st" "i < length (lg_jobs st)" "lj_armed (lg_jobs st ! i)" "lj_result (lg_jobs st ! i) \<noteq> None"
    and "\<not> lj_recorded (lg_jobs st ! i)"
  shows "login_inv (on_done_record i st)"
proof -
  have i: "Suc i = length (lg_jobs st)" using login_invD(1) [OF assms(1,2,5)] by blast
  have n: "length (lg_jobs st) - 1 = i" using i by simp
  have others: "k < length (lg_jobs st) \<Longrightarrow> k \<noteq> i \<Longrightarrow> lj_recorded (lg_jobs st ! k)" for k
    using login_invD(1) [OF assms(1), of k] i by auto
  with assms(3-5) login_invD(2-5) [OF assms(1)] i show ?thesis
    unfolding login_inv_def Let_def
    by (auto simp: on_done_record_def update_job_nth n split: if_splits)
qed

lemma inv_hooks:
  assumes "login_inv st" "i < length (lg_jobs st)" "lj_recorded (lg_jobs st ! i)" "\<not> lj_hooked (lg_jobs st ! i)"
  shows "login_inv (on_done_hooks i st)"
proof -
  let ?st' = "on_done_hooks i st"
  have jobs: "length (lg_jobs ?st') = length (lg_jobs st)"
    "k < length (lg_jobs st) \<Longrightarrow> lg_jobs ?st' ! k = (if k = i then (lg_jobs st ! i)\<lparr>lj_hooked := True\<rparr> else lg_jobs st ! k)"
    "lg_locked ?st' = lg_locked st" "lg_active ?st' = lg_active st" "lg_last ?st' = lg_last st"
    "lg_calls ?st' = lg_calls st @ hook_calls i (lg_jobs st ! i)" for k
    by (simp_all add: on_done_hooks_def update_job_nth)
  have calls: "filter (\<lambda>c. fst (snd c) = k) (lg_calls ?st') =
      (if lj_hooked (lg_jobs ?st' ! k) then hook_calls k (lg_jobs ?st' ! k) else [])" if "k < length (lg_jobs st)" for k
    using login_invD(4) [OF assms(1) that] assms(4) jobs(2) [OF that] by (auto simp: jobs(6) hook_calls_filter)
  have bound: "fst (snd c) < length (lg_jobs st)" if "c \<in> set (lg_calls ?st')" for c
    using that login_invD(5) [OF assms(1)] assms(2) hook_calls_index by (fastforce simp: jobs(6))
  have n: "0 < length (lg_jobs st) \<Longrightarrow> length (lg_jobs st) - 1 < length (lg_jobs st)" by simp
  show ?thesis
    unfolding login_inv_def Let_def jobs(1,3-5)
  proof (intro conjI allI impI ballI)
    show "filter (\<lambda>c. fst (snd c) = k) (lg_calls ?st') =
      (if lj_hooked (lg_jobs ?st' ! k) then hook_calls k (lg_jobs ?st' ! k) else [])" if "k < length (lg_jobs st)" for k
      using calls that .
    show "fst (snd c) < length (lg_jobs st)" if "c \<in> set (lg_calls ?st')" for c using bound that .
    show "lg_active st = Some k \<longleftrightarrow> k < length (lg_jobs st) \<and> lj_armed (lg_jobs ?st' ! k) \<and> \<not> lj_recorded (lg_jobs ?st' ! k)" for k
      using login_invD(7) [OF assms(1), of k] jobs(2) [of k] assms(3) by (cases "k = i") auto
  qed (use assms(3) jobs(2) n login_invD(1-3,6,8) [OF assms(1)] in \<open>auto split: if_splits\<close>)
qed

lemma login_inv_step: "login_step st st' \<Longrightarrow> login_inv st \<Longrightarrow> login_inv st'"
  by (cases rule: login_step.cases)
    (auto simp: inv_submit inv_arm inv_ends inv_recorded inv_hooks,
     auto simp: login_inv_def bind_executor_def mark_browser_unavailable_def)

lemma login_reach_inv: "login_reach st \<Longrightarrow> login_inv st"
  by (induction rule: login_reach.induct) (auto simp: login_inv_step, simp add: login_inv_def login_init_def)

text \<open>A held lock is always let go of: by the end of the job and its callback, in at most three steps.\<close>

lemma login_lock_released:
  assumes "login_inv st" "lg_locked st"
  shows "\<exists>st'. login_step\<^sup>*\<^sup>* st st' \<and> \<not> lg_locked st' \<and> length (lg_jobs st') = length (lg_jobs st)"
proof -
  obtain i where i: "i < length (lg_jobs st)" "\<not> lj_recorded (lg_jobs st ! i)"
    using assms login_locked_iff by blast
  let ?a = "if lj_armed (lg_jobs st ! i) then st else login_arm i st"
  have a: "login_step\<^sup>*\<^sup>* st ?a" using login_step.Arm [OF i(1)] by auto
  have ai: "i < length (lg_jobs ?a)" "\<not> lj_recorded (lg_jobs ?a ! i)" "lj_armed (lg_jobs ?a ! i)"
    "length (lg_jobs ?a) = length (lg_jobs st)"
    using i by (auto simp: login_arm_def update_job_nth)
  let ?b = "if lj_result (lg_jobs ?a ! i) = None then job_ends i (Inl RuntimeError) ?a else ?a"
  have b: "login_step\<^sup>*\<^sup>* ?a ?b" using login_step.Ends [OF ai(1)] by auto
  have bi: "i < length (lg_jobs ?b)" "\<not> lj_recorded (lg_jobs ?b ! i)" "lj_armed (lg_jobs ?b ! i)"
    "lj_result (lg_jobs ?b ! i) \<noteq> None" "length (lg_jobs ?b) = length (lg_jobs st)"
    using ai by (auto simp: job_ends_def update_job_nth)
  have c: "login_step ?b (on_done_record i ?b)" using bi by (intro login_step.Recorded) auto
  have "login_step\<^sup>*\<^sup>* st (on_done_record i ?b)" using a b c by (meson rtranclp.rtrancl_into_rtrancl rtranclp_trans)
  with bi(5) show ?thesis by (intro exI [of _ "on_done_record i ?b"]) (simp add: on_done_record_def)
qed

subsection \<open>The routes\<close>

text \<open>\<^verbatim>\<open>POST /auth/start\<close> and \<^verbatim>\<open>POST /auth/refresh\<close>, each with a limiter of its own: the status code.\<close>

definition auth_request ::
  "login_kind \<Rightarrow> string \<Rightarrow> time \<Rightarrow> unit res \<Rightarrow> windows \<times> login_st \<Rightarrow> (windows \<times> login_st) \<times> int res" where
  "auth_request kind ip now submitted ws =
     (let (w, st) = ws
      in if \<not> lg_browser_available st then (ws, Inr 503)
         else if \<not> lg_executor st then (ws, Inr 503)
         else (let (w1, ok) = acquire 1 60000000 ip now w
               in if \<not> ok then ((w1, st), Inr 429)
                  else (case login_submit kind submitted st of
                          (st1, Inr _) \<Rightarrow> ((w1, st1), Inr 202)
                        | (st1, Inl e) \<Rightarrow>
                            ((w1, st1), if e = BrowserUnavailableError then Inr 503
                                        else if e = LoginBusyError then Inr 409
                                        else if e = RuntimeError then Inr 503 else Inl e))))"

text \<open>A request that cannot be served for lack of a browser or an executor costs no slot.\<close>

lemma auth_request_codes:
  assumes "auth_request kind ip now submitted (w, st) = ((w', st'), r)"
  shows "r = Inr 202 \<longleftrightarrow> length (lg_jobs st') = Suc (length (lg_jobs st))"
    and "r \<noteq> Inr 202 \<Longrightarrow> st' = st"
    and "\<not> (lg_browser_available st \<and> lg_executor st) \<Longrightarrow> w' = w \<and> r = Inr 503"
  using assms
  by (auto simp: auth_request_def login_submit_def BrowserUnavailableError_def LoginBusyError_def
      split: if_splits prod.splits sum.splits)

subsection \<open>What a headed login triggers\<close>

text \<open>
  \<^verbatim>\<open>make_login_success_callback\<close>: two readings of the configuration, the zone of the first
  (\<^verbatim>\<open>None\<close> when it does not exist), and whether the supervisor is bound; the thread it starts
  calls \<^verbatim>\<open>BackfillService.start\<close>.
\<close>

definition login_success_callback ::
  "settings res \<Rightarrow> (time \<Rightarrow> time) option \<Rightarrow> settings res \<Rightarrow> bool \<Rightarrow> mon \<Rightarrow> mon \<times> unit res" where
  "login_success_callback cfg zone cfg2 supervisor st =
     (let now = m_now st; st1 = m_tick st;
          st2 = (case cfg of
                   Inl _ \<Rightarrow> st1
                 | Inr c \<Rightarrow>
                     (case zone of
                        None \<Rightarrow> st1
                      | Some tz \<Rightarrow>
                          (let human = (case lr_latest_new_first_seen (m_db st1) of
                                          None \<Rightarrow> dash
                                        | Some last_new \<Rightarrow> format_local_time last_new tz (tz now));
                               st3 = pub (SseLoginSucceeded now)
                                       (pub (SseStatus now St_active (set_interval_minutes c) human []) st1)
                           in st3\<lparr>m_bus := m_bus st3 @ [Evicted ''login.succeeded'']\<rparr>)))
      in case get_onboarding kv_get (ld_state (m_db st2)) of
           Inl e \<Rightarrow> (st2, Inl e)
         | Inr onboarding_state \<Rightarrow>
             (if onboarding_state \<noteq> Completed then (st2, Inr ())
              else case cfg2 of
                     Inl e \<Rightarrow> (st2, Inl e)
                   | Inr c2 \<Rightarrow>
                       (if set_regions c2 = [] then (st2, Inr ())
                        else if \<not> supervisor then (st2, Inr ())
                        else (fst (bf_start None st2), Inr ()))))"

lemma login_callback_launches:
  "bf_worker (fst (login_success_callback cfg zone cfg2 supervisor st)) =
     (if get_onboarding kv_get (ld_state (m_db st)) = Inr Completed
         \<and> (\<exists>c. cfg2 = Inr c \<and> set_regions c \<noteq> []) \<and> supervisor \<and> \<not> bf_running st
      then Some None else bf_worker st)"
  by (auto simp: login_success_callback_def Let_def bf_start_def launch_def split: sum.splits option.splits)

lemma login_callback_db: "m_db (fst (login_success_callback cfg zone cfg2 supervisor st)) = m_db st"
  by (auto simp: login_success_callback_def Let_def bf_start_def launch_def split: sum.splits option.splits)

subsection \<open>Properties\<close>

text \<open>
  C18. One login at a time, each reported once. In every state any interleaving of requests, ends
  of jobs and callbacks can reach: at most one job has not been recorded; a request made with a
  browser and an executor is refused as busy exactly while there is one, and from there the lock
  is released once that job ends, whatever its end; the hooks called for a job are, once its
  callback has run, one for any success and one more for a successful headed login, and none
  before or for a failure or an exception; the recorded outcome is that of the newest job.
\<close>

theorem login_single_flight:
  assumes "login_reach st"
  shows "length (filter (\<lambda>j. \<not> lj_recorded j) (lg_jobs st)) \<le> 1
    \<and> (lg_browser_available st \<and> lg_executor st \<longrightarrow>
         (snd (login_submit kind (Inr ()) st) = Inl LoginBusyError \<longleftrightarrow> (\<exists>j \<in> set (lg_jobs st). \<not> lj_recorded j)))
    \<and> (lg_locked st \<longrightarrow> (\<exists>st'. login_step\<^sup>*\<^sup>* st st' \<and> \<not> lg_locked st' \<and> length (lg_jobs st') = length (lg_jobs st)))
    \<and> (\<forall>i < length (lg_jobs st).
         map fst (filter (\<lambda>c. fst (snd c) = i) (lg_calls st)) =
           (case lj_result (lg_jobs st ! i) of
              Some (Inr outcome) \<Rightarrow>
                if lj_hooked (lg_jobs st ! i) \<and> lo_success outcome
                then On_any_success # (if lj_kind (lg_jobs st ! i) = Headed then [On_login_success] else [])
                else []
            | _ \<Rightarrow> []))
    \<and> ((\<forall>j \<in> set (lg_jobs st). lj_recorded j) \<and> lg_jobs st \<noteq> [] \<longrightarrow>
         lg_last st = Some (outcome_of (lj_result (last (lg_jobs st)))))"
proof -
  have inv: "login_inv st" using assms by (rule login_reach_inv)
  have lock: "lg_locked st \<longleftrightarrow> (\<exists>j \<in> set (lg_jobs st). \<not> lj_recorded j)"
    using login_locked_iff [OF inv] by (auto simp: in_set_conv_nth Bex_def)
  have one: "length (filter (\<lambda>j. \<not> lj_recorded j) (lg_jobs st)) \<le> 1"
  proof (cases "lg_jobs st" rule: rev_cases)
    case (snoc js j)
    have "\<forall>x \<in> set js. lj_recorded x"
    proof
      fix x assume "x \<in> set js"
      then obtain k where "k < length js" "x = js ! k" by (metis in_set_conv_nth)
      then show "lj_recorded x" using login_invD(1) [OF inv, of k] by (auto simp: snoc nth_append)
    qed
    then have "filter (\<lambda>j. \<not> lj_recorded j) js = []" by (simp add: filter_empty_conv)
    then show ?thesis by (simp add: snoc)
  qed simp
  have busy: "lg_browser_available st \<and> lg_executor st \<longrightarrow>
      (snd (login_submit kind (Inr ()) st) = Inl LoginBusyError \<longleftrightarrow> lg_locked st)"
    by (simp add: login_submit_def)
  have calls: "map fst (filter (\<lambda>c. fst (snd c) = i) (lg_calls st)) =
           (case lj_result (lg_jobs st ! i) of
              Some (Inr outcome) \<Rightarrow>
                if lj_hooked (lg_jobs st ! i) \<and> lo_success outcome
                then On_any_success # (if lj_kind (lg_jobs st ! i) = Headed then [On_login_success] else [])
                else []
            | _ \<Rightarrow> [])" if "i < length (lg_jobs st)" for i
    unfolding login_invD(4) [OF inv that]
    by (auto simp: hook_calls_def outcome_of_def Let_def split: option.splits sum.splits login_kind.splits)
  have "\<not> lg_locked st \<Longrightarrow> lg_jobs st \<noteq> [] \<Longrightarrow> lg_last st = Some (outcome_of (lj_result (last (lg_jobs st))))"
    using login_invD(8) [OF inv] by (simp add: last_conv_nth)
  with one busy calls lock login_lock_released [OF inv] show ?thesis by blast
qed

theorem login_single_flight_witness:
  "\<exists>st. login_reach st \<and> lg_calls st = [(On_any_success, 0, \<lparr>lo_success = True, lo_cookies_updated = True, lo_error = None\<rparr>)]
     \<and> length (filter (\<lambda>j. \<not> lj_recorded j) (lg_jobs st)) \<le> 1"
proof -
  let ?o = "\<lparr>lo_success = True, lo_cookies_updated = True, lo_error = None\<rparr>"
  let ?s0 = "bind_executor login_init"
  let ?s1 = "fst (login_submit Refresh (Inr ()) ?s0)"
  let ?s5 = "on_done_hooks 0 (on_done_record 0 (login_arm 0 (job_ends 0 (Inr ?o) ?s1)))"
  have r0: "login_reach ?s0" by (rule login_reach.Step [OF login_reach.Start login_step.Bind])
  have r1: "login_reach ?s1" by (rule login_reach.Step [OF r0 login_step.Submit])
  have s1: "?s1 = \<lparr>lg_browser_available = True, lg_unavailable_logged = False, lg_executor = True, lg_locked = True,
     lg_active = None, lg_last = None, lg_jobs = [\<lparr>lj_kind = Refresh, lj_result = None, lj_armed = False,
       lj_recorded = False, lj_hooked = False\<rparr>], lg_calls = []\<rparr>"
    by (simp add: login_submit_def bind_executor_def login_init_def)
  have r2: "login_reach (job_ends 0 (Inr ?o) ?s1)" by (rule login_reach.Step [OF r1 login_step.Ends]) (simp_all add: s1)
  have r3: "login_reach (login_arm 0 (job_ends 0 (Inr ?o) ?s1))"
    by (rule login_reach.Step [OF r2 login_step.Arm]) (simp_all add: s1 job_ends_def update_job_def)
  have r4: "login_reach (on_done_record 0 (login_arm 0 (job_ends 0 (Inr ?o) ?s1)))"
    by (rule login_reach.Step [OF r3 login_step.Recorded]) (simp_all add: s1 job_ends_def update_job_def login_arm_def)
  have r5: "login_reach ?s5"
    by (rule login_reach.Step [OF r4 login_step.Hooks])
      (simp_all add: s1 job_ends_def update_job_def login_arm_def on_done_record_def)
  have "lg_calls ?s5 = [(On_any_success, 0, ?o)]"
    by (simp add: s1 job_ends_def update_job_def login_arm_def on_done_record_def on_done_hooks_def hook_calls_def outcome_of_def)
  with r5 conjunct1 [OF login_single_flight [OF r5]] show ?thesis by blast
qed

end
