(* ===== verification/License.thy ===== *)
theory License
  imports Cursor Domain
begin

text \<open>
  The license key (\<^verbatim>\<open>licensing/_codec.py\<close>, \<^verbatim>\<open>_hmac.py\<close>, \<^verbatim>\<open>_verify.py\<close>, \<^verbatim>\<open>cli.py\<close>), the check at
  start-up (\<^verbatim>\<open>app.py\<close>) and the daily check (\<^verbatim>\<open>services/license_expiry.py\<close>). HMAC-SHA256
  (\<open>mac\<close>, secret first) and the JSON codec (\<open>dumps\<close> with sorted keys, \<open>loads\<close>) are parameters.
  A date is its day number; a date text is \<^verbatim>\<open>YYYY-MM-DD\<close>, the other two forms
  \<^verbatim>\<open>fromisoformat\<close> reads are left out. Keys are Latin-1 texts.
\<close>

subsection \<open>Dates\<close>

definition num_of :: "string \<Rightarrow> nat" where
  "num_of s = foldl (\<lambda>a c. 10 * a + digit_val c) 0 s"

definition date_fromisoformat :: "string \<Rightarrow> int res" where
  "date_fromisoformat s =
     (if length s = 10 \<and> s ! 4 = CHR ''-'' \<and> s ! 7 = CHR ''-''
         \<and> (\<forall>c \<in> set (take 4 s @ take 2 (drop 5 s) @ drop 8 s). is_digit c)
      then (case day_of_civil (num_of (take 4 s)) (num_of (take 2 (drop 5 s))) (num_of (drop 8 s)) of
              None \<Rightarrow> Inl ValueError | Some n \<Rightarrow> Inr n)
      else Inl ValueError)"

lemma num_of_append [simp]: "num_of (s @ [c]) = 10 * num_of s + digit_val c"
  by (simp add: num_of_def)

lemma num_of_pad: "n < 10 ^ w \<Longrightarrow> num_of (pad w n) = n"
proof (induction w arbitrary: n)
  case (Suc w)
  have "n div 10 < 10 ^ w" using Suc.prems by (simp add: div_less_iff_less_mult mult.commute)
  with Suc.IH [of "n div 10"] show ?case by simp
qed (simp add: num_of_def)

lemma pad_digits: "\<forall>c \<in> set (pad w n). is_digit c"
  by (induction w arbitrary: n) auto

definition in_calendar_day :: "int \<Rightarrow> bool" where
  "in_calendar_day n \<longleftrightarrow> 1 \<le> fst (civil n) \<and> fst (civil n) \<le> 9999"

lemma date_roundtrip:
  assumes "in_calendar_day n"
  shows "date_fromisoformat (iso_date n) = Inr n"
proof -
  obtain y m d where c: "civil n = (y, m, d)" by (cases "civil n") auto
  have b: "1 \<le> y" "nat y < 10 ^ 4" "m < 10 ^ 2" "d < 10 ^ 2"
    using assms civil_bounds [OF c] by (auto simp: in_calendar_day_def c)
  let ?s = "pad 4 (nat y) @ ''-'' @ pad 2 m @ ''-'' @ pad 2 d"
  have parts: "take 4 ?s = pad 4 (nat y)" "take 2 (drop 5 ?s) = pad 2 m" "drop 8 ?s = pad 2 d"
    "length ?s = 10" "?s ! 4 = CHR ''-''" "?s ! 7 = CHR ''-''"
    by (simp_all add: nth_append del: pad.simps)
  have "iso_date n = ?s" by (simp add: iso_date_def c)
  with parts b day_of_civil_civil [OF c b(1)] pad_digits num_of_pad show ?thesis
    by (auto simp: date_fromisoformat_def simp del: pad.simps power.simps)
qed

subsection \<open>Padding\<close>

definition rstrip_pad :: "string \<Rightarrow> string" where
  "rstrip_pad s = rev (dropWhile (\<lambda>c. c = CHR ''='') (rev s))"

definition padded :: "string \<Rightarrow> string" where
  "padded s = s @ replicate (nat ((- int (length s)) mod 4)) (CHR ''='')"

definition full_groups :: "string \<Rightarrow> bool" where
  "full_groups s \<longleftrightarrow> (\<exists>body k. s = body @ replicate k (CHR ''='') \<and> k < 4 \<and> 4 dvd length body + k
     \<and> (body = [] \<longrightarrow> k = 0) \<and> (body \<noteq> [] \<longrightarrow> last body \<noteq> CHR ''=''))"

lemma b64encode_groups: "\<forall>b \<in> set bs. b < 256 \<Longrightarrow> full_groups (b64encode bs)"
proof (induction bs rule: b64encode.induct)
  case 1
  then show ?case unfolding full_groups_def by (intro exI [of _ "[]"] exI [of _ 0]) simp
next
  case (2 a)
  have "(4 :: nat) dvd Suc (Suc (Suc (Suc 0)))" by presburger
  with 2 show ?case unfolding full_groups_def
    by (intro exI [of _ "[b64_char (a div 4), b64_char (a mod 4 * 16)]"] exI [of _ "Suc (Suc 0)"]) simp
next
  case (3 a b)
  have "(4 :: nat) dvd Suc (Suc (Suc (Suc 0)))" by presburger
  with 3 show ?case unfolding full_groups_def
    by (intro exI [of _ "[b64_char (a div 4), b64_char (a mod 4 * 16 + b div 16), b64_char (b mod 16 * 4)]"] exI [of _ 1]) simp
next
  case (4 a b c bs)
  then obtain body k where r: "b64encode bs = body @ replicate k (CHR ''='')" "k < 4" "4 dvd length body + k"
    "body = [] \<longrightarrow> k = 0" "body \<noteq> [] \<longrightarrow> last body \<noteq> CHR ''=''"
    by (auto simp: full_groups_def)
  let ?q = "[b64_char (a div 4), b64_char (a mod 4 * 16 + b div 16), b64_char (b mod 16 * 4 + c div 64), b64_char (c mod 64)]"
  have "length (?q @ body) + k = 4 + (length body + k)" by simp
  then have "4 dvd length (?q @ body) + k" using r(3) by presburger
  moreover have "last (?q @ body) \<noteq> CHR ''=''" using r(5) by (cases "body = []") simp_all
  moreover have "b64encode (a # b # c # bs) = (?q @ body) @ replicate k (CHR ''='')" by (simp add: r(1))
  ultimately show ?case using r(2) unfolding full_groups_def by blast
qed

lemma padded_rstrip: "full_groups s \<Longrightarrow> padded (rstrip_pad s) = s"
proof -
  assume "full_groups s"
  then obtain body k where r: "s = body @ replicate k (CHR ''='')" "k < 4" "4 dvd length body + k"
    "body = [] \<longrightarrow> k = 0" "body \<noteq> [] \<longrightarrow> last body \<noteq> CHR ''=''"
    by (auto simp: full_groups_def)
  have "dropWhile (\<lambda>c. c = CHR ''='') (rev s) = rev body"
    using r(5) by (cases body rule: rev_cases) (auto simp: r(1) dropWhile_append)
  then have b: "rstrip_pad s = body" by (simp add: rstrip_pad_def)
  obtain q where q: "length body + k = 4 * q" using r(3) by (auto simp: dvd_def)
  then have "- int (length body) = int k + 4 * (- int q)" by simp
  then have "(- int (length body)) mod 4 = int k mod 4" by (simp only: mod_mult_self2)
  with r(2) have "nat ((- int (length body)) mod 4) = k" by simp
  with b r(1) show ?thesis by (simp add: padded_def)
qed

subsection \<open>The key\<close>

datatype jval = J_str string | J_num rat | J_other nat

type_synonym payload = "(string \<times> jval) list"

datatype license_status = Lic_valid | Lic_expired | Lic_invalid

record license_result =
  lic_status :: license_status
  lic_expires_at :: "int option"
  lic_licensee :: "string option"

definition invalid_license :: license_result where
  "invalid_license = \<lparr>lic_status = Lic_invalid, lic_expires_at = None, lic_licensee = None\<rparr>"

definition SIG_LENGTH :: nat where "SIG_LENGTH = 32"

definition encode_payload :: "(payload \<Rightarrow> nat list) \<Rightarrow> payload \<Rightarrow> string" where
  "encode_payload dumps payload = rstrip_pad (b64encode (dumps payload))"

text \<open>\<open>loads\<close> answers \<^verbatim>\<open>None\<close> for JSON that is not an object; the bytes must be UTF-8.\<close>

definition urlsafe_b64decode :: "string \<Rightarrow> nat list res" where
  "urlsafe_b64decode s = (if \<forall>c \<in> set s. (of_char c :: nat) < 128 then b64decode s else Inl ValueError)"

definition decode_payload :: "(nat list \<Rightarrow> payload option res) \<Rightarrow> string \<Rightarrow> payload res" where
  "decode_payload loads encoded =
     res_bind (urlsafe_b64decode (padded encoded)) (\<lambda>raw.
       if \<not> valid_utf8 raw then Inl ValueError
       else res_bind (loads raw) (\<lambda>r. case r of None \<Rightarrow> Inl ValueError | Some d \<Rightarrow> Inr d))"

text \<open>\<^verbatim>\<open>str.partition\<close>: the parts before and after the first occurrence, and whether it occurs.\<close>

definition partition_dot :: "string \<Rightarrow> string \<times> bool \<times> string" where
  "partition_dot s =
     (takeWhile (\<lambda>c. c \<noteq> CHR ''.'') s, CHR ''.'' \<in> set s, drop 1 (dropWhile (\<lambda>c. c \<noteq> CHR ''.'') s))"

definition decode_v2_raw :: "(nat list \<Rightarrow> payload option res) \<Rightarrow> string \<Rightarrow> (payload \<times> nat list) res" where
  "decode_v2_raw loads key_body =
     (let (encoded_payload, sep, encoded_sig) = partition_dot key_body
      in if \<not> sep \<or> encoded_payload = [] \<or> encoded_sig = [] then Inl ValueError
         else res_bind (decode_payload loads encoded_payload) (\<lambda>payload.
              res_bind (urlsafe_b64decode (padded encoded_sig)) (\<lambda>sig.
                if length sig \<noteq> SIG_LENGTH then Inl ValueError else Inr (payload, sig))))"

definition str_field :: "string \<Rightarrow> payload \<Rightarrow> string res" where
  "str_field k payload = (case map_of payload k of Some (J_str s) \<Rightarrow> Inr s | _ \<Rightarrow> Inl ValueError)"

definition extract_v2_fields :: "payload \<Rightarrow> (int \<times> int \<times> string) res" where
  "extract_v2_fields payload =
     (if map_of payload ''v'' \<noteq> Some (J_num 2) then Inl ValueError
      else res_bind (str_field ''nbf'' payload) (\<lambda>nbf.
           res_bind (str_field ''exp'' payload) (\<lambda>ex.
           res_bind (str_field ''lic'' payload) (\<lambda>licensee.
           res_bind (date_fromisoformat nbf) (\<lambda>nbf_date.
           res_bind (date_fromisoformat ex) (\<lambda>exp_date. Inr (nbf_date, exp_date, licensee)))))))"

definition verify_signature :: "(nat list \<Rightarrow> nat list \<Rightarrow> nat list) \<Rightarrow> nat list \<Rightarrow> nat list \<Rightarrow> nat list \<Rightarrow> bool" where
  "verify_signature mac payload_bytes sig secret \<longleftrightarrow> mac secret payload_bytes = sig"

definition caught :: "exc \<Rightarrow> bool" where
  "caught e \<longleftrightarrow> e \<in> {ValueError, KeyError, ValidationError, OtherException ''TypeError'', OtherException ''AttributeError''}"

text \<open>
  \<open>today\<close> is \<^verbatim>\<open>now.date()\<close>, \<^verbatim>\<open>None\<close> for a naive \<^verbatim>\<open>now\<close>. Beside the result stand, in
  order, the steps the verification took: the body decoded, the signature compared (and
  whether it matched), the typed fields read.
\<close>

datatype verify_step = Body_decoded | Signature_compared bool | Fields_read

definition verify_steps ::
  "(nat list \<Rightarrow> nat list \<Rightarrow> nat list) \<Rightarrow> (payload \<Rightarrow> nat list) \<Rightarrow> (nat list \<Rightarrow> payload option res) \<Rightarrow>
   string \<Rightarrow> nat list \<Rightarrow> int option \<Rightarrow> verify_step list \<times> license_result res" where
  "verify_steps mac dumps loads key_str secret now_date =
     (case now_date of
        None \<Rightarrow> ([], Inr invalid_license)
      | Some today \<Rightarrow>
          (let (prefix, _, body) = partition_dot key_str
           in if prefix = [] \<or> body = [] then ([], Inr invalid_license)
              else if prefix \<noteq> ''v2'' then ([], Inr invalid_license)
              else (case decode_v2_raw loads body of
                      Inl e \<Rightarrow> ([Body_decoded], if caught e then Inr invalid_license else Inl e)
                    | Inr (payload, sig) \<Rightarrow>
                        (if \<not> verify_signature mac (dumps payload) sig secret
                         then ([Body_decoded, Signature_compared False], Inr invalid_license)
                         else
                           ([Body_decoded, Signature_compared True, Fields_read],
                            (case extract_v2_fields payload of
                                 Inl e \<Rightarrow> if caught e then Inr invalid_license else Inl e
                               | Inr (nbf_date, exp_date, licensee) \<Rightarrow>
                                   Inr (if today < nbf_date then invalid_license
                                        else if exp_date < today
                                        then \<lparr>lic_status = Lic_expired, lic_expires_at = Some exp_date, lic_licensee = Some licensee\<rparr>
                                        else \<lparr>lic_status = Lic_valid, lic_expires_at = Some exp_date, lic_licensee = Some licensee\<rparr>)))))))"

definition verify_license ::
  "(nat list \<Rightarrow> nat list \<Rightarrow> nat list) \<Rightarrow> (payload \<Rightarrow> nat list) \<Rightarrow> (nat list \<Rightarrow> payload option res) \<Rightarrow>
   string \<Rightarrow> nat list \<Rightarrow> int option \<Rightarrow> license_result res" where
  "verify_license mac dumps loads key_str secret now_date = snd (verify_steps mac dumps loads key_str secret now_date)"

lemmas verify_license_unfold = verify_license_def verify_steps_def

definition key_payload :: "int \<Rightarrow> int \<Rightarrow> payload" where
  "key_payload nbf ex =
     [(''v'', J_num 2), (''nbf'', J_str (iso_date nbf)), (''exp'', J_str (iso_date ex)), (''lic'', J_str ''interactive'')]"

definition build_v2_key ::
  "(nat list \<Rightarrow> nat list \<Rightarrow> nat list) \<Rightarrow> (payload \<Rightarrow> nat list) \<Rightarrow> int \<Rightarrow> int \<Rightarrow> nat list \<Rightarrow> string" where
  "build_v2_key mac dumps nbf ex secret =
     (let payload = key_payload nbf ex
      in ''v2.'' @ encode_payload dumps payload @ ''.'' @ rstrip_pad (b64encode (mac secret (dumps payload))))"

subsection \<open>Issued keys\<close>

definition json_ok :: "(payload \<Rightarrow> nat list) \<Rightarrow> (nat list \<Rightarrow> payload option res) \<Rightarrow> payload \<Rightarrow> bool" where
  "json_ok dumps loads p \<longleftrightarrow>
     dumps p \<noteq> [] \<and> (\<forall>b \<in> set (dumps p). b < 128)
     \<and> (\<exists>q. loads (dumps p) = Inr (Some q) \<and> dumps q = dumps p \<and> map_of q = map_of p)"

definition mac_ok :: "(nat list \<Rightarrow> nat list \<Rightarrow> nat list) \<Rightarrow> bool" where
  "mac_ok mac \<longleftrightarrow> (\<forall>k m. length (mac k m) = 32 \<and> (\<forall>b \<in> set (mac k m). b < 256))"

lemma b64_char_plain: "n < 64 \<Longrightarrow> b64_char n \<noteq> CHR ''.'' \<and> (of_char (b64_char n) :: nat) < 128"
  using of_char_b64 [of n] by (auto split: if_splits)

lemma b64encode_plain: "\<forall>b \<in> set bs. b < 256 \<Longrightarrow> \<forall>c \<in> set (b64encode bs). c \<noteq> CHR ''.'' \<and> (of_char c :: nat) < 128"
proof (induction bs rule: b64encode.induct)
  case (2 a)
  then have "a div 4 < 64" "a mod 4 * 16 < 64" by auto
  then show ?case by (simp add: b64_char_plain)
next
  case (3 a b)
  then have "a div 4 < 64" "a mod 4 * 16 + b div 16 < 64" "b mod 16 * 4 < 64" by auto
  then show ?case by (simp add: b64_char_plain)
next
  case (4 a b c bs)
  then have "a < 256" "b < 256" "c < 256" by simp_all
  then have l: "a div 4 < 64" "a mod 4 * 16 + b div 16 < 64" "b mod 16 * 4 + c div 64 < 64" "c mod 64 < 64" by auto
  have IH: "\<forall>c \<in> set (b64encode bs). c \<noteq> CHR ''.'' \<and> (of_char c :: nat) < 128" using 4 by simp
  let ?P = "\<lambda>c. c \<noteq> CHR ''.'' \<and> (of_char c :: nat) < 128"
  have "list_all ?P (b64encode (a # b # c # bs))"
    unfolding b64encode.simps list.pred_inject(2)
    using IH b64_char_plain [OF l(1)] b64_char_plain [OF l(2)] b64_char_plain [OF l(3)] b64_char_plain [OF l(4)]
    by (simp only: list_all_iff simp_thms)
  then show ?case by (simp only: list_all_iff)
qed simp

lemma rstrip_subset: "set (rstrip_pad s) \<subseteq> set s"
  unfolding rstrip_pad_def using set_dropWhileD by fastforce

lemma unpadded_decodes:
  assumes "\<forall>b \<in> set bs. b < 256"
  shows "urlsafe_b64decode (padded (rstrip_pad (b64encode bs))) = Inr bs"
    and "CHR ''.'' \<notin> set (rstrip_pad (b64encode bs))"
    and "bs \<noteq> [] \<Longrightarrow> rstrip_pad (b64encode bs) \<noteq> []"
proof -
  have p: "padded (rstrip_pad (b64encode bs)) = b64encode bs" using padded_rstrip [OF b64encode_groups [OF assms]] .
  show "urlsafe_b64decode (padded (rstrip_pad (b64encode bs))) = Inr bs"
    unfolding p using b64encode_plain [OF assms] base64_roundtrip [OF assms] by (simp add: urlsafe_b64decode_def)
  show "CHR ''.'' \<notin> set (rstrip_pad (b64encode bs))" using b64encode_plain [OF assms] rstrip_subset by fastforce
  show "rstrip_pad (b64encode bs) \<noteq> []" if "bs \<noteq> []"
  proof
    assume "rstrip_pad (b64encode bs) = []"
    with p have "b64encode bs = []" by (simp add: padded_def)
    with that show False by (cases bs rule: b64encode.cases) simp_all
  qed
qed

lemma partition_dot_at: "CHR ''.'' \<notin> set a \<Longrightarrow> partition_dot (a @ CHR ''.'' # b) = (a, True, b)"
  by (induction a) (auto simp: partition_dot_def)

text \<open>
  Issued keys verify, for exactly their days. A key the issuing tool builds from any two
  calendar dates and a secret, verified with the same secret, is valid on the days from the
  first to the last date inclusive, expired after the last, invalid before the first, and
  invalid without a time zone: through the unpadded base64 of both segments, the split at the
  dots and the date texts. Assumed are the JSON codec's own round trip on that payload and a
  signature of 32 bytes.
\<close>

theorem license_roundtrip:
  assumes "json_ok dumps loads (key_payload nbf ex)" "mac_ok mac" "in_calendar_day nbf" "in_calendar_day ex"
  shows "verify_license mac dumps loads (build_v2_key mac dumps nbf ex secret) secret (Some today) =
     Inr (if today < nbf then invalid_license
          else \<lparr>lic_status = (if ex < today then Lic_expired else Lic_valid), lic_expires_at = Some ex,
                lic_licensee = Some ''interactive''\<rparr>)
   \<and> verify_license mac dumps loads (build_v2_key mac dumps nbf ex secret) secret None = Inr invalid_license"
proof -
  let ?p = "key_payload nbf ex"
  let ?bs = "dumps ?p"
  let ?sig = "mac secret ?bs"
  obtain q where q: "loads ?bs = Inr (Some q)" "dumps q = ?bs" "map_of q = map_of ?p"
    and bs: "?bs \<noteq> []" "\<forall>b \<in> set ?bs. b < 128" using assms(1) by (auto simp: json_ok_def)
  have sig: "length ?sig = 32" "\<forall>b \<in> set ?sig. b < 256" "?sig \<noteq> []"
    using assms(2) unfolding mac_ok_def by (blast, blast, metis list.size(3) zero_neq_numeral)
  have "\<forall>b \<in> set ?bs. b < 256" using bs(2) by auto
  note e = unpadded_decodes [OF this] and s = unpadded_decodes [OF sig(2)]
  let ?body = "rstrip_pad (b64encode ?bs) @ ''.'' @ rstrip_pad (b64encode ?sig)"
  have key: "partition_dot (build_v2_key mac dumps nbf ex secret) = (''v2'', True, ?body)"
    using partition_dot_at [of "''v2''" ?body] by (simp add: build_v2_key_def encode_payload_def Let_def)
  have "decode_v2_raw loads ?body = Inr (q, ?sig)"
    using partition_dot_at [OF e(2), of "rstrip_pad (b64encode ?sig)"] e(1,3) s(1,3) bs sig q(1) ascii_valid [OF bs(2)]
    by (simp add: decode_v2_raw_def decode_payload_def SIG_LENGTH_def)
  moreover have "extract_v2_fields q = Inr (nbf, ex, ''interactive'')"
    using date_roundtrip [OF assms(3)] date_roundtrip [OF assms(4)] q(3)
    by (simp add: extract_v2_fields_def str_field_def key_payload_def)
  ultimately show ?thesis
    using key q(2) by (simp add: verify_license_unfold verify_signature_def)
qed

theorem license_roundtrip_witness:
  "\<exists>mac dumps loads. verify_license mac dumps loads (build_v2_key mac dumps 5 9 [1]) [1] (Some 9) =
     Inr \<lparr>lic_status = Lic_valid, lic_expires_at = Some 9, lic_licensee = Some ''interactive''\<rparr>"
proof -
  let ?mac = "\<lambda>k m. replicate 32 (hd k)" and ?dumps = "\<lambda>p. [123, 125]"
    and ?loads = "\<lambda>b. Inr (Some (key_payload 5 9)) :: payload option res"
  let ?mac' = "\<lambda>k m. replicate 32 (hd k mod 256)"
  have c: "in_calendar_day 5" "in_calendar_day 9"
    using in_calendar_epoch by (simp_all add: in_calendar_day_def civil_def year_of.simps year_days_def month_lengths_def is_leap_def)
  have j: "json_ok ?dumps ?loads (key_payload 5 9)" by (simp add: json_ok_def)
  have m: "mac_ok ?mac'" by (simp add: mac_ok_def)
  from license_roundtrip [OF j m c, of "[1]" 9] show ?thesis by (intro exI [of _ ?mac'] exI [of _ ?dumps] exI [of _ ?loads]) simp
qed

lemma accepted_key:
  assumes "verify_license mac dumps loads key secret (Some today) = Inr r" "lic_status r \<noteq> Lic_invalid"
  shows "\<exists>payload sig nbf ex.
     decode_v2_raw loads (drop 3 key) = Inr (payload, sig) \<and> take 3 key = ''v2.''
     \<and> mac secret (dumps payload) = sig \<and> length sig = 32
     \<and> map_of payload ''v'' = Some (J_num 2)
     \<and> (\<exists>s. map_of payload ''nbf'' = Some (J_str s) \<and> date_fromisoformat s = Inr nbf)
     \<and> (\<exists>s. map_of payload ''exp'' = Some (J_str s) \<and> date_fromisoformat s = Inr ex)
     \<and> lic_expires_at r = Some ex \<and> nbf \<le> today \<and> (lic_status r = Lic_valid \<longleftrightarrow> today \<le> ex)"
proof -
  obtain sep body where k: "partition_dot key = (''v2'', sep, body)" "body \<noteq> []"
    using assms by (auto simp: verify_license_unfold invalid_license_def Let_def split: prod.splits if_splits)
  have key: "take 3 key = ''v2.'' \<and> drop 3 key = body"
  proof -
    have t: "takeWhile (\<lambda>c. c \<noteq> CHR ''.'') key = ''v2''" "drop 1 (dropWhile (\<lambda>c. c \<noteq> CHR ''.'') key) = body"
      using k(1) by (simp_all add: partition_dot_def)
    obtain d rest where d: "dropWhile (\<lambda>c. c \<noteq> CHR ''.'') key = d # rest" using t(2) k(2) by (cases "dropWhile (\<lambda>c. c \<noteq> CHR ''.'') key") auto
    with hd_dropWhile [of "\<lambda>c. c \<noteq> CHR ''.''" key] have "d = CHR ''.''" by simp
    moreover have "key = takeWhile (\<lambda>c. c \<noteq> CHR ''.'') key @ dropWhile (\<lambda>c. c \<noteq> CHR ''.'') key" by simp
    then have "key = ''v2'' @ d # rest" unfolding t(1) d .
    ultimately show ?thesis using t(2) d by simp
  qed
  obtain payload sig where raw: "decode_v2_raw loads body = Inr (payload, sig)" "mac secret (dumps payload) = sig"
    and rest: "(case extract_v2_fields payload of
                 Inl e \<Rightarrow> if caught e then Inr invalid_license else Inl e
               | Inr (nbf_date, exp_date, licensee) \<Rightarrow>
                   Inr (if today < nbf_date then invalid_license
                        else if exp_date < today
                        then \<lparr>lic_status = Lic_expired, lic_expires_at = Some exp_date, lic_licensee = Some licensee\<rparr>
                        else \<lparr>lic_status = Lic_valid, lic_expires_at = Some exp_date, lic_licensee = Some licensee\<rparr>)) = Inr r"
    using assms k by (auto simp: verify_license_unfold invalid_license_def verify_signature_def split: sum.splits prod.splits if_splits)
  have len: "length sig = 32"
    using raw(1) by (auto simp: decode_v2_raw_def SIG_LENGTH_def res_bind_Inr_iff Let_def split: prod.splits if_splits)
  obtain nbf ex licensee where f: "extract_v2_fields payload = Inr (nbf, ex, licensee)"
    using rest assms(2) by (auto simp: invalid_license_def split: sum.splits if_splits)
  then have "map_of payload ''v'' = Some (J_num 2)"
    "\<exists>s. map_of payload ''nbf'' = Some (J_str s) \<and> date_fromisoformat s = Inr nbf"
    "\<exists>s. map_of payload ''exp'' = Some (J_str s) \<and> date_fromisoformat s = Inr ex"
    by (auto simp: extract_v2_fields_def str_field_def res_bind_Inr_iff split: if_splits option.splits jval.splits)
  moreover have "nbf \<le> today" "lic_expires_at r = Some ex" "lic_status r = Lic_valid \<longleftrightarrow> today \<le> ex"
    using rest f assms(2) by (auto simp: invalid_license_def split: if_splits)
  ultimately show ?thesis using key raw len by blast
qed

lemma mismatch_invalid:
  assumes "key = ''v2.'' @ drop 3 key \<and> decode_v2_raw loads (drop 3 key) = Inr (payload, sig)
    \<and> mac secret (dumps payload) \<noteq> sig"
  shows "verify_steps mac dumps loads key secret (Some today) =
    ([Body_decoded, Signature_compared False], Inr invalid_license)"
proof -
  obtain body where b: "key = ''v2'' @ CHR ''.'' # body" "drop 3 key = body" using assms by (metis append_Cons append_Nil append_eq_append_conv2)
  have "partition_dot key = (''v2'', True, body)" unfolding b(1) by (rule partition_dot_at) simp
  moreover have "body \<noteq> []" using assms b by (auto simp: decode_v2_raw_def partition_dot_def)
  ultimately show ?thesis using assms b(2)
    by (simp add: verify_steps_def verify_signature_def)
qed

text \<open>
  C20. No key without the secret. Whatever the text, a key that is not invalid carries a payload
  whose canonical bytes the secret signs with exactly the 32 bytes of its signature segment, says
  version 2 and names two dates, the current day not before the first; it is valid up to the
  second and expired after it. The typed fields are read only after a signature that matched: a
  key whose signature does not match is invalid without their being read, whatever they say.
\<close>

theorem license_requires_signature:
  assumes "verify_steps mac dumps loads key secret (Some today) = (steps, outcome)"
  shows "(\<forall>r. outcome = Inr r \<and> lic_status r \<noteq> Lic_invalid \<longrightarrow>
     (\<exists>payload sig nbf ex.
       decode_v2_raw loads (drop 3 key) = Inr (payload, sig) \<and> take 3 key = ''v2.''
       \<and> mac secret (dumps payload) = sig \<and> length sig = 32
       \<and> map_of payload ''v'' = Some (J_num 2)
       \<and> (\<exists>s. map_of payload ''nbf'' = Some (J_str s) \<and> date_fromisoformat s = Inr nbf)
       \<and> (\<exists>s. map_of payload ''exp'' = Some (J_str s) \<and> date_fromisoformat s = Inr ex)
       \<and> lic_expires_at r = Some ex \<and> nbf \<le> today \<and> (lic_status r = Lic_valid \<longleftrightarrow> today \<le> ex)))
   \<and> (Fields_read \<in> set steps \<longrightarrow> (\<exists>before rest. steps = before @ Fields_read # rest
        \<and> Fields_read \<notin> set before \<and> Signature_compared True \<in> set before))
   \<and> (\<forall>payload sig. key = ''v2.'' @ drop 3 key \<and> decode_v2_raw loads (drop 3 key) = Inr (payload, sig)
        \<and> mac secret (dumps payload) \<noteq> sig \<longrightarrow> outcome = Inr invalid_license \<and> Fields_read \<notin> set steps)"
proof (intro conjI allI impI, goal_cases)
  case (1 r)
  then have "verify_license mac dumps loads key secret (Some today) = Inr r" "lic_status r \<noteq> Lic_invalid"
    using assms by (simp_all add: verify_license_def)
  then show ?case by (rule accepted_key)
next
  case 2
  then have "steps = [Body_decoded, Signature_compared True] @ Fields_read # []"
    using assms by (auto simp: verify_steps_def Let_def split: prod.splits sum.splits if_splits)
  then show ?case by (intro exI [of _ "[Body_decoded, Signature_compared True]"] exI [of _ "[]"]) simp
next
  case (3 payload sig)
  then show ?case using mismatch_invalid [of key loads payload sig mac secret dumps today] assms by simp
next
  case (4 payload sig)
  then show ?case using mismatch_invalid [of key loads payload sig mac secret dumps today] assms by simp
qed

theorem license_requires_signature_witness:
  "\<exists>mac dumps loads r. verify_license mac dumps loads ''v2.e30.AQEBAQEBAQEBAQEBAQEBAQEBAQEBAQEBAQEBAQEBAQE'' [1] (Some 9) = Inr r
     \<and> lic_status r = Lic_valid \<and> mac [1] (dumps (key_payload 5 9)) = replicate 32 1"
proof -
  let ?key = "''v2.e30.AQEBAQEBAQEBAQEBAQEBAQEBAQEBAQEBAQEBAQEBAQE''"
  let ?mac = "\<lambda>k m :: nat list. replicate 32 1 :: nat list" and ?dumps = "\<lambda>p :: payload. [123, 125] :: nat list"
    and ?loads = "\<lambda>b :: nat list. Inr (Some (key_payload 5 9)) :: payload option res"
  have d: "date_fromisoformat (iso_date 5) = Inr 5" "date_fromisoformat (iso_date 9) = Inr 9"
    by (rule date_roundtrip; simp add: in_calendar_day_def civil_def year_of.simps year_days_def month_lengths_def is_leap_def)+
  have p: "partition_dot ''e30.AQEBAQEBAQEBAQEBAQEBAQEBAQEBAQEBAQEBAQEBAQE'' = (''e30'', True, ''AQEBAQEBAQEBAQEBAQEBAQEBAQEBAQEBAQEBAQEBAQE'')"
    "partition_dot ?key = (''v2'', True, ''e30.AQEBAQEBAQEBAQEBAQEBAQEBAQEBAQEBAQEBAQEBAQE'')"
    by (simp_all add: partition_dot_def)
  have e: "urlsafe_b64decode (padded ''e30'') = Inr [123, 125]" by code_simp
  have g: "urlsafe_b64decode (padded ''AQEBAQEBAQEBAQEBAQEBAQEBAQEBAQEBAQEBAQEBAQE'') = Inr (replicate 32 1)" by code_simp
  have u: "valid_utf8 [123, 125]" by code_simp
  have raw: "decode_v2_raw ?loads ''e30.AQEBAQEBAQEBAQEBAQEBAQEBAQEBAQEBAQEBAQEBAQE'' = Inr (key_payload 5 9, replicate 32 1)"
    unfolding decode_v2_raw_def p(1) by (simp add: decode_payload_def e g u SIG_LENGTH_def)
  have f: "extract_v2_fields (key_payload 5 9) = Inr (5, 9, ''interactive'')"
    using d by (simp add: extract_v2_fields_def str_field_def key_payload_def)
  have v: "verify_license ?mac ?dumps ?loads ?key [1] (Some 9) =
      Inr \<lparr>lic_status = Lic_valid, lic_expires_at = Some 9, lic_licensee = Some ''interactive''\<rparr>"
    unfolding verify_license_unfold p(2) using raw f by (simp add: verify_signature_def)
  then obtain steps where "verify_steps ?mac ?dumps ?loads ?key [1] (Some 9) =
      (steps, Inr \<lparr>lic_status = Lic_valid, lic_expires_at = Some 9, lic_licensee = Some ''interactive''\<rparr>)"
    unfolding verify_license_def by (metis prod.collapse)
  from conjunct1 [OF license_requires_signature [OF this]]
  have "?mac [1] (?dumps (key_payload 5 9)) = replicate 32 1" by blast
  with v show ?thesis by (intro exI [of _ ?mac] exI [of _ ?dumps] exI [of _ ?loads]) (simp)
qed

end
