(* ===== verification/License_Expiry.thy ===== *)
theory License_Expiry
  imports License
begin

text \<open>
  The enforcement of the license: at start-up (\<^verbatim>\<open>app.py\<close>) and by the daily supervisor
  (\<^verbatim>\<open>services/license_expiry.py\<close>). \<open>verify\<close> is the verifier over key, secret and day; every
  reading of the key file, the secret, the clock and the stop event is supplied by the
  environment, check by check. What the supervisor does to the outside is the list of its
  effects, in order. The watchdog itself is a timer of the runtime.
\<close>

type_synonym verifier = "string \<Rightarrow> nat list \<Rightarrow> int option \<Rightarrow> license_result res"

definition FileNotFoundError :: exc where "FileNotFoundError = OtherException ''FileNotFoundError''"
definition OSError :: exc where "OSError = OtherException ''OSError''"

subsection \<open>Start-up\<close>

text \<open>The exit code of \<^verbatim>\<open>main\<close>, \<^verbatim>\<open>None\<close> to go on; an error of the file read other than absence passes.\<close>

definition startup_license :: "verifier \<Rightarrow> string res \<Rightarrow> nat list res \<Rightarrow> int \<Rightarrow> nat option res" where
  "startup_license verify key secret today =
     (case key of
        Inl e \<Rightarrow> if e = FileNotFoundError then Inr (Some 1) else Inl e
      | Inr key_str \<Rightarrow>
          (case res_bind secret (\<lambda>s. verify key_str s (Some today)) of
             Inl _ \<Rightarrow> Inr (Some 1)
           | Inr r \<Rightarrow> (case lic_status r of Lic_valid \<Rightarrow> Inr None | Lic_expired \<Rightarrow> Inr (Some 1) | Lic_invalid \<Rightarrow> Inr (Some 1))))"

subsection \<open>The schedule\<close>

definition next_check_at :: "time \<Rightarrow> time" where
  "next_check_at now =
     (let candidate = date_of now * us_per_day + us_per_minute
      in if candidate \<le> now then candidate + us_per_day else candidate)"

lemma next_check_at_spec:
  "now < next_check_at now \<and> next_check_at now mod us_per_day = us_per_minute
     \<and> (\<forall>t. now < t \<and> t mod us_per_day = us_per_minute \<longrightarrow> next_check_at now \<le> t)"
proof -
  have d: "us_per_day = 86400000000" "us_per_minute = 60000000" by (simp_all add: us_per_day_def us_per_minute_def)
  have now: "now = date_of now * us_per_day + now mod us_per_day" "0 \<le> now mod us_per_day" "now mod us_per_day < us_per_day"
    by (simp_all add: date_of_def)
  have later: "next_check_at now \<le> t" if t: "now < t" "t mod us_per_day = us_per_minute" for t
  proof -
    have te: "t = t div us_per_day * us_per_day + us_per_minute" using t(2) by (metis div_mult_mod_eq)
    have "date_of now \<le> t div us_per_day" using t(1) by (simp add: date_of_def zdiv_mono1)
    then consider "t div us_per_day = date_of now" | "date_of now + 1 \<le> t div us_per_day" by linarith
    then show ?thesis
    proof cases
      case 1
      with te t(1) show ?thesis by (simp add: next_check_at_def)
    next
      case 2
      then have "(date_of now + 1) * us_per_day \<le> t div us_per_day * us_per_day" by (intro mult_right_mono) (simp_all add: us_per_day_def us_per_minute_def)
      moreover have "0 \<le> us_per_day" by (simp add: us_per_day_def us_per_minute_def)
      ultimately show ?thesis using te by (simp add: next_check_at_def Let_def algebra_simps)
    qed
  qed
  have "now < next_check_at now" using now by (auto simp: next_check_at_def Let_def d)
  moreover have "next_check_at now mod us_per_day = us_per_minute"
    by (simp add: next_check_at_def Let_def d mod_add_eq [symmetric])
  ultimately show ?thesis using later by blast
qed

subsection \<open>The supervisor\<close>

datatype lic_effect =
    Banner "int option"
  | Announced sse_event
  | Watchdog_armed
  | Shutdown_requested
  | Watchdog_cancelled

record lic_sup =
  ls_handled :: bool
  ls_timer :: bool
  ls_effects :: "lic_effect list"

definition fresh_supervisor :: lic_sup where
  "fresh_supervisor = \<lparr>ls_handled = False, ls_timer = False, ls_effects = []\<rparr>"

text \<open>
  The environment of one handling: the clock at its start, the banner on stderr, the clock
  reading of the event and its publication, the making and the start of the timer, and the
  shutdown request. Each may raise.
\<close>

record expiry_env =
  xe_clock :: "time res"
  xe_print :: "unit res"
  xe_ts :: "time res"
  xe_publish :: "unit res"
  xe_timer :: "unit res"
  xe_start :: "unit res"
  xe_request :: "unit res"

text \<open>
  The flag is set first; only the publication is guarded, so any other exception leaves with
  what is done so far.
\<close>

definition handle_expiry :: "int option \<Rightarrow> expiry_env \<Rightarrow> lic_sup \<Rightarrow> lic_sup \<times> unit res" where
  "handle_expiry exp_date x st =
     (if ls_handled st then (st, Inr ())
      else
        let st1 = st\<lparr>ls_handled := True\<rparr>
        in case xe_clock x of
             Inl e \<Rightarrow> (st1, Inl e)
           | Inr _ \<Rightarrow>
        (case xe_print x of
             Inl e \<Rightarrow> (st1, Inl e)
           | Inr _ \<Rightarrow>
        (let st2 = st1\<lparr>ls_effects := ls_effects st1 @ [Banner exp_date]\<rparr>;
             st3 = (case xe_ts x of
                      Inl _ \<Rightarrow> st2
                    | Inr ts \<Rightarrow>
                        (case xe_publish x of
                           Inl _ \<Rightarrow> st2
                         | Inr _ \<Rightarrow> st2\<lparr>ls_effects := ls_effects st2 @ [Announced (SseLicenseExpired ts exp_date)]\<rparr>))
         in case xe_timer x of
              Inl e \<Rightarrow> (st3, Inl e)
            | Inr _ \<Rightarrow>
        (let st4 = st3\<lparr>ls_timer := True\<rparr>
         in case xe_start x of
              Inl e \<Rightarrow> (st4, Inl e)
            | Inr _ \<Rightarrow> (st4\<lparr>ls_effects := ls_effects st4 @ [Watchdog_armed, Shutdown_requested]\<rparr>, xe_request x)))))"

definition cancel_watchdog :: "lic_sup \<Rightarrow> lic_sup" where
  "cancel_watchdog st = (if ls_timer st then st\<lparr>ls_effects := ls_effects st @ [Watchdog_cancelled]\<rparr> else st)"

record lic_check =
  lc_now :: "time res"
  lc_key :: "string res"
  lc_secret :: "nat list res"
  lc_expiry :: expiry_env

definition check_once :: "verifier \<Rightarrow> lic_check \<Rightarrow> lic_sup \<Rightarrow> lic_sup \<times> bool res" where
  "check_once verify c st =
     (let expired = (\<lambda>exp_date. let (st', r) = handle_expiry exp_date (lc_expiry c) st
                                 in (st', res_bind r (\<lambda>_. Inr True)))
      in case lc_now c of
           Inl e \<Rightarrow> (st, Inl e)
         | Inr now_utc \<Rightarrow>
             (case lc_key c of
                Inl e \<Rightarrow> if e \<in> {FileNotFoundError, OSError} then expired None else (st, Inl e)
              | Inr key_str \<Rightarrow>
                  (case res_bind (lc_secret c) (\<lambda>secret. verify key_str secret (Some (date_of now_utc))) of
                     Inl e \<Rightarrow> (st, Inl e)
                   | Inr result \<Rightarrow>
                       (if lic_status result = Lic_valid then (st, Inr False) else expired (lic_expires_at result)))))"

text \<open>
  One turn of the loop: the stop event, the clock read for the next check and for the delay,
  whether the wait was ended by the stop event, and the clock after it.
\<close>

record lic_turn =
  lt_stop :: bool
  lt_now :: "time res"
  lt_delay :: "time res"
  lt_wait_stopped :: bool
  lt_woke :: "time res"
  lt_check :: lic_check

text \<open>
  The loop: the state, how it ended (\<^verbatim>\<open>None\<close>: still waiting) and the checks made. \<open>Inl e\<close> is an
  exception on its way to the handler of \<^verbatim>\<open>run_forever\<close>.
\<close>

datatype lic_end = Stopped | Expiry_handled

fun lic_loop :: "verifier \<Rightarrow> lic_turn list \<Rightarrow> lic_sup \<Rightarrow> lic_sup \<times> lic_end option res \<times> lic_check list" where
  "lic_loop verify [] st = (st, Inr None, [])"
| "lic_loop verify (t # ts) st =
     (if lt_stop t then (st, Inr (Some Stopped), [])
      else case res_bind (lt_now t) (\<lambda>now. res_bind (lt_delay t) (\<lambda>_. Inr (next_check_at now))) of
        Inl e \<Rightarrow> (st, Inl e, [])
      | Inr target \<Rightarrow>
          (if lt_wait_stopped t then (st, Inr (Some Stopped), [])
           else case lt_woke t of
             Inl e \<Rightarrow> (st, Inl e, [])
           | Inr woke \<Rightarrow>
               (if woke < target - 5 * 1000000 then lic_loop verify ts st
                else (case check_once verify (lt_check t) st of
                        (st', Inl e) \<Rightarrow> (st', Inl e, [lt_check t])
                      | (st', Inr True) \<Rightarrow> (st', Inr (Some Expiry_handled), [lt_check t])
                      | (st', Inr False) \<Rightarrow>
                          (let (st'', r, cs) = lic_loop verify ts st' in (st'', r, lt_check t # cs))))))"

text \<open>\<open>crash\<close> is the environment of the handling in the outer exception handler.\<close>

definition lic_run_forever ::
  "verifier \<Rightarrow> lic_check \<Rightarrow> lic_turn list \<Rightarrow> expiry_env \<Rightarrow> lic_sup \<Rightarrow> lic_sup \<times> lic_end option res \<times> lic_check list" where
  "lic_run_forever verify first ts crash st =
     (let (st1, r, cs) =
        (case check_once verify first st of
           (st', Inl e) \<Rightarrow> (st', Inl e, [first])
         | (st', Inr True) \<Rightarrow> (st', Inr (Some Expiry_handled), [first])
         | (st', Inr False) \<Rightarrow> (let (st'', r, cs) = lic_loop verify ts st' in (st'', r, first # cs)))
      in case r of
           Inr e \<Rightarrow> (st1, Inr e, cs)
         | Inl _ \<Rightarrow>
             (let (st2, r2) = handle_expiry None crash st1
              in (st2, res_bind r2 (\<lambda>_. Inr (Some Expiry_handled)), cs)))"

subsection \<open>Enforcement\<close>

definition check_passes :: "verifier \<Rightarrow> lic_check \<Rightarrow> bool" where
  "check_passes verify c \<longleftrightarrow>
     (\<exists>now key secret r. lc_now c = Inr now \<and> lc_key c = Inr key \<and> lc_secret c = Inr secret
        \<and> verify key secret (Some (date_of now)) = Inr r \<and> lic_status r = Lic_valid)"

text \<open>A check that comes to a verdict against the license, rather than raising.\<close>

definition refuses :: "verifier \<Rightarrow> lic_check \<Rightarrow> bool" where
  "refuses verify c \<longleftrightarrow>
     (\<exists>now. lc_now c = Inr now
        \<and> (lc_key c \<in> {Inl FileNotFoundError, Inl OSError}
           \<or> (\<exists>key secret r. lc_key c = Inr key \<and> lc_secret c = Inr secret
                \<and> verify key secret (Some (date_of now)) = Inr r \<and> lic_status r \<noteq> Lic_valid)))"

lemma passes_not_refuses: "check_passes verify c \<Longrightarrow> \<not> refuses verify c"
  by (auto simp: check_passes_def refuses_def)

text \<open>What one handled expiry does, and only that.\<close>

definition announcement :: "int option \<Rightarrow> lic_effect list \<Rightarrow> bool" where
  "announcement exp_date evs \<longleftrightarrow> evs = [] \<or> (\<exists>ts. evs = [Announced (SseLicenseExpired ts exp_date)])"

definition enforced :: "lic_sup \<Rightarrow> bool" where
  "enforced st \<longleftrightarrow> ls_handled st \<and> ls_timer st
     \<and> (\<exists>exp_date evs. ls_effects st = Banner exp_date # evs @ [Watchdog_armed, Shutdown_requested]
          \<and> announcement exp_date evs)"

text \<open>A handling that an exception cut short: no running watchdog and no shutdown request.\<close>

definition cut_short :: "lic_sup \<Rightarrow> bool" where
  "cut_short st \<longleftrightarrow> ls_handled st
     \<and> (ls_effects st = [] \<or> (\<exists>exp_date evs. ls_effects st = Banner exp_date # evs \<and> announcement exp_date evs))"

text \<open>The readings and calls that are not guarded, before the shutdown request.\<close>

definition goes_through :: "expiry_env \<Rightarrow> bool" where
  "goes_through x \<longleftrightarrow>
     (\<exists>t. xe_clock x = Inr t) \<and> xe_print x = Inr () \<and> xe_timer x = Inr () \<and> xe_start x = Inr ()"

definition handled_by :: "expiry_env \<Rightarrow> lic_sup \<Rightarrow> bool" where
  "handled_by x st \<longleftrightarrow> (\<exists>exp_date. st = fst (handle_expiry exp_date x fresh_supervisor))"

lemma handled_by_spec:
  assumes "handled_by x st"
  shows "ls_handled st \<and> (if goes_through x then enforced st else cut_short st)"
proof -
  obtain d where st: "st = fst (handle_expiry d x fresh_supervisor)" using assms by (auto simp: handled_by_def)
  show ?thesis
  proof (cases "\<exists>t. xe_clock x = Inr t \<and> xe_print x = Inr ()")
    case True
    let ?evs = "case xe_ts x of Inl _ \<Rightarrow> []
      | Inr ts \<Rightarrow> (case xe_publish x of Inl _ \<Rightarrow> [] | Inr _ \<Rightarrow> [Announced (SseLicenseExpired ts d)])"
    have a: "announcement d ?evs" by (auto simp: announcement_def split: sum.splits)
    have "ls_handled st \<and> (if goes_through x
        then ls_timer st \<and> ls_effects st = Banner d # ?evs @ [Watchdog_armed, Shutdown_requested]
        else ls_effects st = Banner d # ?evs)"
      using True by (cases "xe_timer x"; cases "xe_start x"; cases "xe_ts x"; cases "xe_publish x")
        (auto simp: st handle_expiry_def fresh_supervisor_def goes_through_def Let_def)
    with a show ?thesis by (auto simp: enforced_def cut_short_def)
  next
    case False
    then have "\<not> goes_through x" by (auto simp: goes_through_def)
    moreover have "ls_handled st \<and> ls_effects st = []"
      using False by (cases "xe_clock x"; cases "xe_print x") (auto simp: st handle_expiry_def fresh_supervisor_def Let_def)
    ultimately show ?thesis by (simp add: cut_short_def)
  qed
qed

lemma handle_again: "ls_handled st \<Longrightarrow> handle_expiry exp_date x st = (st, Inr ())"
  by (simp add: handle_expiry_def)

lemma check_once_cases:
  "(check_passes verify c \<and> check_once verify c st = (st, Inr False))
   \<or> (\<not> check_passes verify c \<and> \<not> refuses verify c \<and> (\<exists>e. check_once verify c st = (st, Inl e)))
   \<or> (\<not> check_passes verify c \<and> refuses verify c \<and> (\<exists>exp_date. check_once verify c st =
        (fst (handle_expiry exp_date (lc_expiry c) st),
         res_bind (snd (handle_expiry exp_date (lc_expiry c) st)) (\<lambda>_. Inr True))))"
  by (cases "lc_now c"; cases "lc_key c"; cases "lc_secret c")
    (auto simp: check_once_def check_passes_def refuses_def Let_def case_prod_beta split: sum.splits)

definition clock_raised :: "lic_turn list \<Rightarrow> bool" where
  "clock_raised ts \<longleftrightarrow>
     (\<exists>t \<in> set ts. \<exists>e. lt_now t = Inl e \<or> lt_delay t = Inl e \<or> lt_woke t = Inl e)"

text \<open>
  How the checks went: all good, and at most the clock of the loop raised; or the last one,
  and only that, not, and it raised before its handling or got into it.
\<close>

definition loop_result :: "verifier \<Rightarrow> lic_turn list \<Rightarrow> lic_sup \<times> lic_end option res \<times> lic_check list \<Rightarrow> bool" where
  "loop_result verify ts res \<longleftrightarrow>
     (case res of (st, r, cs) \<Rightarrow>
        ((\<forall>c \<in> set cs. check_passes verify c) \<and> st = fresh_supervisor
           \<and> (r = Inr None \<or> r = Inr (Some Stopped) \<or> (clock_raised ts \<and> (\<exists>e. r = Inl e))))
        \<or> (cs \<noteq> [] \<and> \<not> check_passes verify (last cs) \<and> (\<forall>c \<in> set (butlast cs). check_passes verify c)
           \<and> ((\<not> refuses verify (last cs) \<and> st = fresh_supervisor \<and> (\<exists>e. r = Inl e))
              \<or> (refuses verify (last cs) \<and> handled_by (lc_expiry (last cs)) st \<and> (r = Inr (Some Expiry_handled) \<or> (\<exists>e. r = Inl e))))))"

lemma loop_result_Cons:
  "check_passes verify c \<Longrightarrow> loop_result verify ts (st, r, cs) \<Longrightarrow> loop_result verify ts (st, r, c # cs)"
  by (auto simp: loop_result_def)

lemma loop_result_mono: "loop_result verify ts res \<Longrightarrow> loop_result verify (t # ts) res"
  by (auto simp: loop_result_def clock_raised_def)

lemma check_result:
  "(check_once verify c fresh_supervisor = (fresh_supervisor, Inr False) \<and> check_passes verify c)
   \<or> (\<exists>st r. check_once verify c fresh_supervisor = (st, r) \<and> r \<noteq> Inr False
        \<and> loop_result verify ts (st, res_bind r (\<lambda>_. Inr (Some Expiry_handled)), [c]))"
proof -
  consider "check_passes verify c \<and> check_once verify c fresh_supervisor = (fresh_supervisor, Inr False)"
    | e where "\<not> check_passes verify c" "\<not> refuses verify c" "check_once verify c fresh_supervisor = (fresh_supervisor, Inl e)"
    | d where "\<not> check_passes verify c" "refuses verify c" "check_once verify c fresh_supervisor =
        (fst (handle_expiry d (lc_expiry c) fresh_supervisor),
         res_bind (snd (handle_expiry d (lc_expiry c) fresh_supervisor)) (\<lambda>_. Inr True))"
    using check_once_cases [of verify c fresh_supervisor] by blast
  then show ?thesis
  proof cases
    case 3
    obtain r where r: "snd (handle_expiry d (lc_expiry c) fresh_supervisor) = r" by blast
    have "loop_result verify ts (fst (handle_expiry d (lc_expiry c) fresh_supervisor),
        res_bind (res_bind r (\<lambda>_. Inr True)) (\<lambda>_. Inr (Some Expiry_handled)), [c])"
      using 3(1,2) by (cases r) (auto simp: loop_result_def handled_by_def)
    moreover have "res_bind r (\<lambda>_. Inr True) \<noteq> Inr False" by (cases r) simp_all
    ultimately show ?thesis using 3(3) unfolding r by blast
  qed (auto simp: loop_result_def)
qed

lemma lic_loop_result: "loop_result verify ts (lic_loop verify ts fresh_supervisor)"
proof (induction ts)
  case (Cons t ts)
  obtain st r cs where rest: "lic_loop verify ts fresh_supervisor = (st, r, cs)" by (metis prod_cases3)
  note IH = loop_result_mono [OF Cons [unfolded rest], of t]
  consider (ends) "lt_stop t \<or> lt_wait_stopped t"
    | (clock) e where "lt_now t = Inl e \<or> lt_delay t = Inl e \<or> lt_woke t = Inl e"
    | (woke) now d w where "\<not> lt_stop t" "\<not> lt_wait_stopped t" "lt_now t = Inr now" "lt_delay t = Inr d" "lt_woke t = Inr w"
    by (cases "lt_now t"; cases "lt_delay t"; cases "lt_woke t") auto
  then show ?case
  proof cases
    case ends
    have "clock_raised (t # ts)" if "lt_now t = Inl e \<or> lt_delay t = Inl e" for e
      using that by (auto simp: clock_raised_def)
    with ends show ?thesis
      by (cases "lt_now t"; cases "lt_delay t") (auto simp: loop_result_def)
  next
    case clock
    have "clock_raised (t # ts)" using clock by (auto simp: clock_raised_def)
    then show ?thesis
    proof (cases "lt_now t"; cases "lt_delay t")
      fix now d assume *: "lt_now t = Inr now" "lt_delay t = Inr d"
      with clock have "lt_woke t = Inl e" by simp
      with * \<open>clock_raised (t # ts)\<close> show ?thesis by (auto simp: loop_result_def)
    qed (auto simp: loop_result_def)
  next
    case woke
    show ?thesis
    proof (cases "w < next_check_at now - 5 * 1000000")
      case True
      with woke rest IH show ?thesis by simp
    next
      case False
      consider "check_once verify (lt_check t) fresh_supervisor = (fresh_supervisor, Inr False) \<and> check_passes verify (lt_check t)"
        | st' r' where "check_once verify (lt_check t) fresh_supervisor = (st', r')" "r' \<noteq> Inr False"
            "loop_result verify (t # ts) (st', res_bind r' (\<lambda>_. Inr (Some Expiry_handled)), [lt_check t])"
        using check_result [of verify "lt_check t" "t # ts"] by blast
      then show ?thesis
      proof cases
        case 1
        with woke False rest loop_result_Cons [OF _ IH] show ?thesis by simp
      next
        case 2
        with woke False show ?thesis by (cases r') auto
      qed
    qed
  qed
qed (simp add: loop_result_def)

text \<open>
  C21. The license is enforced, once. Whatever the key file, the secret, the clock and the stop
  event do: as long as every check finds a valid license and the clock of the loop does not
  raise, the supervisor does nothing outside and only waits or stops. The first check that fails
  (expired, invalid, unreadable, or an exception in it) is the last; from then on the supervisor
  has ended and the expiry counts as handled, by the check itself or, if the check or the loop
  raised instead of coming to a verdict, by the outer exception handler. If reading the clock, printing the banner and
  making and starting the timer raise nothing in that handling, it left exactly one banner, at
  most one event to the browsers, one armed watchdog and then one shutdown request, whether or
  not that request raises. If one of them raises, neither a watchdog runs nor a shutdown was
  requested, and none will be: the outer handler finds the expiry handled. The start-up check
  lets the program go on exactly where a check at that moment passes.
\<close>

theorem license_enforced:
  assumes "lic_run_forever verify first ts crash fresh_supervisor = (st, r, cs)"
  shows "first = hd cs \<and> (\<forall>c \<in> set (butlast cs). check_passes verify c)
    \<and> (if ls_handled st
       then r \<noteq> Inr None \<and> r \<noteq> Inr (Some Stopped)
         \<and> (\<not> check_passes verify (last cs) \<or> clock_raised ts)
         \<and> (if goes_through (if refuses verify (last cs) then lc_expiry (last cs) else crash)
             then enforced st else cut_short st)
       else (\<forall>c \<in> set cs. check_passes verify c) \<and> ls_effects st = [] \<and> (r = Inr None \<or> r = Inr (Some Stopped)))
    \<and> (\<forall>now. lc_now first = Inr now \<longrightarrow>
         (startup_license verify (lc_key first) (lc_secret first) (date_of now) = Inr None
          \<longleftrightarrow> check_passes verify first))"
proof -
  obtain st1 r1 where one: "(case check_once verify first fresh_supervisor of
           (st', Inl e) \<Rightarrow> (st', Inl e, [first])
         | (st', Inr True) \<Rightarrow> (st', Inr (Some Expiry_handled), [first])
         | (st', Inr False) \<Rightarrow> (let (st'', r, cs) = lic_loop verify ts st' in (st'', r, first # cs))) = (st1, r1, cs)"
    and fin: "(case r1 of Inr e \<Rightarrow> (st1, Inr e, cs)
         | Inl _ \<Rightarrow> (let (st2, r2) = handle_expiry None crash st1
              in (st2, res_bind r2 (\<lambda>_. Inr (Some Expiry_handled)), cs))) = (st, r, cs)"
    using assms unfolding lic_run_forever_def by (auto simp: Let_def split: prod.splits sum.splits)
  have inner: "loop_result verify ts (st1, r1, cs) \<and> hd cs = first \<and> cs \<noteq> []"
  proof -
    obtain st' r' cs' where rest: "lic_loop verify ts fresh_supervisor = (st', r', cs')" by (metis prod_cases3)
    consider "check_once verify first fresh_supervisor = (fresh_supervisor, Inr False) \<and> check_passes verify first"
      | st' r' where "check_once verify first fresh_supervisor = (st', r')" "r' \<noteq> Inr False"
          "loop_result verify ts (st', res_bind r' (\<lambda>_. Inr (Some Expiry_handled)), [first])"
      using check_result [of verify first ts] by blast
    then show ?thesis
    proof cases
      case 1
      with one rest lic_loop_result [of verify ts] loop_result_Cons show ?thesis by auto
    next
      case 2
      with one show ?thesis by (cases r') (auto split: bool.splits)
    qed
  qed
  have start: "startup_license verify (lc_key first) (lc_secret first) (date_of now) = Inr None
       \<longleftrightarrow> check_passes verify first" if "lc_now first = Inr now" for now
    using that by (cases "lc_key first"; cases "lc_secret first")
      (auto simp: startup_license_def check_passes_def split: sum.splits license_status.splits)
  have ended: "res_bind q (\<lambda>_. Inr (Some Expiry_handled)) \<notin> {Inr None, Inr (Some Stopped)}"
    for q :: "unit res" by (cases q) simp_all
  have crashed: "handled_by crash st \<and> r \<noteq> Inr None \<and> r \<noteq> Inr (Some Stopped)"
    if "st1 = fresh_supervisor" "r1 = Inl e" for e
    using that fin ended by (auto simp: handled_by_def case_prod_beta)
  have kept: "st = st1 \<and> r = Inr (Some Expiry_handled)"
    if "handled_by x st1" "r1 = Inr (Some Expiry_handled) \<or> (\<exists>e. r1 = Inl e)" for x
    using that(2) fin handle_again [of st1] handled_by_spec [OF that(1)] by auto
  have butlast: "\<forall>c \<in> set (butlast cs). check_passes verify c"
    using inner by (auto simp: loop_result_def dest: in_set_butlastD)
  from inner consider
      (quiet) "\<forall>c \<in> set cs. check_passes verify c" "st1 = fresh_supervisor" "r1 = Inr None \<or> r1 = Inr (Some Stopped)"
    | (clock) e where "\<not> refuses verify (last cs)" "clock_raised ts" "st1 = fresh_supervisor" "r1 = Inl e"
    | (raised) e where "\<not> check_passes verify (last cs)" "\<not> refuses verify (last cs)" "st1 = fresh_supervisor" "r1 = Inl e"
    | (handled) "\<not> check_passes verify (last cs)" "refuses verify (last cs)" "handled_by (lc_expiry (last cs)) st1"
        "r1 = Inr (Some Expiry_handled) \<or> (\<exists>e. r1 = Inl e)"
    unfolding loop_result_def prod.case using passes_not_refuses last_in_set by metis
  then have "if ls_handled st
       then r \<noteq> Inr None \<and> r \<noteq> Inr (Some Stopped)
         \<and> (\<not> check_passes verify (last cs) \<or> clock_raised ts)
         \<and> (if goes_through (if refuses verify (last cs) then lc_expiry (last cs) else crash)
             then enforced st else cut_short st)
       else (\<forall>c \<in> set cs. check_passes verify c) \<and> ls_effects st = [] \<and> (r = Inr None \<or> r = Inr (Some Stopped))"
  proof cases
    case quiet
    with fin show ?thesis by (auto simp: fresh_supervisor_def)
  next
    case clock
    with crashed handled_by_spec [of crash st] show ?thesis by simp
  next
    case raised
    with crashed handled_by_spec [of crash st] show ?thesis by simp
  next
    case handled
    with kept handled_by_spec [of "lc_expiry (last cs)" st1] show ?thesis by simp
  qed
  with inner start butlast show ?thesis by blast
qed

definition calm :: expiry_env where
  "calm = \<lparr>xe_clock = Inr 0, xe_print = Inr (), xe_ts = Inr 1, xe_publish = Inr (), xe_timer = Inr (),
     xe_start = Inr (), xe_request = Inr ()\<rparr>"

definition missing_key :: "expiry_env \<Rightarrow> lic_check" where
  "missing_key x = \<lparr>lc_now = Inr 0, lc_key = Inl FileNotFoundError, lc_secret = Inr [], lc_expiry = x\<rparr>"

text \<open>
  With the key file gone: the program is stopped; but if no thread can be started for the timer,
  the supervisor ends as if it had done its work, and nothing stops the program.
\<close>

theorem license_enforced_witness:
  "(\<exists>st r. lic_run_forever (\<lambda>_ _ _. Inr invalid_license) (missing_key calm) [] calm fresh_supervisor = (st, r, [missing_key calm])
     \<and> enforced st \<and> ls_effects st = [Banner None, Announced (SseLicenseExpired 1 None), Watchdog_armed, Shutdown_requested])
   \<and> (let x = calm\<lparr>xe_start := Inl RuntimeError\<rparr> in \<exists>st.
       lic_run_forever (\<lambda>_ _ _. Inr invalid_license) (missing_key x) [] calm fresh_supervisor =
         (st, Inr (Some Expiry_handled), [missing_key x])
       \<and> Shutdown_requested \<notin> set (ls_effects st))"
proof -
  let ?run = "\<lambda>x. lic_run_forever (\<lambda>_ _ _. Inr invalid_license) (missing_key x) [] calm fresh_supervisor"
  let ?bad = "calm\<lparr>xe_start := Inl RuntimeError\<rparr>"
  obtain st r where run: "?run calm = (st, r, [missing_key calm])"
    and eff: "ls_handled st" "ls_effects st = [Banner None, Announced (SseLicenseExpired 1 None), Watchdog_armed, Shutdown_requested]"
    by (simp add: lic_run_forever_def check_once_def missing_key_def handle_expiry_def fresh_supervisor_def calm_def)
  have "goes_through calm" "lc_expiry (missing_key calm) = calm" by (simp_all add: goes_through_def calm_def missing_key_def)
  moreover have "refuses (\<lambda>_ _ _. Inr invalid_license) (missing_key calm)"
    by (simp add: refuses_def missing_key_def)
  ultimately have "enforced st" using license_enforced [OF run] eff(1) by simp
  moreover obtain st' where "?run ?bad = (st', Inr (Some Expiry_handled), [missing_key ?bad])"
    and "ls_effects st' = [Banner None, Announced (SseLicenseExpired 1 None)]"
    by (simp add: lic_run_forever_def check_once_def missing_key_def handle_expiry_def fresh_supervisor_def calm_def)
  ultimately show ?thesis using run eff unfolding Let_def by (intro conjI exI) auto
qed

end
