(* ===== verification/Smtp_Host.thy ===== *)
theory Smtp_Host
  imports Web_Gate License "HOL-Library.Word"
begin

text \<open>
  Which hosts the program connects to for mail (\<^verbatim>\<open>infra/smtp/host_policy.py\<close>). An address is its
  number, 32 or 128 bits wide, with the IPv6 scope; reading one and the classes of addresses are
  those of Python's \<^verbatim>\<open>ipaddress\<close> (the tables of CPython 3.12). The resolver is a parameter and its
  answer is a list of records, well formed or not. The text of an endpoint's address is kept as
  the address it denotes.
\<close>

unbundle bit_operations_syntax

subsection \<open>Addresses\<close>

datatype ip = V4 "32 word" | V6 "128 word" "string option"

definition parse_octet :: "string \<Rightarrow> nat option" where
  "parse_octet s =
     (if s = [] \<or> \<not> list_all is_digit s then None
      else if 3 < length s then None
      else if s \<noteq> ''0'' \<and> hd s = CHR ''0'' then None
      else if 255 < num_of s then None
      else Some (num_of s))"

definition ipv4_of :: "string \<Rightarrow> 32 word option" where
  "ipv4_of s =
     (if CHR ''/'' \<in> set s then None
      else (case map parse_octet (split_at CHR ''.'' s) of
              [Some a, Some b, Some c, Some d] \<Rightarrow> Some (of_nat (((a * 256 + b) * 256 + c) * 256 + d))
            | _ \<Rightarrow> None))"

definition hex_val :: "char \<Rightarrow> nat option" where
  "hex_val c =
     (let n = of_char c :: nat
      in if 48 \<le> n \<and> n \<le> 57 then Some (n - 48)
         else if 97 \<le> n \<and> n \<le> 102 then Some (n - 87)
         else if 65 \<le> n \<and> n \<le> 70 then Some (n - 55)
         else None)"

text \<open>A part between colons: text of the source, or half of an embedded IPv4 address.\<close>

datatype part = Txt string | Num nat

definition hextet :: "part \<Rightarrow> nat option" where
  "hextet p =
     (case p of
        Num n \<Rightarrow> Some n
      | Txt s \<Rightarrow>
          (if s = [] \<or> 4 < length s \<or> (\<exists>c \<in> set s. hex_val c = None) then None
           else Some (foldl (\<lambda>a c. 16 * a + the (hex_val c)) 0 s)))"

definition hextets :: "part list \<Rightarrow> nat option" where
  "hextets ps = (if \<exists>p \<in> set ps. hextet p = None then None else Some (foldl (\<lambda>a p. 65536 * a + the (hextet p)) 0 ps))"

definition ipv6_parts :: "string \<Rightarrow> part list option" where
  "ipv6_parts s =
     (let parts = split_at CHR '':'' s
      in if length parts < 3 then None
         else if CHR ''.'' \<in> set (last parts)
         then (case ipv4_of (last parts) of
                 None \<Rightarrow> None
               | Some w \<Rightarrow> Some (map Txt (butlast parts) @ [Num (unat w div 65536), Num (unat w mod 65536)]))
         else Some (map Txt parts))"

definition ipv6_int :: "string \<Rightarrow> nat option" where
  "ipv6_int s =
     (case ipv6_parts s of
        None \<Rightarrow> None
      | Some ps \<Rightarrow>
          (let n = length ps; skips = filter (\<lambda>i. ps ! i = Txt []) [1..<n - 1]
           in if 9 < n then None
              else (case skips of
                      [] \<Rightarrow> (if n \<noteq> 8 \<or> hd ps = Txt [] \<or> last ps = Txt [] then None else hextets ps)
                    | [k] \<Rightarrow>
                        (let hi = (if hd ps = Txt [] then k - 1 else k);
                             lo = (if last ps = Txt [] then n - k - 2 else n - k - 1)
                         in if (hd ps = Txt [] \<and> hi \<noteq> 0) \<or> (last ps = Txt [] \<and> lo \<noteq> 0) \<or> 8 \<le> hi + lo then None
                            else hextets (take hi ps @ replicate (8 - (hi + lo)) (Num 0) @ drop (n - lo) ps))
                    | _ \<Rightarrow> None)))"

definition ipv6_of :: "string \<Rightarrow> ip option" where
  "ipv6_of s =
     (if CHR ''/'' \<in> set s then None
      else (case split_at CHR ''%'' s of
              [addr] \<Rightarrow> map_option (\<lambda>n. V6 (of_nat n) None) (ipv6_int addr)
            | [addr, scope] \<Rightarrow>
                (if scope = [] then None else map_option (\<lambda>n. V6 (of_nat n) (Some scope)) (ipv6_int addr))
            | _ \<Rightarrow> None))"

definition ip_address :: "string \<Rightarrow> ip option" where
  "ip_address s = (case ipv4_of s of Some a \<Rightarrow> Some (V4 a) | None \<Rightarrow> ipv6_of s)"

subsection \<open>Networks\<close>

definition in_net :: "'w::len word \<times> nat \<Rightarrow> 'w word \<Rightarrow> bool" where
  "in_net net a \<longleftrightarrow> a AND NOT (mask (LENGTH('w) - snd net)) = fst net"

abbreviation ip4 :: "nat \<Rightarrow> nat \<Rightarrow> nat \<Rightarrow> nat \<Rightarrow> 32 word" where
  "ip4 a b c d \<equiv> of_nat (((a * 256 + b) * 256 + c) * 256 + d)"

definition private_v4 :: "(32 word \<times> nat) list" where
  "private_v4 = [(0x00000000, 8), (0x0A000000, 8), (0x7F000000, 8), (0xA9FE0000, 16), (0xAC100000, 12),
     (0xC0000000, 24), (0xC00000AA, 31), (0xC0000200, 24), (0xC0A80000, 16), (0xC6120000, 15),
     (0xC6336400, 24), (0xCB007100, 24), (0xF0000000, 4), (0xFFFFFFFF, 32)]"

definition private_v4_exceptions :: "(32 word \<times> nat) list" where
  "private_v4_exceptions = [(0xC0000009, 32), (0xC000000A, 32)]"

definition private_v6 :: "(128 word \<times> nat) list" where
  "private_v6 = [(1, 128), (0, 128), (0xFFFF00000000, 96), (0x0064FF9B000100000000000000000000, 48),
     (0x01000000000000000000000000000000, 64), (0x20010000000000000000000000000000, 23),
     (0x20010DB8000000000000000000000000, 32), (0x20020000000000000000000000000000, 16),
     (0xFC000000000000000000000000000000, 7), (0xFE800000000000000000000000000000, 10)]"

definition private_v6_exceptions :: "(128 word \<times> nat) list" where
  "private_v6_exceptions = [(0x20010001000000000000000000000001, 128), (0x20010001000000000000000000000002, 128),
     (0x20010003000000000000000000000000, 32), (0x20010004011200000000000000000000, 48),
     (0x20010020000000000000000000000000, 28), (0x20010030000000000000000000000000, 28)]"

definition reserved_v6 :: "(128 word \<times> nat) list" where
  "reserved_v6 = [(0, 8), (0x01000000000000000000000000000000, 8), (0x02000000000000000000000000000000, 7),
     (0x04000000000000000000000000000000, 6), (0x08000000000000000000000000000000, 5),
     (0x10000000000000000000000000000000, 4), (0x40000000000000000000000000000000, 3),
     (0x60000000000000000000000000000000, 3), (0x80000000000000000000000000000000, 3),
     (0xA0000000000000000000000000000000, 3), (0xC0000000000000000000000000000000, 3),
     (0xE0000000000000000000000000000000, 4), (0xF0000000000000000000000000000000, 5),
     (0xF8000000000000000000000000000000, 6), (0xFE000000000000000000000000000000, 9)]"

fun is_loopback :: "ip \<Rightarrow> bool" where
  "is_loopback (V4 a) = in_net (0x7F000000, 8) a"
| "is_loopback (V6 a _) = (a = 1)"

fun is_private :: "ip \<Rightarrow> bool" where
  "is_private (V4 a) = (list_ex (\<lambda>n. in_net n a) private_v4 \<and> \<not> list_ex (\<lambda>n. in_net n a) private_v4_exceptions)"
| "is_private (V6 a _) = (list_ex (\<lambda>n. in_net n a) private_v6 \<and> \<not> list_ex (\<lambda>n. in_net n a) private_v6_exceptions)"

fun is_link_local :: "ip \<Rightarrow> bool" where
  "is_link_local (V4 a) = in_net (0xA9FE0000, 16) a"
| "is_link_local (V6 a _) = in_net (0xFE800000000000000000000000000000, 10) a"

fun is_multicast :: "ip \<Rightarrow> bool" where
  "is_multicast (V4 a) = in_net (0xE0000000, 4) a"
| "is_multicast (V6 a _) = in_net (0xFF000000000000000000000000000000, 8) a"

fun is_reserved :: "ip \<Rightarrow> bool" where
  "is_reserved (V4 a) = in_net (0xF0000000, 4) a"
| "is_reserved (V6 a _) = list_ex (\<lambda>n. in_net n a) reserved_v6"

fun is_unspecified :: "ip \<Rightarrow> bool" where
  "is_unspecified (V4 a) = (a = 0)"
| "is_unspecified (V6 a _) = (a = 0)"

subsection \<open>The policy\<close>

definition SmtpHostPolicyError :: exc where "SmtpHostPolicyError = OtherException ''SmtpHostPolicyError''"

record endpoint =
  ep_ip :: ip
  ep_family :: int
  ep_port :: int
  ep_host :: string

datatype dns_record = Malformed_record | Malformed_sockaddr | Record int string

datatype dns_answer = Dns_records "dns_record list" | Gaierror | Dns_timeout | Dns_raises exc

definition AF_INET :: int where "AF_INET = 2"
definition AF_INET6 :: int where "AF_INET6 = 10"

definition BLOCKED_TLDS :: "string list" where
  "BLOCKED_TLDS = [''local'', ''internal'', ''lan'', ''corp'', ''home'', ''localdomain'', ''test'', ''example'',
     ''invalid'', ''localhost'', ''arpa'']"

definition CLOUD_META_V4 :: "32 word" where "CLOUD_META_V4 = 0xA9FEA9FE"
definition CLOUD_META_V6 :: "128 word" where "CLOUD_META_V6 = 0xFD000EC2000000000000000000000254"
definition BROADCAST_V4 :: "32 word" where "BROADCAST_V4 = 0xFFFFFFFF"

definition validate_port :: "int \<Rightarrow> unit res" where
  "validate_port port = (if 1 \<le> port \<and> port \<le> 65535 then Inr () else Inl ValueError)"

definition rstrip_dots :: "string \<Rightarrow> string" where
  "rstrip_dots s = rev (dropWhile (\<lambda>c. c = CHR ''.'') (rev s))"

text \<open>\<^verbatim>\<open>str.isdigit\<close> on Latin-1 text: the superscripts one, two and three are digits.\<close>

definition isdigit :: "string \<Rightarrow> bool" where
  "isdigit s \<longleftrightarrow> s \<noteq> [] \<and> (\<forall>c \<in> set s. is_digit c \<or> (of_char c :: nat) \<in> {178, 179, 185})"

definition tld_of :: "string \<Rightarrow> string" where
  "tld_of s = (let parts = split_at CHR ''.'' s in if 1 < length parts then last parts else [])"

definition reject_pre_resolve :: "string \<Rightarrow> unit res" where
  "reject_pre_resolve host =
     (if host = [] then Inl SmtpHostPolicyError
      else let stripped = rstrip_dots host
           in if isdigit stripped then Inl SmtpHostPolicyError
              else if lower stripped = ''localhost'' then Inl SmtpHostPolicyError
              else if tld_of (lower stripped) \<in> set BLOCKED_TLDS then Inl SmtpHostPolicyError
              else Inr ())"

definition unwrap_ipv4_mapped :: "ip \<Rightarrow> ip" where
  "unwrap_ipv4_mapped a =
     (case a of
        V4 _ \<Rightarrow> a
      | V6 w _ \<Rightarrow> (if drop_bit 32 w = 0xFFFF then V4 (ucast (w AND 0xFFFFFFFF)) else a))"

definition check_address :: "ip \<Rightarrow> unit res" where
  "check_address a =
     (if a = V4 CLOUD_META_V4 \<or> a = V6 CLOUD_META_V6 None then Inl SmtpHostPolicyError
      else if a = V4 BROADCAST_V4 then Inl SmtpHostPolicyError
      else if is_loopback a then Inl SmtpHostPolicyError
      else if is_private a then Inl SmtpHostPolicyError
      else if is_link_local a then Inl SmtpHostPolicyError
      else if is_multicast a then Inl SmtpHostPolicyError
      else if is_reserved a then Inl SmtpHostPolicyError
      else if is_unspecified a then Inl SmtpHostPolicyError
      else Inr ())"

fun check_records :: "string \<Rightarrow> int \<Rightarrow> dns_record list \<Rightarrow> endpoint option \<Rightarrow> endpoint option res" where
  "check_records host port [] first_ok = Inr first_ok"
| "check_records host port (Malformed_record # rs) first_ok = Inl SmtpHostPolicyError"
| "check_records host port (Malformed_sockaddr # rs) first_ok = Inl SmtpHostPolicyError"
| "check_records host port (Record af sockaddr # rs) first_ok =
     (case ip_address sockaddr of
        None \<Rightarrow> Inl SmtpHostPolicyError
      | Some addr \<Rightarrow>
          (let addr_obj = unwrap_ipv4_mapped addr
           in res_bind (check_address addr_obj)
                (\<lambda>_. check_records host port rs
                   (if first_ok = None
                    then Some \<lparr>ep_ip = addr_obj, ep_family = af, ep_port = port, ep_host = host\<rparr>
                    else first_ok))))"

definition resolve_records :: "(string \<Rightarrow> int \<Rightarrow> dns_answer) \<Rightarrow> string \<Rightarrow> int \<Rightarrow> dns_record list res" where
  "resolve_records resolver host port =
     (case resolver host port of
        Dns_records rs \<Rightarrow> Inr rs
      | Gaierror \<Rightarrow> Inl SmtpHostPolicyError
      | Dns_timeout \<Rightarrow> Inl SmtpHostPolicyError
      | Dns_raises e \<Rightarrow> Inl e)"

definition resolve_and_check :: "(string \<Rightarrow> int \<Rightarrow> dns_answer) \<Rightarrow> string \<Rightarrow> int \<Rightarrow> endpoint res" where
  "resolve_and_check resolver host port =
     res_bind (validate_port port) (\<lambda>_.
     res_bind (reject_pre_resolve host) (\<lambda>_.
       case ip_address host of
         Some literal \<Rightarrow>
           (let addr = unwrap_ipv4_mapped literal
            in res_bind (check_address addr) (\<lambda>_.
                 Inr \<lparr>ep_ip = addr, ep_family = (case addr of V4 _ \<Rightarrow> AF_INET | V6 _ _ \<Rightarrow> AF_INET6),
                      ep_port = port, ep_host = host\<rparr>))
       | None \<Rightarrow>
           res_bind (resolve_records resolver host port) (\<lambda>results.
             if results = [] then Inl SmtpHostPolicyError
             else res_bind (check_records host port results None) (\<lambda>first_ok.
                    case first_ok of None \<Rightarrow> Inl SmtpHostPolicyError | Some ep \<Rightarrow> Inr ep))))"

subsection \<open>The policy as ranges of numbers\<close>

lemma aligned_div_eq:
  fixes x y m :: nat
  assumes "0 < m" "y = m * (y div m)"
  shows "x div m = y div m \<longleftrightarrow> y \<le> x \<and> x < y + m"
proof
  assume q: "x div m = y div m"
  have "x = m * (y div m) + x mod m" unfolding q [symmetric] by simp
  moreover have "x mod m < m" using assms(1) by simp
  ultimately show "y \<le> x \<and> x < y + m" unfolding assms(2) [symmetric] by simp
next
  assume "y \<le> x \<and> x < y + m"
  with assms(2) show "x div m = y div m" by (intro div_nat_eqI) (simp_all add: algebra_simps)
qed

lemma in_net_range:
  fixes a :: "'w::len word"
  assumes "p \<le> LENGTH('w)" "take_bit (LENGTH('w) - p) base = 0"
  shows "in_net (base, p) a \<longleftrightarrow> unat base \<le> unat a \<and> unat a < unat base + 2 ^ (LENGTH('w) - p)"
proof -
  let ?k = "LENGTH('w) - p"
  have a: "unat (a AND NOT (mask ?k)) = 2 ^ ?k * (unat a div 2 ^ ?k)"
  proof -
    have "a AND NOT (mask ?k) = push_bit ?k (drop_bit ?k a)"
      by (rule bit_eqI) (auto simp: bit_simps)
    moreover have "2 ^ ?k * (unat a div 2 ^ ?k) < 2 ^ LENGTH('w)"
      by (rule le_less_trans [OF _ unsigned_less [of a]]) simp
    moreover have "unat (push_bit ?k (drop_bit ?k a)) = take_bit LENGTH('w) (push_bit ?k (drop_bit ?k (unat a)))"
      by (simp only: unsigned_push_bit_eq unat_drop_bit_eq)
    moreover have "push_bit ?k (drop_bit ?k (unat a)) = 2 ^ ?k * (unat a div 2 ^ ?k)"
      by (simp only: push_bit_eq_mult drop_bit_eq_div mult.commute)
    ultimately show ?thesis by (simp only: take_bit_eq_mod mod_less)
  qed
  have b: "unat base = 2 ^ ?k * (unat base div 2 ^ ?k)"
  proof -
    have "take_bit ?k (unat base) = 0" using assms(2) by (metis unsigned_take_bit_eq unsigned_0)
    then have "unat base mod 2 ^ ?k = 0" by (simp only: take_bit_eq_mod)
    then show ?thesis by (metis add.right_neutral mult_div_mod_eq)
  qed
  have "in_net (base, p) a \<longleftrightarrow> unat (a AND NOT (mask ?k)) = unat base" by (simp add: in_net_def word_unat_eq_iff)
  also have "\<dots> \<longleftrightarrow> unat a div 2 ^ ?k = unat base div 2 ^ ?k"
    unfolding a by (subst b) simp
  also have "\<dots> \<longleftrightarrow> unat base \<le> unat a \<and> unat a < unat base + 2 ^ ?k"
    using b by (intro aligned_div_eq) simp_all
  finally show ?thesis .
qed

text \<open>
  The numbers the policy refuses as IPv4 addresses; as IPv6 addresses it accepts the global
  unicast block without the special-purpose ones, and the old site-local block.
\<close>

definition refused_v4 :: "(nat \<times> nat) list" where
  "refused_v4 = [(0x00000000, 0x00FFFFFF), (0x0A000000, 0x0AFFFFFF), (0x7F000000, 0x7FFFFFFF),
     (0xA9FE0000, 0xA9FEFFFF), (0xAC100000, 0xAC1FFFFF), (0xC0000000, 0xC0000008), (0xC000000B, 0xC00000FF),
     (0xC0000200, 0xC00002FF), (0xC0A80000, 0xC0A8FFFF), (0xC6120000, 0xC613FFFF), (0xC6336400, 0xC63364FF),
     (0xCB007100, 0xCB0071FF), (0xE0000000, 0xFFFFFFFF)]"

definition accepted_v6 :: "(nat \<times> nat) list" where
  "accepted_v6 = [(0x20000000000000000000000000000000, 0x3FFFFFFFFFFFFFFFFFFFFFFFFFFFFFFF),
      (0xFEC00000000000000000000000000000, 0xFEFFFFFFFFFFFFFFFFFFFFFFFFFFFFFF)]"

definition special_v6 :: "(nat \<times> nat) list" where
  "special_v6 = [(0x20010000000000000000000000000000, 0x200101FFFFFFFFFFFFFFFFFFFFFFFFFF),
     (0x20010DB8000000000000000000000000, 0x20010DB8FFFFFFFFFFFFFFFFFFFFFFFF),
     (0x20020000000000000000000000000000, 0x2002FFFFFFFFFFFFFFFFFFFFFFFFFFFF)]"

definition special_v6_reachable :: "(nat \<times> nat) list" where
  "special_v6_reachable = [(0x20010001000000000000000000000001, 0x20010001000000000000000000000002),
     (0x20010003000000000000000000000000, 0x20010003FFFFFFFFFFFFFFFFFFFFFFFF),
     (0x20010004011200000000000000000000, 0x200100040112FFFFFFFFFFFFFFFFFFFF),
     (0x20010020000000000000000000000000, 0x2001003FFFFFFFFFFFFFFFFFFFFFFFFF)]"

definition in_ranges :: "(nat \<times> nat) list \<Rightarrow> nat \<Rightarrow> bool" where
  "in_ranges rs n \<longleftrightarrow> list_ex (\<lambda>(lo, hi). lo \<le> n \<and> n \<le> hi) rs"

lemma check_v4: "check_address (V4 a) = Inr () \<longleftrightarrow> \<not> in_ranges refused_v4 (unat a)"
proof -
  have eq: "a = w \<longleftrightarrow> unat a = unat w" for w by (simp add: word_unat_eq_iff)
  have top: "unat a < 2 ^ 32" using unsigned_less [of a] by simp
  show ?thesis
    using top by (simp add: check_address_def private_v4_def private_v4_exceptions_def in_net_range eq
      CLOUD_META_V4_def BROADCAST_V4_def in_ranges_def refused_v4_def) presburger
qed

lemma merge_ranges:
  fixes lo mid hi n :: nat
  assumes "lo \<le> mid" "mid \<le> hi"
  shows "(lo \<le> n \<and> n < mid \<or> mid \<le> n \<and> n < hi) \<longleftrightarrow> lo \<le> n \<and> n < hi"
    and "(lo \<le> n \<and> n < mid \<or> mid \<le> n \<and> n < hi \<or> rest) \<longleftrightarrow> (lo \<le> n \<and> n < hi) \<or> rest"
  using assms by auto

lemma merge_below:
  fixes mid hi n :: nat
  shows "mid \<le> hi \<Longrightarrow> (n < mid \<or> mid \<le> n \<and> n < hi \<or> rest) \<longleftrightarrow> n < hi \<or> rest"
  by auto

lemma reserved_v6_ranges:
  fixes a :: "128 word"
  shows "list_ex (\<lambda>n. in_net n a) reserved_v6 \<longleftrightarrow> unat a < 0x20000000000000000000000000000000
    \<or> (0x40000000000000000000000000000000 \<le> unat a \<and> unat a < 0xFC000000000000000000000000000000)
    \<or> (0xFE000000000000000000000000000000 \<le> unat a \<and> unat a < 0xFE800000000000000000000000000000)"
  by (simp add: reserved_v6_def in_net_range merge_ranges merge_below)

lemma private_v6_ranges:
  fixes a :: "128 word"
  assumes "0x20000000000000000000000000000000 \<le> unat a"
  shows "list_ex (\<lambda>n. in_net n a) private_v6 \<longleftrightarrow> in_ranges special_v6 (unat a)
    \<or> (0xFC000000000000000000000000000000 \<le> unat a \<and> unat a < 0xFE000000000000000000000000000000)
    \<or> (0xFE800000000000000000000000000000 \<le> unat a \<and> unat a < 0xFEC00000000000000000000000000000)"
  using assms by (simp add: private_v6_def in_net_range in_ranges_def special_v6_def) linarith

lemma private_v6_exception_ranges:
  fixes a :: "128 word"
  shows "list_ex (\<lambda>n. in_net n a) private_v6_exceptions \<longleftrightarrow> in_ranges special_v6_reachable (unat a)"
  by (simp add: private_v6_exceptions_def in_net_range in_ranges_def special_v6_reachable_def) linarith

lemma check_v6_simp:
  "check_address (V6 a scope) = Inr () \<longleftrightarrow>
     \<not> list_ex (\<lambda>n. in_net n a) reserved_v6
     \<and> \<not> (list_ex (\<lambda>n. in_net n a) private_v6 \<and> \<not> list_ex (\<lambda>n. in_net n a) private_v6_exceptions)
     \<and> \<not> in_net (0xFE800000000000000000000000000000, 10) a \<and> \<not> in_net (0xFF000000000000000000000000000000, 8) a"
proof -
  have "list_ex (\<lambda>n. in_net n a) reserved_v6" if "a = 0 \<or> a = 1"
    using that by (auto simp: reserved_v6_ranges)
  moreover have "list_ex (\<lambda>n. in_net n a) private_v6 \<and> \<not> list_ex (\<lambda>n. in_net n a) private_v6_exceptions"
    if "a = CLOUD_META_V6"
    using that by (simp add: private_v6_ranges private_v6_exception_ranges in_ranges_def CLOUD_META_V6_def
        special_v6_def special_v6_reachable_def)
  ultimately show ?thesis by (auto simp: check_address_def)
qed

lemma accepted_v6_iff:
  "in_ranges accepted_v6 n \<longleftrightarrow>
     (0x20000000000000000000000000000000 \<le> n \<and> n < 0x40000000000000000000000000000000)
     \<or> (0xFEC00000000000000000000000000000 \<le> n \<and> n < 0xFF000000000000000000000000000000)"
  by (simp add: in_ranges_def accepted_v6_def) linarith

lemma check_v6:
  "check_address (V6 a scope) = Inr () \<longleftrightarrow>
     in_ranges accepted_v6 (unat a) \<and> (in_ranges special_v6 (unat a) \<longrightarrow> in_ranges special_v6_reachable (unat a))"
proof (cases "0x20000000000000000000000000000000 \<le> unat a")
  case True
  have top: "unat a < 2 ^ 128" using unsigned_less [of a] by simp
  have low: "unat a \<le> 0x2001FFFFFFFFFFFFFFFFFFFFFFFFFFFF" if "in_ranges special_v6_reachable (unat a)"
    using that by (auto simp: in_ranges_def special_v6_reachable_def)
  show ?thesis
    unfolding check_v6_simp private_v6_ranges [OF True] reserved_v6_ranges private_v6_exception_ranges
    using True top low by (simp add: in_net_range accepted_v6_iff) arith
next
  case False
  then show ?thesis by (simp add: check_v6_simp reserved_v6_ranges accepted_v6_iff)
qed

fun reachable :: "ip \<Rightarrow> bool" where
  "reachable (V4 a) = (\<not> in_ranges refused_v4 (unat a))"
| "reachable (V6 a _) =
     (in_ranges accepted_v6 (unat a) \<and> (in_ranges special_v6 (unat a) \<longrightarrow> in_ranges special_v6_reachable (unat a)))"

lemma check_address_iff: "check_address a = Inr () \<longleftrightarrow> reachable a"
  by (cases a) (simp_all add: check_v4 check_v6)

text \<open>What a record of the answer says, when it is one the policy accepts.\<close>

definition good_record :: "dns_record \<Rightarrow> bool" where
  "good_record r \<longleftrightarrow> (\<exists>af s a. r = Record af s \<and> ip_address s = Some a \<and> reachable (unwrap_ipv4_mapped a))"

fun pinned :: "string \<Rightarrow> int \<Rightarrow> dns_record list \<Rightarrow> endpoint option" where
  "pinned host port (Record af s # rs) =
     map_option (\<lambda>a. \<lparr>ep_ip = unwrap_ipv4_mapped a, ep_family = af, ep_port = port, ep_host = host\<rparr>) (ip_address s)"
| "pinned host port _ = None"

lemma check_records_iff:
  "check_records host port rs first_ok = Inr r \<longleftrightarrow>
     (\<forall>x \<in> set rs. good_record x) \<and> r = (if first_ok = None then pinned host port rs else first_ok)"
proof (induction host port rs first_ok rule: check_records.induct)
  case (4 host port af sockaddr rs first_ok)
  show ?case
  proof (cases "ip_address sockaddr")
    case (Some a)
    then have IH: "check_records host port rs f = Inr r \<longleftrightarrow>
      (\<forall>x \<in> set rs. good_record x) \<and> r = (if f = None then pinned host port rs else f)"
      if "f = (if first_ok = None then Some \<lparr>ep_ip = unwrap_ipv4_mapped a, ep_family = af, ep_port = port,
        ep_host = host\<rparr> else first_ok)" for f
      using 4 that by simp
    show ?thesis
    proof (cases "check_address (unwrap_ipv4_mapped a)")
      case (Inr x)
      then have "reachable (unwrap_ipv4_mapped a)" using check_address_iff by simp
      with Some have "good_record (Record af sockaddr)" by (simp add: good_record_def)
      with Inr Some IH [OF refl] show ?thesis by (auto simp: Let_def)
    next
      case (Inl e)
      then have "\<not> reachable (unwrap_ipv4_mapped a)" using check_address_iff [of "unwrap_ipv4_mapped a"] by auto
      with Inl Some show ?thesis by (simp add: good_record_def)
    qed
  qed (simp add: good_record_def)
qed (auto simp: good_record_def)

text \<open>A name that resolves to one public address.\<close>

lemma demo_octets: "parse_octet ''8'' = Some 8" "parse_octet ''dns'' = None"
  by (simp_all add: parse_octet_def is_digit_def num_of_def digit_val_def)

lemma demo_ip: "ip_address ''8.8.8.8'' = Some (V4 0x08080808)"
  by (simp add: ip_address_def ipv4_of_def demo_octets)

lemma demo_name: "ip_address ''dns.google'' = None" "reject_pre_resolve ''dns.google'' = Inr ()"
  by (simp_all add: ip_address_def ipv4_of_def ipv6_of_def ipv6_int_def ipv6_parts_def demo_octets
      reject_pre_resolve_def rstrip_dots_def isdigit_def is_digit_def lower_def lower_char_def tld_of_def BLOCKED_TLDS_def)

lemma demo_endpoint:
  "resolve_and_check (\<lambda>_ _. Dns_records [Record AF_INET ''8.8.8.8'']) ''dns.google'' 465 =
     Inr \<lparr>ep_ip = V4 0x08080808, ep_family = AF_INET, ep_port = 465, ep_host = ''dns.google''\<rparr>"
proof -
  have "reachable (V4 0x08080808)" by (simp add: in_ranges_def refused_v4_def)
  then show ?thesis
    using check_address_iff [of "V4 0x08080808"]
    by (simp add: resolve_and_check_def validate_port_def demo_name resolve_records_def demo_ip unwrap_ipv4_mapped_def)
qed

lemma pinned_facts:
  assumes "pinned host port rs = Some ep" "\<forall>x \<in> set rs. good_record x"
  shows "reachable (ep_ip ep)" "ep_host ep = host" "ep_port ep = port"
  using assms by (cases "(host, port, rs)" rule: pinned.cases; auto simp: good_record_def)+

lemma policy_endpoint:
  assumes "resolve_and_check resolver host port = Inr ep"
  shows "ep_host ep = host \<and> ep_port ep = port \<and> reachable (ep_ip ep)"
proof (cases "ip_address host")
  case (Some a)
  with assms show ?thesis
    using check_address_iff [of "unwrap_ipv4_mapped a"]
    by (auto simp: resolve_and_check_def res_bind_Inr_iff Let_def)
next
  case None
  with assms obtain rs where "pinned host port rs = Some ep" "\<forall>x \<in> set rs. good_record x"
    by (auto simp: resolve_and_check_def res_bind_Inr_iff check_records_iff split: if_splits option.splits)
  with pinned_facts show ?thesis by blast
qed

text \<open>
  C23. Mail only goes to the outside. An endpoint is what the policy returns for a host and a port
  exactly when the port is one, the name is not one of the refused ones, and: for a literal, its
  address (an IPv4 address inside IPv6 read as such) is reachable and is the endpoint's; for a
  name, the resolver answers with records that all name reachable addresses, and the endpoint is
  the first of them. Reachable are the IPv4 numbers outside the listed private, loopback,
  link-local, multicast and reserved ranges, and as IPv6 the global unicast block without its
  special ranges, together with the site-local block. Any other case raises.
\<close>

theorem smtp_host_policy_exact:
  "resolve_and_check resolver host port = Inr ep \<longleftrightarrow>
     1 \<le> port \<and> port \<le> 65535 \<and> reject_pre_resolve host = Inr () \<and> reachable (ep_ip ep)
     \<and> (case ip_address host of
          Some a \<Rightarrow> ep = \<lparr>ep_ip = unwrap_ipv4_mapped a,
                          ep_family = (case unwrap_ipv4_mapped a of V4 _ \<Rightarrow> AF_INET | V6 _ _ \<Rightarrow> AF_INET6),
                          ep_port = port, ep_host = host\<rparr>
        | None \<Rightarrow> (\<exists>r rs. resolver host port = Dns_records (r # rs) \<and> (\<forall>x \<in> set (r # rs). good_record x)
                     \<and> pinned host port (r # rs) = Some ep))"
proof (cases "ip_address host")
  case (Some a)
  then show ?thesis
    using check_address_iff [of "unwrap_ipv4_mapped a"]
    by (auto simp: resolve_and_check_def validate_port_def res_bind_Inr_iff Let_def)
next
  case None
  show ?thesis
  proof (cases "resolver host port")
    case (Dns_records rs)
    with None show ?thesis
      using pinned_facts(1) [of host port rs ep] by (cases rs)
        (auto simp: resolve_and_check_def validate_port_def res_bind_Inr_iff resolve_records_def check_records_iff
          split: option.splits)
  qed (auto simp: None resolve_and_check_def validate_port_def resolve_records_def res_bind_Inr_iff)
qed

theorem smtp_host_policy_exact_witness:
  "good_record (Record AF_INET ''8.8.8.8'')
   \<and> pinned ''dns.google'' 465 [Record AF_INET ''8.8.8.8''] =
       Some \<lparr>ep_ip = V4 0x08080808, ep_family = AF_INET, ep_port = 465, ep_host = ''dns.google''\<rparr>"
  using iffD1 [OF smtp_host_policy_exact demo_endpoint] by (simp add: demo_name)

text \<open>The old site-local block of IPv6 passes the policy.\<close>

lemma site_local_reachable: "reachable (V6 0xFEC00000000000000000000000000001 None)"
  by (simp add: in_ranges_def accepted_v6_def special_v6_def)

end
