(* ===== verification/Smtp_Mail.thy ===== *)
theory Smtp_Mail
  imports Smtp_Host Dispatcher Fetcher
begin

text \<open>
  Mail: the credential row (\<^verbatim>\<open>repositories/smtp_credentials.py\<close>), the service that stores it
  (\<^verbatim>\<open>services/settings.py\<close>), the e-mail notifier (\<^verbatim>\<open>infra/smtp/email_notifier.py\<close>) and the test
  of a configuration (\<^verbatim>\<open>services/smtp_test.py\<close>). What \<^verbatim>\<open>smtplib\<close>, \<^verbatim>\<open>ssl\<close> and the server answer
  to each call, and what \<^verbatim>\<open>EmailMessage\<close> says of the header values, is the environment; the
  calls made are kept in order. The wording of the messages is left out: a message carries the
  values put into it.
\<close>

subsection \<open>Credentials\<close>

record smtp_creds =
  sc_user :: ustr
  sc_password :: ustr
  sc_host :: string
  sc_port :: int
  sc_use_default :: bool
  sc_from_name :: "ustr option"

definition mk_smtp_creds :: "ustr \<Rightarrow> ustr \<Rightarrow> string \<Rightarrow> int \<Rightarrow> bool \<Rightarrow> ustr option \<Rightarrow> smtp_creds res" where
  "mk_smtp_creds user pass host port def from_name =
     (if 1 \<le> port \<and> port \<le> 65535
      then Inr \<lparr>sc_user = user, sc_password = pass, sc_host = host, sc_port = port, sc_use_default = def,
                sc_from_name = from_name\<rparr>
      else Inl ValidationError)"

record cred_row =
  cr_user :: ustr
  cr_password :: ustr
  cr_host :: string
  cr_port :: int
  cr_use_default :: int
  cr_from_name :: "ustr option"
  cr_updated_at :: time

text \<open>\<^verbatim>\<open>x or None\<close> on a text.\<close>

definition or_none :: "ustr option \<Rightarrow> ustr option" where
  "or_none x = (if x = Some [] then None else x)"

definition creds_load :: "cred_row option \<Rightarrow> smtp_creds option res" where
  "creds_load table =
     (case table of
        None \<Rightarrow> Inr None
      | Some row \<Rightarrow>
          map_sum id Some (mk_smtp_creds (cr_user row) (cr_password row) (cr_host row) (cr_port row)
                             (cr_use_default row \<noteq> 0) (or_none (cr_from_name row))))"

text \<open>The \<^verbatim>\<open>CHECK\<close> of the table on the port rolls the transaction back.\<close>

definition creds_save :: "time \<Rightarrow> smtp_creds \<Rightarrow> cred_row option \<Rightarrow> cred_row option \<times> unit res" where
  "creds_save now creds table =
     (if 1 \<le> sc_port creds \<and> sc_port creds \<le> 65535
      then (Some \<lparr>cr_user = sc_user creds, cr_password = sc_password creds, cr_host = sc_host creds,
                  cr_port = sc_port creds, cr_use_default = (if sc_use_default creds then 1 else 0),
                  cr_from_name = or_none (sc_from_name creds), cr_updated_at = now\<rparr>, Inr ())
      else (table, Inl IntegrityError))"

text \<open>Names are resolved before the transaction; \<open>resolver\<close> is what DNS says during this call.\<close>

definition set_smtp_credentials ::
  "(string \<Rightarrow> int \<Rightarrow> dns_answer) \<Rightarrow> time \<Rightarrow> smtp_creds \<Rightarrow> cred_row option \<Rightarrow> cred_row option \<times> unit res" where
  "set_smtp_credentials resolver now creds table =
     (if strip (sc_host creds) = [] then (table, Inl ValueError)
      else if \<not> (1 \<le> sc_port creds \<and> sc_port creds \<le> 65535) then (table, Inl ValueError)
      else (case resolve_and_check resolver (sc_host creds) (sc_port creds) of
              Inl e \<Rightarrow> (table, Inl e)
            | Inr _ \<Rightarrow> creds_save now creds table))"

lemma creds_roundtrip:
  "set_smtp_credentials resolver now creds table = (table', Inr ()) \<Longrightarrow>
     creds_load table' = Inr (Some (creds\<lparr>sc_from_name := or_none (sc_from_name creds)\<rparr>))
     \<and> (\<exists>ep. resolve_and_check resolver (sc_host creds) (sc_port creds) = Inr ep)"
  by (auto simp: set_smtp_credentials_def creds_save_def creds_load_def mk_smtp_creds_def or_none_def
      split: if_splits sum.splits)

lemma creds_kept:
  "set_smtp_credentials resolver now creds table = (table', Inl e) \<Longrightarrow> table' = table"
  by (auto simp: set_smtp_credentials_def creds_save_def split: if_splits sum.splits)

subsection \<open>Messages\<close>

datatype mail_body =
    Lot_mail int ustr ustr string "ustr option"
  | Test_mail
  | Session_expired_mail

record mail =
  ml_from :: "ustr \<times> ustr option"
  ml_to :: ustr
  ml_message_id :: string
  ml_body :: mail_body

text \<open>\<open>sha\<close> is the hexadecimal SHA-256 of the UTF-8 text.\<close>

definition recipient_hash :: "(ustr \<Rightarrow> string) \<Rightarrow> ustr \<Rightarrow> string" where
  "recipient_hash sha recipient = take 16 (sha recipient)"

definition make_message_id :: "(ustr \<Rightarrow> string) \<Rightarrow> int \<Rightarrow> ustr \<Rightarrow> string" where
  "make_message_id sha i recipient =
     ''<'' @ str_of_int i @ ''.'' @ ''email'' @ ''.'' @ recipient_hash sha recipient @ ''@fis-monitor.local>''"

definition from_address :: "smtp_creds \<Rightarrow> ustr \<times> ustr option" where
  "from_address creds = (sc_user creds, or_none (sc_from_name creds))"

definition roscadastres_map_url :: "ustr \<Rightarrow> ustr option" where
  "roscadastres_map_url cadastral_no =
     (if cadastral_no = [] then None
      else Some (map of_char ''https://ik5map.roscadastres.com/map.html?cn='' @ cadastral_no))"

definition build_lot_message :: "(ustr \<Rightarrow> string) \<Rightarrow> string \<Rightarrow> lot_public \<Rightarrow> ustr \<Rightarrow> smtp_creds \<Rightarrow> mail" where
  "build_lot_message sha base_url l recipient creds =
     \<lparr>ml_from = from_address creds, ml_to = recipient, ml_message_id = make_message_id sha (lot_id l) recipient,
      ml_body = Lot_mail (lot_id l) (lot_region l) (lot_status l) (lot_detail_url base_url (lot_id l))
                  (roscadastres_map_url (lot_cadastral_no l))\<rparr>"

definition build_test_message :: "(ustr \<Rightarrow> string) \<Rightarrow> ustr \<Rightarrow> smtp_creds \<Rightarrow> mail" where
  "build_test_message sha recipient creds =
     \<lparr>ml_from = from_address creds, ml_to = recipient, ml_message_id = make_message_id sha 0 recipient,
      ml_body = Test_mail\<rparr>"

definition build_session_expired_message :: "(ustr \<Rightarrow> string) \<Rightarrow> ustr \<Rightarrow> smtp_creds \<Rightarrow> mail" where
  "build_session_expired_message sha recipient creds =
     \<lparr>ml_from = from_address creds, ml_to = recipient,
      ml_message_id = ''<session_expired.'' @ ''email'' @ ''.'' @ recipient_hash sha recipient @ ''@fis-monitor.local>'',
      ml_body = Session_expired_mail\<rparr>"

subsection \<open>Delivery\<close>

text \<open>
  What a call to the library raises: \<open>Response\<close> is any other \<^verbatim>\<open>SMTPResponseException\<close>, \<open>Os\<close> any
  other \<^verbatim>\<open>OSError\<close> by its class name (an \<^verbatim>\<open>SMTPException\<close> is one), \<open>Other\<close> an exception no
  handler names.
\<close>

datatype smtp_exc =
    Starttls_refused int
  | Authentication
  | Recipients_refused
  | Server_disconnected
  | Response int
  | Ssl string
  | Os string
  | Other exc

record smtp_env =
  sv_headers :: "mail \<Rightarrow> unit res"
  sv_connect :: "smtp_exc + unit"
  sv_ehlo :: "smtp_exc + unit"
  sv_starttls :: "smtp_exc + int"
  sv_handshake :: "smtp_exc + unit"
  sv_banner :: "smtp_exc + unit"
  sv_ehlo_tls :: "smtp_exc + unit"
  sv_login :: "smtp_exc + unit"
  sv_send :: "smtp_exc + unit"
  sv_quit :: "smtp_exc + unit"

datatype smtp_act =
    Tcp_connect ip int
  | Ehlo string
  | Starttls_command
  | Tls_handshake string
  | Read_banner
  | Login_as ustr ustr
  | Send_mail mail
  | Quit
  | Close

definition act :: "smtp_act \<Rightarrow> (smtp_exc + 'a) \<Rightarrow> ('a \<Rightarrow> smtp_act list \<times> (smtp_exc + 'b)) \<Rightarrow> smtp_act list \<times> (smtp_exc + 'b)" where
  "act a r k = (case r of Inl e \<Rightarrow> ([a], Inl e) | Inr x \<Rightarrow> (a # fst (k x), snd (k x)))"

definition connect_starttls :: "smtp_env \<Rightarrow> endpoint \<Rightarrow> smtp_act list \<times> (smtp_exc + unit)" where
  "connect_starttls env ep =
     act (Tcp_connect (ep_ip ep) (ep_port ep)) (sv_connect env) (\<lambda>_.
     act (Ehlo (ep_host ep)) (sv_ehlo env) (\<lambda>_.
     act Starttls_command (sv_starttls env) (\<lambda>code.
       if code \<noteq> 220 then ([Close], Inl (Starttls_refused code))
       else act (Tls_handshake (ep_host ep)) (sv_handshake env) (\<lambda>_.
            act (Ehlo (ep_host ep)) (sv_ehlo_tls env) (\<lambda>_. ([], Inr ()))))))"

definition connect_implicit_tls :: "smtp_env \<Rightarrow> endpoint \<Rightarrow> smtp_act list \<times> (smtp_exc + unit)" where
  "connect_implicit_tls env ep =
     act (Tcp_connect (ep_ip ep) (ep_port ep)) (sv_connect env) (\<lambda>_.
       case sv_handshake env of
         Inl e \<Rightarrow> ([Tls_handshake (ep_host ep), Close], Inl e)
       | Inr _ \<Rightarrow>
           act (Tls_handshake (ep_host ep)) (sv_handshake env) (\<lambda>_.
           act Read_banner (sv_banner env) (\<lambda>_.
           act (Ehlo (ep_host ep)) (sv_ehlo_tls env) (\<lambda>_. ([], Inr ())))))"

definition IMPLICIT_TLS_PORT :: int where "IMPLICIT_TLS_PORT = 465"

definition nres :: "bool \<Rightarrow> string \<Rightarrow> bool \<Rightarrow> notify_result res" where
  "nres ok' detail retryable = Inr \<lparr>nres_ok = ok', nres_detail = take 500 detail, nres_retryable = retryable\<rparr>"

fun result_of :: "smtp_exc \<Rightarrow> notify_result res" where
  "result_of (Starttls_refused code) = nres False (''starttls_refused_code_'' @ str_of_int code) True"
| "result_of Authentication = nres False ''auth_failed'' False"
| "result_of Recipients_refused = nres False ''recipient_refused'' False"
| "result_of Server_disconnected = nres False ''server_disconnected'' True"
| "result_of (Response code) = nres False (''smtp_'' @ str_of_int code) (code < 500)"
| "result_of (Ssl name) = nres False (''tls_'' @ name) True"
| "result_of (Os name) = nres False (''connect_error_'' @ name) True"
| "result_of (Other e) = Inl e"

text \<open>The \<^verbatim>\<open>finally\<close> block, run only with a connection in hand; what it raises replaces the result.\<close>

definition hang_up :: "smtp_env \<Rightarrow> notify_result res \<Rightarrow> smtp_act list \<times> notify_result res" where
  "hang_up env r =
     (case sv_quit env of
        Inr _ \<Rightarrow> ([Quit], r)
      | Inl (Other e) \<Rightarrow> ([Quit], Inl e)
      | Inl _ \<Rightarrow> ([Quit, Close], r))"

definition deliver :: "smtp_env \<Rightarrow> (string \<Rightarrow> int \<Rightarrow> dns_answer) \<Rightarrow> mail \<Rightarrow> smtp_creds \<Rightarrow> smtp_act list \<times> notify_result res" where
  "deliver env resolver msg creds =
     (case resolve_and_check resolver (sc_host creds) (sc_port creds) of
        Inl e \<Rightarrow> ([], Inl e)
      | Inr ep \<Rightarrow>
          (let (acts, conn) = (if ep_port ep = IMPLICIT_TLS_PORT then connect_implicit_tls env ep
                               else connect_starttls env ep)
           in case conn of
                Inl e \<Rightarrow> (acts, result_of e)
              | Inr _ \<Rightarrow>
                  (let (acts', sent) =
                         act (Login_as (sc_user creds) (sc_password creds)) (sv_login env) (\<lambda>_.
                         act (Send_mail msg) (sv_send env) (\<lambda>_. ([], Inr ())));
                       (acts'', r) = hang_up env (case sent of Inl e \<Rightarrow> result_of e | Inr _ \<Rightarrow> nres True ''sent'' False)
                   in (acts @ acts' @ acts'', r))))"

definition smtp_notify ::
  "smtp_env \<Rightarrow> (string \<Rightarrow> int \<Rightarrow> dns_answer) \<Rightarrow> cred_row option \<Rightarrow> (smtp_creds \<Rightarrow> mail) \<Rightarrow> smtp_act list \<times> notify_result res" where
  "smtp_notify env resolver table build =
     (case creds_load table of
        Inl e \<Rightarrow> ([], Inl e)
      | Inr None \<Rightarrow> ([], nres False ''no_smtp_credentials'' False)
      | Inr (Some creds) \<Rightarrow>
          (case sv_headers env (build creds) of
             Inl e \<Rightarrow> ([], Inl e)
           | Inr _ \<Rightarrow> deliver env resolver (build creds) creds))"

definition smtp_send where
  "smtp_send env resolver sha base_url table l recipient =
     smtp_notify env resolver table (build_lot_message sha base_url l recipient)"

definition smtp_test where
  "smtp_test env resolver sha table recipient = smtp_notify env resolver table (build_test_message sha recipient)"

definition send_session_expired where
  "send_session_expired env resolver sha table recipient =
     smtp_notify env resolver table (build_session_expired_message sha recipient)"

subsection \<open>Testing a configuration\<close>

text \<open>\<^verbatim>\<open>SmtpTestService.test_send\<close> over the settings table: three writes, each at its own time.\<close>

definition test_send :: "notify_result res \<Rightarrow> time \<Rightarrow> time \<Rightarrow> kv \<Rightarrow> kv \<times> notify_result res" where
  "test_send sent now wt s =
     (case sent of
        Inl e \<Rightarrow> (s, Inl e)
      | Inr result \<Rightarrow>
          (let s1 = kv_set wt ''smtp_test_last_result_ok'' (Plain (if nres_ok result then ''true'' else ''false'')) s;
               s2 = kv_set wt ''smtp_test_last_result_at'' (Iso now) s1
           in (if nres_ok result then kv_set wt ''onboarding_test_email_ok'' (Plain ''true'') s2 else s2, Inr result)))"

subsection \<open>Properties\<close>

text \<open>Reading the actions of a delivery from the left: after the handshake, after the login.\<close>

fun proper :: "smtp_creds \<Rightarrow> mail \<Rightarrow> bool \<Rightarrow> bool \<Rightarrow> smtp_act list \<Rightarrow> bool" where
  "proper c m tls logged [] = True"
| "proper c m tls logged (a # as) =
     (case a of
        Tls_handshake h \<Rightarrow> proper c m (tls \<or> h = sc_host c) logged as
      | Login_as u p \<Rightarrow> tls \<and> u = sc_user c \<and> p = sc_password c \<and> proper c m tls True as
      | Send_mail x \<Rightarrow> logged \<and> x = m \<and> proper c m tls logged as
      | _ \<Rightarrow> proper c m tls logged as)"

lemma properD:
  "proper c m tls logged (pre @ a # post) \<Longrightarrow>
     (\<forall>u p. a = Login_as u p \<longrightarrow> u = sc_user c \<and> p = sc_password c \<and> (tls \<or> Tls_handshake (sc_host c) \<in> set pre))
     \<and> (\<forall>x. a = Send_mail x \<longrightarrow> x = m \<and> (logged \<or> Login_as (sc_user c) (sc_password c) \<in> set pre))"
proof (induction pre arbitrary: tls logged)
  case Nil
  then show ?case by (auto split: smtp_act.splits)
next
  case (Cons b pre)
  let ?tls = "tls \<or> b = Tls_handshake (sc_host c)" and ?logged = "logged \<or> b = Login_as (sc_user c) (sc_password c)"
  from Cons.prems have "proper c m ?tls ?logged (pre @ a # post)" by (cases b; cases tls; cases logged) auto
  from Cons.IH [OF this] show ?case by auto
qed

lemma proper_append:
  "\<forall>a \<in> set as. (\<forall>u p. a \<noteq> Login_as u p) \<and> (\<forall>x. a \<noteq> Send_mail x) \<Longrightarrow>
     proper c m tls logged (as @ bs) = proper c m (tls \<or> Tls_handshake (sc_host c) \<in> set as) logged bs"
proof (induction as arbitrary: tls)
  case (Cons b as)
  from Cons.prems Cons.IH [of "tls \<or> b = Tls_handshake (sc_host c)"]
  show ?case by (cases b) (auto simp: eq_commute [of "sc_host c"] disj_assoc)
qed simp

definition plain_act :: "endpoint \<Rightarrow> smtp_act \<Rightarrow> bool" where
  "plain_act ep a \<longleftrightarrow> (\<forall>u p. a \<noteq> Login_as u p) \<and> (\<forall>x. a \<noteq> Send_mail x)
     \<and> (\<forall>i p. a = Tcp_connect i p \<longrightarrow> i = ep_ip ep \<and> p = ep_port ep)"

definition connect_to :: "smtp_env \<Rightarrow> endpoint \<Rightarrow> smtp_act list \<times> (smtp_exc + unit)" where
  "connect_to env ep = (if ep_port ep = IMPLICIT_TLS_PORT then connect_implicit_tls env ep else connect_starttls env ep)"

lemma connect_to_acts:
  assumes "connect_to env ep = (acts, conn)"
  shows "\<forall>a \<in> set acts. plain_act ep a"
    and "conn = Inr () \<Longrightarrow> Tls_handshake (ep_host ep) \<in> set acts \<and> sv_handshake env = Inr ()"
  using assms
  by (auto simp: connect_to_def connect_implicit_tls_def connect_starttls_def act_def plain_act_def
      split: sum.splits if_splits)

lemma deliver_unfold:
  assumes "resolve_and_check resolver (sc_host creds) (sc_port creds) = Inr ep" "connect_to env ep = (acts, conn)"
  shows "deliver env resolver msg creds =
     (case conn of
        Inl e \<Rightarrow> (acts, result_of e)
      | Inr _ \<Rightarrow>
          (case sv_login env of
             Inl e \<Rightarrow> (acts @ Login_as (sc_user creds) (sc_password creds) # fst (hang_up env (result_of e)),
                       snd (hang_up env (result_of e)))
           | Inr _ \<Rightarrow>
               (let r = (case sv_send env of Inl e \<Rightarrow> result_of e | Inr _ \<Rightarrow> nres True ''sent'' False)
                in (acts @ Login_as (sc_user creds) (sc_password creds) # Send_mail msg # fst (hang_up env r),
                    snd (hang_up env r)))))"
  using assms by (simp add: deliver_def connect_to_def act_def Let_def case_prod_beta split: sum.splits)

lemma hang_up_acts: "a \<in> set (fst (hang_up env r)) \<Longrightarrow> a = Quit \<or> a = Close"
  by (auto simp: hang_up_def split: sum.splits smtp_exc.splits)

lemma hang_up_ok: "snd (hang_up env r) = Inr x \<Longrightarrow> r = Inr x"
  by (auto simp: hang_up_def split: sum.splits smtp_exc.splits)

lemma result_of_not_ok: "result_of e = Inr x \<Longrightarrow> \<not> nres_ok x"
  by (cases e) (auto simp: nres_def)

text \<open>
  C24. Secrets only go where they may. Whatever the server, the resolver and the library do in a
  delivery: every connection is made to the port of the credentials and to an address the policy
  pinned for their host in this very call, so to a reachable one; the password is sent only after
  a completed TLS handshake in the name of that host, and a message only after the login; a
  result says ok only when the message was sent and the send returned. The result is the same for
  every user, password and message, so its text carries none of them.
\<close>

theorem smtp_secrets_protected:
  assumes "deliver env resolver msg creds = (acts, r)"
  shows "(\<forall>a p. Tcp_connect a p \<in> set acts \<longrightarrow>
            p = sc_port creds \<and> reachable a \<and> (\<exists>ep. resolve_and_check resolver (sc_host creds) p = Inr ep \<and> ep_ip ep = a))
     \<and> (\<forall>pre a post. acts = pre @ a # post \<longrightarrow>
          (\<forall>u p. a = Login_as u p \<longrightarrow> u = sc_user creds \<and> p = sc_password creds
                   \<and> Tls_handshake (sc_host creds) \<in> set pre \<and> sv_handshake env = Inr ())
          \<and> (\<forall>m. a = Send_mail m \<longrightarrow> m = msg \<and> Login_as (sc_user creds) (sc_password creds) \<in> set pre))
     \<and> (\<forall>x. r = Inr x \<and> nres_ok x \<longrightarrow> Send_mail msg \<in> set acts \<and> sv_send env = Inr ())
     \<and> (\<forall>msg' user pass. snd (deliver env resolver msg' (creds\<lparr>sc_user := user, sc_password := pass\<rparr>)) = r)"
proof (cases "resolve_and_check resolver (sc_host creds) (sc_port creds)")
  case (Inl e)
  with assms show ?thesis by (auto simp: deliver_def)
next
  case (Inr ep)
  obtain cs conn where c: "connect_to env ep = (cs, conn)" by fastforce
  note ep = policy_endpoint [OF Inr]
  note plain = connect_to_acts [OF c]
  note unf = deliver_unfold [OF Inr c]
  have same: "snd (deliver env resolver msg' (creds\<lparr>sc_user := user, sc_password := pass\<rparr>)) = r" for msg' user pass
    using assms Inr deliver_unfold [of resolver "creds\<lparr>sc_user := user, sc_password := pass\<rparr>" ep env cs conn msg'] c unf
    by (auto simp: Let_def split: sum.splits)
  obtain rest where acts: "acts = cs @ rest" and
    rest: "rest = [] \<or> (conn = Inr () \<and> (\<exists>q. (\<forall>a \<in> set q. a = Quit \<or> a = Close)
        \<and> (rest = Login_as (sc_user creds) (sc_password creds) # q
           \<or> rest = Login_as (sc_user creds) (sc_password creds) # Send_mail msg # q)))"
    using assms unf hang_up_acts by (fastforce simp: Let_def split: sum.splits)
  have "proper creds msg (Tls_handshake (sc_host creds) \<in> set cs) False rest"
  proof -
    have q: "proper creds msg t l q" if "\<forall>a \<in> set q. a = Quit \<or> a = Close" for q t l
      using that by (induction q) auto
    from rest plain(2) ep q show ?thesis by auto
  qed
  then have "proper creds msg False False acts"
    using proper_append [of cs creds msg False False rest] plain(1) acts by (auto simp: plain_act_def)
  then have order: "(\<forall>u p. a = Login_as u p \<longrightarrow> u = sc_user creds \<and> p = sc_password creds \<and> Tls_handshake (sc_host creds) \<in> set pre)
      \<and> (\<forall>m. a = Send_mail m \<longrightarrow> m = msg \<and> Login_as (sc_user creds) (sc_password creds) \<in> set pre)"
    if "acts = pre @ a # post" for pre a post using that properD by fastforce
  have hs: "sv_handshake env = Inr ()" if "Login_as u p \<in> set acts" for u p
    using that acts rest plain by (auto simp: plain_act_def)
  have conn_to: "a = ep_ip ep \<and> p = sc_port creds" if "Tcp_connect a p \<in> set acts" for a p
    using that acts rest plain(1) ep by (auto simp: plain_act_def)
  have sent: "Send_mail msg \<in> set acts \<and> sv_send env = Inr ()" if "r = Inr x" "nres_ok x" for x
    using that assms unf result_of_not_ok hang_up_ok by (fastforce simp: Let_def split: sum.splits)
  show ?thesis using same order hs conn_to sent ep Inr by (intro conjI allI impI) (metis in_set_conv_decomp)+
qed

definition willing_server :: smtp_env where
  "willing_server = \<lparr>sv_headers = \<lambda>_. Inr (), sv_connect = Inr (), sv_ehlo = Inr (), sv_starttls = Inr 220,
     sv_handshake = Inr (), sv_banner = Inr (), sv_ehlo_tls = Inr (), sv_login = Inr (), sv_send = Inr (), sv_quit = Inr ()\<rparr>"

definition demo_creds :: smtp_creds where
  "demo_creds = \<lparr>sc_user = [97], sc_password = [98], sc_host = ''dns.google'', sc_port = 465,
     sc_use_default = True, sc_from_name = None\<rparr>"

theorem smtp_secrets_protected_witness:
  "\<exists>acts. deliver willing_server (\<lambda>_ _. Dns_records [Record AF_INET ''8.8.8.8'']) (build_test_message (\<lambda>_. []) [99] demo_creds)
       demo_creds = (acts, nres True ''sent'' False)
     \<and> acts = [Tcp_connect (V4 0x08080808) 465, Tls_handshake ''dns.google'', Read_banner, Ehlo ''dns.google'',
               Login_as [97] [98], Send_mail (build_test_message (\<lambda>_. []) [99] demo_creds), Quit]
     \<and> sv_send willing_server = Inr ()"
proof -
  let ?m = "build_test_message (\<lambda>_. []) [99] demo_creds"
  have ep: "resolve_and_check (\<lambda>_ _. Dns_records [Record AF_INET ''8.8.8.8'']) (sc_host demo_creds) (sc_port demo_creds) =
      Inr \<lparr>ep_ip = V4 0x08080808, ep_family = AF_INET, ep_port = 465, ep_host = ''dns.google''\<rparr>"
    by (simp add: demo_creds_def demo_endpoint)
  then have d: "deliver willing_server (\<lambda>_ _. Dns_records [Record AF_INET ''8.8.8.8'']) ?m demo_creds =
      ([Tcp_connect (V4 0x08080808) 465, Tls_handshake ''dns.google'', Read_banner, Ehlo ''dns.google'',
        Login_as [97] [98], Send_mail ?m, Quit], nres True ''sent'' False)"
    by (simp add: deliver_def connect_implicit_tls_def act_def willing_server_def IMPLICIT_TLS_PORT_def hang_up_def)
      (simp add: demo_creds_def)
  from smtp_secrets_protected [OF d] have "sv_send willing_server = Inr ()" by (simp add: nres_def)
  with d show ?thesis by blast
qed

end
