(* ===== verification/Config_Source.thy ===== *)
theory Config_Source
  imports Regions User_State
begin

text \<open>
  The configuration (\<^verbatim>\<open>Settings\<close> of \<^verbatim>\<open>domain/models.py\<close>) and its source
  (\<^verbatim>\<open>infra/config_source.py\<close>): start-up, the reload after a file event, saving from the web
  interface, and the region subscriptions that follow the regions. The file is its bytes, absent
  or present. Reading JSON into a validated model and writing it are pydantic's, the digest is
  SHA-256, address validation is the \<^verbatim>\<open>email-validator\<close> package: parameters. Timers and the
  observer thread are the steps of a history.
\<close>

subsection \<open>Settings\<close>

datatype theme = Theme_auto | Theme_light | Theme_dark

record config = settings +
  cf_server_mode :: bool
  cf_timezone :: string
  cf_l2_priority_days :: int
  cf_bind_host :: string
  cf_port :: int
  cf_auto_open_browser :: bool
  cf_font_size :: int
  cf_theme :: theme
  cf_use_default_smtp :: bool
  cf_smtp_host :: "string option"
  cf_smtp_port :: int
  cf_from_address :: "string option"
  cf_browser_enabled :: bool
  cf_heartbeat_enabled :: bool
  cf_heartbeat_time :: string
  cf_sound_enabled :: bool
  cf_escalate_at :: "int list"
  cf_dnd_until :: "string option"
  cf_catchup_enabled :: bool
  cf_min_offline :: int
  cf_base_url :: string
  cf_timeout :: int
  cf_user_agent :: string

definition default_config :: config where
  "default_config = \<lparr>set_interval_minutes = 1, set_regions = [1, 2], set_filters = \<lparr>rf_subjects = []\<rparr>,
     set_full_scan_time = ''04:00'', set_email_enabled = True, set_email_recipients = [],
     cf_server_mode = False, cf_timezone = ''Europe/Moscow'', cf_l2_priority_days = 7,
     cf_bind_host = ''127.0.0.1'', cf_port = 8080, cf_auto_open_browser = True, cf_font_size = 16,
     cf_theme = Theme_auto, cf_use_default_smtp = True, cf_smtp_host = None, cf_smtp_port = 587,
     cf_from_address = None, cf_browser_enabled = True, cf_heartbeat_enabled = False,
     cf_heartbeat_time = ''09:00'', cf_sound_enabled = True, cf_escalate_at = [60, 120],
     cf_dnd_until = None, cf_catchup_enabled = True, cf_min_offline = 60,
     cf_base_url = ''https://xn--80aaggvgieoeoa2bo7l.xn--p1ai'', cf_timeout = 90,
     cf_user_agent = ''fis-monitor/0.1''\<rparr>"

definition has_prefix :: "string \<Rightarrow> string \<Rightarrow> bool" where
  "has_prefix p s \<longleftrightarrow> take (length p) s = p"

text \<open>
  The validator of \<^verbatim>\<open>base_url\<close> looks for the scheme first and strips the slashes at the end
  afterwards, so a bare \<^verbatim>\<open>https://\<close> passes and is stored as \<^verbatim>\<open>https:\<close>.
  \<open>base_url_ok\<close> says what it can leave (\<open>base_url_ok_range\<close>).
\<close>

definition rstrip_slash :: "string \<Rightarrow> string" where
  "rstrip_slash s = rev (dropWhile (\<lambda>c. c = CHR ''/'') (rev s))"

definition validate_base_url :: "string \<Rightarrow> string res" where
  "validate_base_url v =
     (if \<not> (has_prefix ''http://'' v \<or> has_prefix ''https://'' v) then Inl ValueError else Inr (rstrip_slash v))"

definition base_url_ok :: "string \<Rightarrow> bool" where
  "base_url_ok s \<longleftrightarrow>
     (has_prefix ''http://'' s \<or> has_prefix ''https://'' s \<or> s = ''http:'' \<or> s = ''https:'') \<and> last s \<noteq> CHR ''/''"

lemma rstrip_slash_snoc: "rstrip_slash (s @ [c]) = (if c = CHR ''/'' then rstrip_slash s else s @ [c])"
  by (simp add: rstrip_slash_def)

lemma has_prefix_append: "has_prefix p s \<longleftrightarrow> (\<exists>t. s = p @ t)"
  unfolding has_prefix_def by (metis append_eq_conv_conj append_take_drop_id)

lemma rstrip_slash_prefix:
  assumes "last p \<noteq> CHR ''/''" "p \<noteq> []"
  shows "rstrip_slash (p @ ''//'' @ t) = p \<or> (\<exists>u. rstrip_slash (p @ ''//'' @ t) = p @ ''//'' @ u \<and> last (''//'' @ u) \<noteq> CHR ''/'')"
proof (induction t rule: rev_induct)
  case Nil
  have "rstrip_slash (butlast p @ [last p]) = butlast p @ [last p]"
    unfolding rstrip_slash_snoc using assms(1) by simp
  with rstrip_slash_snoc [of "p @ ''/''" "CHR ''/''"] rstrip_slash_snoc [of p "CHR ''/''"] assms(2)
  show ?case by simp
next
  case (snoc c t)
  with rstrip_slash_snoc [of "p @ ''//'' @ t" c] show ?case by auto
qed

lemma base_url_ok_range: "base_url_ok s \<longleftrightarrow> (\<exists>v. validate_base_url v = Inr s)"
proof
  assume ok: "base_url_ok s"
  show "\<exists>v. validate_base_url v = Inr s"
  proof (cases "s = ''http:'' \<or> s = ''https:''")
    case True
    then show ?thesis by (intro exI [of _ "s @ ''//''"]) (auto simp: validate_base_url_def has_prefix_def rstrip_slash_def)
  next
    case False
    with ok have "s \<noteq> []" by (auto simp: base_url_ok_def has_prefix_def)
    then have "rstrip_slash s = s"
      using ok rstrip_slash_snoc [of "butlast s" "last s"] by (simp add: base_url_ok_def)
    with ok False show ?thesis by (intro exI [of _ s]) (auto simp: validate_base_url_def base_url_ok_def)
  qed
next
  assume "\<exists>v. validate_base_url v = Inr s"
  then obtain v where v: "has_prefix ''http://'' v \<or> has_prefix ''https://'' v" "s = rstrip_slash v"
    by (auto simp: validate_base_url_def split: if_splits)
  from v(1) obtain p t where p: "p = ''http:'' \<or> p = ''https:''" and t: "v = p @ ''//'' @ t"
  proof (elim disjE)
    assume "has_prefix ''http://'' v"
    then obtain t where "v = ''http://'' @ t" unfolding has_prefix_append ..
    with that [of "''http:''" t] show thesis by simp
  next
    assume "has_prefix ''https://'' v"
    then obtain t where "v = ''https://'' @ t" unfolding has_prefix_append ..
    with that [of "''https:''" t] show thesis by simp
  qed
  have ends: "last p \<noteq> CHR ''/''" "p \<noteq> []" using p by auto
  have "s = p \<or> (\<exists>u. s = p @ ''//'' @ u \<and> last (''//'' @ u) \<noteq> CHR ''/'')"
    unfolding v(2) t by (rule rstrip_slash_prefix [OF ends])
  then show "base_url_ok s"
  proof (elim disjE exE conjE)
    assume "s = p"
    with p show ?thesis by (auto simp: base_url_ok_def)
  next
    fix u assume "s = p @ ''//'' @ u" "last (''//'' @ u) \<noteq> CHR ''/''"
    moreover from this have "last s \<noteq> CHR ''/''" by (metis append_is_Nil_conv last_appendR list.simps(3))
    ultimately show ?thesis using p by (auto simp: base_url_ok_def has_prefix_def)
  qed
qed

text \<open>\<open>norm_addr\<close> is the address validator: the normalised address, or \<^verbatim>\<open>None\<close>.\<close>

definition target_ok :: "config \<Rightarrow> bool" where
  "target_ok c \<longleftrightarrow> base_url_ok (cf_base_url c) \<and> 1 \<le> cf_timeout c \<and> cf_timeout c \<le> 300"

definition config_ok :: "(ustr \<Rightarrow> ustr option) \<Rightarrow> config \<Rightarrow> bool" where
  "config_ok norm_addr c \<longleftrightarrow>
     0 \<le> set_interval_minutes c \<and> set_interval_minutes c \<le> 60
     \<and> 1024 \<le> cf_port c \<and> cf_port c \<le> 65535 \<and> cf_font_size c \<in> {14, 16, 18}
     \<and> 1 \<le> cf_smtp_port c \<and> cf_smtp_port c \<le> 65535
     \<and> (\<forall>r \<in> set (set_email_recipients c). norm_addr r = Some r) \<and> target_ok c"

lemma default_config_ok: "config_ok norm_addr default_config"
  by (simp add: config_ok_def default_config_def target_ok_def base_url_ok_def has_prefix_def)

subsection \<open>The environment variables\<close>

definition env_value :: "(string \<Rightarrow> string option) \<Rightarrow> string \<Rightarrow> string option" where
  "env_value env k = (case env k of None \<Rightarrow> None | Some v \<Rightarrow> if v = [] then None else Some v)"

definition apply_env_overrides :: "(string \<Rightarrow> string option) \<Rightarrow> config \<Rightarrow> config" where
  "apply_env_overrides env s =
     (let s1 = (case env_value env ''FIS_TARGET__BASE_URL'' of None \<Rightarrow> s | Some v \<Rightarrow> s\<lparr>cf_base_url := v\<rparr>);
          s2 = (case env_value env ''FIS_TARGET__REQUEST_TIMEOUT_SECONDS'' of
                  None \<Rightarrow> s1
                | Some v \<Rightarrow> (case int_of_str v of Inl _ \<Rightarrow> s1 | Inr n \<Rightarrow> s1\<lparr>cf_timeout := n\<rparr>))
      in case env_value env ''FIS_TARGET__USER_AGENT'' of None \<Rightarrow> s2 | Some v \<Rightarrow> s2\<lparr>cf_user_agent := v\<rparr>)"

subsection \<open>Region subscriptions\<close>

definition sorted_diff :: "int list \<Rightarrow> int list \<Rightarrow> int list" where
  "sorted_diff xs ys = sort (remdups (filter (\<lambda>x. x \<notin> set ys) xs))"

definition subscribe_all :: "time \<Rightarrow> int list \<Rightarrow> subscriptions \<Rightarrow> subscriptions" where
  "subscribe_all now sids subs = fold (\<lambda>sid s. fst (set_if_absent sid now s)) sids subs"

definition apply_region_diff :: "time \<Rightarrow> int list \<Rightarrow> int list \<Rightarrow> subscriptions \<Rightarrow> subscriptions" where
  "apply_region_diff now old_regions new_regions subs =
     (let added = fold (\<lambda>macro_id. subscribe_all now (subjects_for_macros [macro_id])) (sorted_diff new_regions old_regions) subs;
          kept_subjects = subjects_for_macros new_regions
      in fold (\<lambda>macro_id. fold (\<lambda>sid s. if sid \<notin> set kept_subjects then delete_subscription sid s else s)
                             (subjects_for_macros [macro_id]))
           (sorted_diff old_regions new_regions) added)"

definition bootstrap_subscriptions :: "time \<Rightarrow> int list \<Rightarrow> subscriptions \<Rightarrow> subscriptions" where
  "bootstrap_subscriptions now regions subs =
     fold (\<lambda>macro_id. fold (\<lambda>sid s. if get_subscribed_at sid s = None then fst (set_if_absent sid now s) else s)
                        (subjects_for_macros [macro_id]))
       (sorted_diff regions []) subs"

subsection \<open>The source\<close>

record json_lib =
  js_parse :: "nat list \<Rightarrow> config res"
  js_dump :: "config \<Rightarrow> nat list"
  js_digest :: "nat list \<Rightarrow> nat list"

record cfg_st =
  cs_file :: "nat list option"
  cs_current :: config
  cs_hash :: "nat list"
  cs_timer :: bool
  cs_subscribers :: "nat list"
  cs_next_handle :: nat
  cs_reloads :: nat
  cs_errors :: nat
  cs_last_reload :: "time option"
  cs_last_error :: "time option"
  cs_subs :: subscriptions
  cs_delivered :: "(nat \<times> config) list"

definition MAX_CONFIG_SIZE :: nat where "MAX_CONFIG_SIZE = 1024 * 1024"
definition HASH_SAMPLE_SIZE :: nat where "HASH_SAMPLE_SIZE = 4 * 1024"

definition sample_digest :: "json_lib \<Rightarrow> nat list \<Rightarrow> nat list" where
  "sample_digest js raw = js_digest js (take HASH_SAMPLE_SIZE raw)"

text \<open>\<open>readable\<close> says whether reading the file at start-up succeeded.\<close>

definition cfg_init :: "json_lib \<Rightarrow> (string \<Rightarrow> string option) \<Rightarrow> time \<Rightarrow> bool \<Rightarrow> nat list option \<Rightarrow> subscriptions \<Rightarrow> cfg_st" where
  "cfg_init js env now readable content subs =
     (let loaded = (case content of
                      None \<Rightarrow> default_config
                    | Some raw \<Rightarrow> (if readable then (case js_parse js raw of Inl _ \<Rightarrow> default_config | Inr c \<Rightarrow> c)
                                  else default_config));
          cur = apply_env_overrides env loaded
      in \<lparr>cs_file = content, cs_current = cur, cs_hash = [], cs_timer = False, cs_subscribers = [], cs_next_handle = 0,
          cs_reloads = 0, cs_errors = 0, cs_last_reload = None, cs_last_error = None,
          cs_subs = bootstrap_subscriptions now (set_regions cur) subs, cs_delivered = []\<rparr>)"

definition cfg_on_event :: "cfg_st \<Rightarrow> cfg_st" where
  "cfg_on_event st = st\<lparr>cs_timer := True\<rparr>"

definition cfg_subscribe :: "cfg_st \<Rightarrow> cfg_st \<times> nat" where
  "cfg_subscribe st =
     (st\<lparr>cs_subscribers := cs_subscribers st @ [cs_next_handle st], cs_next_handle := Suc (cs_next_handle st)\<rparr>,
      cs_next_handle st)"

definition cfg_unsubscribe :: "nat \<Rightarrow> cfg_st \<Rightarrow> cfg_st" where
  "cfg_unsubscribe h st = st\<lparr>cs_subscribers := remove1 h (cs_subscribers st)\<rparr>"

definition cfg_stop :: "cfg_st \<Rightarrow> cfg_st" where
  "cfg_stop st = st\<lparr>cs_timer := False\<rparr>"

definition reload_error :: "time \<Rightarrow> cfg_st \<Rightarrow> cfg_st" where
  "reload_error now st = st\<lparr>cs_errors := Suc (cs_errors st), cs_last_error := Some now\<rparr>"

text \<open>
  The first half of a reload, up to the point where the lock is given back before parsing: \<^verbatim>\<open>None\<close>
  when it returned early, else the bytes, their digest and the settings it will compare with.
\<close>

definition reload_read ::
  "json_lib \<Rightarrow> bool \<Rightarrow> bool \<Rightarrow> time \<Rightarrow> cfg_st \<Rightarrow> cfg_st \<times> (nat list \<times> nat list \<times> config) option" where
  "reload_read js stat_ok read_ok now st0 =
     (let st = st0\<lparr>cs_timer := False\<rparr>
      in case (if stat_ok then cs_file st else None) of
           None \<Rightarrow> (reload_error now st, None)
         | Some raw \<Rightarrow>
             (if MAX_CONFIG_SIZE < length raw then (reload_error now st, None)
              else if \<not> read_ok then (reload_error now st, None)
              else let digest = sample_digest js raw
                   in if digest = cs_hash st then (st, None)
                      else (st, Some (raw, digest, cs_current st))))"

text \<open>The second half. A callback that raises does not stop the others.\<close>

definition reload_swap ::
  "json_lib \<Rightarrow> (string \<Rightarrow> string option) \<Rightarrow> time \<Rightarrow> time \<Rightarrow> nat list \<times> nat list \<times> config \<Rightarrow> cfg_st \<Rightarrow> cfg_st" where
  "reload_swap js env now now' job st =
     (let (raw, digest, old_current) = job
      in case js_parse js raw of
           Inl _ \<Rightarrow> reload_error now (st\<lparr>cs_hash := digest\<rparr>)
         | Inr parsed \<Rightarrow>
             (let new_settings = apply_env_overrides env parsed;
                  st1 = st\<lparr>cs_hash := digest, cs_current := new_settings, cs_reloads := Suc (cs_reloads st),
                           cs_last_reload := Some now\<rparr>
              in if new_settings = old_current then st1
                 else st1\<lparr>cs_subs := apply_region_diff now' (set_regions old_current) (set_regions new_settings) (cs_subs st1),
                          cs_delivered := cs_delivered st1 @ map (\<lambda>h. (h, new_settings)) (cs_subscribers st1)\<rparr>))"

record reload_env =
  re_stat_ok :: bool
  re_read_ok :: bool
  re_now :: time
  re_now' :: time

definition do_reload :: "json_lib \<Rightarrow> (string \<Rightarrow> string option) \<Rightarrow> reload_env \<Rightarrow> cfg_st \<Rightarrow> cfg_st" where
  "do_reload js env r st =
     (case reload_read js (re_stat_ok r) (re_read_ok r) (re_now r) st of
        (st', None) \<Rightarrow> st'
      | (st', Some job) \<Rightarrow> reload_swap js env (re_now r) (re_now' r) job st')"

text \<open>\<open>written\<close> is what writing the temporary file and replacing the target raise.\<close>

definition cfg_save :: "json_lib \<Rightarrow> time \<Rightarrow> unit res \<Rightarrow> config \<Rightarrow> cfg_st \<Rightarrow> cfg_st \<times> unit res" where
  "cfg_save js now written new st =
     (let raw = js_dump js new
      in case written of
           Inl e \<Rightarrow> (st, Inl e)
         | Inr _ \<Rightarrow>
             (st\<lparr>cs_file := Some raw, cs_current := new, cs_hash := sample_digest js raw,
                 cs_subs := apply_region_diff now (set_regions (cs_current st)) (set_regions new) (cs_subs st)\<rparr>, Inr ()))"

subsection \<open>What a change of regions does to the subscriptions\<close>

definition covered :: "int list \<Rightarrow> int set" where
  "covered macros = set (subjects_for_macros macros)"

lemma covered_iff: "sid \<in> covered macros \<longleftrightarrow> (\<exists>m \<in> set macros. sid \<in> covered [m])"
proof -
  have "sid \<in> covered ms \<longleftrightarrow> (\<exists>m \<in> set ms. \<exists>sids. map_of SUBJECTS_BY_MACRO m = Some sids \<and> sid \<in> set sids)" for ms
    unfolding covered_def subjects_for_macros_def add_macros_set by simp
  then show ?thesis by simp
qed

lemma set_sorted_diff [simp]: "set (sorted_diff xs ys) = set xs - set ys"
  by (auto simp: sorted_diff_def)

lemma get_subscribe_all:
  "get_subscribed_at g (subscribe_all now sids subs) =
     (if g \<in> set sids \<and> get_subscribed_at g subs = None then Some now else get_subscribed_at g subs)"
  by (induction sids arbitrary: subs) (auto simp: subscribe_all_def)

lemma get_subscribe_macros:
  "get_subscribed_at g (fold (\<lambda>m. subscribe_all now (subjects_for_macros [m])) ms subs) =
     (if g \<in> covered ms \<and> get_subscribed_at g subs = None then Some now else get_subscribed_at g subs)"
proof (induction ms arbitrary: subs)
  case Nil
  then show ?case by (simp add: covered_def subjects_for_macros_def)
next
  case (Cons m ms)
  have "g \<in> covered (m # ms) \<longleftrightarrow> g \<in> covered [m] \<or> g \<in> covered ms"
    using covered_iff [of g "m # ms"] covered_iff [of g ms] by auto
  with Cons show ?case by (auto simp: get_subscribe_all covered_def)
qed

lemma get_drop_subjects:
  "get_subscribed_at g (fold (\<lambda>sid s. if sid \<notin> kept then delete_subscription sid s else s) sids subs) =
     (if g \<in> set sids \<and> g \<notin> kept then None else get_subscribed_at g subs)"
  by (induction sids arbitrary: subs) auto

lemma get_drop_macros:
  "get_subscribed_at g (fold (\<lambda>m. fold (\<lambda>sid s. if sid \<notin> kept then delete_subscription sid s else s)
      (subjects_for_macros [m])) ms subs) =
     (if g \<in> covered ms \<and> g \<notin> kept then None else get_subscribed_at g subs)"
proof (induction ms arbitrary: subs)
  case Nil
  then show ?case by (simp add: covered_def subjects_for_macros_def)
next
  case (Cons m ms)
  have "g \<in> covered (m # ms) \<longleftrightarrow> g \<in> covered [m] \<or> g \<in> covered ms"
    using covered_iff [of g "m # ms"] covered_iff [of g ms] by auto
  with Cons show ?case by (auto simp: get_drop_subjects covered_def)
qed

lemma covered_diff: "g \<in> covered xs \<Longrightarrow> g \<in> covered (sorted_diff xs ys) \<or> g \<in> covered ys"
  using covered_iff [of g xs] covered_iff [of g ys] covered_iff [of g "sorted_diff xs ys"] by auto

lemma covered_diff_sub: "g \<in> covered (sorted_diff xs ys) \<Longrightarrow> g \<in> covered xs"
  using covered_iff [of g xs] covered_iff [of g "sorted_diff xs ys"] by auto

lemma get_region_diff:
  assumes "\<forall>g \<in> covered old. get_subscribed_at g subs \<noteq> None"
  shows "get_subscribed_at g (apply_region_diff now old new subs) =
     (if g \<in> covered new then (case get_subscribed_at g subs of None \<Rightarrow> Some now | Some t \<Rightarrow> Some t)
      else if g \<in> covered old then None else get_subscribed_at g subs)"
proof -
  have keep: "g \<in> covered (sorted_diff old new) \<longleftrightarrow> g \<in> covered old" if "g \<notin> covered new"
    using that covered_diff covered_diff_sub by blast
  have add: "g \<in> covered (sorted_diff new old)" if "g \<in> covered new" "get_subscribed_at g subs = None"
    using that assms covered_diff by blast
  show ?thesis
    using keep add covered_diff_sub [of g new old]
    by (auto simp: apply_region_diff_def Let_def get_drop_macros get_subscribe_macros
        covered_def [of new, symmetric] split: option.splits)
qed

lemma get_bootstrap:
  "get_subscribed_at g (bootstrap_subscriptions now regions subs) =
     (if g \<in> covered regions \<and> get_subscribed_at g subs = None then Some now else get_subscribed_at g subs)"
proof -
  have "(\<lambda>sid s. if get_subscribed_at sid s = None then fst (set_if_absent sid now s) else s)
      = (\<lambda>sid s. fst (set_if_absent sid now s))"
    by (intro ext) (auto simp: set_if_absent_def get_subscribed_at_def map_of_eq_None_iff)
  then have "bootstrap_subscriptions now regions subs =
      fold (\<lambda>m. subscribe_all now (subjects_for_macros [m])) (sorted_diff regions []) subs"
    unfolding bootstrap_subscriptions_def subscribe_all_def by simp
  moreover have "g \<in> covered (sorted_diff regions []) \<longleftrightarrow> g \<in> covered regions"
    using covered_iff [of g regions] covered_iff [of g "sorted_diff regions []"] by auto
  ultimately show ?thesis by (simp add: get_subscribe_macros)
qed

subsection \<open>Histories\<close>

datatype cfg_op =
    Edit "nat list option"
  | File_event
  | Timer_fires reload_env
  | Save_config time "unit res" config
  | Add_subscriber
  | Drop_subscriber nat
  | Restart "string \<Rightarrow> string option" time bool

text \<open>The variables of the running process, and its source.\<close>

type_synonym cfg_world = "(string \<Rightarrow> string option) \<times> cfg_st"

fun cfg_step :: "json_lib \<Rightarrow> cfg_op \<Rightarrow> cfg_world \<Rightarrow> cfg_world" where
  "cfg_step js (Edit content) (env, st) = (env, st\<lparr>cs_file := content\<rparr>)"
| "cfg_step js File_event (env, st) = (env, cfg_on_event st)"
| "cfg_step js (Timer_fires r) (env, st) = (env, if cs_timer st then do_reload js env r st else st)"
| "cfg_step js (Save_config now written new) (env, st) = (env, fst (cfg_save js now written new st))"
| "cfg_step js Add_subscriber (env, st) = (env, fst (cfg_subscribe st))"
| "cfg_step js (Drop_subscriber h) (env, st) = (env, cfg_unsubscribe h st)"
| "cfg_step js (Restart env' now readable) (env, st) = (env', cfg_init js env' now readable (cs_file st) (cs_subs st))"

definition cfg_run :: "json_lib \<Rightarrow> cfg_op list \<Rightarrow> cfg_world \<Rightarrow> cfg_world" where
  "cfg_run js ops w = fold (cfg_step js) ops w"

abbreviation regions_of :: "cfg_world \<Rightarrow> int list" where "regions_of w \<equiv> set_regions (cs_current (snd w))"
abbreviation subscribed_at :: "cfg_world \<Rightarrow> int \<Rightarrow> time option" where
  "subscribed_at w g \<equiv> get_subscribed_at g (cs_subs (snd w))"

definition all_subscribed :: "cfg_world \<Rightarrow> bool" where
  "all_subscribed w \<longleftrightarrow> (\<forall>g \<in> covered (regions_of w). subscribed_at w g \<noteq> None)"

text \<open>What one step does to the dates: kept while covered, given when newly covered.\<close>

definition follows :: "bool \<Rightarrow> cfg_world \<Rightarrow> cfg_world \<Rightarrow> bool" where
  "follows removing w w' \<longleftrightarrow>
     (\<forall>g. if g \<in> covered (regions_of w')
          then subscribed_at w' g \<noteq> None \<and> (\<forall>t. subscribed_at w g = Some t \<longrightarrow> subscribed_at w' g = Some t)
          else subscribed_at w' g = (if removing \<and> g \<in> covered (regions_of w) then None else subscribed_at w g))"

lemma follows_refl: "all_subscribed w \<Longrightarrow> cs_current (snd w') = cs_current (snd w) \<Longrightarrow> cs_subs (snd w') = cs_subs (snd w)
    \<Longrightarrow> follows removing w w'"
  by (auto simp: follows_def all_subscribed_def)

lemma follows_diff:
  assumes "all_subscribed w" "cs_subs (snd w') = apply_region_diff now (regions_of w) (regions_of w') (cs_subs (snd w))"
  shows "follows True w w'"
proof -
  have inv: "\<forall>g \<in> covered (regions_of w). get_subscribed_at g (cs_subs (snd w)) \<noteq> None"
    using assms(1) by (simp add: all_subscribed_def)
  show ?thesis
    unfolding follows_def assms(2) get_region_diff [OF inv] by (auto split: option.splits)
qed

lemma reload_follows:
  assumes "all_subscribed (env, st)"
  shows "follows True (env, st) (env, do_reload js env r st)"
proof (cases "reload_read js (re_stat_ok r) (re_read_ok r) (re_now r) st")
  case (Pair st' job)
  have same: "cs_current st' = cs_current st" "cs_subs st' = cs_subs st"
    using Pair by (auto simp: reload_read_def reload_error_def Let_def split: option.splits if_splits)
  have old: "snd (snd j) = cs_current st" if "job = Some j" for j
    using Pair that by (auto simp: reload_read_def Let_def split: option.splits if_splits)
  show ?thesis
  proof (cases job)
    case None
    with Pair same show ?thesis by (intro follows_refl [OF assms]) (simp_all add: do_reload_def)
  next
    case (Some j)
    obtain raw digest where j: "j = (raw, digest, cs_current st)" using old [OF Some] by (cases j) auto
    let ?st2 = "do_reload js env r st"
    have eq: "?st2 = reload_swap js env (re_now r) (re_now' r) j st'" using Pair Some by (simp add: do_reload_def)
    consider "cs_current ?st2 = cs_current st" "cs_subs ?st2 = cs_subs st"
      | "cs_subs ?st2 = apply_region_diff (re_now' r) (set_regions (cs_current st)) (set_regions (cs_current ?st2)) (cs_subs st)"
      unfolding eq j using same by (fastforce simp: reload_swap_def reload_error_def Let_def split: sum.splits if_splits)
    then show ?thesis
    proof cases
      case 1
      then show ?thesis by (intro follows_refl [OF assms]) simp_all
    next
      case 2
      then show ?thesis by (intro follows_diff [OF assms, of _ "re_now' r"]) simp
    qed
  qed
qed

lemma step_follows:
  assumes "all_subscribed w"
  shows "follows (\<forall>env' now readable. op \<noteq> Restart env' now readable) w (cfg_step js op w)"
proof (cases op)
  case (Timer_fires r)
  with assms show ?thesis
    using reload_follows [of "fst w" "snd w" js r] follows_refl [of w w True] by (cases w) (auto split: if_splits)
next
  case (Save_config now written new)
  with assms show ?thesis
  proof (cases written)
    case (Inr x)
    have "follows True w (cfg_step js op w)"
      by (rule follows_diff [OF assms, of _ now]) (use Inr Save_config in \<open>cases w; simp add: cfg_save_def Let_def\<close>)
    with Save_config show ?thesis by simp
  next
    case (Inl e)
    with Save_config have "cfg_step js op w = w" by (cases w) (simp add: cfg_save_def Let_def)
    with Save_config follows_refl [OF assms] show ?thesis by simp
  qed
next
  case (Restart env' now readable)
  then show ?thesis by (cases w) (auto simp: follows_def cfg_init_def Let_def get_bootstrap)
next
  case (Edit content)
  with follows_refl [OF assms, of "cfg_step js op w" True] show ?thesis by (cases w) simp
next
  case File_event
  with follows_refl [OF assms, of "cfg_step js op w" True] show ?thesis by (cases w) (simp add: cfg_on_event_def)
next
  case Add_subscriber
  with follows_refl [OF assms, of "cfg_step js op w" True] show ?thesis by (cases w) (simp add: cfg_subscribe_def)
next
  case (Drop_subscriber h)
  with follows_refl [OF assms, of "cfg_step js op w" True] show ?thesis by (cases w) (simp add: cfg_unsubscribe_def)
qed

lemma follows_all: "follows removing w w' \<Longrightarrow> all_subscribed w'"
  by (auto simp: follows_def all_subscribed_def split: if_splits)

lemma init_all: "all_subscribed (env, cfg_init js env now readable content subs)"
  by (auto simp: all_subscribed_def cfg_init_def Let_def get_bootstrap)

lemma run_all: "all_subscribed w \<Longrightarrow> all_subscribed (cfg_run js ops w)"
proof (induction ops arbitrary: w)
  case (Cons op ops)
  from Cons.IH [OF follows_all [OF step_follows [OF Cons.prems]]] show ?case by (simp add: cfg_run_def)
qed (simp add: cfg_run_def)

subsection \<open>Properties\<close>

text \<open>
  C25. Subscriptions follow the regions. After any start and any history of edits of the file,
  file events, reloads that fail or not, saves that fail or not and restarts: every subject of a
  region in force has a subscription; a step never changes the date of one that stays covered;
  a subject no longer covered loses its row, unless the change happened over a restart, which
  only adds; every other row is left alone.
\<close>

theorem subscriptions_follow_config:
  assumes "w = cfg_run js ops (env, cfg_init js env now readable content subs)" "w' = cfg_step js op w"
  shows "(\<forall>g \<in> covered (regions_of w). subscribed_at w g \<noteq> None)
     \<and> (\<forall>g. if g \<in> covered (regions_of w')
            then subscribed_at w' g \<noteq> None \<and> (\<forall>t. subscribed_at w g = Some t \<longrightarrow> subscribed_at w' g = Some t)
            else subscribed_at w' g =
              (if (\<forall>env' now readable. op \<noteq> Restart env' now readable) \<and> g \<in> covered (regions_of w)
               then None else subscribed_at w g))"
proof -
  have all: "all_subscribed w" unfolding assms(1) by (rule run_all [OF init_all])
  from step_follows [OF all] have "follows (\<forall>env' now readable. op \<noteq> Restart env' now readable) w w'"
    unfolding assms(2) .
  with all show ?thesis unfolding follows_def all_subscribed_def by blast
qed

definition demo_json :: json_lib where
  "demo_json = \<lparr>js_parse = \<lambda>raw. if raw = [2] then Inr (default_config\<lparr>set_regions := [2]\<rparr>)
      else if raw = [9] then Inr (default_config\<lparr>set_interval_minutes := 9\<rparr>) else Inl ValidationError,
     js_dump = \<lambda>c. map nat (set_regions c), js_digest = \<lambda>raw. raw\<rparr>"

theorem subscriptions_follow_config_witness:
  "let w = cfg_run demo_json [Edit (Some [2])] (\<lambda>_. None, cfg_init demo_json (\<lambda>_. None) 7 True None []);
       w' = cfg_step demo_json (Restart (\<lambda>_. None) 9 True) w
   in 72 \<in> covered (regions_of w) \<and> subscribed_at w 72 \<noteq> None \<and> regions_of w' = [2] \<and> subscribed_at w' 72 = subscribed_at w 72"
proof -
  let ?w = "cfg_run demo_json [Edit (Some [2])] (\<lambda>_. None, cfg_init demo_json (\<lambda>_. None) 7 True None [])"
  let ?w' = "cfg_step demo_json (Restart (\<lambda>_. None) 9 True) ?w"
  have r: "regions_of ?w = [1, 2]" "regions_of ?w' = [2]"
    by (simp_all add: cfg_run_def cfg_init_def Let_def default_config_def apply_env_overrides_def env_value_def demo_json_def)
  have "72 \<in> covered [1, 2]" "72 \<notin> covered [2]"
    by (simp_all add: covered_def subjects_for_macros_def SUBJECTS_BY_MACRO_def)
  moreover note subscriptions_follow_config [OF refl refl, where op = "Restart (\<lambda>_. None) 9 True" and js = demo_json
    and ops = "[Edit (Some [2])]" and env = "\<lambda>_. None" and now = 7 and readable = True and content = None and subs = "[]"]
  ultimately have "subscribed_at ?w 72 \<noteq> None" "subscribed_at ?w' 72 = subscribed_at ?w 72"
    unfolding r by (metis (no_types, lifting))+
  with r \<open>72 \<in> covered [1, 2]\<close> show ?thesis unfolding Let_def by simp
qed

lemma env_none: "apply_env_overrides (\<lambda>_. None) c = c"
  by (simp add: apply_env_overrides_def env_value_def)

text \<open>
  C26. A saved configuration stays. Once a valid configuration is saved, it is in force and the
  program's own file events and reloads, whatever fails in them, leave it in force, notify nobody
  and change no subscription; a restart without overriding variables loads the same one from the
  file.
\<close>

theorem saved_config_survives:
  assumes "cfg_save js now (Inr ()) new st = (st', Inr ())" "js_parse js (js_dump js new) = Inr new"
  shows "cs_current (snd (cfg_run js (concat (map (\<lambda>r. [File_event, Timer_fires r]) rs)) (env, st'))) = new
     \<and> cs_delivered (snd (cfg_run js (concat (map (\<lambda>r. [File_event, Timer_fires r]) rs)) (env, st'))) = cs_delivered st
     \<and> cs_subs (snd (cfg_run js (concat (map (\<lambda>r. [File_event, Timer_fires r]) rs)) (env, st'))) = cs_subs st'
     \<and> cs_current (snd (cfg_step js (Restart (\<lambda>_. None) t True)
          (cfg_run js (concat (map (\<lambda>r. [File_event, Timer_fires r]) rs)) (env, st')))) = new"
proof -
  define good where "good s \<longleftrightarrow> cs_file s = Some (js_dump js new) \<and> cs_hash s = sample_digest js (js_dump js new)
      \<and> cs_current s = new \<and> cs_delivered s = cs_delivered st \<and> cs_subs s = cs_subs st'" for s :: cfg_st
  have start: "good st'" using assms(1) by (auto simp: good_def cfg_save_def Let_def)
  have step: "\<exists>s'. cfg_step js (Timer_fires r) (cfg_step js File_event (env, s)) = (env, s') \<and> good s'" if "good s" for s r
    using that by (auto simp: good_def do_reload_def reload_read_def reload_error_def cfg_on_event_def Let_def split: option.splits)
  have run: "\<exists>s'. cfg_run js (concat (map (\<lambda>r. [File_event, Timer_fires r]) rs)) (env, st') = (env, s') \<and> good s'"
    using start
  proof (induction rs arbitrary: st')
    case Nil
    then show ?case by (simp add: cfg_run_def)
  next
    case (Cons r rs)
    from step [OF Cons.prems] obtain s' where "cfg_step js (Timer_fires r) (cfg_step js File_event (env, st')) = (env, s')" "good s'"
      by blast
    with Cons.IH [of s'] show ?case by (simp add: cfg_run_def)
  qed
  then obtain s where "cfg_run js (concat (map (\<lambda>r. [File_event, Timer_fires r]) rs)) (env, st') = (env, s)" "good s" by blast
  then show ?thesis using assms(2) by (auto simp: good_def cfg_init_def Let_def env_none)
qed

theorem saved_config_survives_witness:
  "\<exists>st'. cfg_save demo_json 3 (Inr ()) (default_config\<lparr>set_regions := [2]\<rparr>)
       (cfg_init demo_json (\<lambda>_. None) 1 True None []) = (st', Inr ())
     \<and> cs_current (snd (cfg_run demo_json [File_event, Timer_fires \<lparr>re_stat_ok = True, re_read_ok = False, re_now = 5, re_now' = 6\<rparr>]
          (\<lambda>_. None, st'))) = default_config\<lparr>set_regions := [2]\<rparr>"
proof -
  let ?new = "default_config\<lparr>set_regions := [2]\<rparr>"
  obtain st' where save: "cfg_save demo_json 3 (Inr ()) ?new (cfg_init demo_json (\<lambda>_. None) 1 True None []) = (st', Inr ())"
    by (simp add: cfg_save_def Let_def)
  have "js_parse demo_json (js_dump demo_json ?new) = Inr ?new" by (simp add: demo_json_def)
  from saved_config_survives [OF save this, of "[\<lparr>re_stat_ok = True, re_read_ok = False, re_now = 5, re_now' = 6\<rparr>]" "\<lambda>_. None"]
  have "cs_current (snd (cfg_run demo_json [File_event, Timer_fires \<lparr>re_stat_ok = True, re_read_ok = False, re_now = 5, re_now' = 6\<rparr>]
          (\<lambda>_. None, st'))) = ?new" by simp
  with save show ?thesis by blast
qed

text \<open>
  An edit far down is not seen. When the file changes only after its first 4096 bytes, no
  number of file events and reloads puts the new content in force, notifies anybody or counts as
  a reload, however different the settings it holds; the next restart loads it.
\<close>

theorem late_edits_ignored:
  assumes "cs_hash st = sample_digest js raw" "take HASH_SAMPLE_SIZE edited = take HASH_SAMPLE_SIZE raw"
    and "js_parse js edited = Inr c"
    and "w = cfg_run js (concat (map (\<lambda>r. [File_event, Timer_fires r]) rs)) (cfg_step js (Edit (Some edited)) (env, st))"
  shows "cs_current (snd w) = cs_current st \<and> cs_reloads (snd w) = cs_reloads st \<and> cs_delivered (snd w) = cs_delivered st
     \<and> cs_current (snd (cfg_step js (Restart env' t True) w)) = apply_env_overrides env' c"
proof -
  define good where "good s \<longleftrightarrow> cs_file s = Some edited \<and> cs_hash s = cs_hash st \<and> cs_current s = cs_current st
      \<and> cs_reloads s = cs_reloads st \<and> cs_delivered s = cs_delivered st" for s :: cfg_st
  have dig: "sample_digest js edited = cs_hash st" using assms(1,2) by (simp add: sample_digest_def)
  have step: "\<exists>s'. cfg_step js (Timer_fires r) (cfg_step js File_event (env, s)) = (env, s') \<and> good s'" if "good s" for s r
    using that dig
    by (auto simp: good_def do_reload_def reload_read_def reload_error_def cfg_on_event_def Let_def split: option.splits)
  have "\<exists>s'. cfg_run js (concat (map (\<lambda>r. [File_event, Timer_fires r]) rs)) (env, s) = (env, s') \<and> good s'" if "good s" for s
    using that
  proof (induction rs arbitrary: s)
    case Nil
    then show ?case by (simp add: cfg_run_def)
  next
    case (Cons r rs)
    from step [OF Cons.prems] obtain s' where "cfg_step js (Timer_fires r) (cfg_step js File_event (env, s)) = (env, s')" "good s'"
      by blast
    with Cons.IH [of s'] show ?case by (simp add: cfg_run_def)
  qed
  from this [of "st\<lparr>cs_file := Some edited\<rparr>"] obtain s where "w = (env, s)" "good s"
    unfolding assms(4) by (auto simp: good_def)
  with assms(3) show ?thesis by (auto simp: good_def cfg_init_def Let_def)
qed

definition long_file :: "nat \<Rightarrow> nat list" where "long_file n = replicate HASH_SAMPLE_SIZE 32 @ [n]"

definition long_json :: json_lib where
  "long_json = \<lparr>js_parse = \<lambda>raw. Inr (default_config\<lparr>set_interval_minutes := int (last raw)\<rparr>),
     js_dump = \<lambda>_. [], js_digest = \<lambda>raw. raw\<rparr>"

theorem late_edits_ignored_witness:
  "\<exists>st. cs_current st = default_config\<lparr>set_interval_minutes := 5\<rparr> \<and> cs_file st = Some (long_file 5)
     \<and> cs_current (snd (cfg_run long_json [File_event, Timer_fires \<lparr>re_stat_ok = True, re_read_ok = True, re_now = 5, re_now' = 6\<rparr>]
          (\<lambda>_. None, st\<lparr>cs_file := Some (long_file 9)\<rparr>))) = default_config\<lparr>set_interval_minutes := 5\<rparr>"
proof -
  let ?init = "cfg_init long_json (\<lambda>_. None) 1 True (Some (long_file 5)) []"
  let ?st = "?init\<lparr>cs_hash := sample_digest long_json (long_file 5)\<rparr>"
  have cur: "cs_current ?st = default_config\<lparr>set_interval_minutes := 5\<rparr>" "cs_file ?st = Some (long_file 5)"
    by (simp_all add: cfg_init_def Let_def long_json_def long_file_def env_none)
  have "take HASH_SAMPLE_SIZE (long_file 9) = take HASH_SAMPLE_SIZE (long_file 5)" by (simp add: long_file_def)
  moreover have "js_parse long_json (long_file 9) = Inr (default_config\<lparr>set_interval_minutes := 9\<rparr>)"
    by (simp add: long_json_def long_file_def)
  moreover have "cs_hash ?st = sample_digest long_json (long_file 5)" by simp
  ultimately have "cs_current (snd (cfg_run long_json (concat (map (\<lambda>r. [File_event, Timer_fires r])
      [\<lparr>re_stat_ok = True, re_read_ok = True, re_now = 5, re_now' = 6\<rparr>]))
      (cfg_step long_json (Edit (Some (long_file 9))) (\<lambda>_. None, ?st)))) = cs_current ?st"
    using late_edits_ignored [OF _ _ _ refl] by blast
  with cur show ?thesis by (intro exI [of _ ?st]) simp
qed

text \<open>
  C36. An override can cost the configuration. When the variable
  \<^verbatim>\<open>FIS_TARGET__REQUEST_TIMEOUT_SECONDS\<close> holds an integer outside 1 to 300, it is put in force
  unchecked; the next save from the program, of whatever change, writes it into the file, and from
  then on every start finds the file invalid and runs with the defaults: regions, recipients and
  all other settings of the user are gone.
\<close>

theorem env_override_costs_config:
  assumes "env ''FIS_TARGET__REQUEST_TIMEOUT_SECONDS'' = Some txt" "txt \<noteq> []" "int_of_str txt = Inr n" "\<not> (1 \<le> n \<and> n \<le> 300)"
    and "js_parse js raw = Inr c" "config_ok norm_addr c"
    and "cf_timeout new = cf_timeout (cs_current st)" "st = cfg_init js env now True (Some raw) subs"
    and "cfg_save js t written new st = (st', Inr ())"
    and "\<not> config_ok norm_addr new \<Longrightarrow> js_parse js (js_dump js new) = Inl ValidationError"
  shows "cf_timeout (cs_current st) = n
     \<and> cs_current (snd (cfg_step js (Restart env' t' True) (env, st'))) = apply_env_overrides env' default_config"
proof -
  have n: "cf_timeout (cs_current st) = n"
    using assms(1-3,5) unfolding assms(8)
    by (auto simp: cfg_init_def Let_def apply_env_overrides_def env_value_def split: option.splits)
  with assms(4,7) have "\<not> config_ok norm_addr new" by (auto simp: config_ok_def target_ok_def)
  with assms(10) have "js_parse js (js_dump js new) = Inl ValidationError" by blast
  moreover have "cs_file st' = Some (js_dump js new)" using assms(9) by (auto simp: cfg_save_def Let_def split: sum.splits)
  ultimately show ?thesis using n by (simp add: cfg_init_def Let_def)
qed

definition zero_timeout :: "string \<Rightarrow> string option" where
  "zero_timeout k = (if k = ''FIS_TARGET__REQUEST_TIMEOUT_SECONDS'' then Some ''0'' else None)"

theorem env_override_costs_config_witness:
  "let st = cfg_init demo_json zero_timeout 1 True (Some [9]) [];
       st' = fst (cfg_save demo_json 2 (Inr ()) ((cs_current st)\<lparr>set_regions := [1]\<rparr>) st)
   in set_interval_minutes (cs_current st) = 9
      \<and> cs_current (snd (cfg_step demo_json (Restart (\<lambda>_. None) 3 True) (zero_timeout, st'))) = default_config"
proof -
  let ?st = "cfg_init demo_json zero_timeout 1 True (Some [9]) []"
  let ?new = "(cs_current ?st)\<lparr>set_regions := [1]\<rparr>"
  obtain st' where save: "cfg_save demo_json 2 (Inr ()) ?new ?st = (st', Inr ())" by (simp add: cfg_save_def Let_def)
  have tv: "zero_timeout ''FIS_TARGET__REQUEST_TIMEOUT_SECONDS'' = Some ''0''" "int_of_str ''0'' = Inr 0"
    by (simp_all add: zero_timeout_def int_of_str_def int_strip_def int_space_def Let_def is_digit_def digit_val_def)
  have p: "js_parse demo_json [9] = Inr (default_config\<lparr>set_interval_minutes := 9\<rparr>)"
    "js_parse demo_json (js_dump demo_json ?new) = Inl ValidationError" by (simp_all add: demo_json_def)
  have ok: "config_ok Some (default_config\<lparr>set_interval_minutes := 9\<rparr>)"
    using default_config_ok [of Some] by (simp add: config_ok_def target_ok_def)
  have t: "cf_timeout ?new = cf_timeout (cs_current ?st)" by simp
  from env_override_costs_config [OF tv(1) _ tv(2) _ p(1) ok t refl save p(2), of "\<lambda>_. None" 3]
  have "cs_current (snd (cfg_step demo_json (Restart (\<lambda>_. None) 3 True) (zero_timeout, st'))) = default_config"
    by (simp add: env_none)
  moreover have "set_interval_minutes (cs_current ?st) = 9"
    by (simp add: cfg_init_def Let_def p(1) apply_env_overrides_def split: option.splits sum.splits)
  ultimately show ?thesis using save by (simp add: Let_def)
qed

end
