(* ===== verification/Settings_Routes.thy ===== *)
theory Settings_Routes
  imports Config_Source Smtp_Mail Full_Scan
begin

text \<open>
  The requests that change settings (\<^verbatim>\<open>web/routes/settings.py\<close>), over the configuration
  source, the key-value table and the credential row, with the catalogue of mail providers
  (\<^verbatim>\<open>infra/smtp/provider_catalog.py\<close>) and the header of the page (\<^verbatim>\<open>web/monitor_vm.py\<close>). A
  reply carries what the response shows: the status, or the settings and the message put into
  the template. Texts of a form are Latin-1; an address is any text.
\<close>

subsection \<open>Providers\<close>

record suggestion =
  sg_host :: string
  sg_port :: int
  sg_use_starttls :: bool
  sg_app_password_url :: "string option"
  sg_label :: string

definition yandex_suggestion :: suggestion where
  "yandex_suggestion = \<lparr>sg_host = ''smtp.yandex.ru'', sg_port = 465, sg_use_starttls = False,
     sg_app_password_url = Some ''https://yandex.ru/support/mail/mail-clients/others.html'', sg_label = ''Yandex''\<rparr>"

definition mailru_suggestion :: suggestion where
  "mailru_suggestion = \<lparr>sg_host = ''smtp.mail.ru'', sg_port = 465, sg_use_starttls = False,
     sg_app_password_url = Some ''https://help.mail.ru/mail/security/protection/external'', sg_label = ''Mail.ru''\<rparr>"

definition rambler_suggestion :: suggestion where
  "rambler_suggestion = \<lparr>sg_host = ''smtp.rambler.ru'', sg_port = 465, sg_use_starttls = False,
     sg_app_password_url = None, sg_label = ''Rambler''\<rparr>"

definition gmail_suggestion :: suggestion where
  "gmail_suggestion = \<lparr>sg_host = ''smtp.gmail.com'', sg_port = 587, sg_use_starttls = True,
     sg_app_password_url = Some ''https://support.google.com/accounts/answer/185833'', sg_label = ''Gmail''\<rparr>"

definition outlook_suggestion :: suggestion where
  "outlook_suggestion = \<lparr>sg_host = ''smtp.office365.com'', sg_port = 587, sg_use_starttls = True,
     sg_app_password_url = Some (''https://support.microsoft.com/account-billing/manage-app-passwords-for-''
       @ ''two-step-verification-d6dc8c6d-4bf7-4851-ad95-6d07799387e9''), sg_label = ''Outlook''\<rparr>"

definition icloud_suggestion :: suggestion where
  "icloud_suggestion = \<lparr>sg_host = ''smtp.mail.me.com'', sg_port = 587, sg_use_starttls = True,
     sg_app_password_url = Some ''https://support.apple.com/HT204397'', sg_label = ''iCloud''\<rparr>"

definition yahoo_suggestion :: suggestion where
  "yahoo_suggestion = \<lparr>sg_host = ''smtp.mail.yahoo.com'', sg_port = 465, sg_use_starttls = False,
     sg_app_password_url = Some ''https://help.yahoo.com/kb/SLN15241.html'', sg_label = ''Yahoo''\<rparr>"

definition PROVIDER_CATALOG :: "(string \<times> suggestion) list" where
  "PROVIDER_CATALOG =
     [(''yandex.ru'', yandex_suggestion), (''yandex.com'', yandex_suggestion), (''ya.ru'', yandex_suggestion),
      (''mail.ru'', mailru_suggestion), (''list.ru'', mailru_suggestion), (''inbox.ru'', mailru_suggestion),
      (''bk.ru'', mailru_suggestion), (''rambler.ru'', rambler_suggestion), (''lenta.ru'', rambler_suggestion),
      (''autorambler.ru'', rambler_suggestion), (''gmail.com'', gmail_suggestion), (''googlemail.com'', gmail_suggestion),
      (''outlook.com'', outlook_suggestion), (''hotmail.com'', outlook_suggestion), (''live.com'', outlook_suggestion),
      (''msn.com'', outlook_suggestion), (''icloud.com'', icloud_suggestion), (''me.com'', icloud_suggestion),
      (''mac.com'', icloud_suggestion), (''yahoo.com'', yahoo_suggestion), (''yahoo.ru'', yahoo_suggestion),
      (''ymail.com'', yahoo_suggestion)]"

definition provider_lookup :: "string \<Rightarrow> suggestion option" where
  "provider_lookup email =
     (if email = [] \<or> CHR ''@'' \<notin> set email then None
      else let domain_part = drop 1 (dropWhile (\<lambda>c. c \<noteq> CHR ''@'') email);
               domain = lower (strip domain_part)
           in if domain = [] then None else map_of PROVIDER_CATALOG domain)"

subsection \<open>State, environment and replies\<close>

record web_st =
  ws_cfg :: cfg_st
  ws_kv :: kv
  ws_creds :: "cred_row option"
  ws_windows :: windows

text \<open>
  What one request meets: the clock, whether the configuration file can be written, DNS, the
  mail server, and the address validator.
\<close>

record req_env =
  rq_json :: json_lib
  rq_now :: "nat \<Rightarrow> time"
  rq_written :: "unit res"
  rq_resolver :: "string \<Rightarrow> int \<Rightarrow> dns_answer"
  rq_server :: smtp_env
  rq_sha :: "ustr \<Rightarrow> string"
  rq_base_url :: string
  rq_norm_addr :: "ustr \<Rightarrow> ustr option"

datatype scope_msg =
    No_message
  | Unknown_ids "int list"
  | Nothing_chosen
  | Save_failed exc
  | Districts_saved
  | Subjects_saved

datatype reply =
    Scope_partial config scope_msg
  | Schedule_partial config
  | Json_ok
  | Test_outcome bool string
  | Suggestion "suggestion option"
  | Http_status nat
  | Raises exc

definition VALID_MACRO_IDS :: "int list" where "VALID_MACRO_IDS = map snd REGION_BY_SLUG"

text \<open>\<^verbatim>\<open>list(dict.fromkeys(xs))\<close>: the first occurrence of each element, in order.\<close>

definition dict_fromkeys :: "'a list \<Rightarrow> 'a list" where
  "dict_fromkeys xs = rev (remdups (rev xs))"

lemma dict_fromkeys_simps [simp]: "set (dict_fromkeys xs) = set xs" "distinct (dict_fromkeys xs)"
    "dict_fromkeys xs = [] \<longleftrightarrow> xs = []"
  by (simp_all add: dict_fromkeys_def)

definition save_settings :: "req_env \<Rightarrow> config \<Rightarrow> web_st \<Rightarrow> web_st \<times> unit res" where
  "save_settings e new st =
     (let (cfg', r) = cfg_save (rq_json e) (rq_now e 0) (rq_written e) new (ws_cfg st)
      in (st\<lparr>ws_cfg := cfg'\<rparr>, r))"

abbreviation current_settings :: "web_st \<Rightarrow> config" where
  "current_settings st \<equiv> cs_current (ws_cfg st)"

definition test_lot_fixture :: lot_public where
  "test_lot_fixture = \<lparr>lot_id = 0, lot_cadastral_no = map of_char ''00:00:0000000:0000'', lot_area_sqm = Some 1000,
     lot_region = map of_char ''Test region'', lot_municipality = None, lot_land_category = None,
     lot_permitted_use = None, lot_ogv = None, lot_status = map of_char ''Test'',
     lot_date_create = (9497 * 1440 + 720) * us_per_minute, lot_date_update = None, lot_date_registry = None,
     lot_lat = None, lot_lon = None, lot_has_boundaries = None, lot_raw_json = [], lot_parser_version = 1,
     lot_first_seen = (9497 * 1440 + 720) * us_per_minute, lot_last_seen = (9497 * 1440 + 720) * us_per_minute,
     lot_detail_fetched_at = None, lot_enrichment_status = None, lot_last_seen_at = None, lot_is_active = True,
     lot_inactive_reason = None, lot_inactive_since = None, lot_inactive_confirmed_at = None, lot_region_id = None,
     lot_age_seconds = 0, lot_tier = Tier_match, lot_freshness = Hot\<rparr>"

text \<open>The test service with the notifier it is wired to.\<close>

definition send_test :: "req_env \<Rightarrow> ustr \<Rightarrow> web_st \<Rightarrow> web_st \<times> notify_result res" where
  "send_test e recipient st =
     (let sent = snd (smtp_send (rq_server e) (rq_resolver e) (rq_sha e) (rq_base_url e) (ws_creds st)
                        test_lot_fixture recipient);
          (kv', r) = test_send sent (rq_now e 1) (rq_now e 2) (ws_kv st)
      in (st\<lparr>ws_kv := kv'\<rparr>, r))"

definition store_creds :: "req_env \<Rightarrow> smtp_creds \<Rightarrow> web_st \<Rightarrow> web_st \<times> unit res" where
  "store_creds e creds st =
     (let (table, r) = set_smtp_credentials (rq_resolver e) (rq_now e 3) creds (ws_creds st)
      in (st\<lparr>ws_creds := table\<rparr>, r))"

subsection \<open>Requests\<close>

definition get_smtp_suggest :: "string \<Rightarrow> reply" where
  "get_smtp_suggest email =
     (let domain = drop 1 (dropWhile (\<lambda>c. c \<noteq> CHR ''@'') email)
      in if email = [] \<or> takeWhile (\<lambda>c. c \<noteq> CHR ''@'') email = [] \<or> domain = [] \<or> CHR ''@'' \<in> set domain
         then Http_status 400
         else Suggestion (provider_lookup email))"

definition post_smtp :: "req_env \<Rightarrow> ustr \<Rightarrow> ustr \<Rightarrow> string \<Rightarrow> int \<Rightarrow> bool \<Rightarrow> ustr option \<Rightarrow> web_st \<Rightarrow> web_st \<times> reply" where
  "post_smtp e user pass host port def from_name st =
     (case mk_smtp_creds user pass host port def from_name of
        Inl _ \<Rightarrow> (st, Http_status 422)
      | Inr creds \<Rightarrow>
          (case store_creds e creds st of
             (st', Inr _) \<Rightarrow> (st', Http_status 204)
           | (st', Inl x) \<Rightarrow>
               (st', if x = ValueError then Http_status 422
                     else if x = SmtpHostPolicyError then Http_status 400 else Raises x)))"

definition post_smtp_test :: "req_env \<Rightarrow> ustr \<Rightarrow> web_st \<Rightarrow> web_st \<times> reply" where
  "post_smtp_test e recipient st =
     (case send_test e recipient st of
        (st', Inl x) \<Rightarrow> (st', Raises x)
      | (st', Inr result) \<Rightarrow> (st', Test_outcome (nres_ok result) (nres_detail result)))"

definition post_regions :: "req_env \<Rightarrow> int list \<Rightarrow> web_st \<Rightarrow> web_st \<times> reply" where
  "post_regions e region_ids st =
     (let cur = current_settings st;
          unknown = filter (\<lambda>rid. rid \<notin> set VALID_MACRO_IDS) region_ids
      in if unknown \<noteq> [] then (st, Scope_partial cur (Unknown_ids unknown))
         else if region_ids = [] then (st, Scope_partial cur Nothing_chosen)
         else let new_settings = cur\<lparr>set_regions := dict_fromkeys region_ids\<rparr>
              in (case save_settings e new_settings st of
                    (st', Inl x) \<Rightarrow> (st', Scope_partial cur (Save_failed x))
                  | (st', Inr _) \<Rightarrow> (st', Scope_partial new_settings Districts_saved)))"

text \<open>The body is validated first: one address that is not one rejects the request.\<close>

definition valid_addresses :: "(ustr \<Rightarrow> ustr option) \<Rightarrow> ustr list \<Rightarrow> ustr list res" where
  "valid_addresses norm_addr xs =
     map_res (\<lambda>x. case norm_addr x of None \<Rightarrow> Inl ValidationError | Some y \<Rightarrow> Inr y) xs"

definition post_recipients :: "req_env \<Rightarrow> ustr list \<Rightarrow> web_st \<Rightarrow> web_st \<times> reply" where
  "post_recipients e recipients st =
     (case valid_addresses (rq_norm_addr e) recipients of
        Inl _ \<Rightarrow> (st, Http_status 422)
      | Inr rs \<Rightarrow>
          (case save_settings e ((current_settings st)\<lparr>set_email_recipients := rs\<rparr>) st of
             (st', Inl x) \<Rightarrow> (st', Raises x)
           | (st', Inr _) \<Rightarrow> (st', Json_ok)))"

definition post_subjects :: "req_env \<Rightarrow> int list \<Rightarrow> web_st \<Rightarrow> web_st \<times> reply" where
  "post_subjects e rf_subject_ids st =
     (let cur = current_settings st;
          unknown = filter (\<lambda>sid. sid \<notin> set (map fst SUBJECT_TITLE_BY_ID)) rf_subject_ids
      in if unknown \<noteq> [] then (st, Scope_partial cur (Unknown_ids unknown))
         else let new_settings = cur\<lparr>set_filters := (set_filters cur)\<lparr>rf_subjects := dict_fromkeys rf_subject_ids\<rparr>\<rparr>
              in (case save_settings e new_settings st of
                    (st', Inl x) \<Rightarrow> (st', Scope_partial cur (Save_failed x))
                  | (st', Inr _) \<Rightarrow> (st', Scope_partial new_settings Subjects_saved)))"

text \<open>
  The pattern \<^verbatim>\<open>^([01]\d|2[0-3]):[0-5]\d$\<close> under \<^verbatim>\<open>match\<close>: the dollar also matches before a
  final newline.
\<close>

definition hhmm_match :: "string \<Rightarrow> bool" where
  "hhmm_match s =
     (case (if s \<noteq> [] \<and> last s = CHR 0x0A then butlast s else s) of
        [a, b, c, d, f] \<Rightarrow>
          (a \<in> {CHR ''0'', CHR ''1''} \<and> is_digit b \<or> a = CHR ''2'' \<and> b \<in> {CHR ''0'', CHR ''1'', CHR ''2'', CHR ''3''})
          \<and> c = CHR '':'' \<and> is_digit d \<and> digit_val d \<le> 5 \<and> is_digit f
      | _ \<Rightarrow> False)"

definition post_schedule :: "req_env \<Rightarrow> string \<Rightarrow> string \<Rightarrow> web_st \<Rightarrow> web_st \<times> reply" where
  "post_schedule e interval_minutes full_scan_time st =
     (case int_of_str interval_minutes of
        Inl _ \<Rightarrow> (st, Http_status 422)
      | Inr interval_int \<Rightarrow>
          (if \<not> (0 \<le> interval_int \<and> interval_int \<le> 60) then (st, Http_status 422)
           else if \<not> hhmm_match full_scan_time then (st, Http_status 422)
           else let new_settings = (current_settings st)\<lparr>set_interval_minutes := interval_int, set_full_scan_time := full_scan_time\<rparr>
                in (case save_settings e new_settings st of
                      (st', Inl x) \<Rightarrow> (st', Raises x)
                    | (st', Inr _) \<Rightarrow> (st', Schedule_partial new_settings))))"

subsection \<open>Schedules\<close>

definition clock_time :: "int \<times> int \<Rightarrow> bool" where
  "clock_time hm \<longleftrightarrow> 0 \<le> fst hm \<and> fst hm \<le> 23 \<and> 0 \<le> snd hm \<and> snd hm \<le> 59"

lemma digit_val_bounds: "is_digit c \<Longrightarrow> digit_val c \<le> 9"
  unfolding is_digit_def digit_val_def by linarith

lemma two_digit_int:
  assumes "is_digit a" "is_digit b" "nl \<in> {[], [CHR 0x0A]}"
  shows "int_of_str (a # b # nl) = Inr (int (10 * digit_val a + digit_val b))"
proof -
  have "\<not> int_space a" "\<not> int_space b" using assms by (auto simp: is_digit_def int_space_def Let_def)
  then have "int_strip (a # b # nl) = [a, b]"
    using assms(3) by (auto simp: int_strip_def int_space_def)
  with assms is_digit_not_special show ?thesis by (auto simp: int_of_str_def)
qed

lemma hhmm_match_cases:
  assumes "hhmm_match s"
  obtains a b d f nl where "s = [a, b, CHR '':'', d, f] @ nl" "nl \<in> {[], [CHR 0x0A]}" "is_digit a" "is_digit b"
    "is_digit d" "is_digit f" "digit_val d \<le> 5" "10 * digit_val a + digit_val b \<le> 23"
proof -
  let ?core = "if s \<noteq> [] \<and> last s = CHR 0x0A then butlast s else s"
  have "\<exists>nl \<in> {[], [CHR 0x0A]}. s = ?core @ nl"
    by (cases "s \<noteq> [] \<and> last s = CHR 0x0A") (use append_butlast_last_id [of s] in auto)
  then obtain nl where nl: "nl \<in> {[], [CHR 0x0A]}" "s = ?core @ nl" by blast
  from assms obtain a b d f where c: "?core = [a, b, CHR '':'', d, f]"
    and ab: "a \<in> {CHR ''0'', CHR ''1''} \<and> is_digit b \<or> a = CHR ''2'' \<and> b \<in> {CHR ''0'', CHR ''1'', CHR ''2'', CHR ''3''}"
    and df: "is_digit d" "digit_val d \<le> 5" "is_digit f"
    unfolding hhmm_match_def by (auto split: list.splits)
  have "is_digit a" "is_digit b" "10 * digit_val a + digit_val b \<le> 23"
    using ab digit_val_bounds [of b] by (auto simp: is_digit_def digit_val_def)
  with nl c df show thesis using that [of a b d f nl] by simp
qed

lemma hhmm_clock_time:
  assumes "hhmm_match s"
  shows "clock_time (parse_hhmm s)"
proof -
  from assms obtain a b d f nl where s: "s = [a, b, CHR '':'', d, f] @ nl" "nl \<in> {[], [CHR 0x0A]}"
    and dg: "is_digit a" "is_digit b" "is_digit d" "is_digit f" and le: "digit_val d \<le> 5" "10 * digit_val a + digit_val b \<le> 23"
    by (rule hhmm_match_cases)
  have "a \<noteq> CHR '':''" "b \<noteq> CHR '':''" using dg by (auto simp: is_digit_def)
  then have "split_colon s = Some ([a, b], d # f # nl)" by (simp add: s)
  then have "parse_hhmm s = (int (10 * digit_val a + digit_val b), int (10 * digit_val d + digit_val f))"
    using two_digit_int [of a b "[]"] two_digit_int [OF dg(3,4) s(2)] dg by (simp add: parse_hhmm_def)
  with le digit_val_bounds [OF dg(4)] show ?thesis by (simp add: clock_time_def)
qed

lemma clock_time_scheduled:
  "clock_time (parse_hhmm s) \<Longrightarrow> \<exists>u. next_scheduled to_wall of_wall s now = Inr u"
  by (auto simp: clock_time_def next_scheduled_def Let_def split: prod.splits)

subsection \<open>What a request keeps\<close>

text \<open>What the pages promise of the settings they write, beyond the ranges of the model.\<close>

definition ui_ok :: "config \<Rightarrow> bool" where
  "ui_ok c \<longleftrightarrow> set_regions c \<noteq> [] \<and> set (set_regions c) \<subseteq> set VALID_MACRO_IDS
     \<and> set (rf_subjects (set_filters c)) \<subseteq> set (map fst SUBJECT_TITLE_BY_ID)
     \<and> clock_time (parse_hhmm (set_full_scan_time c))"

definition settings_ok :: "(ustr \<Rightarrow> ustr option) \<Rightarrow> bool \<Rightarrow> config \<Rightarrow> bool" where
  "settings_ok norm_addr ui c \<longleftrightarrow> config_ok norm_addr c \<and> (ui \<longrightarrow> ui_ok c)"

lemma ui_ok_default: "ui_ok default_config"
proof -
  have "hhmm_match ''04:00''" by (simp add: hhmm_match_def is_digit_def digit_val_def)
  from hhmm_clock_time [OF this] show ?thesis
    by (simp add: ui_ok_def default_config_def VALID_MACRO_IDS_def REGION_BY_SLUG_def)
qed

lemma settings_ok_default: "settings_ok norm_addr ui default_config"
  by (simp add: settings_ok_def default_config_ok ui_ok_default)

lemma settings_ok_updates:
  "settings_ok n ui c \<Longrightarrow> is \<noteq> [] \<Longrightarrow> set is \<subseteq> set VALID_MACRO_IDS \<Longrightarrow> settings_ok n ui (c\<lparr>set_regions := is\<rparr>)"
  "settings_ok n ui c \<Longrightarrow> \<forall>r \<in> set rs. n r = Some r \<Longrightarrow> settings_ok n ui (c\<lparr>set_email_recipients := rs\<rparr>)"
  "settings_ok n ui c \<Longrightarrow> set ss \<subseteq> set (map fst SUBJECT_TITLE_BY_ID) \<Longrightarrow>
     settings_ok n ui (c\<lparr>set_filters := (set_filters c)\<lparr>rf_subjects := ss\<rparr>\<rparr>)"
  "settings_ok n ui c \<Longrightarrow> 0 \<le> i \<Longrightarrow> i \<le> 60 \<Longrightarrow> hhmm_match t \<Longrightarrow>
     settings_ok n ui (c\<lparr>set_interval_minutes := i, set_full_scan_time := t\<rparr>)"
  using hhmm_clock_time [of t] by (auto simp: settings_ok_def config_ok_def target_ok_def ui_ok_def)

lemma save_settings_current:
  assumes "save_settings e new st = (st', r)"
  shows "current_settings st' = (if r = Inr () then new else current_settings st)"
  using assms by (auto simp: save_settings_def cfg_save_def Let_def split: sum.splits)

lemma valid_addresses_fixed:
  assumes "valid_addresses n xs = Inr ys" "\<And>a b. n a = Some b \<Longrightarrow> n b = Some b"
  shows "\<forall>y \<in> set ys. n y = Some y"
  using assms(1) by (induction xs arbitrary: ys) (auto simp: valid_addresses_def dest: assms(2) split: option.splits sum.splits)

lemma unknown_none: "filter (\<lambda>x. x \<notin> A) xs = [] \<longleftrightarrow> set xs \<subseteq> A"
  by (auto simp: filter_empty_conv)

lemma send_test_cfg: "send_test e rcpt st = (st', r) \<Longrightarrow> ws_cfg st' = ws_cfg st \<and> ws_creds st' = ws_creds st"
  by (auto simp: send_test_def Let_def split: prod.splits)

lemma store_creds_cfg: "store_creds e creds st = (st', r) \<Longrightarrow> ws_cfg st' = ws_cfg st \<and> ws_kv st' = ws_kv st"
  by (auto simp: store_creds_def Let_def split: prod.splits)

lemma post_regions_keeps:
  assumes "settings_ok n ui (current_settings st)"
  shows "settings_ok n ui (current_settings (fst (post_regions e ids st)))"
proof -
  let ?new = "(current_settings st)\<lparr>set_regions := dict_fromkeys ids\<rparr>"
  obtain st' r where s: "save_settings e ?new st = (st', r)" by fastforce
  have "settings_ok n ui ?new" if "set ids \<subseteq> set VALID_MACRO_IDS" "ids \<noteq> []"
    using that by (intro settings_ok_updates(1) [OF assms]) simp_all
  with assms save_settings_current [OF s] show ?thesis
    by (simp add: post_regions_def Let_def s unknown_none split: sum.split)
qed

lemma post_recipients_keeps:
  assumes "settings_ok (rq_norm_addr e) ui (current_settings st)" "\<And>a b. rq_norm_addr e a = Some b \<Longrightarrow> rq_norm_addr e b = Some b"
  shows "settings_ok (rq_norm_addr e) ui (current_settings (fst (post_recipients e rs st)))"
proof (cases "valid_addresses (rq_norm_addr e) rs")
  case (Inr ys)
  let ?new = "(current_settings st)\<lparr>set_email_recipients := ys\<rparr>"
  obtain st' r where s: "save_settings e ?new st = (st', r)" by fastforce
  have "settings_ok (rq_norm_addr e) ui ?new"
    using valid_addresses_fixed [OF Inr assms(2)] by (intro settings_ok_updates(2) [OF assms(1)])
  with assms save_settings_current [OF s] show ?thesis
    by (simp add: post_recipients_def Inr s split: sum.split)
qed (use assms in \<open>simp add: post_recipients_def\<close>)

lemma post_subjects_keeps:
  assumes "settings_ok n ui (current_settings st)"
  shows "settings_ok n ui (current_settings (fst (post_subjects e ids st)))"
proof -
  let ?c = "current_settings st"
  let ?new = "?c\<lparr>set_filters := (set_filters ?c)\<lparr>rf_subjects := dict_fromkeys ids\<rparr>\<rparr>"
  obtain st' r where s: "save_settings e ?new st = (st', r)" by fastforce
  have "settings_ok n ui ?new" if "set ids \<subseteq> set (map fst SUBJECT_TITLE_BY_ID)"
    using that by (intro settings_ok_updates(3) [OF assms]) simp
  with assms save_settings_current [OF s] show ?thesis
    by (simp add: post_subjects_def Let_def s unknown_none split: sum.split)
qed

lemma post_schedule_keeps:
  assumes "settings_ok n ui (current_settings st)"
  shows "settings_ok n ui (current_settings (fst (post_schedule e i t st)))"
proof (cases "int_of_str i")
  case (Inr k)
  let ?new = "(current_settings st)\<lparr>set_interval_minutes := k, set_full_scan_time := t\<rparr>"
  obtain st' r where s: "save_settings e ?new st = (st', r)" by fastforce
  have "settings_ok n ui ?new" if "0 \<le> k" "k \<le> 60" "hhmm_match t"
    using that by (intro settings_ok_updates(4) [OF assms])
  with assms save_settings_current [OF s] show ?thesis
    by (simp add: post_schedule_def Inr s split: sum.split)
qed (use assms in \<open>simp add: post_schedule_def\<close>)

lemma post_smtp_keeps: "ws_cfg (fst (post_smtp e u p h port d f st)) = ws_cfg st"
proof (cases "mk_smtp_creds u p h port d f")
  case (Inr creds)
  obtain st' r where s: "store_creds e creds st = (st', r)" by fastforce
  with store_creds_cfg [OF s] show ?thesis by (simp add: post_smtp_def Inr split: sum.split)
qed (simp add: post_smtp_def)

lemma post_smtp_test_keeps: "ws_cfg (fst (post_smtp_test e rcpt st)) = ws_cfg st"
proof -
  obtain st' r where s: "send_test e rcpt st = (st', r)" by fastforce
  with send_test_cfg [OF s] show ?thesis by (simp add: post_smtp_test_def split: sum.split)
qed

lemmas requests_keep = post_regions_keeps post_recipients_keeps post_subjects_keeps post_schedule_keeps

definition usable :: "suggestion \<Rightarrow> bool" where
  "usable s \<longleftrightarrow> validate_port (sg_port s) = Inr () \<and> reject_pre_resolve (sg_host s) = Inr ()
     \<and> (sg_use_starttls s \<longleftrightarrow> sg_port s \<noteq> IMPLICIT_TLS_PORT)"

lemmas usable_defs = usable_def validate_port_def reject_pre_resolve_def rstrip_dots_def isdigit_def is_digit_def
  lower_def lower_char_def tld_of_def BLOCKED_TLDS_def IMPLICIT_TLS_PORT_def

lemma catalog_usable: "\<forall>s \<in> set (map snd PROVIDER_CATALOG). usable s"
proof -
  have "usable yandex_suggestion" by (simp add: usable_defs yandex_suggestion_def)
  moreover have "usable mailru_suggestion" by (simp add: usable_defs mailru_suggestion_def)
  moreover have "usable rambler_suggestion" by (simp add: usable_defs rambler_suggestion_def)
  moreover have "usable gmail_suggestion" by (simp add: usable_defs gmail_suggestion_def)
  moreover have "usable outlook_suggestion" by (simp add: usable_defs outlook_suggestion_def)
  moreover have "usable icloud_suggestion" by (simp add: usable_defs icloud_suggestion_def)
  moreover have "usable yahoo_suggestion" by (simp add: usable_defs yahoo_suggestion_def)
  ultimately show ?thesis by (simp add: PROVIDER_CATALOG_def)
qed

subsection \<open>Properties\<close>

text \<open>
  Every provider the catalogue suggests can be stored and used: its host and port pass the
  checks made before names are resolved, and the TLS mode it announces is the one the notifier
  takes from the port. The answer depends on the part after the first at sign only, without
  surrounding space and whatever its case.
\<close>

theorem provider_suggestions_usable:
  assumes "provider_lookup email = Some s"
  shows "validate_port (sg_port s) = Inr () \<and> reject_pre_resolve (sg_host s) = Inr ()
     \<and> (sg_use_starttls s \<longleftrightarrow> sg_port s \<noteq> IMPLICIT_TLS_PORT)
     \<and> (\<exists>user domain. email = user @ CHR ''@'' # domain \<and> CHR ''@'' \<notin> set user
          \<and> (\<forall>domain' user'. lower (strip domain') = lower (strip domain) \<and> CHR ''@'' \<notin> set user' \<longrightarrow>
                provider_lookup (user' @ CHR ''@'' # domain') = Some s))"
proof -
  have at_sign: "CHR ''@'' \<in> set email" using assms by (auto simp: provider_lookup_def split: if_splits)
  then obtain user domain where e: "email = user @ CHR ''@'' # domain" "CHR ''@'' \<notin> set user"
    using split_list_first by fast
  have look: "provider_lookup (u @ CHR ''@'' # d) =
      (if lower (strip d) = [] then None else map_of PROVIDER_CATALOG (lower (strip d)))" if "CHR ''@'' \<notin> set u" for u d
  proof -
    have "dropWhile (\<lambda>c. c \<noteq> CHR ''@'') (u @ CHR ''@'' # d) = CHR ''@'' # d"
      using that by (subst dropWhile_append2) auto
    then show ?thesis by (simp add: provider_lookup_def Let_def)
  qed
  have m: "map_of PROVIDER_CATALOG (lower (strip domain)) = Some s" and ne: "lower (strip domain) \<noteq> []"
    using assms e(1) look [OF e(2), of domain] by (auto split: if_splits)
  have "s \<in> set (map snd PROVIDER_CATALOG)" using map_of_SomeD [OF m] by force
  then have "usable s" using catalog_usable by blast
  then have s: "validate_port (sg_port s) = Inr ()" "reject_pre_resolve (sg_host s) = Inr ()"
    "sg_use_starttls s \<longleftrightarrow> sg_port s \<noteq> IMPLICIT_TLS_PORT" by (simp_all add: usable_def)
  have "\<forall>domain' user'. lower (strip domain') = lower (strip domain) \<and> CHR ''@'' \<notin> set user' \<longrightarrow>
      provider_lookup (user' @ CHR ''@'' # domain') = Some s"
    using look m ne by simp
  with s e show ?thesis by (intro conjI exI [of _ user] exI [of _ domain])
qed

theorem provider_suggestions_usable_witness:
  "reject_pre_resolve (sg_host gmail_suggestion) = Inr () \<and> sg_use_starttls gmail_suggestion"
proof -
  have "provider_lookup ''a@gmail.com '' = Some gmail_suggestion"
    by (simp add: provider_lookup_def PROVIDER_CATALOG_def strip_def is_space_def lower_def lower_char_def Let_def)
  from provider_suggestions_usable [OF this] show ?thesis by (simp add: gmail_suggestion_def IMPLICIT_TLS_PORT_def)
qed

end
