(* ===== verification/Page_Text.thy ===== *)
theory Page_Text
  imports Iso_Text Humanize
begin

text \<open>
  The texts of a page: Python's \<^verbatim>\<open>strip\<close>, \<^verbatim>\<open>int\<close>, \<^verbatim>\<open>replace\<close> and \<^verbatim>\<open>strptime\<close> on Unicode text, as
  the parsers use them, and \<^verbatim>\<open>infra/normalize.py\<close>. The decimal digits are those of Unicode 15; the
  upper-case form of a code point, a table of the same standard, is a parameter.
\<close>

subsection \<open>Spaces and digits\<close>

definition uspace :: "nat \<Rightarrow> bool" where
  "uspace n \<longleftrightarrow> (9 \<le> n \<and> n \<le> 13) \<or> (28 \<le> n \<and> n \<le> 32) \<or> n \<in> {133, 160, 5760, 8232, 8233, 8239, 8287, 12288}
     \<or> (8192 \<le> n \<and> n \<le> 8202)"

definition ustrip :: "ustr \<Rightarrow> ustr" where
  "ustrip s = rev (dropWhile uspace (rev (dropWhile uspace s)))"

definition DIGIT_ZEROS :: "nat list" where
  "DIGIT_ZEROS = [48, 1632, 1776, 1984, 2406, 2534, 2662, 2790, 2918, 3046, 3174, 3302, 3430, 3558, 3664, 3792, 3872, 4160,
     4240, 6112, 6160, 6470, 6608, 6784, 6800, 6992, 7088, 7232, 7248, 42528, 43216, 43264, 43472, 43504, 43600, 44016,
     65296, 66720, 68912, 69734, 69872, 69942, 70096, 70384, 70736, 70864, 71248, 71360, 71472, 71904, 72016, 72784, 73040,
     73120, 73552, 92768, 92864, 93008, 120782, 120792, 120802, 120812, 120822, 123200, 123632, 124144, 125264, 130032]"

definition udigit :: "nat \<Rightarrow> nat option" where
  "udigit n = map_option (\<lambda>z. n - z) (find (\<lambda>z. z \<le> n \<and> n \<le> z + 9) DIGIT_ZEROS)"

text \<open>
  \<^verbatim>\<open>int(s)\<close>: other digits and spaces become those of ASCII first, anything else a question mark; more
  digits than the interpreter's limit are refused.
\<close>

definition INT_MAX_DIGITS :: nat where "INT_MAX_DIGITS = 4300"

definition ascii_of :: "nat \<Rightarrow> char" where
  "ascii_of n =
     (if n < 128 then char_of n
      else if uspace n then CHR '' ''
      else case udigit n of Some d \<Rightarrow> digit_char d | None \<Rightarrow> CHR ''?'')"

definition int_of_ustr :: "ustr \<Rightarrow> int res" where
  "int_of_ustr s =
     (if INT_MAX_DIGITS < length (filter is_digit (map ascii_of s)) then Inl ValueError else int_of_str (map ascii_of s))"

text \<open>\<^verbatim>\<open>s.replace(old, "")\<close> for a non-empty \<open>old\<close>.\<close>

function drop_all :: "'a list \<Rightarrow> 'a list \<Rightarrow> 'a list" where
  "drop_all old [] = []"
| "drop_all old (c # cs) =
     (if old \<noteq> [] \<and> take (length old) (c # cs) = old then drop_all old (drop (length old) (c # cs)) else c # drop_all old cs)"
  by pat_completeness auto
termination by (relation "measure (\<lambda>(_, s). length s)") (auto simp: length_greater_0_conv [symmetric] simp del: length_greater_0_conv)

subsection \<open>Dates\<close>

definition between :: "nat \<Rightarrow> nat \<Rightarrow> nat \<Rightarrow> bool" where
  "between lo hi n \<longleftrightarrow> lo \<le> n \<and> n \<le> hi"

text \<open>The groups of \<^verbatim>\<open>%d\<close>, \<^verbatim>\<open>%m\<close> and \<^verbatim>\<open>%Y\<close>, and the number \<^verbatim>\<open>int\<close> reads in them.\<close>

definition strp_day :: "ustr \<Rightarrow> nat option" where
  "strp_day s =
     (case s of
        [a] \<Rightarrow> (if between 49 57 a then Some (a - 48) else None)
      | [a, b] \<Rightarrow>
          (if a = 51 \<and> between 48 49 b then Some (30 + (b - 48))
           else if between 49 50 a then map_option (\<lambda>d. 10 * (a - 48) + d) (udigit b)
           else if (a = 48 \<or> a = 32) \<and> between 49 57 b then Some (b - 48)
           else None)
      | _ \<Rightarrow> None)"

definition strp_month :: "ustr \<Rightarrow> nat option" where
  "strp_month s =
     (case s of
        [a] \<Rightarrow> (if between 49 57 a then Some (a - 48) else None)
      | [a, b] \<Rightarrow>
          (if a = 49 \<and> between 48 50 b then Some (10 + (b - 48))
           else if a = 48 \<and> between 49 57 b then Some (b - 48)
           else None)
      | _ \<Rightarrow> None)"

definition strp_year :: "ustr \<Rightarrow> nat option" where
  "strp_year s =
     (case map udigit s of
        [Some a, Some b, Some c, Some d] \<Rightarrow> Some (1000 * a + 100 * b + 10 * c + d)
      | _ \<Rightarrow> None)"

text \<open>\<^verbatim>\<open>_parse_date\<close>, of both parsers: the midnight of a date written \<^verbatim>\<open>DD.MM.YYYY\<close>.\<close>

definition parse_date :: "ustr option \<Rightarrow> time option" where
  "parse_date s =
     (case s of
        None \<Rightarrow> None
      | Some t \<Rightarrow>
          (if t = [] then None
           else let u = ustrip t
                in if u = [] then None
                   else case split_at 46 u of
                          [ds, ms, ys] \<Rightarrow>
                            (case (strp_day ds, strp_month ms, strp_year ys) of
                               (Some d, Some m, Some y) \<Rightarrow> map_option (\<lambda>n. n * us_per_day) (day_of_civil y m d)
                             | _ \<Rightarrow> None)
                        | _ \<Rightarrow> None))"

subsection \<open>Areas\<close>

definition SQM :: ustr where "SQM = [1082, 1074, 46, 1084]"

definition parse_area :: "ustr option \<Rightarrow> int option" where
  "parse_area s =
     (case s of
        None \<Rightarrow> None
      | Some t \<Rightarrow>
          (if t = [] then None
           else let u = ustrip t
                in if u = [] then None
                   else let v = ustrip (drop_all SQM u);
                            digits = drop_all [160] (drop_all [32] v)
                        in if digits = [] then None
                           else case int_of_ustr digits of Inl _ \<Rightarrow> None | Inr n \<Rightarrow> Some n))"

subsection \<open>Permitted use\<close>

definition ABBREVIATIONS :: "ustr list" where
  "ABBREVIATIONS =
     [[1048, 1046, 1057], [1051, 1055, 1061], [1057, 1053, 1058], [1044, 1053, 1058], [1054, 1053, 1058], [1050, 1060, 1061]]"

definition normalize_vri :: "(nat \<Rightarrow> ustr) \<Rightarrow> ustr option \<Rightarrow> ustr option" where
  "normalize_vri up value =
     (case value of
        None \<Rightarrow> None
      | Some v \<Rightarrow>
          (if v = [] then Some v
           else let stripped = ustrip v
                in if stripped = [] then Some v
                   else if concat (map up stripped) \<in> set ABBREVIATIONS then Some (concat (map up stripped))
                   else Some (up (hd stripped) @ tl stripped)))"

subsection \<open>Facts about texts\<close>

lemma drop_all_single: "drop_all [c] s = filter (\<lambda>x. x \<noteq> c) s"
  by (induction s) auto

lemma ustrip_ends:
  assumes "s \<noteq> []" "\<not> uspace (hd s)" "\<not> uspace (last s)"
  shows "ustrip s = s"
proof -
  have "dropWhile uspace s = s" using assms(1,2) by (cases s) auto
  moreover have "dropWhile uspace (rev s) = rev s"
    using assms(1,3) by (cases s rule: rev_cases) auto
  ultimately show ?thesis by (simp add: ustrip_def)
qed

lemma ustrip_facts: "ustrip s = [] \<or> (\<not> uspace (hd (ustrip s)) \<and> \<not> uspace (last (ustrip s)))"
proof (cases "ustrip s = []")
  case False
  let ?a = "dropWhile uspace s" and ?b = "dropWhile uspace (rev (dropWhile uspace s))"
  have b: "?b \<noteq> []" using False by (simp add: ustrip_def)
  then have l: "\<not> uspace (last (ustrip s))" using hd_dropWhile [of uspace] by (simp add: ustrip_def last_rev)
  have ne: "?a \<noteq> []" using b by (metis dropWhile.simps(1) rev.simps(1))
  obtain xs where xs: "rev ?a = xs @ ?b" using takeWhile_dropWhile_id [of uspace "rev ?a"] by metis
  then have "?a = rev ?b @ rev xs" by (metis rev_append rev_rev_ident)
  then have "hd ?a = hd (rev ?b)" using b by (metis hd_append2 rev_is_Nil_conv)
  with hd_dropWhile [OF ne] l show ?thesis by (simp add: ustrip_def)
qed simp

lemma ustrip_idem [simp]: "ustrip (ustrip s) = ustrip s"
proof (cases "ustrip s = []")
  case True
  have "ustrip [] = []" by (simp add: ustrip_def)
  with True show ?thesis by simp
next
  case False
  with ustrip_facts [of s] show ?thesis by (intro ustrip_ends) auto
qed

lemma udigit_ascii: "d < 10 \<Longrightarrow> udigit (48 + d) = Some d"
  by (simp add: udigit_def DIGIT_ZEROS_def)

lemma udigit_bound: "udigit n = Some d \<Longrightarrow> d \<le> 9"
  by (auto simp: udigit_def dest!: find_SomeD)

subsection \<open>Dates and the calendar\<close>

lemma year_of_at: "d < year_days (y + j) \<Longrightarrow> year_of y (sum_list (map year_days [y..<y + j]) + d) = (y + j, d)"
proof (induction j arbitrary: y)
  case 0
  then show ?case by (simp add: year_of.simps [of y d])
next
  case (Suc j)
  have u: "map year_days [y..<y + Suc j] = year_days y # map year_days [Suc y..<Suc y + j]"
    by (simp add: upt_conv_Cons del: upt_Suc)
  have "year_of y (sum_list (map year_days [y..<y + Suc j]) + d) = year_of (Suc y) (sum_list (map year_days [Suc y..<Suc y + j]) + d)"
    unfolding u by (subst year_of.simps) simp
  also have "\<dots> = (Suc y + j, d)" using Suc.prems by (intro Suc.IH) simp
  finally show ?case by simp
qed

lemma month_of_at: "k < length ls \<Longrightarrow> d < ls ! k \<Longrightarrow> month_of ls m (sum_list (take k ls) + d) = (m + k, d)"
  by (induction ls arbitrary: k m) (auto simp: take_Cons' nth_Cons')

lemma cycle_days: "sum_list (map year_days [0..<400]) = 146097"
  using cycle_length by (simp add: interv_sum_list_conv_sum_set_nat atLeast0LessThan)

text \<open>A date that exists is the civil date of its day.\<close>

lemma civil_day_of_civil:
  assumes "day_of_civil y m d = Some n"
  shows "civil n = (int y, m, d)" "1 \<le> y"
proof -
  let ?yy = "y mod 400" and ?q = "(int y - 2000) div 400"
  let ?doy = "sum_list (take (m - 1) (month_lengths ?yy)) + (d - 1)"
  let ?k = "sum_list (map year_days [0..<?yy]) + ?doy"
  have b: "1 \<le> y" "1 \<le> m" "m \<le> 12" "1 \<le> d" "d \<le> month_lengths ?yy ! (m - 1)"
    and n: "n = 146097 * ?q + int ?k"
    using assms by (auto simp: day_of_civil_def Let_def split: if_splits)
  show "1 \<le> y" by (rule b)
  have len: "length (month_lengths ?yy) = 12" by (simp add: month_lengths_def)
  have mo: "month_of (month_lengths ?yy) 1 ?doy = (m, d - 1)"
    using month_of_at [of "m - 1" "month_lengths ?yy" "d - 1" 1] b len by simp
  have "?doy < sum_list (month_lengths ?yy)"
  proof -
    let ?ls = "month_lengths ?yy"
    have "sum_list ?ls = sum_list (take (m - 1) ?ls) + sum_list (drop (m - 1) ?ls)"
      by (metis append_take_drop_id sum_list_append)
    moreover have "?ls ! (m - 1) \<le> sum_list (drop (m - 1) ?ls)"
      using b len by (simp add: Cons_nth_drop_Suc [symmetric])
    ultimately show ?thesis using b by linarith
  qed
  then have doy: "?doy < year_days ?yy" by (simp add: month_lengths_sum)
  have ye: "year_of 0 ?k = (?yy, ?doy)" using year_of_at [of ?doy 0 ?yy] doy by simp
  have "?k < 146097"
  proof -
    have "?k < sum_list (map year_days [0..<Suc ?yy])" using doy by simp
    also have "\<dots> \<le> sum_list (map year_days [0..<400])"
    proof -
      have "[0..<400] = [0..<Suc ?yy] @ [Suc ?yy..<400]"
        using upt_add_eq_append [of 0 "Suc ?yy" "400 - Suc ?yy"] by (simp del: upt_Suc)
      then show ?thesis by (metis le_add1 map_append sum_list_append)
    qed
    finally show ?thesis by (simp add: cycle_days)
  qed
  moreover obtain k where k: "k = ?k" by simp
  ultimately have "n div 146097 = ?q" "nat (n mod 146097) = ?k" unfolding n k [symmetric] by simp_all
  moreover have "2000 + 400 * ?q + int ?yy = int y"
  proof -
    have "int ?yy = (int y - 2000) mod 400" by (simp add: zmod_int mod_diff_eq [of "int y" 400 2000, symmetric])
    then show ?thesis using mult_div_mod_eq [of 400 "int y - 2000"] by linarith
  qed
  ultimately show "civil n = (int y, m, d)" using ye mo b(4) by (simp add: civil_def Let_def)
qed

lemma strp_year_bound: "strp_year s = Some y \<Longrightarrow> y \<le> 9999"
  by (auto simp: strp_year_def dest!: udigit_bound split: list.splits option.splits)

lemma parse_date_midnight:
  assumes "parse_date s = Some t"
  shows "t mod us_per_day = 0 \<and> in_calendar t"
proof -
  obtain y m d n where n: "day_of_civil y m d = Some n" "y \<le> 9999" "t = n * us_per_day"
    using assms by (auto simp: parse_date_def Let_def split: option.splits if_splits list.splits dest: strp_year_bound)
  have "us_per_day \<noteq> 0" by (simp add: us_per_day_def us_per_minute_def)
  then have "date_of t = n" by (simp add: date_of_def n(3))
  with civil_day_of_civil [OF n(1)] n show ?thesis by (simp add: in_calendar_def)
qed

definition dmy_text :: "int \<Rightarrow> ustr" where
  "dmy_text n = (let (y, m, d) = civil n in ustr_of (pad 2 d @ ''.'' @ pad 2 m @ ''.'' @ pad 4 (nat y)))"

lemma split_at_none: "c \<notin> set a \<Longrightarrow> split_at c a = [a]"
  by (induction a) auto

lemma split_at_append: "c \<notin> set a \<Longrightarrow> split_at c (a @ c # b) = a # split_at c b"
  by (induction a) auto

lemma of_char_digit: "k < 10 \<Longrightarrow> (of_char (digit_char k) :: nat) = 48 + k"
  by (rule of_char_digit_char)

lemma pad2: "n < 100 \<Longrightarrow> ustr_of (pad 2 n) = [48 + n div 10, 48 + n mod 10]"
  by (simp add: ustr_of_def numeral_2_eq_2 of_char_digit)

lemma upad_Suc: "ustr_of (pad (Suc w) n) = ustr_of (pad w (n div 10)) @ [48 + n mod 10]"
  by (simp add: ustr_of_def of_char_digit)

lemma pad4:
  "ustr_of (pad 4 n) =
     [48 + n div 10 div 10 div 10 mod 10, 48 + n div 10 div 10 mod 10, 48 + n div 10 mod 10, 48 + n mod 10]"
proof -
  have "pad 4 n = pad (Suc (Suc (Suc (Suc 0)))) n" by (rule arg_cong [of _ _ "\<lambda>w. pad w n"]) simp
  then show ?thesis by (simp only: upad_Suc) (simp add: ustr_of_def)
qed

lemma strp_day_pad:
  assumes "1 \<le> d" "d \<le> 31"
  shows "strp_day (ustr_of (pad 2 d)) = Some d"
proof -
  consider "d div 10 = 0" | "d div 10 = 1" | "d div 10 = 2" | "d div 10 = 3" using assms by linarith
  then show ?thesis
    using assms udigit_ascii [of "d mod 10"] div_mult_mod_eq [of d 10]
    by cases (auto simp: pad2 strp_day_def between_def)
qed

lemma strp_month_pad:
  assumes "1 \<le> m" "m \<le> 12"
  shows "strp_month (ustr_of (pad 2 m)) = Some m"
proof -
  consider "m div 10 = 0" | "m div 10 = 1" using assms by linarith
  then show ?thesis
    using assms div_mult_mod_eq [of m 10] by cases (auto simp: pad2 strp_month_def between_def)
qed

lemma strp_year_pad:
  assumes "y < 10000"
  shows "strp_year (ustr_of (pad 4 y)) = Some y"
proof -
  let ?a = "y div 10" let ?b = "?a div 10" let ?c = "?b div 10"
  have "?c < 10" using assms by (simp add: div_mult2_eq [symmetric] div_less_iff_less_mult)
  then have "?c mod 10 = ?c" by simp
  moreover have "y = 10 * ?a + y mod 10" "?a = 10 * ?b + ?a mod 10" "?b = 10 * ?c + ?b mod 10" by simp_all
  ultimately have "1000 * (?c mod 10) + 100 * (?b mod 10) + 10 * (?a mod 10) + y mod 10 = y" by linarith
  then show ?thesis by (simp only: pad4) (simp add: strp_year_def udigit_ascii)
qed

lemma parse_dmy_text:
  assumes "in_calendar t" "t mod us_per_day = 0"
  shows "parse_date (Some (dmy_text (date_of t))) = Some t"
proof -
  obtain y m d where c: "civil (date_of t) = (y, m, d)" by (cases "civil (date_of t)") auto
  have b: "1 \<le> y" "y \<le> 9999" "1 \<le> m" "m \<le> 12" "1 \<le> d" "d \<le> 31"
    using assms(1) civil_bounds [OF c] by (auto simp: in_calendar_def c)
  let ?d = "ustr_of (pad 2 d)" and ?m = "ustr_of (pad 2 m)" and ?y = "ustr_of (pad 4 (nat y))"
  have texts: "?d = [48 + d div 10, 48 + d mod 10]" "?m = [48 + m div 10, 48 + m mod 10]"
    "?y = [48 + nat y div 10 div 10 div 10 mod 10, 48 + nat y div 10 div 10 mod 10, 48 + nat y div 10 mod 10, 48 + nat y mod 10]"
    using b by (simp_all add: pad2 pad4)
  have dig: "46 \<notin> set ?d" "46 \<notin> set ?m" "46 \<notin> set ?y" by (auto simp: texts)
  have dmy: "dmy_text (date_of t) = ?d @ 46 # ?m @ 46 # ?y" by (simp add: dmy_text_def c ustr_of_def)
  have "ustrip (?d @ 46 # ?m @ 46 # ?y) = ?d @ 46 # ?m @ 46 # ?y"
    using b by (intro ustrip_ends) (auto simp: texts uspace_def)
  moreover have "split_at 46 (?d @ 46 # ?m @ 46 # ?y) = [?d, ?m, ?y]"
    by (simp add: split_at_append [OF dig(1)] split_at_append [OF dig(2)] split_at_none [OF dig(3)])
  moreover have "day_of_civil (nat y) m d = Some (date_of t)" by (rule day_of_civil_civil [OF c b(1)])
  moreover have "date_of t * us_per_day = t" using assms(2) by (simp add: date_of_def) (metis add.right_neutral div_mult_mod_eq)
  ultimately show ?thesis
    using b strp_day_pad strp_month_pad strp_year_pad by (simp add: parse_date_def dmy Let_def)
qed

lemma drop_all_end: "old \<noteq> [] \<Longrightarrow> hd old \<notin> set s \<Longrightarrow> drop_all old (s @ old) = s"
proof (induction s)
  case Nil
  then show ?case by (cases old) simp_all
next
  case (Cons c s)
  then have "take (length old) ((c # s) @ old) \<noteq> old" by (cases old) auto
  with Cons show ?case by auto
qed

lemma int_of_udecimal:
  assumes "length (str_of_int i) \<le> INT_MAX_DIGITS"
  shows "int_of_ustr (ustr_of (str_of_int i)) = Inr i"
proof -
  have keep: "ascii_of (of_char c) = c" if "(of_char c :: nat) < 128" for c
    using that by (simp add: ascii_of_def)
  have small: "(of_char c :: nat) < 128" if "c \<in> set (str_of_nat n)" for c n
    using that str_of_nat_digits [of n] by (auto simp: is_digit_def dest!: bspec)
  then have "\<forall>c \<in> set (str_of_int i). (of_char c :: nat) < 128" by (auto simp: str_of_int_def)
  then have "map ascii_of (ustr_of (str_of_int i)) = str_of_int i"
    using keep by (auto simp: ustr_of_def intro!: map_idI)
  moreover have "length (filter is_digit (str_of_int i)) \<le> INT_MAX_DIGITS"
    using assms length_filter_le [of is_digit "str_of_int i"] by linarith
  ultimately show ?thesis by (simp add: int_of_ustr_def)
qed

text \<open>An area written with any grouping of its digits, with or without its unit, is read as its number.\<close>

lemma parse_area_grouped:
  assumes "filter (\<lambda>c. c \<noteq> 32 \<and> c \<noteq> 160) s = ustr_of (str_of_nat n)" "\<not> uspace (hd s)" "\<not> uspace (last s)"
    and small: "length (str_of_nat n) \<le> INT_MAX_DIGITS"
  shows "parse_area (Some (s @ 32 # SQM)) = Some (int n)" "parse_area (Some s) = Some (int n)"
proof -
  have ne: "s \<noteq> []" using assms(1) by (auto simp: ustr_of_def)
  have digs: "set s \<subseteq> {32, 160} \<union> {48..57}"
  proof
    fix c assume c: "c \<in> set s"
    show "c \<in> {32, 160} \<union> {48..57}"
    proof (cases "c = 32 \<or> c = 160")
      case False
      with c have "c \<in> set (ustr_of (str_of_nat n))" unfolding assms(1) [symmetric] by simp
      then show ?thesis using str_of_nat_digits by (auto simp: ustr_of_def is_digit_def)
    qed auto
  qed
  then have no_unit: "hd SQM \<notin> set s" "hd SQM \<notin> set (s @ [32])" "hd SQM \<notin> set s" by (auto simp: SQM_def)
  have i: "int_of_ustr (drop_all [160] (drop_all [32] s)) = Inr (int n)" "drop_all [160] (drop_all [32] s) \<noteq> []"
    using int_of_udecimal [of "int n"] small assms(1) by (simp_all add: drop_all_single conj_commute str_of_int_def ustr_of_def)
  have drop: "drop_all SQM ((s @ [32]) @ SQM) = s @ [32]" using no_unit by (intro drop_all_end) (simp_all add: SQM_def)
  have same: "drop_all SQM s = s"
  proof -
    have "drop_all SQM t = t" if "1082 \<notin> set t" for t
      using that by (induction t) (auto simp: SQM_def)
    moreover have "hd SQM = 1082" by (simp add: SQM_def)
    ultimately show ?thesis using no_unit by simp
  qed
  have st: "ustrip s = s" using ne assms by (intro ustrip_ends)
  have "ustrip (s @ 32 # SQM) = s @ 32 # SQM" using ne assms by (intro ustrip_ends) (auto simp: SQM_def uspace_def)
  moreover have "ustrip (s @ [32]) = s"
  proof -
    have "dropWhile uspace (s @ [32]) = s @ [32]" using ne assms(2) by (cases s) auto
    moreover have "dropWhile uspace (32 # rev s) = rev s"
      using ne assms(3) by (cases s rule: rev_cases) (auto simp: uspace_def)
    ultimately show ?thesis by (simp add: ustrip_def)
  qed
  ultimately show "parse_area (Some (s @ 32 # SQM)) = Some (int n)"
    using ne i drop by (simp add: parse_area_def Let_def)
  show "parse_area (Some s) = Some (int n)" using ne i st same by (simp add: parse_area_def Let_def)
qed

subsection \<open>Properties\<close>

text \<open>
  Dates of a page. Whatever a cell says, a date read from it is the midnight of a day of the
  calendar, so its stored text is one the page cursor orders rightly; and the midnight of every
  day of the calendar is read back from its text \<^verbatim>\<open>DD.MM.YYYY\<close>.
\<close>

theorem page_dates_roundtrip:
  "(parse_date s = Some t \<longrightarrow> t mod us_per_day = 0 \<and> in_calendar t)
   \<and> (in_calendar u \<and> u mod us_per_day = 0 \<longrightarrow> parse_date (Some (dmy_text (date_of u))) = Some u)"
  using parse_date_midnight [of s t] parse_dmy_text [of u] by simp

theorem page_dates_roundtrip_witness:
  "parse_date (Some (dmy_text (date_of 0))) = Some 0 \<and> dmy_text (date_of 0) = ustr_of ''01.01.2000''"
proof -
  have c: "civil (date_of 0) = (2000, 1, 1)"
    by (simp add: date_of_def civil_def year_of.simps year_days_def is_leap_def month_lengths_def)
  then have "in_calendar 0" by (simp add: in_calendar_def)
  moreover have "dmy_text (date_of 0) = ustr_of ''01.01.2000''"
  proof -
    have "pad 4 2000 = ''2000''" "pad 2 1 = ''01''" by code_simp+
    then show ?thesis by (simp add: dmy_text_def c)
  qed
  ultimately show ?thesis using page_dates_roundtrip [of None 0 0] by simp
qed

text \<open>
  Normalising the permitted use is settled after one pass, for every upper-case table in which
  the forms it gives are upper case themselves, not empty and not blank; and a value that is not
  empty stays so.
\<close>

theorem normalize_vri_idempotent:
  assumes "\<forall>c. up c \<noteq> [] \<and> (\<forall>d \<in> set (up c). up d = [d])" and "\<forall>c. \<not> uspace c \<longrightarrow> (\<forall>d \<in> set (up c). \<not> uspace d)"
  shows "normalize_vri up (normalize_vri up vri) = normalize_vri up vri
    \<and> (vri \<noteq> Some [] \<longrightarrow> normalize_vri up vri \<noteq> Some [])"
proof (cases "vri = None \<or> vri = Some [] \<or> ustrip (the vri) = []")
  case True
  then show ?thesis by (cases vri) (auto simp: normalize_vri_def Let_def)
next
  case False
  then obtain v where vri: "vri = Some v" by (cases vri) simp_all
  with False have v: "vri = Some v" "v \<noteq> []" and ne: "ustrip v \<noteq> []" by simp_all
  let ?s = "ustrip v"
  have stable: "concat (map up (up c)) = up c" for c
  proof -
    have "concat (map up ds) = ds" if "\<forall>d \<in> set ds. up d = [d]" for ds using that by (induction ds) auto
    with assms(1) show ?thesis by blast
  qed
  have twice: "concat (map up (concat (map up cs))) = concat (map up cs)" for cs
    by (induction cs) (simp_all add: stable)
  obtain c cs where s: "?s = c # cs" using ne by (cases ?s) auto
  have ends: "\<not> uspace c" "\<not> uspace (last ?s)" using ustrip_facts [of v] ne s by auto
  have up_ends: "up x \<noteq> []" "\<not> uspace (hd (up x))" "\<not> uspace (last (up x))" if "\<not> uspace x" for x
  proof -
    show ne: "up x \<noteq> []" using assms(1) by simp
    have all: "\<forall>d \<in> set (up x). \<not> uspace d" using assms(2) that by simp
    show "\<not> uspace (hd (up x))" using all hd_in_set [OF ne] by simp
    show "\<not> uspace (last (up x))" using all last_in_set [OF ne] by simp
  qed
  note up_c = up_ends [OF ends(1)]
  have upper_blank: "concat (map up ?s) \<noteq> []" "\<not> uspace (hd (concat (map up ?s)))" "\<not> uspace (last (concat (map up ?s)))"
  proof -
    show "concat (map up ?s) \<noteq> []" "\<not> uspace (hd (concat (map up ?s)))" using up_c by (simp_all add: s)
    have "concat (map up (butlast ?s @ [last ?s])) = concat (map up (butlast ?s)) @ up (last ?s)" by simp
    then show "\<not> uspace (last (concat (map up ?s)))" using up_ends [OF ends(2)] ne by simp
  qed
  show ?thesis
  proof (cases "concat (map up ?s) \<in> set ABBREVIATIONS")
    case True
    with v ne upper_blank ustrip_ends [OF upper_blank] twice show ?thesis by (simp add: normalize_vri_def Let_def)
  next
    case False
    let ?r = "up c @ cs"
    have r: "normalize_vri up vri = Some ?r" using v ne False s by (simp add: normalize_vri_def Let_def)
    have "\<not> uspace (last ?r)" using ends(2) up_c s by (cases cs) auto
    with up_c have strip: "ustrip ?r = ?r" by (intro ustrip_ends) simp_all
    have same: "concat (map up ?r) = concat (map up ?s)" by (simp add: s stable)
    have "\<forall>d \<in> set (up c). up d = [d]" using assms(1) by simp
    then have "up (hd (up c)) = [hd (up c)]" using hd_in_set [OF up_c(1)] by blast
    then have head: "up (hd ?r) = [hd ?r]" using up_c by simp
    have "up (hd ?r) @ tl ?r = ?r" using head up_c by simp
    with strip same False up_c r show ?thesis by (simp add: normalize_vri_def Let_def)
  qed
qed

theorem normalize_vri_idempotent_witness:
  "normalize_vri (\<lambda>c. if 97 \<le> c \<and> c \<le> 122 then [c - 32] else [c])
     (normalize_vri (\<lambda>c. if 97 \<le> c \<and> c \<le> 122 then [c - 32] else [c]) (Some (ustr_of '' garden'')))
   = normalize_vri (\<lambda>c. if 97 \<le> c \<and> c \<le> 122 then [c - 32] else [c]) (Some (ustr_of '' garden''))
   \<and> normalize_vri (\<lambda>c. if 97 \<le> c \<and> c \<le> 122 then [c - 32] else [c]) (Some (ustr_of '' garden'')) = Some (ustr_of ''Garden'')"
proof -
  let ?up = "\<lambda>c::nat. if 97 \<le> c \<and> c \<le> 122 then [c - 32] else [c]"
  have up: "\<forall>c. ?up c \<noteq> [] \<and> (\<forall>d \<in> set (?up c). ?up d = [d])" by auto
  moreover have "\<forall>c. \<not> uspace c \<longrightarrow> (\<forall>d \<in> set (?up c). \<not> uspace d)" by (auto simp: uspace_def)
  moreover have "normalize_vri ?up (Some (ustr_of '' garden'')) = Some (ustr_of ''Garden'')"
    by (simp add: normalize_vri_def ustrip_def uspace_def ustr_of_def ABBREVIATIONS_def)
  ultimately show ?thesis using normalize_vri_idempotent [of ?up "Some (ustr_of '' garden'')"] by simp
qed

end
