(* ===== verification/Wizard_Routes.thy ===== *)
theory Wizard_Routes
  imports Settings_Routes Onboarding Page_Text
begin

text \<open>
  The requests of the first-run wizard (\<^verbatim>\<open>web/routes/onboarding.py\<close>), over the onboarding
  service, the configuration, the credentials and the test mail. A form field is absent, a text,
  or an uploaded file, which the code meets as an object whose \<^verbatim>\<open>str\<close> is kept. Of a page the
  reply keeps the step, the error shown and the settings; of the values put back into the form
  nothing.
\<close>

subsection \<open>Forms, errors and replies\<close>

datatype 'a field = Absent | Field_text 'a | Upload 'a

datatype input_error = No_host | No_login | No_password | Bad_port int

datatype wizard_error =
    Region_not_listed
  | No_region
  | Input_rejected input_error
  | Host_refused
  | Data_rejected
  | Connection_failed string
  | Mail_not_saved
  | No_recipient
  | Not_an_address ustr
  | Cannot_advance
  | Test_mail_unconfirmed

datatype wz_reply =
    Wizard_page nat "wizard_error option" config
  | Hx_redirect string
  | Redirect_302 string
  | State_json string string
  | Fragment_ok
  | Fragment_error wizard_error
  | Status_code nat
  | Wz_raises exc

definition validate_smtp_input :: "string \<Rightarrow> ustr \<Rightarrow> ustr \<Rightarrow> int \<Rightarrow> input_error option" where
  "validate_smtp_input smtp_host smtp_login smtp_pass smtp_port =
     (if smtp_host = [] then Some No_host
      else if smtp_login = [] then Some No_login
      else if smtp_pass = [] then Some No_password
      else if \<not> (1 \<le> smtp_port \<and> smtp_port \<le> 65535) then Some (Bad_port smtp_port)
      else None)"

text \<open>\<^verbatim>\<open>(form.get(k) or "").strip()\<close>: an upload has no such method.\<close>

fun stripped :: "('a list \<Rightarrow> 'a list) \<Rightarrow> 'a list field \<Rightarrow> 'a list res" where
  "stripped strp Absent = Inr []"
| "stripped strp (Field_text s) = Inr (strp s)"
| "stripped strp (Upload _) = Inl (OtherException ''AttributeError'')"

text \<open>\<^verbatim>\<open>_form_str(form, k)\<close>.\<close>

fun form_str :: "'a list field \<Rightarrow> 'a list res" where
  "form_str Absent = Inr []"
| "form_str (Field_text s) = Inr s"
| "form_str (Upload _) = Inl (OtherException ''TypeError'')"

text \<open>\<^verbatim>\<open>int(v or 0)\<close>, any failure being 0.\<close>

fun port_of :: "string field \<Rightarrow> int" where
  "port_of Absent = 0"
| "port_of (Field_text s) = (if s = [] then 0 else case int_of_str s of Inl _ \<Rightarrow> 0 | Inr n \<Rightarrow> n)"
| "port_of (Upload _) = 0"

record smtp_form =
  wf_host :: "string field"
  wf_login :: "ustr field"
  wf_pass :: "ustr field"
  wf_from_name :: "ustr field"
  wf_port :: "string field"

record recipient_form =
  rf_email :: "ustr field"
  rf_send_test :: bool

subsection \<open>The onboarding service over the stores\<close>

abbreviation onboarding_of :: "web_st \<Rightarrow> onboarding_state res" where
  "onboarding_of st \<equiv> get_onboarding kv_get (ws_kv st)"

definition advance_to :: "req_env \<Rightarrow> onboarding_state \<Rightarrow> onboarding_state \<Rightarrow> web_st \<Rightarrow> web_st \<times> unit res" where
  "advance_to e a b st =
     (case ob_advance kv_get kv_set (rq_now e 5) (settings.truncate (current_settings st)) (rq_now e 4) a b (ws_kv st) of
        Inl x \<Rightarrow> (st, Inl x)
      | Inr kv' \<Rightarrow> (st\<lparr>ws_kv := kv'\<rparr>, Inr ()))"

definition hx_redirect_to_step :: "web_st \<Rightarrow> wz_reply" where
  "hx_redirect_to_step st =
     (case url_for_current_step kv_get (ws_kv st) of Inl x \<Rightarrow> Wz_raises x | Inr url \<Rightarrow> Hx_redirect url)"

definition rerender :: "nat \<Rightarrow> wizard_error \<Rightarrow> web_st \<Rightarrow> wz_reply" where
  "rerender step err st = Wizard_page step (Some err) (current_settings st)"

fun is_state_mismatch :: "exc \<Rightarrow> onboarding_state \<Rightarrow> bool" where
  "is_state_mismatch (InvalidTransitionError cur _ _) expected_from = (cur \<noteq> onboarding_value expected_from)"
| "is_state_mismatch _ expected_from = False"

fun is_invalid_transition :: "exc \<Rightarrow> bool" where
  "is_invalid_transition (InvalidTransitionError _ _ _) = True"
| "is_invalid_transition _ = False"

text \<open>The end of every step: advance, and say where to go or why not.\<close>

definition finish_step ::
  "req_env \<Rightarrow> onboarding_state \<Rightarrow> onboarding_state \<Rightarrow> string \<Rightarrow> (exc \<Rightarrow> web_st \<Rightarrow> wz_reply) \<Rightarrow> web_st \<Rightarrow> web_st \<times> wz_reply" where
  "finish_step e a b url refused st =
     (case advance_to e a b st of
        (st', Inr _) \<Rightarrow> (st', Hx_redirect url)
      | (st', Inl x) \<Rightarrow> (st', if is_invalid_transition x then refused x st' else Wz_raises x))"

subsection \<open>Pages\<close>

definition mismatch_redirect :: "web_st \<Rightarrow> wz_reply" where
  "mismatch_redirect st =
     (case url_for_current_step kv_get (ws_kv st) of Inl x \<Rightarrow> Wz_raises x | Inr url \<Rightarrow> Redirect_302 url)"

definition STEP_FOR_URL :: "(string \<times> onboarding_state \<times> nat) list" where
  "STEP_FOR_URL =
     [(''regions'', Not_started, 1), (''smtp'', Regions_set, 2), (''recipients'', Smtp_configured, 3),
      (''test-email'', Recipients_set, 4)]"

text \<open>The page handlers differ only in their row of that table and in what they put on the page.\<close>

definition get_step_page :: "onboarding_state \<Rightarrow> nat \<Rightarrow> web_st \<Rightarrow> wz_reply" where
  "get_step_page required step st =
     (case onboarding_of st of
        Inl x \<Rightarrow> Wz_raises x
      | Inr cur \<Rightarrow> (if cur \<noteq> required then mismatch_redirect st else Wizard_page step None (current_settings st)))"

definition get_onboarding_entry :: "web_st \<Rightarrow> wz_reply" where
  "get_onboarding_entry st = mismatch_redirect st"

definition get_onboarding_regions :: "web_st \<Rightarrow> wz_reply" where
  "get_onboarding_regions = get_step_page Not_started 1"

definition get_onboarding_smtp :: "web_st \<Rightarrow> wz_reply" where
  "get_onboarding_smtp = get_step_page Regions_set 2"

definition get_onboarding_recipients :: "web_st \<Rightarrow> wz_reply" where
  "get_onboarding_recipients = get_step_page Smtp_configured 3"

definition get_onboarding_test_email :: "web_st \<Rightarrow> wz_reply" where
  "get_onboarding_test_email = get_step_page Recipients_set 4"

definition get_onboarding_state :: "web_st \<Rightarrow> wz_reply" where
  "get_onboarding_state st =
     (case onboarding_of st of
        Inl x \<Rightarrow> Wz_raises x
      | Inr cur \<Rightarrow> (case url_for_current_step kv_get (ws_kv st) of
                     Inl x \<Rightarrow> Wz_raises x | Inr url \<Rightarrow> State_json (onboarding_value cur) url))"

subsection \<open>Transitions by name\<close>

definition post_advance :: "req_env \<Rightarrow> string \<Rightarrow> string \<Rightarrow> web_st \<Rightarrow> web_st \<times> wz_reply" where
  "post_advance e from_state to_state st =
     (case onboarding_of_text (Plain from_state) of
        Inl _ \<Rightarrow> (st, Status_code 422)
      | Inr a \<Rightarrow>
          (case onboarding_of_text (Plain to_state) of
             Inl _ \<Rightarrow> (st, Status_code 422)
           | Inr b \<Rightarrow>
               (case advance_to e a b st of
                  (st', Inr _) \<Rightarrow> (st', Status_code 204)
                | (st', Inl x) \<Rightarrow> (st', if is_invalid_transition x then Status_code 409 else Wz_raises x))))"

definition post_skip_email :: "req_env \<Rightarrow> web_st \<Rightarrow> web_st \<times> wz_reply" where
  "post_skip_email e st =
     (case skip_email kv_get kv_set (rq_now e 5) (ws_kv st) of
        Inr kv' \<Rightarrow> (st\<lparr>ws_kv := kv'\<rparr>, Status_code 204)
      | Inl x \<Rightarrow> (st, if is_invalid_transition x then Status_code 409 else Wz_raises x))"

subsection \<open>Steps\<close>

fun slug_field :: "string field \<Rightarrow> int res" where
  "slug_field (Field_text slug) = slug_to_id slug"
| "slug_field _ = Inl KeyError"

definition handle_step1_next :: "req_env \<Rightarrow> string field list \<Rightarrow> web_st \<Rightarrow> web_st \<times> wz_reply" where
  "handle_step1_next e raw_slugs st =
     (case map_res slug_field raw_slugs of
        Inl _ \<Rightarrow> (st, rerender 1 Region_not_listed st)
      | Inr region_ids \<Rightarrow>
          (if region_ids = [] then (st, rerender 1 No_region st)
           else (case save_settings e ((current_settings st)\<lparr>set_regions := region_ids\<rparr>) st of
                   (st1, Inl x) \<Rightarrow> (st1, Wz_raises x)
                 | (st1, Inr _) \<Rightarrow>
                     finish_step e Not_started Regions_set ''/onboarding/smtp'' (\<lambda>x. hx_redirect_to_step) st1)))"

text \<open>Step 2 from the point where the credentials are built.\<close>

definition step2_save_and_test :: "req_env \<Rightarrow> smtp_creds \<Rightarrow> web_st \<Rightarrow> web_st \<times> wz_reply" where
  "step2_save_and_test e creds st =
     (case store_creds e creds st of
        (st1, Inl x) \<Rightarrow> (st1, if x = SmtpHostPolicyError then rerender 2 Host_refused st1 else Wz_raises x)
      | (st1, Inr _) \<Rightarrow>
          (case send_test e (sc_user creds) st1 of
             (st2, Inl x) \<Rightarrow> (st2, Wz_raises x)
           | (st2, Inr result) \<Rightarrow>
               (if \<not> nres_ok result
                then (st2, rerender 2 (Connection_failed (take 200 (nres_detail result))) st2)
                else finish_step e Regions_set Smtp_configured ''/onboarding/recipients''
                       (\<lambda>x st3. if is_state_mismatch x Regions_set then hx_redirect_to_step st3
                                else rerender 2 Mail_not_saved st3) st2)))"

definition handle_step2_next :: "req_env \<Rightarrow> smtp_form \<Rightarrow> web_st \<Rightarrow> web_st \<times> wz_reply" where
  "handle_step2_next e form st =
     (case stripped strip (wf_host form) of Inl x \<Rightarrow> (st, Wz_raises x) | Inr smtp_host \<Rightarrow>
      case stripped ustrip (wf_login form) of Inl x \<Rightarrow> (st, Wz_raises x) | Inr smtp_login \<Rightarrow>
      case stripped ustrip (wf_from_name form) of Inl x \<Rightarrow> (st, Wz_raises x) | Inr from_name \<Rightarrow>
        (let smtp_pass = (case wf_pass form of Absent \<Rightarrow> [] | Field_text s \<Rightarrow> s | Upload s \<Rightarrow> s);
             smtp_from_name = or_none (Some from_name);
             smtp_port = port_of (wf_port form)
         in case validate_smtp_input smtp_host smtp_login smtp_pass smtp_port of
              Some err \<Rightarrow> (st, rerender 2 (Input_rejected err) st)
            | None \<Rightarrow>
                (case mk_smtp_creds smtp_login smtp_pass smtp_host smtp_port True smtp_from_name of
                   Inl _ \<Rightarrow> (st, rerender 2 Data_rejected st)
                 | Inr creds \<Rightarrow> step2_save_and_test e creds st)))"

text \<open>The addresses of the field, validated from the left; the first that fails is shown.\<close>

fun first_bad :: "(ustr \<Rightarrow> ustr option) \<Rightarrow> ustr list \<Rightarrow> ustr list \<Rightarrow> ustr + ustr list" where
  "first_bad norm_addr [] acc = Inr acc"
| "first_bad norm_addr (p # ps) acc =
     (case norm_addr p of None \<Rightarrow> Inl p | Some v \<Rightarrow> first_bad norm_addr ps (acc @ [v]))"

definition handle_step3_next :: "req_env \<Rightarrow> recipient_form \<Rightarrow> web_st \<Rightarrow> web_st \<times> wz_reply" where
  "handle_step3_next e form st =
     (case stripped ustrip (rf_email form) of
        Inl x \<Rightarrow> (st, Wz_raises x)
      | Inr raw_email \<Rightarrow>
          (if raw_email = [] then (st, rerender 3 No_recipient st)
           else let raw_parts = filter (\<lambda>p. p \<noteq> []) (map ustrip (split_at 44 raw_email))
                in case first_bad (rq_norm_addr e) raw_parts [] of
                     Inl part \<Rightarrow> (st, rerender 3 (Not_an_address part) st)
                   | Inr validated \<Rightarrow>
                       (if validated = [] then (st, rerender 3 No_recipient st)
                        else (case save_settings e ((current_settings st)\<lparr>set_email_recipients := validated\<rparr>) st of
                                (st1, Inl x) \<Rightarrow> (st1, Wz_raises x)
                              | (st1, Inr _) \<Rightarrow>
                                  (let st2 = (if rf_send_test form then fst (send_test e (hd validated) st1) else st1)
                                   in finish_step e Smtp_configured Recipients_set ''/onboarding/test-email''
                                        (\<lambda>x st3. if is_state_mismatch x Smtp_configured then hx_redirect_to_step st3
                                                 else rerender 3 Cannot_advance st3) st2)))))"

definition handle_step4_next :: "req_env \<Rightarrow> web_st \<Rightarrow> web_st \<times> wz_reply" where
  "handle_step4_next e st =
     finish_step e Recipients_set Completed ''/''
       (\<lambda>x st'. if is_state_mismatch x Recipients_set then hx_redirect_to_step st'
                else rerender 4 Test_mail_unconfirmed st') st"

text \<open>\<open>wp_action\<close> is the text of the field, \<^verbatim>\<open>str\<close> of it for an upload.\<close>

record wizard_post =
  wp_step :: int
  wp_action :: "string field"
  wp_regions :: "string field list"
  wp_smtp :: smtp_form
  wp_recipient :: recipient_form

definition post_onboarding_save :: "req_env \<Rightarrow> wizard_post \<Rightarrow> web_st \<Rightarrow> web_st \<times> wz_reply" where
  "post_onboarding_save e p st =
     (let action = (case wp_action p of
                      Absent \<Rightarrow> ''next'' | Field_text s \<Rightarrow> (if s = [] then ''next'' else s) | Upload s \<Rightarrow> s)
      in if (wp_step p, action) = (1, ''next'') then handle_step1_next e (wp_regions p) st
         else if (wp_step p, action) = (2, ''next'') then handle_step2_next e (wp_smtp p) st
         else if (wp_step p, action) = (3, ''next'') then handle_step3_next e (wp_recipient p) st
         else if (wp_step p, action) = (4, ''next'') then handle_step4_next e st
         else (st, Status_code 400))"

subsection \<open>The test button\<close>

definition SMTP_TEST_WINDOW :: int where "SMTP_TEST_WINDOW = 10 * us_per_second"

definition post_onboarding_smtp_test :: "req_env \<Rightarrow> string \<Rightarrow> time \<Rightarrow> smtp_form \<Rightarrow> web_st \<Rightarrow> web_st \<times> wz_reply" where
  "post_onboarding_smtp_test e ip now form st0 =
     (let (windows', allowed) = acquire 1 SMTP_TEST_WINDOW ip now (ws_windows st0);
          st = st0\<lparr>ws_windows := windows'\<rparr>
      in if \<not> allowed then (st, Status_code 429)
         else
           case map_sum id strip (form_str (wf_host form)) of Inl x \<Rightarrow> (st, Wz_raises x) | Inr smtp_host \<Rightarrow>
           case map_sum id ustrip (form_str (wf_login form)) of Inl x \<Rightarrow> (st, Wz_raises x) | Inr smtp_login \<Rightarrow>
           case form_str (wf_pass form) of Inl x \<Rightarrow> (st, Wz_raises x) | Inr smtp_pass \<Rightarrow>
             (let smtp_port = port_of (wf_port form)
              in case validate_smtp_input smtp_host smtp_login smtp_pass smtp_port of
                   Some err \<Rightarrow> (st, Fragment_error (Input_rejected err))
                 | None \<Rightarrow>
                     (case mk_smtp_creds smtp_login smtp_pass smtp_host smtp_port True None of
                        Inl _ \<Rightarrow> (st, Fragment_error Data_rejected)
                      | Inr creds \<Rightarrow>
                          (case store_creds e creds st of
                             (st1, Inl x) \<Rightarrow> (st1, if x = SmtpHostPolicyError then Fragment_error Host_refused else Wz_raises x)
                           | (st1, Inr _) \<Rightarrow>
                               (case send_test e smtp_login st1 of
                                  (st2, Inl x) \<Rightarrow> (st2, Wz_raises x)
                                | (st2, Inr result) \<Rightarrow>
                                    (st2, if nres_ok result then Fragment_ok
                                          else Fragment_error (Connection_failed (take 200 (nres_detail result)))))))))"

subsection \<open>What the mailbox step does\<close>

text \<open>The credentials a form of step 2 stands for, if it can be read and its fields are accepted.\<close>

definition step2_creds :: "smtp_form \<Rightarrow> smtp_creds option" where
  "step2_creds form =
     (case (stripped strip (wf_host form), stripped ustrip (wf_login form), stripped ustrip (wf_from_name form)) of
        (Inr smtp_host, Inr smtp_login, Inr from_name) \<Rightarrow>
          (let smtp_pass = (case wf_pass form of Absent \<Rightarrow> [] | Field_text s \<Rightarrow> s | Upload s \<Rightarrow> s);
               smtp_port = port_of (wf_port form)
           in if validate_smtp_input smtp_host smtp_login smtp_pass smtp_port = None
              then Some \<lparr>sc_user = smtp_login, sc_password = smtp_pass, sc_host = smtp_host, sc_port = smtp_port,
                         sc_use_default = True, sc_from_name = or_none (Some from_name)\<rparr>
              else None)
      | _ \<Rightarrow> None)"

lemma step2_rejected: "step2_creds form = None \<Longrightarrow> fst (handle_step2_next e form st) = st"
  by (auto simp: step2_creds_def handle_step2_next_def Let_def split: sum.splits option.splits if_splits)

lemma step2_accepted:
  assumes "step2_creds form = Some creds"
  shows "or_none (sc_from_name creds) = sc_from_name creds"
    and "handle_step2_next e form st = step2_save_and_test e creds st"
proof -
  obtain h l f where fields: "stripped strip (wf_host form) = Inr h" "stripped ustrip (wf_login form) = Inr l"
    "stripped ustrip (wf_from_name form) = Inr f"
    using assms by (auto simp: step2_creds_def split: sum.splits)
  let ?p = "case wf_pass form of Absent \<Rightarrow> [] | Field_text s \<Rightarrow> s | Upload s \<Rightarrow> s"
  have v: "validate_smtp_input h l ?p (port_of (wf_port form)) = None"
    and c: "creds = \<lparr>sc_user = l, sc_password = ?p, sc_host = h, sc_port = port_of (wf_port form), sc_use_default = True,
                    sc_from_name = or_none (Some f)\<rparr>"
    using assms by (auto simp: step2_creds_def fields Let_def split: if_splits)
  have port: "1 \<le> port_of (wf_port form) \<and> port_of (wf_port form) \<le> 65535"
    using v by (simp add: validate_smtp_input_def split: if_splits)
  show "or_none (sc_from_name creds) = sc_from_name creds" by (simp add: c or_none_def)
  have "mk_smtp_creds l ?p h (port_of (wf_port form)) True (or_none (Some f)) = Inr creds"
    using port by (simp add: mk_smtp_creds_def c)
  then show "handle_step2_next e form st = step2_save_and_test e creds st"
    by (simp add: handle_step2_next_def fields Let_def v)
qed

lemma send_test_facts:
  assumes "send_test e rcpt st = (st', r)"
  shows "ws_cfg st' = ws_cfg st" "ws_creds st' = ws_creds st" "onboarding_of st' = onboarding_of st"
    and "is_email_skipped kv_get (ws_kv st') = is_email_skipped kv_get (ws_kv st)"
    and "r = snd (smtp_send (rq_server e) (rq_resolver e) (rq_sha e) (rq_base_url e) (ws_creds st) test_lot_fixture rcpt)"
    and "r = Inr result \<Longrightarrow> nres_ok result \<Longrightarrow>
      smtp_test_ok_within_ttl kv_get (ws_kv st') now = (now - rq_now e 1 \<le> SMTP_TEST_OK_TTL)"
  using assms
  by (auto simp: send_test_def test_send_def Let_def onboarding_keys kv.get_put get_onboarding_def is_email_skipped_def
      smtp_test_ok_within_ttl_def split: sum.splits prod.splits if_splits)

lemma step2_passes:
  assumes "step2_creds form = Some creds" "onboarding_of st = Inr Regions_set"
    and store: "store_creds e creds st = (st1, Inr ())" and test: "send_test e (sc_user creds) st1 = (st2, Inr result)" "nres_ok result"
  shows "if rq_now e 4 - rq_now e 1 \<le> SMTP_TEST_OK_TTL \<or> is_email_skipped kv_get (ws_kv st)
    then handle_step2_next e form st =
      (st2\<lparr>ws_kv := set_onboarding kv_set (rq_now e 5) Smtp_configured (ws_kv st2)\<rparr>, Hx_redirect ''/onboarding/recipients'')
    else handle_step2_next e form st = (st2, rerender 2 Mail_not_saved st2)"
proof -
  note t = send_test_facts [OF test(1)] and s = store_creds_cfg [OF store]
  have "onboarding_of st2 = Inr Regions_set" "is_email_skipped kv_get (ws_kv st2) = is_email_skipped kv_get (ws_kv st)"
    using t s assms(2) by simp_all
  with t(6) [OF refl test(2)] show ?thesis
    by (simp add: step2_accepted(2) [OF assms(1)] step2_save_and_test_def store test finish_step_def advance_to_def ob_advance_def can_advance_def)
qed

lemma step2_fails:
  assumes "step2_creds form = Some creds" "store_creds e creds st = (st1, r1)"
    and "r1 = Inr () \<Longrightarrow> send_test e (sc_user creds) st1 = (st2, r2)" "r1 = Inr () \<Longrightarrow> \<forall>result. r2 = Inr result \<longrightarrow> \<not> nres_ok result"
  shows "onboarding_of (fst (handle_step2_next e form st)) = onboarding_of st"
  using assms store_creds_cfg [OF assms(2)] send_test_facts(3)
  by (auto simp: step2_accepted(2) [OF assms(1)] step2_save_and_test_def split: sum.split)

subsection \<open>Properties\<close>

text \<open>
  C29. The mailbox step, exactly. In the state it belongs to, the form of step 2 moves the wizard on
  if and only if its fields are accepted, the host passes the policy, the credentials stored in
  this request are the ones of the form, a test mail to the login is delivered with them, and the
  result is not older than the five minutes allowed (or mail was skipped before); the answer then
  leads to the recipients. In every other case the wizard stays where it is.
\<close>

theorem mailbox_step_exact:
  assumes "onboarding_of st = Inr Regions_set"
  shows "let st' = fst (handle_step2_next e form st);
             passed = (\<exists>creds result. step2_creds form = Some creds
                 \<and> snd (store_creds e creds st) = Inr () \<and> creds_load (ws_creds st') = Inr (Some creds)
                 \<and> snd (smtp_send (rq_server e) (rq_resolver e) (rq_sha e) (rq_base_url e) (ws_creds st') test_lot_fixture (sc_user creds))
                     = Inr result \<and> nres_ok result
                 \<and> (rq_now e 4 - rq_now e 1 \<le> SMTP_TEST_OK_TTL \<or> is_email_skipped kv_get (ws_kv st)))
         in onboarding_of st' = Inr (if passed then Smtp_configured else Regions_set)
            \<and> (passed \<longrightarrow> snd (handle_step2_next e form st) = Hx_redirect ''/onboarding/recipients'')"
proof (cases "step2_creds form")
  case None
  with assms show ?thesis by (simp add: step2_rejected)
next
  case (Some creds)
  obtain st1 r1 where store: "store_creds e creds st = (st1, r1)" by fastforce
  obtain st2 r2 where test: "send_test e (sc_user creds) st1 = (st2, r2)" by fastforce
  note t = send_test_facts [OF test] and s = store_creds_cfg [OF store]
  show ?thesis
  proof (cases "r1 = Inr () \<and> (\<exists>result. r2 = Inr result \<and> nres_ok result)")
    case True
    then obtain result where r: "r1 = Inr ()" "r2 = Inr result" "nres_ok result" by blast
    have "set_smtp_credentials (rq_resolver e) (rq_now e 3) creds (ws_creds st) = (ws_creds st1, Inr ())"
      using store r(1) by (auto simp: store_creds_def split: prod.splits)
    then have load: "creds_load (ws_creds st2) = Inr (Some creds)"
      using creds_roundtrip step2_accepted(1) [OF Some] t(2) by fastforce
    have on: "onboarding_of st2 = Inr Regions_set" using t(3) s assms by simp
    let ?h = "handle_step2_next e form st"
    let ?fresh = "rq_now e 4 - rq_now e 1 \<le> SMTP_TEST_OK_TTL \<or> is_email_skipped kv_get (ws_kv st)"
    have h: "if ?fresh then ?h = (st2\<lparr>ws_kv := set_onboarding kv_set (rq_now e 5) Smtp_configured (ws_kv st2)\<rparr>,
          Hx_redirect ''/onboarding/recipients'') else ?h = (st2, rerender 2 Mail_not_saved st2)"
      by (rule step2_passes [OF Some assms _ _ r(3)]) (use store test r in simp_all)
    have end': "ws_creds (fst ?h) = ws_creds st2" "onboarding_of (fst ?h) = Inr (if ?fresh then Smtp_configured else Regions_set)"
      "?fresh \<longrightarrow> snd ?h = Hx_redirect ''/onboarding/recipients''"
      using h on by (auto split: if_splits)
    have sent: "snd (smtp_send (rq_server e) (rq_resolver e) (rq_sha e) (rq_base_url e) (ws_creds st2) test_lot_fixture
        (sc_user creds)) = Inr result"
      using t(2,5) r(2) by simp
    show ?thesis unfolding Let_def using end' load sent r store Some by simp
  next
    case False
    have "onboarding_of (fst (handle_step2_next e form st)) = Inr Regions_set"
      using step2_fails [OF Some store, of st2 r2] test False assms by auto
    moreover have "ws_creds (fst (handle_step2_next e form st)) = ws_creds st2" if "r1 = Inr ()"
      using that False t(2) by (auto simp: step2_accepted(2) [OF Some] step2_save_and_test_def store test split: sum.split)
    ultimately show ?thesis unfolding Let_def using False t(2,5) Some store by (cases "r1 = Inr ()") auto
  qed
qed

text \<open>
  C37. A late first step rewrites the regions. When the form of step 1 is sent again after the
  wizard has moved on, the answer only leads back to the current step, and yet the regions in
  force, the file and the region subscriptions have been changed: the handler saves before it
  looks at the state.
\<close>

theorem late_first_step_rewrites_regions:
  assumes "onboarding_of st = Inr cur" "cur \<noteq> Not_started" "map_res slug_field slugs = Inr ids" "ids \<noteq> []"
    and "rq_written e = Inr ()"
  shows "let (st', reply) = handle_step1_next e slugs st
         in reply = Hx_redirect (state_url cur) \<and> onboarding_of st' = Inr cur
            \<and> current_settings st' = (current_settings st)\<lparr>set_regions := ids\<rparr>
            \<and> cs_file (ws_cfg st') = Some (js_dump (rq_json e) ((current_settings st)\<lparr>set_regions := ids\<rparr>))
            \<and> cs_subs (ws_cfg st') = apply_region_diff (rq_now e 0) (set_regions (current_settings st)) ids (cs_subs (ws_cfg st))"
  using assms
  by (simp add: handle_step1_next_def save_settings_def cfg_save_def finish_step_def advance_to_def ob_advance_def
      hx_redirect_to_step_def url_for_current_step_def Let_def)

definition demo_req :: req_env where
  "demo_req = \<lparr>rq_json = demo_json, rq_now = (\<lambda>_. 0), rq_written = Inr (),
     rq_resolver = (\<lambda>_ _. Dns_records [Record AF_INET ''8.8.8.8'']), rq_server = willing_server, rq_sha = (\<lambda>_. []),
     rq_base_url = [], rq_norm_addr = Some\<rparr>"

definition demo_form :: smtp_form where
  "demo_form = \<lparr>wf_host = Field_text '' dns.google'', wf_login = Field_text [97], wf_pass = Field_text [98],
     wf_from_name = Absent, wf_port = Field_text ''465''\<rparr>"

definition demo_state :: "onboarding_state \<Rightarrow> web_st" where
  "demo_state cur = \<lparr>ws_cfg = cfg_init demo_json (\<lambda>_. None) 7 True None [],
     ws_kv = set_onboarding kv_set 0 cur Map.empty, ws_creds = None, ws_windows = Map.empty\<rparr>"

lemma demo_step2_creds: "step2_creds demo_form = Some demo_creds"
  by (simp add: step2_creds_def demo_form_def demo_creds_def strip_def is_space_def ustrip_def uspace_def validate_smtp_input_def
      int_of_str_def int_strip_def int_space_def is_digit_def digit_val_def or_none_def Let_def)

lemma demo_store: "\<exists>row. store_creds demo_req demo_creds st = (st\<lparr>ws_creds := Some row\<rparr>, Inr ()) \<and> creds_load (Some row) = Inr (Some demo_creds)"
proof -
  obtain table r where s: "set_smtp_credentials (rq_resolver demo_req) (rq_now demo_req 3) demo_creds (ws_creds st) = (table, r)"
    by fastforce
  have "strip ''dns.google'' \<noteq> []" by (simp add: strip_def is_space_def)
  then have r: "r = Inr ()" using s
    by (auto simp: set_smtp_credentials_def demo_creds_def demo_req_def demo_endpoint creds_save_def)
  have "creds_load table = Inr (Some demo_creds)"
    using creds_roundtrip [of "rq_resolver demo_req" "rq_now demo_req 3" demo_creds "ws_creds st" table] s r
    by (simp add: demo_creds_def or_none_def)
  moreover from this obtain row where "table = Some row" by (cases table) (auto simp: creds_load_def)
  ultimately show ?thesis using s r by (auto simp: store_creds_def)
qed

lemma demo_delivery:
  assumes "creds_load table = Inr (Some demo_creds)"
  shows "\<exists>result. snd (smtp_send (rq_server demo_req) (rq_resolver demo_req) (rq_sha demo_req) (rq_base_url demo_req) table
      test_lot_fixture rcpt) = Inr result \<and> nres_ok result"
proof -
  let ?m = "build_lot_message (\<lambda>_. []) [] test_lot_fixture rcpt demo_creds"
  have ep: "resolve_and_check (\<lambda>_ _. Dns_records [Record AF_INET ''8.8.8.8'']) (sc_host demo_creds) (sc_port demo_creds) =
      Inr \<lparr>ep_ip = V4 0x08080808, ep_family = AF_INET, ep_port = 465, ep_host = ''dns.google''\<rparr>"
    by (simp add: demo_creds_def demo_endpoint)
  then have "snd (deliver willing_server (\<lambda>_ _. Dns_records [Record AF_INET ''8.8.8.8'']) ?m demo_creds) = nres True ''sent'' False"
    by (simp add: deliver_def connect_implicit_tls_def act_def willing_server_def IMPLICIT_TLS_PORT_def hang_up_def)
  moreover have "sv_headers willing_server ?m = Inr ()" by (simp add: willing_server_def)
  ultimately show ?thesis
    by (simp add: smtp_send_def smtp_notify_def assms demo_req_def nres_def mk_notify_result_def)
qed

lemma demo_now: "rq_now demo_req k = 0"
  by (simp add: demo_req_def)

lemma demo_step2:
  assumes "onboarding_of st = Inr Regions_set"
  shows "onboarding_of (fst (handle_step2_next demo_req demo_form st)) = Inr Smtp_configured"
proof -
  obtain row where row: "store_creds demo_req demo_creds st = (st\<lparr>ws_creds := Some row\<rparr>, Inr ())"
    "creds_load (Some row) = Inr (Some demo_creds)"
    using demo_store by blast
  obtain st2 r2 where test: "send_test demo_req (sc_user demo_creds) (st\<lparr>ws_creds := Some row\<rparr>) = (st2, r2)" by fastforce
  obtain result where r: "r2 = Inr result" "nres_ok result"
    using demo_delivery [OF row(2)] send_test_facts(5) [OF test] by auto
  from step2_passes [OF demo_step2_creds assms row(1) test [unfolded r(1)] r(2)] show ?thesis
    by (simp add: demo_now SMTP_TEST_OK_TTL_def less_imp_le)
qed

theorem mailbox_step_exact_witness:
  "onboarding_of (fst (handle_step2_next demo_req demo_form (demo_state Regions_set))) = Inr Smtp_configured
   \<and> snd (handle_step2_next demo_req demo_form (demo_state Regions_set)) = Hx_redirect ''/onboarding/recipients''"
proof -
  have on: "onboarding_of (demo_state Regions_set) = Inr Regions_set" by (simp add: demo_state_def)
  from demo_step2 [OF on] have moved: "onboarding_of (fst (handle_step2_next demo_req demo_form (demo_state Regions_set))) = Inr Smtp_configured" .
  with mailbox_step_exact [OF on, of demo_req demo_form] show ?thesis unfolding Let_def by (auto split: if_splits)
qed

theorem late_first_step_rewrites_regions_witness:
  "snd (handle_step1_next demo_req [Field_text ''arctic''] (demo_state Completed)) = Hx_redirect ''/''
   \<and> set_regions (current_settings (demo_state Completed)) = [1, 2]
   \<and> set_regions (current_settings (fst (handle_step1_next demo_req [Field_text ''arctic''] (demo_state Completed)))) = [2]"
proof -
  have on: "onboarding_of (demo_state Completed) = Inr Completed" by (simp add: demo_state_def)
  have ids: "map_res slug_field [Field_text ''arctic''] = Inr [2]" by (simp add: slug_to_id_def REGION_BY_SLUG_def)
  have w: "rq_written demo_req = Inr ()" by (simp add: demo_req_def)
  have "set_regions (current_settings (demo_state Completed)) = [1, 2]"
    by (simp add: demo_state_def cfg_init_def Let_def default_config_def apply_env_overrides_def env_value_def)
  with late_first_step_rewrites_regions [OF on _ ids _ w] show ?thesis by (auto split: prod.splits)
qed

end
