(* ===== verification/Web_History.thy ===== *)
theory Web_History
  imports Wizard_Routes
begin

text \<open>
  Histories of settings and wizard requests, with what happens to the configuration behind them:
  what is in force stays well formed, and how far the wizard has come is evidence of the mail
  that was delivered.
\<close>

subsection \<open>Histories\<close>

datatype web_req =
    R_suggest string
  | R_smtp ustr ustr string int bool "ustr option"
  | R_smtp_test ustr
  | R_regions "int list"
  | R_recipients "ustr list"
  | R_subjects "int list"
  | R_schedule string string
  | R_advance string string
  | R_skip
  | R_wizard wizard_post
  | R_wizard_test string time smtp_form

fun web_request :: "req_env \<Rightarrow> web_req \<Rightarrow> web_st \<Rightarrow> web_st" where
  "web_request e (R_suggest email) st = st"
| "web_request e (R_smtp u p h port d f) st = fst (post_smtp e u p h port d f st)"
| "web_request e (R_smtp_test rcpt) st = fst (post_smtp_test e rcpt st)"
| "web_request e (R_regions ids) st = fst (post_regions e ids st)"
| "web_request e (R_recipients rs) st = fst (post_recipients e rs st)"
| "web_request e (R_subjects ids) st = fst (post_subjects e ids st)"
| "web_request e (R_schedule i t) st = fst (post_schedule e i t st)"
| "web_request e (R_advance a b) st = fst (post_advance e a b st)"
| "web_request e R_skip st = fst (post_skip_email e st)"
| "web_request e (R_wizard p) st = fst (post_onboarding_save e p st)"
| "web_request e (R_wizard_test ip now form) st = fst (post_onboarding_smtp_test e ip now form st)"

text \<open>
  A request, or something that happens to the configuration behind the pages: an edit of the
  file, a reload, a restart. A restart empties the limiter.
\<close>

datatype ui_op = Web req_env web_req | Behind cfg_op

type_synonym web_world = "(string \<Rightarrow> string option) \<times> web_st"

fun ui_step :: "json_lib \<Rightarrow> ui_op \<Rightarrow> web_world \<Rightarrow> web_world" where
  "ui_step js (Web e r) (env, st) = (env, web_request e r st)"
| "ui_step js (Behind op) (env, st) =
     (let (env', cfg') = cfg_step js op (env, ws_cfg st)
      in (env', st\<lparr>ws_cfg := cfg', ws_windows := (case op of cfg_op.Restart _ _ _ \<Rightarrow> Map.empty | _ \<Rightarrow> ws_windows st)\<rparr>))"

definition ui_run :: "json_lib \<Rightarrow> ui_op list \<Rightarrow> web_world \<Rightarrow> web_world" where
  "ui_run js ops w = fold (ui_step js) ops w"

lemma ui_run_simps [simp]: "ui_run js [] w = w" "ui_run js (op # ops) w = ui_run js ops (ui_step js op w)"
  by (simp_all add: ui_run_def)

text \<open>The first start: empty tables, and whatever the file holds.\<close>

definition first_start :: "json_lib \<Rightarrow> (string \<Rightarrow> string option) \<Rightarrow> time \<Rightarrow> bool \<Rightarrow> nat list option \<Rightarrow> web_world" where
  "first_start js env now readable content =
     (env, \<lparr>ws_cfg = cfg_init js env now readable content [], ws_kv = Map.empty, ws_creds = None, ws_windows = Map.empty\<rparr>)"

subsection \<open>Settings in force\<close>

definition env_ok :: "(string \<Rightarrow> string option) \<Rightarrow> bool" where
  "env_ok env \<longleftrightarrow>
     (case env_value env ''FIS_TARGET__BASE_URL'' of None \<Rightarrow> True | Some v \<Rightarrow> base_url_ok v)
     \<and> (case env_value env ''FIS_TARGET__REQUEST_TIMEOUT_SECONDS'' of
          None \<Rightarrow> True | Some v \<Rightarrow> (case int_of_str v of Inl _ \<Rightarrow> True | Inr n \<Rightarrow> 1 \<le> n \<and> n \<le> 300))"

lemma env_keeps:
  assumes "env_ok env" "settings_ok n ui c"
  shows "settings_ok n ui (apply_env_overrides env c)"
  using assms by (auto simp: env_ok_def apply_env_overrides_def settings_ok_def config_ok_def target_ok_def ui_ok_def Let_def
      split: option.splits sum.splits)

lemma cfg_step_keeps:
  assumes "settings_ok n ui (cs_current cfg)" "env_ok env" "cfg_step js op (env, cfg) = (env', cfg')"
    and parser: "\<And>raw c. js_parse js raw = Inr c \<Longrightarrow> settings_ok n ui c"
    and "\<And>v t r. op = cfg_op.Restart v t r \<Longrightarrow> env_ok v" "\<And>t r c. op = Save_config t r c \<Longrightarrow> settings_ok n ui c"
  shows "settings_ok n ui (cs_current cfg') \<and> env_ok env'"
proof (cases op)
  case (Timer_fires r)
  obtain st' job where rr: "reload_read js (re_stat_ok r) (re_read_ok r) (re_now r) cfg = (st', job)" by fastforce
  have same: "cs_current st' = cs_current cfg"
    using rr by (auto simp: reload_read_def reload_error_def Let_def split: option.splits if_splits)
  have "settings_ok n ui (cs_current (do_reload js env r cfg))"
  proof (cases job)
    case None
    with rr same assms(1) show ?thesis by (simp add: do_reload_def)
  next
    case (Some j)
    obtain raw digest old where j: "j = (raw, digest, old)" by (cases j)
    show ?thesis
    proof (cases "js_parse js raw")
      case (Inl x)
      with rr same Some j assms(1) show ?thesis by (simp add: do_reload_def reload_swap_def reload_error_def)
    next
      case (Inr c)
      with rr Some j env_keeps [OF assms(2) parser [OF Inr]] show ?thesis
        by (auto simp: do_reload_def reload_swap_def Let_def)
    qed
  qed
  with Timer_fires assms show ?thesis by (auto split: if_splits)
next
  case (Save_config t r c)
  with assms show ?thesis by (auto simp: cfg_save_def Let_def split: sum.splits)
next
  case (Restart v t r)
  have load: "settings_ok n ui (cs_current (cfg_init js v t r content subs))" for content subs
    using env_keeps [OF assms(5) [OF Restart]] parser settings_ok_default
    by (auto simp: cfg_init_def Let_def split: option.split sum.split)
  with Restart assms show ?thesis by auto
qed (use assms in \<open>auto simp: cfg_on_event_def cfg_subscribe_def cfg_unsubscribe_def\<close>)

lemma finish_step_cfg: "ws_cfg (fst (finish_step e a b url refused st)) = ws_cfg st"
  by (auto simp: finish_step_def advance_to_def split: sum.split)

lemma handle_step1_keeps:
  assumes "settings_ok n ui (current_settings st)"
  shows "settings_ok n ui (current_settings (fst (handle_step1_next e slugs st)))"
proof (cases "map_res slug_field slugs")
  case (Inr ids)
  let ?new = "(current_settings st)\<lparr>set_regions := ids\<rparr>"
  obtain st' r where s: "save_settings e ?new st = (st', r)" by fastforce
  have "set ids \<subseteq> set VALID_MACRO_IDS"
  proof
    fix i assume "i \<in> set ids"
    then obtain j where "j < length slugs" "slug_field (slugs ! j) = Inr i"
      using map_res_InrD [OF Inr] by (metis in_set_conv_nth)
    then show "i \<in> set VALID_MACRO_IDS"
      by (cases "slugs ! j") (auto simp: slug_to_id_def VALID_MACRO_IDS_def REGION_BY_SLUG_def split: option.splits if_splits)
  qed
  then have "settings_ok n ui ?new" if "ids \<noteq> []"
    using that by (intro settings_ok_updates(1) [OF assms])
  with assms save_settings_current [OF s] show ?thesis
    by (simp add: handle_step1_next_def Inr s finish_step_cfg split: sum.split)
qed (use assms in \<open>simp add: handle_step1_next_def\<close>)

lemma first_bad_fixed:
  assumes "\<And>a b. n a = Some b \<Longrightarrow> n b = Some b"
  shows "first_bad n ps acc = Inr ys \<Longrightarrow> \<forall>y \<in> set acc. n y = Some y \<Longrightarrow> \<forall>y \<in> set ys. n y = Some y"
proof (induction ps arbitrary: acc)
  case (Cons p ps)
  from Cons.prems(1) obtain v where v: "n p = Some v" by (cases "n p") simp_all
  with assms [OF v] Cons.prems show ?case by (intro Cons.IH [of "acc @ [v]"]) simp_all
qed simp

lemma handle_step3_keeps:
  assumes "settings_ok (rq_norm_addr e) ui (current_settings st)" "\<And>a b. rq_norm_addr e a = Some b \<Longrightarrow> rq_norm_addr e b = Some b"
  shows "settings_ok (rq_norm_addr e) ui (current_settings (fst (handle_step3_next e form st)))"
proof (cases "stripped ustrip (rf_email form)")
  case (Inr raw)
  note Inr1 = this
  show ?thesis
  proof (cases "first_bad (rq_norm_addr e) (filter (\<lambda>p. p \<noteq> []) (map ustrip (split_at 44 raw))) []")
    case (Inr ys)
    let ?new = "(current_settings st)\<lparr>set_email_recipients := ys\<rparr>"
    obtain st' r where s: "save_settings e ?new st = (st', r)" by fastforce
    obtain st2 r2 where t: "send_test e (hd ys) st' = (st2, r2)" by fastforce
    have "settings_ok (rq_norm_addr e) ui ?new"
      using first_bad_fixed [OF assms(2) Inr] by (intro settings_ok_updates(2) [OF assms(1)]) simp
    with assms save_settings_current [OF s] send_test_cfg [OF t] show ?thesis
      by (simp add: handle_step3_next_def Inr1 Inr s t Let_def finish_step_cfg split: sum.split)
  qed (use assms in \<open>simp add: handle_step3_next_def Inr1 Let_def\<close>)
qed (use assms in \<open>simp add: handle_step3_next_def\<close>)

lemma creds_dialogs_keep:
  "ws_cfg (fst (handle_step2_next e form st)) = ws_cfg st"
  "ws_cfg (fst (post_onboarding_smtp_test e ip now form st)) = ws_cfg st"
proof -
  have tested: "ws_cfg st2 = ws_cfg st0" if "send_test e r st1 = (st2, x)" "store_creds e c st0 = (st1, y)" for r st0 st1 st2 x y c
    using send_test_cfg [OF that(1)] store_creds_cfg [OF that(2)] by simp
  show "ws_cfg (fst (handle_step2_next e form st)) = ws_cfg st"
    by (auto simp: handle_step2_next_def step2_save_and_test_def Let_def finish_step_cfg dest: store_creds_cfg tested split: sum.split option.split prod.split)
  show "ws_cfg (fst (post_onboarding_smtp_test e ip now form st)) = ws_cfg st"
    by (auto simp: post_onboarding_smtp_test_def Let_def dest: store_creds_cfg tested split: sum.split option.split prod.split)
qed

lemma transitions_keep:
  "ws_cfg (fst (post_advance e a b st)) = ws_cfg st" "ws_cfg (fst (post_skip_email e st)) = ws_cfg st"
  "ws_cfg (fst (handle_step4_next e st)) = ws_cfg st"
  by (auto simp: post_advance_def post_skip_email_def advance_to_def handle_step4_next_def finish_step_cfg split: sum.split)

lemma request_settings_ok:
  assumes "settings_ok (rq_norm_addr e) ui (current_settings st)" "\<And>a b. rq_norm_addr e a = Some b \<Longrightarrow> rq_norm_addr e b = Some b"
  shows "settings_ok (rq_norm_addr e) ui (current_settings (web_request e r st))"
proof (cases r)
  case (R_wizard p)
  have "settings_ok (rq_norm_addr e) ui (current_settings (fst (post_onboarding_save e p st)))"
    using assms handle_step1_keeps [OF assms(1)] handle_step3_keeps [OF assms]
    by (auto simp: post_onboarding_save_def Let_def creds_dialogs_keep transitions_keep)
  with R_wizard show ?thesis by simp
qed (use assms post_recipients_keeps [OF assms] requests_keep in
    \<open>simp_all add: post_smtp_keeps post_smtp_test_keeps creds_dialogs_keep transitions_keep\<close>)

subsection \<open>Stores that can be read\<close>

text \<open>The credential row can always be loaded, and the onboarding state is always one of the five.\<close>

definition stores_ok :: "web_st \<Rightarrow> bool" where
  "stores_ok st \<longleftrightarrow> (\<exists>c. creds_load (ws_creds st) = Inr c) \<and> (\<exists>a. onboarding_of st = Inr a)"

text \<open>
  What the flags of the table say of the past. A request may only set the flag of a delivered test
  mail when it delivered one with the credentials it leaves.
\<close>

definition flag :: "string \<Rightarrow> web_st \<Rightarrow> bool" where
  "flag k st \<longleftrightarrow> kv_get (ws_kv st) k = Some (Plain ''true'')"

definition delivered :: "req_env \<Rightarrow> cred_row option \<Rightarrow> bool" where
  "delivered e table \<longleftrightarrow>
     (\<exists>rcpt result. snd (smtp_send (rq_server e) (rq_resolver e) (rq_sha e) (rq_base_url e) table test_lot_fixture rcpt)
          = Inr result \<and> nres_ok result)"

definition justified :: "web_st \<Rightarrow> bool" where
  "justified st \<longleftrightarrow>
     (flag KEY_SMTP_TEST_OK st \<longrightarrow> flag KEY_TEST_EMAIL_OK st)
     \<and> (\<forall>a. onboarding_of st = Inr a \<longrightarrow> 2 \<le> ob_rank a \<longrightarrow> flag KEY_EMAIL_SKIPPED st \<or> flag KEY_TEST_EMAIL_OK st)"

definition evolves :: "req_env \<Rightarrow> web_st \<Rightarrow> web_st \<Rightarrow> bool" where
  "evolves e st st' \<longleftrightarrow> (stores_ok st \<longrightarrow> stores_ok st') \<and> (justified st \<longrightarrow> justified st')
     \<and> (flag KEY_TEST_EMAIL_OK st' \<longrightarrow> flag KEY_TEST_EMAIL_OK st \<or> delivered e (ws_creds st'))"

lemma evolves_same: "ws_kv st' = ws_kv st \<Longrightarrow> ws_creds st' = ws_creds st \<Longrightarrow> evolves e st st'"
  by (simp add: evolves_def stores_ok_def justified_def flag_def)

lemma evolves_trans:
  "evolves e a b \<Longrightarrow> evolves e b c \<Longrightarrow> ws_kv b = ws_kv a \<or> ws_creds c = ws_creds b \<Longrightarrow> evolves e a c"
  by (auto simp: evolves_def flag_def)

lemma evolves_store: "store_creds e creds st = (st', r) \<Longrightarrow> evolves e st st' \<and> ws_kv st' = ws_kv st"
proof -
  assume a: "store_creds e creds st = (st', r)"
  then have kv: "ws_kv st' = ws_kv st" using store_creds_cfg by blast
  have "set_smtp_credentials (rq_resolver e) (rq_now e 3) creds (ws_creds st) = (ws_creds st', r)"
    using a by (auto simp: store_creds_def split: prod.splits)
  then have "\<exists>c. creds_load (ws_creds st') = Inr c" if "creds_load (ws_creds st) = Inr c'" for c'
    using creds_roundtrip creds_kept that by (cases r) fastforce+
  with kv show ?thesis by (auto simp: evolves_def stores_ok_def justified_def flag_def)
qed

lemma test_send_flags:
  assumes "test_send sent now wt s = (s', r)"
  shows "get_onboarding kv_get s' = get_onboarding kv_get s" "kv_get s' KEY_EMAIL_SKIPPED = kv_get s KEY_EMAIL_SKIPPED"
    and "kv_get s' KEY_TEST_EMAIL_OK =
      (case sent of Inr result \<Rightarrow> if nres_ok result then Some (Plain ''true'') else kv_get s KEY_TEST_EMAIL_OK
                  | Inl _ \<Rightarrow> kv_get s KEY_TEST_EMAIL_OK)"
    and "kv_get s' KEY_SMTP_TEST_OK =
      (case sent of Inr result \<Rightarrow> Some (Plain (if nres_ok result then ''true'' else ''false'')) | Inl _ \<Rightarrow> kv_get s KEY_SMTP_TEST_OK)"
  using assms
  by (auto simp: test_send_def Let_def onboarding_keys kv.get_put get_onboarding_def split: sum.splits if_splits)

lemma evolves_send: "send_test e rcpt st = (st', r) \<Longrightarrow> evolves e st st' \<and> ws_creds st' = ws_creds st"
proof -
  assume a: "send_test e rcpt st = (st', r)"
  let ?sent = "snd (smtp_send (rq_server e) (rq_resolver e) (rq_sha e) (rq_base_url e) (ws_creds st) test_lot_fixture rcpt)"
  have creds: "ws_creds st' = ws_creds st" using send_test_cfg [OF a] by simp
  have t: "test_send ?sent (rq_now e 1) (rq_now e 2) (ws_kv st) = (ws_kv st', r)"
    using a by (auto simp: send_test_def Let_def split: prod.splits)
  have "delivered e (ws_creds st')" if "?sent = Inr result" "nres_ok result" for result
    using that creds unfolding delivered_def by auto
  with creds test_send_flags [OF t] show ?thesis
    by (auto simp: evolves_def stores_ok_def justified_def flag_def split: sum.splits if_splits)
qed

lemma other_keys: "KEY_EMAIL_SKIPPED \<noteq> ONBOARDING_KEY" "KEY_SMTP_TEST_OK \<noteq> ONBOARDING_KEY" "KEY_TEST_EMAIL_OK \<noteq> ONBOARDING_KEY"
  "KEY_SMTP_TEST_OK \<noteq> KEY_EMAIL_SKIPPED" "KEY_TEST_EMAIL_OK \<noteq> KEY_EMAIL_SKIPPED" "ONBOARDING_KEY \<noteq> KEY_EMAIL_SKIPPED"
  by (simp_all add: onboarding_keys)

lemma evolves_advance: "advance_to e a b st = (st', r) \<Longrightarrow> evolves e st st' \<and> ws_creds st' = ws_creds st"
proof (cases "ob_advance kv_get kv_set (rq_now e 5) (settings.truncate (current_settings st)) (rq_now e 4) a b (ws_kv st)")
  case (Inr kv')
  assume "advance_to e a b st = (st', r)"
  with Inr have st': "st' = st\<lparr>ws_kv := kv'\<rparr>" by (simp add: advance_to_def)
  have adv: "onboarding_of st = Inr a" "next_state a = Some b"
    and guard: "guard_satisfied kv_get (settings.truncate (current_settings st)) (rq_now e 4) (ws_kv st) b"
    using Inr by (auto simp: kv.advance_Inr_iff)
  have moved: "get_onboarding kv_get kv' = Inr b" and keys: "k \<noteq> ONBOARDING_KEY \<Longrightarrow> kv_get kv' k = kv_get (ws_kv st) k" for k
    using kv.advance_moves [OF Inr] by auto
  have "flag KEY_EMAIL_SKIPPED st \<or> flag KEY_TEST_EMAIL_OK st" if j: "justified st" and r: "2 \<le> ob_rank b"
  proof (cases "2 \<le> ob_rank a")
    case True
    with j adv show ?thesis by (auto simp: justified_def)
  next
    case False
    with r next_state_rank [OF adv(2)] have "b = Smtp_configured" by (cases b) (auto simp: ob_rank_def)
    with guard j show ?thesis
      by (auto simp: justified_def flag_def is_email_skipped_def smtp_test_ok_within_ttl_def split: if_splits)
  qed
  then show ?thesis unfolding st' evolves_def stores_ok_def justified_def flag_def using moved keys other_keys by auto
next
  case (Inl x)
  assume "advance_to e a b st = (st', r)"
  with Inl have "st' = st" by (simp add: advance_to_def)
  then show ?thesis by (simp add: evolves_same)
qed

lemma evolves_finish: "evolves e st (fst (finish_step e a b url refused st)) \<and> ws_creds (fst (finish_step e a b url refused st)) = ws_creds st"
proof -
  obtain st' r where a: "advance_to e a b st = (st', r)" by fastforce
  then have "fst (finish_step e a b url refused st) = st'" by (simp add: finish_step_def split: sum.split)
  with evolves_advance [OF a] show ?thesis by simp
qed

lemma evolves_skip: "evolves e st (fst (post_skip_email e st))"
proof (cases "skip_email kv_get kv_set (rq_now e 5) (ws_kv st)")
  case (Inr kv')
  then have "kv' = kv_set (rq_now e 5) KEY_EMAIL_SKIPPED (Plain ''true'') (ws_kv st)"
    by (auto simp: skip_email_def res_bind_Inr_iff split: if_splits)
  with other_keys have "kv_get kv' k = (if k = KEY_EMAIL_SKIPPED then Some (Plain ''true'') else kv_get (ws_kv st) k)"
    and "get_onboarding kv_get kv' = get_onboarding kv_get (ws_kv st)" for k
    by (auto simp: kv.get_put)
  with Inr other_keys show ?thesis
    by (simp add: post_skip_email_def evolves_def stores_ok_def justified_def flag_def)
qed (simp add: post_skip_email_def evolves_same)

lemma save_settings_frame: "save_settings e new st = (st', r) \<Longrightarrow> ws_kv st' = ws_kv st \<and> ws_creds st' = ws_creds st"
  by (auto simp: save_settings_def Let_def split: prod.splits)

lemma evolves_settings:
  "evolves e st (fst (post_regions e ids st))" "evolves e st (fst (post_recipients e rs st))"
  "evolves e st (fst (post_subjects e ids st))" "evolves e st (fst (post_schedule e i t st))"
  by (rule evolves_same;
      auto simp: post_regions_def post_recipients_def post_subjects_def post_schedule_def Let_def
        dest: save_settings_frame split: sum.split prod.split)+

lemma evolves_creds: "evolves e st (fst (post_smtp e u p h port d f st))"
proof (cases "mk_smtp_creds u p h port d f")
  case (Inr creds)
  obtain st' r where s: "store_creds e creds st = (st', r)" by fastforce
  then have "fst (post_smtp e u p h port d f st) = st'" by (simp add: post_smtp_def Inr split: sum.split)
  with evolves_store [OF s] show ?thesis by simp
qed (simp add: post_smtp_def evolves_same)

lemma evolves_test: "evolves e st (fst (post_smtp_test e rcpt st))"
proof -
  obtain st' r where s: "send_test e rcpt st = (st', r)" by fastforce
  then have "fst (post_smtp_test e rcpt st) = st'" by (simp add: post_smtp_test_def split: sum.split)
  with evolves_send [OF s] show ?thesis by simp
qed

lemma evolves_post_advance: "evolves e st (fst (post_advance e a b st))"
proof -
  have "evolves e st (fst (advance_to e x y st))" for x y
    using evolves_advance [of e x y st] by (cases "advance_to e x y st") auto
  moreover have "fst (post_advance e a b st) = st \<or> (\<exists>x y. fst (post_advance e a b st) = fst (advance_to e x y st))"
    by (auto simp: post_advance_def split: sum.split prod.split) (metis fst_conv)+
  ultimately show ?thesis using evolves_same [of st st] by auto
qed

text \<open>Storing credentials, testing them, and perhaps advancing: both dialogues are of this form.\<close>

lemma evolves_dialogue:
  assumes "store_creds e creds st = (st1, r1)" "send_test e rcpt st1 = (st2, r2)"
  shows "evolves e st st1" and "evolves e st st2"
    and "evolves e st (fst (finish_step e a b url refused st2))"
proof -
  note s = evolves_store [OF assms(1)] and t = evolves_send [OF assms(2)]
  show "evolves e st st1" using s by simp
  show two: "evolves e st st2" using s t evolves_trans by blast
  show "evolves e st (fst (finish_step e a b url refused st2))"
    using evolves_trans [OF two] evolves_finish by blast
qed

lemma evolves_step2: "evolves e st (fst (handle_step2_next e form st))"
  using evolves_dialogue(1,2,3) [of e _ st] evolves_same [of st st e]
  by (auto simp: handle_step2_next_def step2_save_and_test_def Let_def dest: evolves_store split: sum.split option.split prod.split)

lemma evolves_wizard_test: "evolves e st (fst (post_onboarding_smtp_test e ip now form st))"
proof -
  obtain w ok where w: "acquire (Suc 0) SMTP_TEST_WINDOW ip now (ws_windows st) = (w, ok)" by fastforce
  let ?st = "st\<lparr>ws_windows := w\<rparr>"
  have "evolves e ?st (fst (post_onboarding_smtp_test e ip now form st))"
    using evolves_dialogue(1,2) [of e _ ?st] evolves_same [of ?st ?st e]
    by (auto simp: post_onboarding_smtp_test_def Let_def w dest: evolves_store split: sum.split option.split prod.split)
  then show ?thesis by (intro evolves_trans [OF evolves_same [of ?st st e]]) simp_all
qed

lemma evolves_step1: "evolves e st (fst (handle_step1_next e slugs st))"
proof -
  have "evolves e st (fst (finish_step e a b url refused st1))" if "save_settings e new st = (st1, r)" for new st1 r a b url refused
    using save_settings_frame [OF that] evolves_same [of st1 st e] evolves_finish evolves_trans by blast
  moreover have "evolves e st st1" if "save_settings e new st = (st1, r)" for new st1 r
    using save_settings_frame [OF that] evolves_same by blast
  ultimately show ?thesis
    using evolves_same [of st st e] by (auto simp: handle_step1_next_def split: sum.split prod.split)
qed

lemma evolves_step3: "evolves e st (fst (handle_step3_next e form st))"
proof -
  have one: "evolves e st st1" if "save_settings e new st = (st1, r)" for new st1 r
    using save_settings_frame [OF that] evolves_same by blast
  have two: "evolves e st st2" if "save_settings e new st = (st1, r)" "send_test e rcpt st1 = (st2, x)" for new st1 r rcpt st2 x
    using one [OF that(1)] save_settings_frame [OF that(1)] evolves_send [OF that(2)] evolves_trans by metis
  have fin: "evolves e st (fst (finish_step e a b url refused st2))" if "evolves e st st2" for st2 a b url refused
    using that evolves_finish evolves_trans by blast
  have fin': "evolves e st (fst (finish_step e a b url refused (fst (send_test e rcpt st1))))"
    if "save_settings e new st = (st1, r)" for new st1 r rcpt a b url refused
    using two [OF that] fin by (cases "send_test e rcpt st1") auto
  show ?thesis
    using evolves_same [of st st e] one fin' fin
    by (auto simp: handle_step3_next_def Let_def split: sum.split prod.split)
qed

lemma request_evolves: "evolves e st (web_request e r st)"
proof (cases r)
  case (R_wizard p)
  have "evolves e st (fst (post_onboarding_save e p st))"
    using evolves_step1 evolves_step2 evolves_step3 evolves_finish evolves_same [of st st e]
    by (auto simp: post_onboarding_save_def Let_def handle_step4_next_def)
  with R_wizard show ?thesis by simp
qed (simp_all add: evolves_same evolves_settings evolves_creds evolves_test evolves_post_advance evolves_skip evolves_wizard_test)

lemma cfg_behind: "ui_step js (Behind op) w = (env', st') \<Longrightarrow> ws_kv st' = ws_kv (snd w) \<and> ws_creds st' = ws_creds (snd w)"
  by (cases w) (auto simp: Let_def split: prod.splits)

definition op_ok :: "(ustr \<Rightarrow> ustr option) \<Rightarrow> ui_op \<Rightarrow> bool" where
  "op_ok norm_addr op =
     (case op of
        Web e r \<Rightarrow> rq_norm_addr e = norm_addr
      | Behind (cfg_op.Restart v _ _) \<Rightarrow> env_ok v
      | Behind (Save_config _ _ _) \<Rightarrow> False
      | Behind _ \<Rightarrow> True)"

lemma first_start_evidence:
  assumes "first_start js env now readable content = (env0, st0)"
  shows "stores_ok st0" "justified st0" "\<not> flag KEY_TEST_EMAIL_OK st0" "\<not> flag KEY_EMAIL_SKIPPED st0"
proof -
  have "ws_kv st0 = Map.empty" "ws_creds st0 = None" using assms by (auto simp: first_start_def)
  then show "stores_ok st0" "justified st0" "\<not> flag KEY_TEST_EMAIL_OK st0" "\<not> flag KEY_EMAIL_SKIPPED st0"
    by (auto simp: stores_ok_def justified_def flag_def creds_load_def get_onboarding_def kv_get_def ob_rank_def)
qed

lemma step_settings_ok:
  assumes "settings_ok n ui (current_settings st)" "env_ok env" "op_ok n op" "ui_step js op (env, st) = (env', st')"
    and parser: "\<And>raw c. js_parse js raw = Inr c \<Longrightarrow> settings_ok n ui c"
    and idem: "\<And>a b. n a = Some b \<Longrightarrow> n b = Some b"
  shows "settings_ok n ui (current_settings st') \<and> env_ok env'"
proof (cases op)
  case (Web e r)
  then have "rq_norm_addr e = n" using assms(3) by (simp add: op_ok_def)
  with request_settings_ok [of e ui st r] assms Web show ?thesis by auto
next
  case (Behind cop)
  obtain env1 cfg1 where c: "cfg_step js cop (env, ws_cfg st) = (env1, cfg1)" by fastforce
  have "settings_ok n ui (cs_current cfg1) \<and> env_ok env1"
    by (rule cfg_step_keeps [OF assms(1,2) c parser]) (use assms(3) Behind in \<open>auto simp: op_ok_def\<close>)
  with Behind c assms(4) show ?thesis by (auto simp: Let_def)
qed

lemma run_settings_ok:
  assumes "\<And>raw c. js_parse js raw = Inr c \<Longrightarrow> settings_ok n ui c" "\<And>a b. n a = Some b \<Longrightarrow> n b = Some b"
  shows "settings_ok n ui (current_settings (snd w)) \<Longrightarrow> env_ok (fst w) \<Longrightarrow> \<forall>op \<in> set ops. op_ok n op \<Longrightarrow>
    settings_ok n ui (current_settings (snd (ui_run js ops w)))"
proof (induction ops arbitrary: w)
  case (Cons op ops)
  obtain env st where w: "w = (env, st)" by (cases w)
  obtain env' st' where s: "ui_step js op (env, st) = (env', st')" by fastforce
  have "settings_ok n ui (current_settings st') \<and> env_ok env'"
    by (rule step_settings_ok [OF _ _ _ s assms]) (use Cons.prems w in auto)
  with Cons.IH [of "(env', st')"] Cons.prems(3) show ?case by (simp add: w s)
qed simp

text \<open>Along a history the evidence is kept, and the flag of the test mail comes from a request of it.\<close>

lemma run_evidence:
  "ui_run js ops w0 = w \<Longrightarrow> stores_ok (snd w0) \<Longrightarrow> justified (snd w0) \<Longrightarrow> \<not> flag KEY_TEST_EMAIL_OK (snd w0) \<Longrightarrow>
     stores_ok (snd w) \<and> justified (snd w)
     \<and> (flag KEY_TEST_EMAIL_OK (snd w) \<longrightarrow>
          (\<exists>pre e r post. ops = pre @ Web e r # post \<and> delivered e (ws_creds (snd (ui_run js (pre @ [Web e r]) w0)))))"
proof (induction ops arbitrary: w rule: rev_induct)
  case Nil
  then show ?case by auto
next
  case (snoc op ops)
  obtain env st where m: "ui_run js ops w0 = (env, st)" by fastforce
  note IH = snoc.IH [OF m snoc.prems(2,3,4)]
  have run: "w = ui_step js op (env, st)" using snoc.prems(1) m by (simp add: ui_run_def)
  have old: "\<exists>pre e r post. ops @ [op] = pre @ Web e r # post \<and> delivered e (ws_creds (snd (ui_run js (pre @ [Web e r]) w0)))"
    if "flag KEY_TEST_EMAIL_OK st"
    using IH that by fastforce
  show ?case
  proof (cases op)
    case (Web e r)
    have st': "snd w = web_request e r st" using run Web by simp
    have "\<exists>pre e r post. ops @ [op] = pre @ Web e r # post \<and> delivered e (ws_creds (snd (ui_run js (pre @ [Web e r]) w0)))"
      if "delivered e (ws_creds (snd w))"
      using that snoc.prems(1) Web by blast
    with request_evolves [of e st r] IH old st' show ?thesis by (auto simp: evolves_def)
  next
    case (Behind cop)
    have "ws_kv (snd w) = ws_kv st \<and> ws_creds (snd w) = ws_creds st"
      using cfg_behind [of js cop "(env, st)" "fst w" "snd w"] run Behind by simp
    with IH old show ?thesis by (simp add: stores_ok_def justified_def flag_def)
  qed
qed

subsection \<open>Properties\<close>

text \<open>
  C27. Nothing the program runs on is ever malformed. Take any history, from the first start, of
  settings and wizard requests, edits of the file, file events, reloads and restarts. Assume that
  the environment variables hold a base URL and a time limit the validators could have produced,
  that the parser only returns what the validators of the model let through, and that the address
  validator accepts what it returned. Then the settings in force are such settings too: the check
  interval, the ports, the font size and the time limit are in their ranges, every recipient is a
  normalised address, and the base URL is one the validator can leave, which includes the bare
  \<^verbatim>\<open>http:\<close> or \<^verbatim>\<open>https:\<close> it makes of a scheme without a host. The
  credential row loads, and the onboarding state is one of the five. If the files written by hand
  also name known regions, subjects and a clock time, then so do the settings in force, and
  planning the daily scan never raises.
\<close>

theorem settings_always_valid:
  assumes "w = ui_run js ops (first_start js env now readable content)"
    and "\<forall>raw c. js_parse js raw = Inr c \<longrightarrow> config_ok n c \<and> (ui \<longrightarrow> ui_ok c)"
    and "\<forall>a b. n a = Some b \<longrightarrow> n b = Some b" and "env_ok env" and "\<forall>op \<in> set ops. op_ok n op"
  shows "config_ok n (current_settings (snd w))
     \<and> (\<exists>c. creds_load (ws_creds (snd w)) = Inr c) \<and> (\<exists>a. onboarding_of (snd w) = Inr a)
     \<and> (ui \<longrightarrow> ui_ok (current_settings (snd w))
          \<and> (\<forall>to_wall of_wall t. \<exists>u. next_scheduled to_wall of_wall (set_full_scan_time (current_settings (snd w))) t = Inr u))"
proof -
  obtain st0 where f: "first_start js env now readable content = (env, st0)" by (simp add: first_start_def)
  have parser: "js_parse js raw = Inr c \<Longrightarrow> settings_ok n ui c" for raw c using assms(2) by (simp add: settings_ok_def)
  have "settings_ok n ui (current_settings st0)"
    using f env_keeps [OF assms(4)] parser settings_ok_default
    by (auto simp: first_start_def cfg_init_def Let_def split: option.split sum.split)
  then have s: "settings_ok n ui (current_settings (snd w))"
    unfolding assms(1) f using run_settings_ok [OF parser, where w = "(env, st0)" and ops = ops] assms(3-5) by simp
  have e: "stores_ok (snd w)"
    using run_evidence [of js ops "(env, st0)" w] first_start_evidence [OF f] assms(1) f by simp
  from s e clock_time_scheduled show ?thesis by (auto simp: settings_ok_def stores_ok_def ui_ok_def)
qed

theorem settings_always_valid_witness:
  "ui_ok (current_settings (snd (ui_run demo_json [Web demo_req (R_schedule ''5'' ''23:30''), Behind File_event]
       (first_start demo_json (\<lambda>_. None) 7 True None))))
   \<and> set_full_scan_time (current_settings (snd (ui_run demo_json [Web demo_req (R_schedule ''5'' ''23:30''), Behind File_event]
       (first_start demo_json (\<lambda>_. None) 7 True None)))) = ''23:30''"
proof -
  let ?ops = "[Web demo_req (R_schedule ''5'' ''23:30''), Behind File_event]"
  have parser: "\<forall>raw c. js_parse demo_json raw = Inr c \<longrightarrow> config_ok Some c \<and> (True \<longrightarrow> ui_ok c)"
    using default_config_ok [of Some] ui_ok_default
    by (auto simp: demo_json_def config_ok_def target_ok_def ui_ok_def VALID_MACRO_IDS_def REGION_BY_SLUG_def)
  have e: "env_ok (\<lambda>_. None)" by (simp add: env_ok_def env_value_def)
  have ops: "\<forall>op \<in> set ?ops. op_ok Some op" by (simp add: op_ok_def demo_req_def)
  have "int_of_str ''5'' = Inr 5" by (simp add: int_of_str_def int_strip_def int_space_def is_digit_def digit_val_def)
  moreover have "hhmm_match ''23:30''" by (simp add: hhmm_match_def is_digit_def digit_val_def)
  ultimately have t: "set_full_scan_time (current_settings (snd (ui_run demo_json ?ops
       (first_start demo_json (\<lambda>_. None) 7 True None)))) = ''23:30''"
    by (simp add: first_start_def post_schedule_def save_settings_def cfg_save_def demo_req_def cfg_on_event_def Let_def)
  have "\<forall>a b. Some a = Some b \<longrightarrow> Some b = Some (b :: ustr)" by simp
  from settings_always_valid [OF refl parser this e ops, of 7 True None] t show ?thesis by simp
qed

text \<open>
  C28. Onboarding needs a working mailbox. In any such history, with any mail server, resolver and
  clock, the wizard is past its mailbox step only if the mail steps were skipped, or some request
  of the history delivered a test mail with exactly the credentials it left stored.
\<close>

theorem onboarding_needs_delivered_mail:
  assumes "w0 = first_start js env now readable content" and "onboarding_of (snd (ui_run js ops w0)) = Inr a"
    and "a \<notin> {Not_started, Regions_set}"
  shows "is_email_skipped kv_get (ws_kv (snd (ui_run js ops w0)))
     \<or> (\<exists>pre e r post. ops = pre @ Web e r # post \<and> delivered e (ws_creds (snd (ui_run js (pre @ [Web e r]) w0))))"
proof -
  obtain st0 where f: "first_start js env now readable content = (env, st0)" by (simp add: first_start_def)
  have "2 \<le> ob_rank a" using assms(3) by (cases a) (auto simp: ob_rank_def)
  with run_evidence [of js ops w0 "ui_run js ops w0"] first_start_evidence [OF f] assms(1,2) f
  show ?thesis by (auto simp: justified_def flag_def is_email_skipped_def)
qed

theorem onboarding_needs_delivered_mail_witness:
  "let w0 = first_start demo_json (\<lambda>_. None) 7 True None;
       p1 = \<lparr>wp_step = 1, wp_action = Absent, wp_regions = [Field_text ''dfo''], wp_smtp = demo_form,
              wp_recipient = \<lparr>rf_email = Absent, rf_send_test = False\<rparr>\<rparr>;
       ops = [Web demo_req (R_wizard p1), Web demo_req (R_wizard (p1\<lparr>wp_step := 2\<rparr>))]
   in onboarding_of (snd (ui_run demo_json ops w0)) = Inr Smtp_configured
      \<and> (is_email_skipped kv_get (ws_kv (snd (ui_run demo_json ops w0)))
         \<or> (\<exists>pre e r post. ops = pre @ Web e r # post \<and> delivered e (ws_creds (snd (ui_run demo_json (pre @ [Web e r]) w0)))))"
proof -
  let ?w0 = "first_start demo_json (\<lambda>_. None) 7 True None"
  let ?p1 = "\<lparr>wp_step = 1, wp_action = Absent, wp_regions = [Field_text ''dfo''], wp_smtp = demo_form,
              wp_recipient = \<lparr>rf_email = Absent, rf_send_test = False\<rparr>\<rparr>"
  let ?ops = "[Web demo_req (R_wizard ?p1), Web demo_req (R_wizard (?p1\<lparr>wp_step := 2\<rparr>))]"
  obtain st0 where f: "?w0 = (\<lambda>_. None, st0)" by (simp add: first_start_def)
  have on: "onboarding_of st0 = Inr Not_started" using f by (auto simp: first_start_def get_onboarding_def kv_get_def)
  have ids: "map_res slug_field [Field_text ''dfo''] = Inr [1]" by (simp add: slug_to_id_def REGION_BY_SLUG_def)
  have "onboarding_of (fst (handle_step1_next demo_req [Field_text ''dfo''] st0)) = Inr Regions_set"
    using on by (simp add: handle_step1_next_def slug_to_id_def REGION_BY_SLUG_def save_settings_def cfg_save_def demo_req_def
        finish_step_def advance_to_def ob_advance_def can_advance_def settings.defs Let_def)
  from demo_step2 [OF this] have "onboarding_of (snd (ui_run demo_json ?ops ?w0)) = Inr Smtp_configured"
    by (simp add: f post_onboarding_save_def)
  with onboarding_needs_delivered_mail [OF refl this] show ?thesis unfolding Let_def by simp
qed

end
