(* ===== verification/List_Parser.thy ===== *)
theory List_Parser
  imports Page_Text Fetcher
begin

text \<open>
  The list parser (\<^verbatim>\<open>infra/parsers/list_parser.py\<close>). The HTML library is a parameter: a page is the
  record of what its selectors, attributes and texts answer, over nodes of any type. An attribute
  that is missing and one without a value are not told apart, as the code never does; the first
  match of a selector is the head of its matches in document order.
\<close>

subsection \<open>Pages\<close>

record 'n dom =
  dm_root :: 'n
  dm_css :: "'n \<Rightarrow> string \<Rightarrow> 'n list"
  dm_text :: "'n \<Rightarrow> ustr"
  dm_attr :: "'n \<Rightarrow> string \<Rightarrow> ustr option"
  dm_html :: "'n \<Rightarrow> ustr"
  dm_tag :: "'n \<Rightarrow> string"
  dm_children :: "'n \<Rightarrow> 'n list"

definition css_first :: "'n dom \<Rightarrow> 'n \<Rightarrow> string \<Rightarrow> 'n option" where
  "css_first d n sel = (case dm_css d n sel of [] \<Rightarrow> None | m # _ \<Rightarrow> Some m)"

definition or_empty :: "ustr option \<Rightarrow> ustr" where
  "or_empty s = (case s of None \<Rightarrow> [] | Some t \<Rightarrow> t)"

definition begins_with :: "'a list \<Rightarrow> 'a list \<Rightarrow> bool" where
  "begins_with p s \<longleftrightarrow> take (length p) s = p"

fun occurs :: "'a list \<Rightarrow> 'a list \<Rightarrow> bool" where
  "occurs p [] = (p = [])"
| "occurs p (c # cs) = (begins_with p (c # cs) \<or> occurs p cs)"

definition opt_text :: "ustr \<Rightarrow> ustr option" where
  "opt_text t = (if t = [] then None else Some t)"

definition text_or_none :: "'n dom \<Rightarrow> 'n option \<Rightarrow> ustr option" where
  "text_or_none d node = (case node of None \<Rightarrow> None | Some n \<Rightarrow> opt_text (dm_text d n))"

subsection \<open>The expired session\<close>

definition ESIA_HOST_MARKER :: ustr where "ESIA_HOST_MARKER = ustr_of ''esia.gosuslugi.ru''"

definition ESIA_TITLE_MARKERS :: "ustr list" where
  "ESIA_TITLE_MARKERS =
     [[1055, 1086, 1088, 1090, 1072, 1083, 32, 1075, 1086, 1089, 1091, 1076, 1072, 1088, 1089, 1090, 1074, 1077, 1085,
       1085, 1099, 1093, 32, 1091, 1089, 1083, 1091, 1075],
      [1043, 1086, 1089, 1091, 1089, 1083, 1091, 1075, 1080]]"

definition esia_page :: "'n dom \<Rightarrow> bool" where
  "esia_page d =
     (let title_text = (case css_first d (dm_root d) ''title'' of None \<Rightarrow> [] | Some n \<Rightarrow> dm_text d n);
          title_signal = (occurs ESIA_HOST_MARKER title_text \<or> list_ex (\<lambda>m. occurs m title_text) ESIA_TITLE_MARKERS);
          head_signal =
            (case css_first d (dm_root d) ''head'' of
               None \<Rightarrow> False
             | Some h \<Rightarrow>
                 list_ex (\<lambda>tag. list_ex (\<lambda>n. occurs ESIA_HOST_MARKER (dm_html d n)) (dm_css d h tag)) [''meta'', ''script'']);
          form_signal = list_ex (\<lambda>n. occurs ESIA_HOST_MARKER (or_empty (dm_attr d n ''action''))) (dm_css d (dm_root d) ''form'')
      in title_signal \<or> head_signal \<or> form_signal)"

subsection \<open>Rows\<close>

definition MAX_ROWS_PER_PAGE :: nat where "MAX_ROWS_PER_PAGE = 10000"

text \<open>One \<^verbatim>\<open><tr data-key>\<close>: \<open>None\<close> where the loop goes on to the next.\<close>

definition parse_tr :: "(nat \<Rightarrow> ustr) \<Rightarrow> 'n dom \<Rightarrow> 'n \<Rightarrow> parsed_list_row option" where
  "parse_tr up d tr =
     (let lot_id_str = or_empty (dm_attr d tr ''data-key'')
      in if lot_id_str = [] then None
         else case int_of_ustr lot_id_str of
                Inl _ \<Rightarrow> None
              | Inr the_id \<Rightarrow>
                  (let tds = dm_css d tr ''td''
                   in if length tds < 14 then None
                      else let cadastral_node = css_first d (tds ! 0) ''a'';
                               cadastral_no_raw =
                                 (if cadastral_node \<noteq> None then text_or_none d cadastral_node else text_or_none d (Some (tds ! 0)));
                               cell = (\<lambda>i. text_or_none d (Some (tds ! i)));
                               ogv_title = or_empty (dm_attr d (tds ! 9) ''title'');
                               ogv = (if ogv_title \<noteq> [] \<and> ustrip ogv_title \<noteq> [] then Some (ustrip ogv_title) else cell 9)
                           in case parse_date (cell 10) of
                                None \<Rightarrow> None
                              | Some date_create \<Rightarrow>
                                  Some \<lparr> row_id = the_id, row_cadastral_no = or_empty cadastral_no_raw,
                                         row_area_sqm = parse_area (cell 1), row_region = or_empty (cell 2),
                                         row_municipality = cell 3, row_land_category = cell 7,
                                         row_permitted_use = normalize_vri up (cell 8), row_ogv = ogv,
                                         row_status = or_empty (cell 13), row_date_create = date_create,
                                         row_date_update = parse_date (cell 12) \<rparr>))"

text \<open>The dash of the message is written as its three bytes.\<close>

definition TBODY_MISSING :: exc where
  "TBODY_MISSING =
     ParseBugError ''tbody''
       (''lot-list page; tbody missing '' @ map char_of [226, 128, 148 :: nat] @ '' site DOM may have changed'')"

definition ROW_CAP :: exc where
  "ROW_CAP = ParseBugError ''tr[data-key]'' (''row cap exceeded: '' @ str_of_nat MAX_ROWS_PER_PAGE)"

fun collect_rows :: "('n \<Rightarrow> parsed_list_row option) \<Rightarrow> 'n list \<Rightarrow> parsed_list_row list \<Rightarrow> parsed_list_row list res" where
  "collect_rows f [] rows = Inr rows"
| "collect_rows f (tr # trs) rows =
     (case f tr of
        None \<Rightarrow> collect_rows f trs rows
      | Some r \<Rightarrow> (if MAX_ROWS_PER_PAGE \<le> Suc (length rows) then Inl ROW_CAP else collect_rows f trs (rows @ [r])))"

subsection \<open>The total\<close>

definition FOUND :: ustr where
  "FOUND = [1053, 1072, 1081, 1076, 1077, 1085, 1086, 32, 1079, 1072, 1087, 1080, 1089, 1077, 1081, 58]"

definition OUT_OF :: ustr where "OUT_OF = [1080, 1079]"

definition decimal :: "nat \<Rightarrow> bool" where "decimal c \<longleftrightarrow> udigit c \<noteq> None"

text \<open>The pattern at one place, and the group it takes; then the first place where it matches.\<close>

definition total_here :: "ustr \<Rightarrow> ustr option" where
  "total_here s =
     (if \<not> begins_with FOUND s then None
      else let t = dropWhile uspace (drop (length FOUND) s);
               u = dropWhile uspace (dropWhile decimal t)
           in if takeWhile decimal t = [] \<or> \<not> begins_with OUT_OF u then None
              else case dropWhile uspace (drop (length OUT_OF) u) of
                     [] \<Rightarrow> None
                   | c # _ \<Rightarrow> (if decimal c then Some (takeWhile decimal t) else None))"

fun total_search :: "ustr \<Rightarrow> ustr option" where
  "total_search [] = None"
| "total_search (c # cs) = (case total_here (c # cs) of Some g \<Rightarrow> Some g | None \<Rightarrow> total_search cs)"

definition parse_total :: "'n dom \<Rightarrow> int option res" where
  "parse_total d =
     (case css_first d (dm_root d) ''.table-paginate__info'' of
        None \<Rightarrow> Inr None
      | Some info_node \<Rightarrow>
          (case total_search (dm_text d info_node) of None \<Rightarrow> Inr None | Some g \<Rightarrow> map_sum id Some (int_of_ustr g)))"

definition parse_list_page :: "(nat \<Rightarrow> ustr) \<Rightarrow> 'n dom \<Rightarrow> parsed_list_page res" where
  "parse_list_page up d =
     (if esia_page d then Inl SessionExpiredError
      else case css_first d (dm_root d) ''tbody'' of
             None \<Rightarrow> Inl TBODY_MISSING
           | Some tbody \<Rightarrow>
               (case collect_rows (parse_tr up d) (dm_css d tbody ''tr[data-key]'') [] of
                  Inl e \<Rightarrow> Inl e
                | Inr rows \<Rightarrow>
                    (case parse_total d of
                       Inl e \<Rightarrow> Inl e
                     | Inr total_count \<Rightarrow> Inr \<lparr> page_rows = rows, page_total_count = total_count \<rparr>)))"

subsection \<open>Facts\<close>

lemma collect_rows_exact:
  "length rows < MAX_ROWS_PER_PAGE \<Longrightarrow>
   collect_rows f trs rows =
     (if length (rows @ List.map_filter f trs) < MAX_ROWS_PER_PAGE then Inr (rows @ List.map_filter f trs) else Inl ROW_CAP)"
  by (induction trs arbitrary: rows) (auto simp: map_filter_simps split: option.splits)

lemma begins_with_append [simp]: "begins_with p (p @ s)"
  by (simp add: begins_with_def)

lemma opt_text_eq [simp]: "opt_text t \<noteq> Some []" "or_empty (opt_text t) = t"
  by (simp_all add: opt_text_def or_empty_def)

lemma int_of_ustr_error: "int_of_ustr s = Inl e \<Longrightarrow> e = ValueError"
  by (auto simp: int_of_ustr_def int_of_str_def split: if_splits list.splits option.splits)

lemma normalize_vri_none [simp]: "normalize_vri up None = None"
  by (simp add: normalize_vri_def)

lemma normalize_vri_not_empty: "(\<And>c. up c \<noteq> []) \<Longrightarrow> v \<noteq> Some [] \<Longrightarrow> normalize_vri up v \<noteq> Some []"
  by (cases v) (auto simp: normalize_vri_def Let_def concat_eq_Nil_conv split: if_splits dest: list.set_sel(1))

text \<open>What every row of a page promises.\<close>

definition midnight :: "time \<Rightarrow> bool" where
  "midnight t \<longleftrightarrow> t mod us_per_day = 0 \<and> in_calendar t"

definition row_promise :: "parsed_list_row \<Rightarrow> bool" where
  "row_promise r \<longleftrightarrow>
     row_municipality r \<noteq> Some [] \<and> row_land_category r \<noteq> Some [] \<and> row_permitted_use r \<noteq> Some [] \<and> row_ogv r \<noteq> Some []
     \<and> midnight (row_date_create r) \<and> pred_option midnight (row_date_update r)"

lemma parse_tr_promise:
  assumes "\<And>c. up c \<noteq> []" "parse_tr up d tr = Some r"
  shows "row_promise r"
proof -
  have t: "text_or_none d x \<noteq> Some []" for x by (cases x) (simp_all add: text_or_none_def)
  obtain m where "parse_date m = Some (row_date_create r)"
    using assms(2) by (auto simp: parse_tr_def Let_def split: if_splits sum.splits option.splits)
  then have c: "midnight (row_date_create r)" using parse_date_midnight by (simp add: midnight_def)
  obtain u where u: "row_date_update r = parse_date u"
    using assms(2) by (auto simp: parse_tr_def Let_def split: if_splits sum.splits option.splits)
  have "pred_option midnight (row_date_update r)"
    using parse_date_midnight [of u] by (cases "row_date_update r") (simp_all add: u midnight_def)
  moreover have "row_municipality r \<noteq> Some []" "row_land_category r \<noteq> Some []" "row_ogv r \<noteq> Some []"
    using assms(2) t by (auto simp: parse_tr_def Let_def split: if_splits sum.splits option.splits)
  moreover obtain x where "row_permitted_use r = normalize_vri up (text_or_none d x)"
    using assms(2) by (auto simp: parse_tr_def Let_def split: if_splits sum.splits option.splits)
  then have "row_permitted_use r \<noteq> Some []" using normalize_vri_not_empty [OF assms(1) t] by simp
  ultimately show ?thesis using c by (simp add: row_promise_def)
qed

lemma parse_total_error: "parse_total d = Inl e \<Longrightarrow> e = ValueError"
proof -
  assume "parse_total d = Inl e"
  then obtain g where g: "map_sum id Some (int_of_ustr g) = Inl e"
    by (auto simp: parse_total_def split: option.splits)
  then show ?thesis using int_of_ustr_error [of g e] by (cases "int_of_ustr g") simp_all
qed

lemma parse_list_page_promise:
  assumes "\<forall>c. up c \<noteq> []" "parse_list_page up d = Inr page"
  shows "\<forall>r \<in> set (page_rows page). row_promise r"
proof -
  obtain trs where "collect_rows (parse_tr up d) trs [] = Inr (page_rows page)"
    using assms(2) by (auto simp: parse_list_page_def split: if_splits option.splits sum.splits)
  then have "page_rows page = List.map_filter (parse_tr up d) trs"
    by (auto simp: collect_rows_exact MAX_ROWS_PER_PAGE_def split: if_splits)
  then show ?thesis using parse_tr_promise [of up d] assms(1) by (auto simp: List.map_filter_def)
qed

lemma walk_rows_all:
  assumes "\<And>t p. fe_parse env t = Inr p \<Longrightarrow> \<forall>x \<in> set (page_rows p). P x"
  shows "\<forall>x \<in> set (rows_of (fst (walk env mp rn rp k w))). P x"
  using assms
proof (induction env mp rn rp k w rule: walk.induct)
  case (1 env mp rn rp k w)
  show ?case
    by (subst walk.simps)
      (use 1 in \<open>auto simp: Let_def split: sum.splits option.splits prod.splits\<close>)
qed

subsection \<open>A page that shows given rows\<close>

definition dec :: "int \<Rightarrow> ustr" where "dec i = ustr_of (str_of_int i)"

definition fits :: "int \<Rightarrow> bool" where "fits i \<longleftrightarrow> length (str_of_int i) \<le> INT_MAX_DIGITS"

text \<open>A number as the site writes it: its digits, with any blanks between them, and perhaps the unit.\<close>

definition grouped :: "ustr \<Rightarrow> nat \<Rightarrow> bool" where
  "grouped s n \<longleftrightarrow> filter (\<lambda>c. c \<noteq> 32 \<and> c \<noteq> 160) s = ustr_of (str_of_nat n) \<and> \<not> uspace (hd s) \<and> \<not> uspace (last s)"

definition shows_area :: "ustr \<Rightarrow> int option \<Rightarrow> bool" where
  "shows_area t a \<longleftrightarrow>
     (case a of
        None \<Rightarrow> t = []
      | Some n \<Rightarrow> 0 \<le> n \<and> fits n \<and> (\<exists>s. grouped s (nat n) \<and> (t = s \<or> t = s @ 32 # SQM)))"

definition shows_date :: "ustr \<Rightarrow> time option \<Rightarrow> bool" where
  "shows_date t x \<longleftrightarrow> (case x of None \<Rightarrow> t = [] | Some u \<Rightarrow> midnight u \<and> t = dmy_text (date_of u))"

definition shows_row :: "(nat \<Rightarrow> ustr) \<Rightarrow> 'n dom \<Rightarrow> 'n \<Rightarrow> parsed_list_row \<Rightarrow> bool" where
  "shows_row up d tr r \<longleftrightarrow>
     (let tds = dm_css d tr ''td''; cell = (\<lambda>i. dm_text d (tds ! i))
      in dm_attr d tr ''data-key'' = Some (dec (row_id r)) \<and> fits (row_id r) \<and> 14 \<le> length tds
         \<and> dm_text d (case css_first d (tds ! 0) ''a'' of None \<Rightarrow> tds ! 0 | Some a \<Rightarrow> a) = row_cadastral_no r
         \<and> shows_area (cell 1) (row_area_sqm r) \<and> cell 2 = row_region r
         \<and> opt_text (cell 3) = row_municipality r \<and> opt_text (cell 7) = row_land_category r
         \<and> normalize_vri up (opt_text (cell 8)) = row_permitted_use r
         \<and> (case dm_attr d (tds ! 9) ''title'' of
               None \<Rightarrow> row_ogv r = opt_text (cell 9)
             | Some t \<Rightarrow> ustrip t = t \<and> t \<noteq> [] \<and> row_ogv r = Some t)
         \<and> shows_date (cell 10) (Some (row_date_create r)) \<and> shows_date (cell 12) (row_date_update r)
         \<and> cell 13 = row_status r)"

text \<open>The info line: two numbers around the word, and anything after them.\<close>

definition shows_total :: "'n dom \<Rightarrow> int option \<Rightarrow> bool" where
  "shows_total d tot \<longleftrightarrow>
     (case css_first d (dm_root d) ''.table-paginate__info'' of
        None \<Rightarrow> tot = None
      | Some node \<Rightarrow>
          (\<exists>n m rest. tot = Some (int n) \<and> fits (int n)
             \<and> dm_text d node = FOUND @ 32 # dec (int n) @ 32 # OUT_OF @ 32 # dec (int m) @ rest))"

lemma dec_not_empty [simp]: "dec i \<noteq> []"
proof -
  have "str_of_int i \<noteq> []" using int_of_str_of_int [of i] by (auto simp: int_of_str_def int_strip_def simp del: int_of_str_of_int)
  then show ?thesis by (simp add: dec_def ustr_of_def)
qed

lemma int_of_dec: "fits i \<Longrightarrow> int_of_ustr (dec i) = Inr i"
  by (simp add: fits_def dec_def int_of_udecimal)

lemma dec_digits: "\<forall>c \<in> set (dec (int n)). decimal c \<and> \<not> uspace c"
proof
  fix c assume "c \<in> set (dec (int n))"
  then obtain k where "is_digit k" "c = of_char k"
    using str_of_nat_digits by (auto simp: dec_def ustr_of_def str_of_int_def)
  then have b: "48 \<le> c" "c \<le> 57" by (auto simp: is_digit_def)
  then have "decimal (48 + (c - 48))" unfolding decimal_def by (subst udigit_ascii) auto
  with b show "decimal c \<and> \<not> uspace c" by (auto simp: uspace_def)
qed

lemma parse_area_shown:
  assumes "shows_area t a"
  shows "parse_area (opt_text t) = a"
proof (cases a)
  case None
  with assms show ?thesis by (simp add: shows_area_def opt_text_def parse_area_def)
next
  case (Some n)
  then obtain s where s: "0 \<le> n" "fits n" "grouped s (nat n)" "t = s \<or> t = s @ 32 # SQM"
    using assms by (auto simp: shows_area_def)
  then have "length (str_of_nat (nat n)) \<le> INT_MAX_DIGITS" by (simp add: fits_def str_of_int_def)
  moreover have "s \<noteq> []" using s(3) by (auto simp: grouped_def ustr_of_def)
  ultimately show ?thesis
    using parse_area_grouped [of s "nat n"] s Some by (auto simp: grouped_def opt_text_def)
qed

lemma parse_date_shown: "shows_date t x \<Longrightarrow> parse_date (opt_text t) = x"
proof (cases x)
  case None
  then show "shows_date t x \<Longrightarrow> ?thesis" by (simp add: shows_date_def opt_text_def parse_date_def)
next
  case (Some u)
  assume "shows_date t x"
  with Some have u: "midnight u" "t = dmy_text (date_of u)" by (simp_all add: shows_date_def)
  then have p: "parse_date (Some t) = Some u" using parse_dmy_text [of u] by (simp add: midnight_def)
  then have "t \<noteq> []" by (auto simp: parse_date_def)
  with p Some show ?thesis by (simp add: opt_text_def)
qed

lemma parse_tr_shown:
  assumes "shows_row up d tr r"
  shows "parse_tr up d tr = Some r"
proof -
  note s = assms [unfolded shows_row_def Let_def]
  have k: "int_of_ustr (dec (row_id r)) = Inr (row_id r)" using s int_of_dec by blast
  have dates: "parse_date (opt_text (dm_text d (dm_css d tr ''td'' ! 10))) = Some (row_date_create r)"
    "parse_date (opt_text (dm_text d (dm_css d tr ''td'' ! 12))) = row_date_update r"
    using s parse_date_shown by blast+
  have area: "parse_area (opt_text (dm_text d (dm_css d tr ''td'' ! 1))) = row_area_sqm r" using s parse_area_shown by blast
  show ?thesis
    using s dates area k
    by (cases r) (auto simp: parse_tr_def Let_def or_empty_def text_or_none_def opt_text_def split: option.splits)
qed

lemma total_here_found:
  "total_here (FOUND @ s) =
     (let t = dropWhile uspace s; u = dropWhile uspace (dropWhile decimal t)
      in if takeWhile decimal t = [] \<or> \<not> begins_with OUT_OF u then None
         else case dropWhile uspace (drop (length OUT_OF) u) of
                [] \<Rightarrow> None
              | c # _ \<Rightarrow> (if decimal c then Some (takeWhile decimal t) else None))"
  by (simp add: total_here_def)

lemma total_shown:
  assumes "shows_total d tot"
  shows "parse_total d = Inr tot"
proof (cases "css_first d (dm_root d) ''.table-paginate__info''")
  case None
  with assms show ?thesis by (simp add: shows_total_def parse_total_def)
next
  case (Some node)
  then obtain n m rest where t: "tot = Some (int n)" "fits (int n)"
    and shown: "dm_text d node = FOUND @ 32 # dec (int n) @ 32 # OUT_OF @ 32 # dec (int m) @ rest"
    using assms by (auto simp: shows_total_def)
  have blank: "uspace 32" "\<not> decimal 32" by (simp_all add: uspace_def decimal_def udigit_def DIGIT_ZEROS_def)
  have word: "\<not> uspace 1080" by (simp add: uspace_def)
  obtain a as where a: "dec (int n) = a # as" by (cases "dec (int n)") auto
  obtain b bs where b: "dec (int m) = b # bs" by (cases "dec (int m)") auto
  have ends: "\<not> uspace a" "\<not> uspace b" "decimal b" using dec_digits [of n] dec_digits [of m] a b by auto
  let ?u = "32 # OUT_OF @ 32 # dec (int m) @ rest"
  have digits: "takeWhile decimal (dec (int n) @ ?u) = dec (int n)" "dropWhile decimal (dec (int n) @ ?u) = ?u"
    using dec_digits [of n] blank by (simp_all add: takeWhile_append2 dropWhile_append2)
  have first: "dropWhile uspace (32 # dec (int n) @ ?u) = dec (int n) @ ?u" using blank ends a by simp
  have after: "dropWhile uspace ?u = OUT_OF @ 32 # dec (int m) @ rest" using blank word by (simp add: OUT_OF_def)
  have second: "dropWhile uspace (32 # dec (int m) @ rest) = dec (int m) @ rest" using blank ends b by simp
  have outof: "begins_with OUT_OF (OUT_OF @ 32 # dec (int m) @ rest)"
    "drop (length OUT_OF) (OUT_OF @ 32 # dec (int m) @ rest) = 32 # dec (int m) @ rest" by simp_all
  have here: "total_here (dm_text d node) = Some (dec (int n))"
    unfolding shown total_here_found Let_def first digits after outof second using b ends by simp
  then have "total_search (dm_text d node) = Some (dec (int n))"
    by (cases "dm_text d node") (simp_all add: total_here_def begins_with_def FOUND_def)
  with Some t int_of_dec show ?thesis by (simp add: parse_total_def)
qed

lemma parse_shown:
  assumes "\<not> esia_page d" "css_first d (dm_root d) ''tbody'' = Some tb"
    "list_all2 (shows_row up d) (dm_css d tb ''tr[data-key]'') rows" "length rows < MAX_ROWS_PER_PAGE" "shows_total d tot"
  shows "parse_list_page up d = Inr \<lparr> page_rows = rows, page_total_count = tot \<rparr>"
proof -
  have "List.map_filter (parse_tr up d) trs = rows" if "list_all2 (shows_row up d) trs rows" for trs
    using that by (induction rule: list_all2_induct) (simp_all add: map_filter_simps parse_tr_shown)
  with assms(3) have m: "List.map_filter (parse_tr up d) (dm_css d tb ''tr[data-key]'') = rows" by blast
  have "collect_rows (parse_tr up d) (dm_css d tb ''tr[data-key]'') [] = Inr rows"
    using assms(4) by (subst collect_rows_exact) (simp_all add: m)
  with assms total_shown [OF assms(5)] show ?thesis by (simp add: parse_list_page_def)
qed

subsection \<open>A small page\<close>

definition demo_dom :: "ustr \<Rightarrow> nat dom" where
  "demo_dom region =
     \<lparr> dm_root = 0,
       dm_css = (\<lambda>n sel.
         if n = 0 \<and> sel = ''tbody'' then [1]
         else if n = 0 \<and> sel = ''.table-paginate__info'' then [3]
         else if n = 1 \<and> sel = ''tr[data-key]'' then [2]
         else if n = 2 \<and> sel = ''td'' then [10..<24]
         else []),
       dm_text = (\<lambda>n.
         if n = 3 then FOUND @ 32 # dec 1 @ 32 # OUT_OF @ 32 # dec 1
         else if n = 10 then [50] else if n = 11 then dec 100 @ 32 # SQM else if n = 12 then region
         else if n = 20 then dmy_text (date_of 0) else if n = 23 then [78] else []),
       dm_attr = (\<lambda>n a. if n = 2 \<and> a = ''data-key'' then Some (dec 7) else None),
       dm_html = (\<lambda>n. []), dm_tag = (\<lambda>n. ''td''), dm_children = (\<lambda>n. []) \<rparr>"

lemma midnight_0: "midnight 0"
proof -
  have "civil (date_of 0) = (2000, 1, 1)"
    by (simp add: date_of_def civil_def year_of.simps year_days_def is_leap_def month_lengths_def)
  then show ?thesis by (simp add: midnight_def in_calendar_def)
qed

lemma demo_facts:
  "\<not> esia_page (demo_dom g)" "css_first (demo_dom g) (dm_root (demo_dom g)) ''tbody'' = Some 1"
  "dm_css (demo_dom g) 1 ''tr[data-key]'' = [2]"
  by (simp_all add: esia_page_def css_first_def demo_dom_def ESIA_HOST_MARKER_def ESIA_TITLE_MARKERS_def ustr_of_def)

lemma small_number: "0 \<le> n \<Longrightarrow> n < 1000 \<Longrightarrow> fits n"
proof -
  assume "0 \<le> n" "n < 1000"
  then have "length (str_of_nat (nat n)) \<le> 3"
    by (subst str_of_nat.simps, subst str_of_nat.simps, subst str_of_nat.simps) auto
  with \<open>0 \<le> n\<close> show ?thesis by (simp add: fits_def str_of_int_def INT_MAX_DIGITS_def)
qed

lemma demo_area: "shows_area (dec 100 @ 32 # SQM) (Some 100)"
proof -
  have n: "str_of_nat 100 = ''100''" by code_simp
  have "grouped (dec 100) 100" by (simp add: grouped_def dec_def str_of_int_def n ustr_of_def uspace_def)
  then show ?thesis using small_number [of 100] by (auto simp: shows_area_def)
qed

lemma demo_row: "shows_row (\<lambda>c. [c]) (demo_dom g) 2 (sample_row 7\<lparr>row_region := g\<rparr>)"
  using demo_area midnight_0 small_number [of 7]
  by (simp add: shows_row_def demo_dom_def sample_row_def css_first_def opt_text_def shows_date_def Let_def)

lemma demo_total: "shows_total (demo_dom g) (Some 1)"
proof -
  have "shows_total (demo_dom g) (Some (int 1))"
    unfolding shows_total_def using small_number [of 1]
    by (simp add: demo_dom_def css_first_def) (metis append_Nil2 of_nat_1)
  then show ?thesis by simp
qed

lemma demo_rows: "list_all2 (shows_row (\<lambda>c. [c]) (demo_dom [65])) (dm_css (demo_dom [65]) 1 ''tr[data-key]'') [sample_row 7]"
proof -
  have "sample_row 7\<lparr>row_region := [65]\<rparr> = sample_row 7" by (simp add: sample_row_def)
  with demo_row [of "[65]"] show ?thesis unfolding demo_facts by simp
qed

definition demo_page_walk :: fetch_env where
  "demo_page_walk =
     \<lparr> fe_get = (\<lambda>_. fe_get demo_fetch 1), fe_parse = (\<lambda>_. parse_list_page (\<lambda>c. [c]) (demo_dom [65])),
       fe_stop = (\<lambda>_. False), fe_wait = (\<lambda>_. False) \<rparr>"

subsection \<open>Properties\<close>

text \<open>
  C30. A page is read as it was written: where the table's rows show given list rows cell by cell, in
  the site's own formats, and the page is neither a login page nor at the row cap, parsing gives
  exactly these rows in their order, and the total of the info line.
\<close>

theorem list_parser_reads_page:
  assumes "\<not> esia_page d" and "css_first d (dm_root d) ''tbody'' = Some tb"
    and "list_all2 (shows_row up d) (dm_css d tb ''tr[data-key]'') rows" and "length rows < MAX_ROWS_PER_PAGE"
    and "shows_total d tot"
  shows "parse_list_page up d = Inr \<lparr> page_rows = rows, page_total_count = tot \<rparr>"
  using assms by (rule parse_shown)

theorem list_parser_reads_page_witness:
  "parse_list_page (\<lambda>c. [c]) (demo_dom [65]) = Inr \<lparr> page_rows = [sample_row 7], page_total_count = Some 1 \<rparr>"
  by (rule list_parser_reads_page [OF demo_facts(1,2) demo_rows _ demo_total]) (simp add: MAX_ROWS_PER_PAGE_def)

text \<open>
  C31. What comes out of the parser, whatever the page: an expired session exactly on a page with one
  of the login marks; otherwise an error only for a page without a table body, for one that reaches
  the row cap (a page of exactly that many rows included), or for a total too long for an integer;
  and else fewer rows than the cap, each of a table row, with no optional text that is empty, and
  dates that are midnights of the calendar.
\<close>

theorem list_parser_results:
  assumes "\<forall>c. up c \<noteq> []"
  shows "case parse_list_page up d of
      Inl e \<Rightarrow> (e = SessionExpiredError) = esia_page d
        \<and> (e = SessionExpiredError \<or> (e = TBODY_MISSING \<and> css_first d (dm_root d) ''tbody'' = None)
           \<or> (\<exists>tb. css_first d (dm_root d) ''tbody'' = Some tb
               \<and> (if MAX_ROWS_PER_PAGE \<le> length (List.map_filter (parse_tr up d) (dm_css d tb ''tr[data-key]''))
                  then e = ROW_CAP else e = ValueError \<and> parse_total d = Inl ValueError)))
    | Inr page \<Rightarrow> \<not> esia_page d \<and> length (page_rows page) < MAX_ROWS_PER_PAGE
        \<and> (\<exists>tb. css_first d (dm_root d) ''tbody'' = Some tb
             \<and> page_rows page = List.map_filter (parse_tr up d) (dm_css d tb ''tr[data-key]''))
        \<and> (\<forall>r \<in> set (page_rows page). row_promise r)"
proof -
  have tot: "e = ValueError" if "parse_total d = Inl e" for e using that by (rule parse_total_error)
  show ?thesis
  proof (cases "css_first d (dm_root d) ''tbody''")
    case None
    then show ?thesis by (simp add: parse_list_page_def TBODY_MISSING_def)
  next
    case (Some tb)
    have "0 < MAX_ROWS_PER_PAGE" by (simp add: MAX_ROWS_PER_PAGE_def)
    with Some tot parse_list_page_promise [of up d] assms show ?thesis
      by (auto simp: parse_list_page_def collect_rows_exact ROW_CAP_def split: sum.splits)
  qed
qed

theorem list_parser_results_witness:
  "case parse_list_page (\<lambda>c. [c]) ((demo_dom [65])\<lparr>dm_css := \<lambda>n sel. []\<rparr>) of Inl e \<Rightarrow> e = TBODY_MISSING | Inr _ \<Rightarrow> False"
proof -
  let ?d = "(demo_dom [65])\<lparr>dm_css := \<lambda>n sel. []\<rparr>"
  have "parse_list_page (\<lambda>c. [c]) ?d = Inl TBODY_MISSING"
    by (simp add: parse_list_page_def esia_page_def css_first_def ESIA_HOST_MARKER_def ESIA_TITLE_MARKERS_def ustr_of_def)
  then show ?thesis using list_parser_results [of "\<lambda>c. [c]" ?d] by simp
qed

text \<open>
  The rows of a walk. Behind every walk over the site's pages with this parser, whatever the pages
  hold and however the walk ends, each row that comes out keeps the promise of its page, so the lot
  stored for it is created at the midnight of a day of the calendar.
\<close>

theorem walked_rows_promise:
  assumes "\<forall>c. up c \<noteq> []" and "\<forall>t. fe_parse env t = parse_list_page up (dom_of t)"
    and "r \<in> set (rows_of (fst (iterate env max_pages page_start raise_net raise_parse)))"
  shows "row_promise r \<and> midnight (lot_date_create (parsed_row_to_lot r now region_id))"
proof -
  have "\<forall>x \<in> set (page_rows p). row_promise x" if "fe_parse env t = Inr p" for t p
    using that parse_list_page_promise [of up "dom_of t" p] assms(1,2) by simp
  then have "row_promise r" using assms(3) walk_rows_all [of env row_promise] by (simp add: iterate_def)
  then show ?thesis by (simp add: row_promise_def)
qed

theorem walked_rows_promise_witness:
  "rows_of (fst (iterate demo_page_walk (Some 1) 1 False False)) = [sample_row 7] \<and> row_promise (sample_row 7)"
proof -
  have "parse_list_page (\<lambda>c. [c]) (demo_dom [65]) = Inr \<lparr> page_rows = [sample_row 7], page_total_count = Some 1 \<rparr>"
    by (rule parse_shown [OF demo_facts(1,2) demo_rows _ demo_total]) (simp add: MAX_ROWS_PER_PAGE_def)
  then have r: "rows_of (fst (iterate demo_page_walk (Some 1) 1 False False)) = [sample_row 7]"
    by (simp add: iterate_def walk.simps demo_page_walk_def demo_fetch_def PAGE_LIMIT_def)
  then show ?thesis
    using walked_rows_promise [of "\<lambda>c. [c]" demo_page_walk "\<lambda>_. demo_dom [65]" "sample_row 7" "Some 1" 1 False False 0 None]
    by (simp add: demo_page_walk_def)
qed

end
