(* ===== verification/Detail_Parser.thy ===== *)
theory Detail_Parser
  imports List_Parser "HOL-Library.AList"
begin

text \<open>
  The detail parser (\<^verbatim>\<open>infra/parsers/detail_parser.py\<close>), over the same pages as the list parser. A
  dictionary is an association list in insertion order. Coordinates are computed as the code does,
  in double precision, with the rounding to nearest even written out; a number of degrees too large
  for a double, which the code turns into infinity, is kept as the number it rounds to.
\<close>

subsection \<open>Double precision\<close>

fun bits :: "nat \<Rightarrow> nat" where
  "bits n = (if n = 0 then 0 else Suc (bits (n div 2)))"

declare bits.simps [simp del]

definition half_even :: "rat \<Rightarrow> int" where
  "half_even x =
     (let f = \<lfloor>x\<rfloor>; r = x - of_int f
      in if r < 1 / 2 then f else if 1 / 2 < r then f + 1 else if even f then f else f + 1)"

definition double_exponent :: "rat \<Rightarrow> int" where
  "double_exponent x =
     (let (p, q) = quotient_of x;
          k = int (bits (nat p)) - int (bits (nat q))
      in max ((if 2 powi k \<le> x then k else k - 1) - 52) (- 1074))"

definition dbl :: "rat \<Rightarrow> rat" where
  "dbl x = (if x \<le> 0 then 0 else of_int (half_even (x / 2 powi double_exponent x)) * 2 powi double_exponent x)"

subsection \<open>Degrees, minutes, seconds\<close>

definition digits_value :: "ustr \<Rightarrow> nat" where
  "digits_value s = foldl (\<lambda>a c. 10 * a + (case udigit c of None \<Rightarrow> 0 | Some d \<Rightarrow> d)) 0 s"

definition DEGREE :: nat where "DEGREE = 176"
definition PRIME :: nat where "PRIME = 8242"

text \<open>A run of digits, and what follows it after blanks.\<close>

definition digit_run :: "ustr \<Rightarrow> (ustr \<times> ustr) option" where
  "digit_run s = (if takeWhile decimal s = [] then None else Some (takeWhile decimal s, dropWhile decimal s))"

definition mark_then :: "(nat \<Rightarrow> bool) \<Rightarrow> ustr \<Rightarrow> ustr option" where
  "mark_then is_mark s =
     (case dropWhile uspace s of [] \<Rightarrow> None | c # cs \<Rightarrow> (if is_mark c then Some (dropWhile uspace cs) else None))"

text \<open>\<^verbatim>\<open>_DMS_RE\<close> at one place: the groups, the third in its two parts. What its optional end takes is not used.\<close>

definition dms_here :: "ustr \<Rightarrow> (ustr \<times> ustr \<times> ustr \<times> ustr) option" where
  "dms_here s =
     Option.bind (digit_run s) (\<lambda>(deg, s1).
     Option.bind (mark_then (\<lambda>c. c = DEGREE) s1) (\<lambda>s2.
     Option.bind (digit_run s2) (\<lambda>(minutes, s3).
     Option.bind (mark_then (\<lambda>c. c \<in> {PRIME, 39}) s3) (\<lambda>s4.
     Option.bind (digit_run s4) (\<lambda>(secs, s5).
       Some (deg, minutes, secs,
             (case s5 of [] \<Rightarrow> [] | c # cs \<Rightarrow> (if c = 46 then takeWhile decimal cs else []))))))))"

fun dms_search :: "ustr \<Rightarrow> (ustr \<times> ustr \<times> ustr \<times> ustr) option" where
  "dms_search [] = None"
| "dms_search (c # cs) = (case dms_here (c # cs) of Some g \<Rightarrow> Some g | None \<Rightarrow> dms_search cs)"

definition dms_to_decimal :: "ustr \<Rightarrow> coord option" where
  "dms_to_decimal dms_str =
     (if dms_str = [] then None
      else case dms_search dms_str of
             None \<Rightarrow> None
           | Some (g1, g2, g3, g4) \<Rightarrow>
               (let deg = dbl (of_nat (digits_value g1));
                    minutes = dbl (of_nat (digits_value g2));
                    secs = dbl (of_nat (digits_value g3) + of_nat (digits_value g4) / 10 ^ length g4)
                in Some (dbl (dbl (deg + dbl (minutes / 60)) + dbl (secs / 3600)))))"

subsection \<open>Labels and values\<close>

definition child_divs :: "'n dom \<Rightarrow> 'n \<Rightarrow> 'n list" where
  "child_divs d n = filter (\<lambda>c. dm_tag d c = ''div'') (dm_children d n)"

definition add_pair :: "'n dom \<Rightarrow> (ustr \<times> ustr) list \<Rightarrow> 'n \<Rightarrow> (ustr \<times> ustr) list" where
  "add_pair d result pair_div =
     (if dm_tag d pair_div \<noteq> ''div'' then result
      else let direct_divs = child_divs d pair_div
           in if 2 \<le> length direct_divs
              then let label = dm_text d (direct_divs ! 0); v = dm_text d (direct_divs ! 1)
                   in if label \<noteq> [] then AList.update label v result else result
              else result)"

definition extract_kv_pairs :: "'n dom \<Rightarrow> 'n \<Rightarrow> (ustr \<times> ustr) list" where
  "extract_kv_pairs d container = foldl (add_pair d) [] (dm_children d container)"

definition KEY_VALUE :: string where "KEY_VALUE = ''.request-domain__key-value''"

definition block_pairs :: "'n dom \<Rightarrow> (ustr \<times> ustr) list" where
  "block_pairs d =
     foldl (\<lambda>combined kv_block. foldl (\<lambda>c (k, v). AList.update k v c) combined (extract_kv_pairs d kv_block)) []
       (dm_css d (dm_root d) KEY_VALUE)"

definition add_single :: "'n dom \<Rightarrow> ustr \<Rightarrow> (ustr \<times> ustr) list \<Rightarrow> 'n \<Rightarrow> (ustr \<times> ustr) list" where
  "add_single d label combined top_div =
     (let inner_divs = child_divs d top_div;
          add = (\<lambda>v. if v \<noteq> [] \<and> label \<notin> fst ` set combined then AList.update label v combined else combined)
      in if length inner_divs = 1 then add (dm_text d (inner_divs ! 0))
         else if length inner_divs = 0 then add (dm_text d top_div)
         else combined)"

definition add_section :: "'n dom \<Rightarrow> (ustr \<times> ustr) list \<Rightarrow> 'n \<Rightarrow> (ustr \<times> ustr) list" where
  "add_section d combined block =
     (case css_first d block ''h3.request-declaration__title'' of
        None \<Rightarrow> combined
      | Some h3 \<Rightarrow>
          (let label = dm_text d h3
           in if label = [] then combined
              else case css_first d block KEY_VALUE of
                     None \<Rightarrow> combined
                   | Some kv \<Rightarrow> foldl (add_single d label) combined (child_divs d kv)))"

definition SECTIONS :: string where
  "SECTIONS = ''.request-declaration__block-footer, .request-declaration__block-left__item--left''"

definition extract_all_kv :: "'n dom \<Rightarrow> (ustr \<times> ustr) list" where
  "extract_all_kv d = foldl (add_section d) (block_pairs d) (dm_css d (dm_root d) SECTIONS)"

subsection \<open>The parser\<close>

definition pair_get :: "(ustr \<times> ustr) list \<Rightarrow> ustr \<Rightarrow> ustr" where
  "pair_get kv k = or_empty (map_of kv k)"

definition LAT_LABEL :: ustr where "LAT_LABEL = [1064, 1080, 1088, 1086, 1090, 1072]"
definition LON_LABEL :: ustr where "LON_LABEL = [1044, 1086, 1083, 1075, 1086, 1090, 1072]"
definition BOUNDARIES_KEY :: ustr where
  "BOUNDARIES_KEY = [1043, 1088, 1072, 1085, 1080, 1094, 1099, 32, 1091, 1095, 1072, 1089, 1090, 1082, 1072]"
definition YES_VAL :: ustr where "YES_VAL = [1045, 1089, 1090, 1100]"
definition NO_VAL :: ustr where "NO_VAL = [1053, 1077, 1090]"
definition DATE_REGISTRY_KEY :: ustr where
  "DATE_REGISTRY_KEY =
     [1044, 1072, 1090, 1072, 32, 1087, 1086, 1089, 1090, 1072, 1085, 1086, 1074, 1082, 1080, 32, 1085, 1072, 32, 1091, 1095,
      1077, 1090]"
definition DATE_UPDATE_KEY :: ustr where
  "DATE_UPDATE_KEY =
     [1044, 1072, 1090, 1072, 32, 1080, 1079, 1084, 1077, 1085, 1077, 1085, 1080, 1103, 32, 1089, 1074, 1077, 1076, 1077, 1085,
      1080, 1081, 32, 1074, 32, 1045, 1043, 1056, 1053]"

definition MAIN_MISSING :: exc where
  "MAIN_MISSING =
     ParseBugError ''.request-declaration__block-main''
       (''detail-card page; main block missing '' @ map char_of [226, 128, 148 :: nat] @ '' site DOM may have changed'')"

definition parse_detail_page :: "'n dom \<Rightarrow> parsed_detail res" where
  "parse_detail_page d =
     (case css_first d (dm_root d) ''.request-declaration__block-main'' of
        None \<Rightarrow> Inl MAIN_MISSING
      | Some _ \<Rightarrow>
          (let all_kv = extract_all_kv d;
               coordinate = (\<lambda>raw. if raw \<noteq> [] then dms_to_decimal raw else None);
               date = (\<lambda>raw. if raw \<noteq> [] then parse_date (Some raw) else None);
               boundaries_raw = pair_get all_kv BOUNDARIES_KEY
           in Inr \<lparr> det_lat = coordinate (pair_get all_kv LAT_LABEL), det_lon = coordinate (pair_get all_kv LON_LABEL),
                    det_has_boundaries =
                      (if boundaries_raw = YES_VAL then Some True else if boundaries_raw = NO_VAL then Some False else None),
                    det_date_update = date (pair_get all_kv DATE_UPDATE_KEY),
                    det_date_registry = date (pair_get all_kv DATE_REGISTRY_KEY),
                    det_raw_json = map (\<lambda>(k, v). (k, JText v)) (filter (\<lambda>(k, v). v \<noteq> []) all_kv),
                    det_parser_version = 1 \<rparr>))"

subsection \<open>Rounding\<close>

lemma bits_bounds: "n < 2 ^ bits n" "0 < n \<Longrightarrow> 2 ^ bits n \<le> 2 * n"
proof -
  show "n < 2 ^ bits n"
  proof (induction n rule: bits.induct)
    case (1 n)
    then show ?case by (subst bits.simps) auto
  qed
  show "0 < n \<Longrightarrow> 2 ^ bits n \<le> 2 * n"
  proof (induction n rule: bits.induct)
    case (1 n)
    show ?case
    proof (cases "n div 2 = 0")
      case True
      with 1(2) have "n = 1" by (simp add: div_eq_0_iff)
      then show ?thesis by (simp add: bits.simps)
    next
      case False
      with 1 have "2 ^ bits (n div 2) \<le> 2 * (n div 2)" by auto
      then show ?thesis using 1(2) by (subst bits.simps) auto
    qed
  qed
qed

lemma half_even_near: "\<bar>of_int (half_even x) - x\<bar> \<le> 1 / 2"
proof -
  have f: "of_int \<lfloor>x\<rfloor> \<le> x" "x < of_int \<lfloor>x\<rfloor> + 1" by linarith+
  consider "x - of_int \<lfloor>x\<rfloor> < 1 / 2" | "x - of_int \<lfloor>x\<rfloor> = 1 / 2" | "1 / 2 < x - of_int \<lfloor>x\<rfloor>" by linarith
  then show ?thesis
  proof cases
    case 1
    then have "half_even x = \<lfloor>x\<rfloor>" by (simp add: half_even_def Let_def)
    with 1 f show ?thesis by (simp add: abs_le_iff)
  next
    case 2
    then have "half_even x = \<lfloor>x\<rfloor> \<or> half_even x = \<lfloor>x\<rfloor> + 1" by (simp add: half_even_def Let_def)
    with 2 show ?thesis by (auto simp: abs_le_iff)
  next
    case 3
    then have "half_even x = \<lfloor>x\<rfloor> + 1" by (simp add: half_even_def Let_def)
    with 3 f show ?thesis by (simp only: abs_le_iff of_int_add of_int_1) linarith
  qed
qed

lemma double_exponent_small:
  assumes "0 < x" "x < 256"
  shows "double_exponent x \<le> - 44"
proof -
  obtain p q where pq: "quotient_of x = (p, q)" by (cases "quotient_of x") auto
  have q: "0 < q" and x: "x = of_int p / of_int q"
    using quotient_of_denom_pos [OF pq] quotient_of_div [OF pq] by auto
  have p: "0 < p" using assms(1) q x by (simp add: zero_less_divide_iff)
  have "(of_int p :: rat) < of_int (256 * q)" using assms(2) q x by (simp add: divide_less_eq mult.commute)
  then have "p < 256 * q" by (simp only: of_int_less_iff)
  then have "nat p < 256 * nat q" using p q by linarith
  also have "\<dots> < 256 * 2 ^ bits (nat q)" using bits_bounds(1) [of "nat q"] by simp
  finally have "2 * nat p < 2 * (256 * 2 ^ bits (nat q))" by simp
  with bits_bounds(2) [of "nat p"] p have "(2::nat) ^ bits (nat p) < 2 ^ (9 + bits (nat q))"
    by (simp add: power_add)
  then have "bits (nat p) < 9 + bits (nat q)" by simp
  then show ?thesis by (auto simp: double_exponent_def pq Let_def)
qed

lemma dbl_near:
  assumes "0 \<le> x" "x < 256"
  shows "\<bar>dbl x - x\<bar> \<le> 1 / 2 ^ 45" "0 \<le> dbl x"
proof -
  let ?u = "2 powi double_exponent x :: rat"
  have u: "0 < ?u" by simp
  show "\<bar>dbl x - x\<bar> \<le> 1 / 2 ^ 45"
  proof (cases "x = 0")
    case False
    with assms have x: "0 < x" by simp
    have "?u \<le> 2 powi (- 44)" using double_exponent_small [OF x assms(2)] by (intro power_int_increasing) auto
    moreover have "2 powi (- 44) = (1 / 2 ^ 44 :: rat)" by (simp add: power_int_def power_one_over)
    ultimately have le: "?u \<le> 1 / 2 ^ 44" by simp
    have "\<bar>dbl x - x\<bar> = \<bar>of_int (half_even (x / ?u)) - x / ?u\<bar> * ?u"
      using x u by (simp add: dbl_def abs_mult_pos left_diff_distrib)
    also have "\<dots> \<le> 1 / 2 * ?u" using half_even_near u by (intro mult_right_mono) auto
    finally show ?thesis using le by simp
  qed (simp add: dbl_def)
  have "0 \<le> half_even (x / ?u)" using assms(1) u by (auto simp: half_even_def Let_def)
  then show "0 \<le> dbl x" using u by (simp add: dbl_def)
qed

subsection \<open>Reading a coordinate\<close>

definition secs_text :: "nat \<Rightarrow> ustr \<Rightarrow> ustr" where
  "secs_text s fs = dec (int s) @ (if fs = [] then [] else 46 # fs)"

definition dms_text :: "nat \<Rightarrow> nat \<Rightarrow> nat \<Rightarrow> ustr \<Rightarrow> ustr" where
  "dms_text deg m s fs = dec (int deg) @ DEGREE # dec (int m) @ PRIME # secs_text s fs @ [8243]"

lemma digits_value_snoc: "digits_value (s @ [c]) = 10 * digits_value s + (case udigit c of None \<Rightarrow> 0 | Some d \<Rightarrow> d)"
  by (simp add: digits_value_def)

lemma digits_value_dec: "digits_value (dec (int n)) = n"
proof -
  have "digits_value (ustr_of (str_of_nat n)) = n"
  proof (induction n rule: str_of_nat.induct)
    case (1 n)
    have d: "of_char (digit_char (n mod 10)) = 48 + n mod 10" by (rule of_char_digit_char) simp
    show ?case
    proof (cases "n < 10")
      case True
      then show ?thesis
        using udigit_ascii [of n] by (subst str_of_nat.simps) (simp add: ustr_of_def digits_value_def of_char_digit)
    next
      case False
      with 1 have "digits_value (ustr_of (str_of_nat (n div 10))) = n div 10" by simp
      with False d udigit_ascii [of "n mod 10"] show ?thesis
        by (subst str_of_nat.simps) (simp add: ustr_of_def digits_value_snoc)
    qed
  qed
  then show ?thesis by (simp add: dec_def str_of_int_def)
qed

lemma digits_value_bound: "digits_value s < 10 ^ length s"
proof (induction s rule: rev_induct)
  case Nil
  then show ?case by (simp add: digits_value_def)
next
  case (snoc c s)
  have "(case udigit c of None \<Rightarrow> 0 | Some d \<Rightarrow> d) \<le> 9" using udigit_bound by (auto split: option.splits)
  with snoc show ?case by (simp add: digits_value_snoc)
qed

lemma digit_run_dec:
  assumes "\<not> decimal c"
  shows "digit_run (dec (int n) @ c # t) = Some (dec (int n), c # t)"
  using assms dec_digits [of n] by (simp add: digit_run_def takeWhile_append2 dropWhile_append2)

lemma dec_blank_free: "dropWhile uspace (dec (int n) @ t) = dec (int n) @ t"
  using dec_digits [of n] by (cases "dec (int n)") (auto simp del: dec_not_empty, simp)

lemma dms_search_text:
  assumes "\<forall>c \<in> set fs. decimal c"
  shows "dms_search (dms_text deg m s fs) = Some (dec (int deg), dec (int m), dec (int s), fs)"
proof -
  have nd: "\<not> decimal DEGREE" "\<not> decimal PRIME" "\<not> decimal 46" "\<not> decimal 8243"
    by (simp_all add: decimal_def udigit_def DIGIT_ZEROS_def DEGREE_def PRIME_def)
  have ns: "\<not> uspace DEGREE" "\<not> uspace PRIME" by (simp_all add: uspace_def DEGREE_def PRIME_def)
  have secs: "digit_run (secs_text s fs @ [8243]) = Some (dec (int s), (if fs = [] then [] else 46 # fs) @ [8243])"
    using nd digit_run_dec by (simp add: secs_text_def)
  have blank: "dropWhile uspace (secs_text s fs @ [8243]) = secs_text s fs @ [8243]"
    using dec_blank_free by (simp add: secs_text_def)
  have frac: "takeWhile decimal (fs @ [8243]) = fs" using assms nd by (simp add: takeWhile_append2)
  have "dms_here (dms_text deg m s fs) = Some (dec (int deg), dec (int m), dec (int s), fs)"
    using nd ns digit_run_dec dec_blank_free frac
    by (auto simp: dms_here_def dms_text_def mark_then_def secs blank)
  then show ?thesis by (cases "dms_text deg m s fs") (simp_all add: dms_text_def)
qed

lemma dms_error:
  assumes "0 \<le> a" "a \<le> 180" "0 \<le> b" "b < 60" "0 \<le> c" "c < 60"
  shows "\<bar>dbl (dbl (dbl a + dbl (dbl b / 60)) + dbl (dbl c / 3600)) - (a + b / 60 + c / 3600)\<bar> \<le> 1 / 2 ^ 42"
proof -
  define e :: rat where "e = 1 / 2 ^ 45"
  have e: "0 < e" "e < 1" "8 * e = 1 / 2 ^ 42" by (simp_all add: e_def)
  note near = dbl_near [folded e_def, unfolded abs_le_iff]
  have a: "dbl a - a \<le> e" "a - dbl a \<le> e" "0 \<le> dbl a" using near [of a] assms by auto
  have b: "dbl b - b \<le> e" "b - dbl b \<le> e" "0 \<le> dbl b" using near [of b] assms by auto
  have c: "dbl c - c \<le> e" "c - dbl c \<le> e" "0 \<le> dbl c" using near [of c] assms by auto
  let ?b = "dbl (dbl b / 60)" and ?c = "dbl (dbl c / 3600)"
  have b': "?b - dbl b / 60 \<le> e" "dbl b / 60 - ?b \<le> e" "0 \<le> ?b" using near [of "dbl b / 60"] b assms e by auto
  have c': "?c - dbl c / 3600 \<le> e" "dbl c / 3600 - ?c \<le> e" "0 \<le> ?c" using near [of "dbl c / 3600"] c assms e by auto
  let ?s = "dbl (dbl a + ?b)"
  have s: "?s - (dbl a + ?b) \<le> e" "dbl a + ?b - ?s \<le> e" "0 \<le> ?s"
    using near [of "dbl a + ?b"] a b b' assms e by auto
  have "dbl (?s + ?c) - (?s + ?c) \<le> e" "?s + ?c - dbl (?s + ?c) \<le> e"
    using near [of "?s + ?c"] s a b b' c c' assms e by auto
  then show ?thesis using s a b b' c c' unfolding e(3) [symmetric] abs_le_iff by (auto simp: field_simps)
qed

subsection \<open>Labels\<close>

definition labelled :: "(ustr \<times> ustr) list \<Rightarrow> bool" where
  "labelled kv \<longleftrightarrow> distinct (map fst kv) \<and> [] \<notin> fst ` set kv"

lemma labelled_update: "labelled kv \<Longrightarrow> k \<noteq> [] \<Longrightarrow> labelled (AList.update k v kv)"
  by (auto simp: labelled_def distinct_update dom_update)

lemma foldl_invariant: "P a \<Longrightarrow> (\<And>a x. x \<in> set xs \<Longrightarrow> P a \<Longrightarrow> P (f a x)) \<Longrightarrow> P (foldl f a xs)"
  by (induction xs arbitrary: a) auto

lemma labelled_pairs: "labelled (extract_kv_pairs d n)"
proof -
  have "labelled []" by (simp add: labelled_def)
  then show ?thesis
    unfolding extract_kv_pairs_def
    by (rule foldl_invariant) (auto simp: add_pair_def Let_def labelled_update)
qed

lemma labelled_blocks: "labelled (block_pairs d)"
proof -
  have "labelled []" by (simp add: labelled_def)
  moreover have "labelled (foldl (\<lambda>c (k, v). AList.update k v c) kv (extract_kv_pairs d n))" if "labelled kv" for kv n
    using that
  proof (rule foldl_invariant)
    fix a x assume "x \<in> set (extract_kv_pairs d n)" "labelled a"
    moreover from this have "fst x \<noteq> []" using labelled_pairs [of d n] by (auto simp: labelled_def image_iff)
    ultimately show "labelled (case x of (k, v) \<Rightarrow> AList.update k v a)" by (simp add: labelled_update case_prod_beta)
  qed
  ultimately show ?thesis unfolding block_pairs_def by (rule foldl_invariant)
qed

text \<open>A section only ever adds: nothing that is there changes.\<close>

definition only_adds :: "(ustr \<times> ustr) list \<Rightarrow> (ustr \<times> ustr) list \<Rightarrow> bool" where
  "only_adds kv kv' \<longleftrightarrow> labelled kv' \<and> (\<exists>more. kv' = kv @ more \<and> [] \<notin> snd ` set more)"

lemma only_adds_trans: "only_adds a b \<Longrightarrow> only_adds b c \<Longrightarrow> only_adds a c"
  by (auto simp: only_adds_def)

lemma update_new: "k \<notin> fst ` set kv \<Longrightarrow> AList.update k v kv = kv @ [(k, v)]"
  by (induction kv) auto

lemma only_adds_single: "labelled kv \<Longrightarrow> label \<noteq> [] \<Longrightarrow> only_adds kv (add_single d label kv n)"
  using labelled_update [of kv label]
  by (auto simp: only_adds_def add_single_def Let_def update_new)

lemma only_adds_foldl:
  assumes "labelled kv" "\<And>a x. labelled a \<Longrightarrow> only_adds a (f a x)"
  shows "only_adds kv (foldl f kv xs)"
proof (rule foldl_invariant [where P = "only_adds kv"])
  show "only_adds kv kv" using assms(1) by (simp add: only_adds_def)
  show "only_adds kv (f a x)" if "only_adds kv a" for a x
    using that assms(2) [of a x] only_adds_trans by (auto simp: only_adds_def)
qed

lemma only_adds_all: "only_adds (block_pairs d) (extract_all_kv d)"
proof -
  have "only_adds kv kv" if "labelled kv" for kv using that by (simp add: only_adds_def)
  then have "only_adds kv (add_section d kv b)" if "labelled kv" for kv b
    using that by (auto simp: add_section_def Let_def split: option.splits intro: only_adds_foldl only_adds_single)
  then show ?thesis unfolding extract_all_kv_def by (intro only_adds_foldl labelled_blocks)
qed

subsection \<open>A small card\<close>

definition demo_card :: "nat dom" where
  "demo_card =
     \<lparr> dm_root = 0,
       dm_css = (\<lambda>n sel.
         if n = 0 \<and> sel = ''.request-declaration__block-main'' then [1]
         else if n = 0 \<and> sel = KEY_VALUE then [2]
         else if n = 0 \<and> sel = SECTIONS then [3]
         else if n = 3 \<and> sel = ''h3.request-declaration__title'' then [4]
         else if n = 3 \<and> sel = KEY_VALUE then [5]
         else []),
       dm_text = (\<lambda>n. if n = 7 \<or> n = 4 then BOUNDARIES_KEY else if n = 8 then YES_VAL else if n = 10 then NO_VAL else []),
       dm_attr = (\<lambda>n a. None), dm_html = (\<lambda>n. []), dm_tag = (\<lambda>n. ''div''),
       dm_children = (\<lambda>n. if n = 2 then [6] else if n = 6 then [7, 8] else if n = 5 then [10] else []) \<rparr>"

lemma demo_card_kv: "extract_all_kv demo_card = [(BOUNDARIES_KEY, YES_VAL)]"
  by (simp add: extract_all_kv_def block_pairs_def extract_kv_pairs_def add_pair_def add_section_def add_single_def
    child_divs_def css_first_def demo_card_def KEY_VALUE_def SECTIONS_def BOUNDARIES_KEY_def YES_VAL_def NO_VAL_def)

subsection \<open>Properties\<close>

text \<open>
  C33. Coordinates. A text of degrees, minutes and seconds, the seconds with or without decimals, is
  read as a number of degrees within \<open>2 ^ -42\<close> of the exact one, every rounding of the
  computation included.
\<close>

theorem coordinate_text_read:
  assumes "deg < 180" "m < 60" "s < 60" and "\<forall>c \<in> set fs. decimal c"
  shows "\<exists>v. dms_to_decimal (dms_text deg m s fs) = Some v
    \<and> \<bar>v - (of_nat deg + of_nat m / 60 + (of_nat s + of_nat (digits_value fs) / 10 ^ length fs) / 3600)\<bar> \<le> 1 / 2 ^ 42"
proof -
  let ?c = "of_nat s + of_nat (digits_value fs) / 10 ^ length fs :: rat"
  have "of_nat (digits_value fs) < (of_nat (10 ^ length fs) :: rat)" using digits_value_bound by (simp only: of_nat_less_iff)
  then have "of_nat (digits_value fs) / 10 ^ length fs < (1 :: rat)" by simp
  moreover have "of_nat s \<le> (59 :: rat)" using assms(3) by (simp add: of_nat_le_numeral_iff)
  ultimately have c: "0 \<le> ?c" "?c < 60" by (simp, linarith)
  have "dms_text deg m s fs \<noteq> []" by (simp add: dms_text_def)
  then show ?thesis
    using dms_error [of "of_nat deg" "of_nat m" ?c] c assms
    by (simp add: dms_to_decimal_def dms_search_text digits_value_dec Let_def)
qed

theorem coordinate_text_read_witness:
  "\<exists>v. dms_to_decimal (dms_text 48 57 21 []) = Some v \<and> \<bar>v - (48 + 57 / 60 + 21 / 3600)\<bar> \<le> 1 / 2 ^ 42"
  using coordinate_text_read [of 48 57 21 "[]"] by (simp add: digits_value_def)

text \<open>
  C32. What a detail card gives, whatever the page: the one error is a missing main block; otherwise
  the stored pairs have distinct labels and no empty label or text, the pairs of the key-value blocks
  stay before those of the titled sections, which change none of them, both dates are midnights of
  the calendar, and the boundaries are known only for the site's two words.
\<close>

theorem detail_parser_results:
  "case parse_detail_page d of
     Inl e \<Rightarrow> e = MAIN_MISSING \<and> css_first d (dm_root d) ''.request-declaration__block-main'' = None
   | Inr det \<Rightarrow>
       css_first d (dm_root d) ''.request-declaration__block-main'' \<noteq> None
       \<and> distinct (map fst (det_raw_json det)) \<and> [] \<notin> fst ` set (det_raw_json det) \<and> JText [] \<notin> snd ` set (det_raw_json det)
       \<and> (\<exists>more. det_raw_json det = map (\<lambda>(k, v). (k, JText v)) (filter (\<lambda>(k, v). v \<noteq> []) (block_pairs d) @ more)
            \<and> (\<forall>(k, v) \<in> set more. k \<notin> fst ` set (block_pairs d)))
       \<and> pred_option midnight (det_date_update det) \<and> pred_option midnight (det_date_registry det)
       \<and> (\<forall>b. det_has_boundaries det = Some b \<longrightarrow> (BOUNDARIES_KEY, JText (if b then YES_VAL else NO_VAL)) \<in> set (det_raw_json det))"
proof (cases "css_first d (dm_root d) ''.request-declaration__block-main''")
  case None
  then show ?thesis by (simp add: parse_detail_page_def)
next
  case (Some b)
  let ?kv = "extract_all_kv d"
  let ?date = "\<lambda>raw. if raw \<noteq> [] then parse_date (Some raw) else None"
  obtain det where det: "parse_detail_page d = Inr det" by (simp add: parse_detail_page_def Some Let_def)
  have "det_raw_json (projr (parse_detail_page d)) = map (\<lambda>(k, v). (k, JText v)) (filter (\<lambda>(k, v). v \<noteq> []) ?kv)"
    "det_date_update (projr (parse_detail_page d)) = ?date (pair_get ?kv DATE_UPDATE_KEY)"
    "det_date_registry (projr (parse_detail_page d)) = ?date (pair_get ?kv DATE_REGISTRY_KEY)"
    "det_has_boundaries (projr (parse_detail_page d)) =
      (if pair_get ?kv BOUNDARIES_KEY = YES_VAL then Some True else if pair_get ?kv BOUNDARIES_KEY = NO_VAL then Some False else None)"
    unfolding parse_detail_page_def Some Let_def by simp_all
  then have json: "det_raw_json det = map (\<lambda>(k, v). (k, JText v)) (filter (\<lambda>(k, v). v \<noteq> []) ?kv)"
    and du: "det_date_update det = ?date (pair_get ?kv DATE_UPDATE_KEY)"
    and dr: "det_date_registry det = ?date (pair_get ?kv DATE_REGISTRY_KEY)"
    and hb: "det_has_boundaries det =
      (if pair_get ?kv BOUNDARIES_KEY = YES_VAL then Some True else if pair_get ?kv BOUNDARIES_KEY = NO_VAL then Some False else None)"
    by (simp_all only: det sum.sel)
  obtain more where kv: "?kv = block_pairs d @ more" "[] \<notin> snd ` set more" and lab: "labelled ?kv"
    using only_adds_all [of d] by (auto simp: only_adds_def)
  have "pred_option midnight (?date raw)" for raw
    using parse_date_midnight [of "Some raw"] by (cases "parse_date (Some raw)") (auto simp: midnight_def)
  then have dates: "pred_option midnight (det_date_update det)" "pred_option midnight (det_date_registry det)"
    unfolding du dr by blast+
  have "distinct (map fst (filter (\<lambda>(k, v). v \<noteq> []) ?kv))" using lab by (simp add: labelled_def distinct_map_filter)
  then have "distinct (map fst (det_raw_json det))" by (simp add: json o_def case_prod_beta)
  moreover have "[] \<notin> fst ` set (det_raw_json det)" "JText [] \<notin> snd ` set (det_raw_json det)"
    using lab by (auto simp: json labelled_def image_iff)
  moreover have "filter (\<lambda>(k, v). v \<noteq> []) more = more" using kv(2) by (auto simp: filter_id_conv image_iff)
  moreover have "\<forall>(k, v) \<in> set more. k \<notin> fst ` set (block_pairs d)"
    using lab by (force simp: kv labelled_def)
  moreover have "(BOUNDARIES_KEY, JText (if b then YES_VAL else NO_VAL)) \<in> set (det_raw_json det)"
    if "det_has_boundaries det = Some b" for b
  proof -
    have "pair_get ?kv BOUNDARIES_KEY = (if b then YES_VAL else NO_VAL)"
      using that unfolding hb by (auto split: if_splits)
    moreover have "YES_VAL \<noteq> []" "NO_VAL \<noteq> []" by (simp_all add: YES_VAL_def NO_VAL_def)
    ultimately have "map_of ?kv BOUNDARIES_KEY = Some (if b then YES_VAL else NO_VAL)" "(if b then YES_VAL else NO_VAL) \<noteq> []"
      by (cases "map_of ?kv BOUNDARIES_KEY"; cases b; simp add: pair_get_def or_empty_def)+
    then show ?thesis using map_of_SomeD by (fastforce simp: json)
  qed
  ultimately show ?thesis using dates Some by (auto simp: det json kv(1))
qed

theorem detail_parser_results_witness:
  "\<exists>det. parse_detail_page demo_card = Inr det \<and> det_has_boundaries det = Some True
     \<and> (BOUNDARIES_KEY, JText YES_VAL) \<in> set (det_raw_json det)"
proof -
  have "css_first demo_card (dm_root demo_card) ''.request-declaration__block-main'' = Some 1"
    by (simp add: css_first_def demo_card_def)
  then have "\<exists>det. parse_detail_page demo_card = Inr det \<and> det_has_boundaries det = Some True"
    by (simp add: parse_detail_page_def demo_card_kv pair_get_def or_empty_def Let_def)
  then obtain det where "parse_detail_page demo_card = Inr det" "det_has_boundaries det = Some True" by blast
  then show ?thesis using detail_parser_results [of demo_card] by auto
qed

end
