(* ===== verification/Migrations.thy ===== *)
theory Migrations
  imports Regions "HOL-Library.List_Lexorder"
begin

text \<open>
  The database schema and its migrations (\<^verbatim>\<open>infra/sqlite/init_db.py\<close>, \<^verbatim>\<open>infra/sqlite/migrations.py\<close>
  and the ten \<^verbatim>\<open>migrations_v*.py\<close>). A table is its columns and its rows, a row the values by column; a
  statement that fails leaves the tables as they were. Indexes, triggers, virtual tables and the
  pragmas other than \<^verbatim>\<open>user_version\<close> hold no data of their own and are left out; an index a
  migration creates on \<^verbatim>\<open>lots\<close> is the statement that needs its columns and changes no row.
\<close>

subsection \<open>Tables\<close>

datatype cell = Null | Int_cell int | Text_cell ustr

type_synonym row = "string \<Rightarrow> cell"

record sql_table =
  tab_cols :: "string list"
  tab_rows :: "row list"

type_synonym tables = "string \<Rightarrow> sql_table option"

record database =
  user_version :: int
  db_tables :: tables

datatype db_error =
    Sql_error
  | Runtime_error
  | Duplicate_migration int
  | Migration_required int int
  | Concurrent_migration int int
  | Chain_broken int int

fun run_stmts :: "('s \<Rightarrow> db_error + 's) list \<Rightarrow> 's \<Rightarrow> db_error + 's" where
  "run_stmts [] s = Inr s"
| "run_stmts (f # fs) s = (case f s of Inl e \<Rightarrow> Inl e | Inr s' \<Rightarrow> run_stmts fs s')"

definition on_table :: "string \<Rightarrow> (sql_table \<Rightarrow> db_error + sql_table) \<Rightarrow> tables \<Rightarrow> db_error + tables" where
  "on_table t f tabs =
     (case tabs t of
        None \<Rightarrow> Inl Sql_error
      | Some x \<Rightarrow> (case f x of Inl e \<Rightarrow> Inl e | Inr y \<Rightarrow> Inr (tabs(t \<mapsto> y))))"

definition add_column :: "string \<Rightarrow> string \<Rightarrow> cell \<Rightarrow> tables \<Rightarrow> db_error + tables" where
  "add_column t c dflt =
     on_table t (\<lambda>x. if c \<in> set (tab_cols x) then Inl Sql_error
       else Inr \<lparr>tab_cols = tab_cols x @ [c], tab_rows = map (\<lambda>r. r(c := dflt)) (tab_rows x)\<rparr>)"

definition drop_column :: "string \<Rightarrow> string \<Rightarrow> tables \<Rightarrow> db_error + tables" where
  "drop_column t c =
     on_table t (\<lambda>x. if c \<notin> set (tab_cols x) then Inl Sql_error
       else Inr (x\<lparr>tab_cols := removeAll c (tab_cols x)\<rparr>))"

text \<open>A statement over the rows of a table, naming the columns it needs.\<close>

definition on_rows :: "string \<Rightarrow> string list \<Rightarrow> (row list \<Rightarrow> row list) \<Rightarrow> tables \<Rightarrow> db_error + tables" where
  "on_rows t cols f =
     on_table t (\<lambda>x. if set cols \<subseteq> set (tab_cols x) then Inr (x\<lparr>tab_rows := f (tab_rows x)\<rparr>) else Inl Sql_error)"

definition create_table :: "string \<Rightarrow> string list \<Rightarrow> tables \<Rightarrow> db_error + tables" where
  "create_table t cols tabs =
     (if tabs t \<noteq> None then Inl Sql_error else Inr (tabs(t \<mapsto> \<lparr>tab_cols = cols, tab_rows = []\<rparr>)))"

definition create_if_absent :: "string \<Rightarrow> string list \<Rightarrow> tables \<Rightarrow> db_error + tables" where
  "create_if_absent t cols tabs =
     (if tabs t \<noteq> None then Inr tabs else Inr (tabs(t \<mapsto> \<lparr>tab_cols = cols, tab_rows = []\<rparr>)))"

definition drop_table :: "string \<Rightarrow> tables \<Rightarrow> db_error + tables" where
  "drop_table t tabs = (if tabs t = None then Inl Sql_error else Inr (tabs(t := None)))"

definition rename_table :: "string \<Rightarrow> string \<Rightarrow> tables \<Rightarrow> db_error + tables" where
  "rename_table t u tabs =
     (case (tabs t, tabs u) of (Some x, None) \<Rightarrow> Inr (tabs(t := None, u \<mapsto> x)) | _ \<Rightarrow> Inl Sql_error)"

subsection \<open>The migrations\<close>

definition NOTIFICATION_COLS :: "string list" where
  "NOTIFICATION_COLS = [''lot_id'', ''channel'', ''recipient'', ''status'', ''attempt_no'', ''last_attempt_at'', ''sent_at'']"

definition sent_row :: "row \<Rightarrow> row" where
  "sent_row r =
     (\<lambda>_. Null)(''lot_id'' := r ''lot_id'', ''channel'' := r ''channel'', ''recipient'' := r ''recipient'',
        ''status'' := Text_cell (map of_char ''sent''), ''attempt_no'' := Int_cell 1,
        ''last_attempt_at'' := r ''sent_at'', ''sent_at'' := r ''sent_at'')"

definition copy_notifications :: "tables \<Rightarrow> db_error + tables" where
  "copy_notifications tabs =
     (case tabs ''notifications'' of
        None \<Rightarrow> Inl Sql_error
      | Some old \<Rightarrow>
          (if set [''lot_id'', ''channel'', ''recipient'', ''sent_at''] \<subseteq> set (tab_cols old)
           then on_rows ''notifications_new'' NOTIFICATION_COLS (\<lambda>rows. rows @ map sent_row (tab_rows old)) tabs
           else Inl Sql_error))"

definition v1_to_v2 :: "tables \<Rightarrow> db_error + tables" where
  "v1_to_v2 =
     run_stmts
       [create_table ''notifications_new'' NOTIFICATION_COLS,
        copy_notifications,
        drop_table ''notifications'',
        rename_table ''notifications_new'' ''notifications'',
        add_column ''smtp_credentials'' ''smtp_host'' (Text_cell (map of_char ''smtp.yandex.ru'')),
        add_column ''smtp_credentials'' ''smtp_port'' (Int_cell 587)]"

definition v2_to_v3 :: "tables \<Rightarrow> db_error + tables" where
  "v2_to_v3 = add_column ''smtp_credentials'' ''smtp_from_name'' Null"

text \<open>\<^verbatim>\<open>name_to_macro\<close>: the first macro-region, in catalogue order, that has a subject of this name.\<close>

definition name_to_macro :: "ustr \<Rightarrow> int option" where
  "name_to_macro name =
     map_option fst (find (\<lambda>(m, sids). \<exists>sid \<in> set sids. map_of SUBJECT_TITLE_BY_ID sid = Some name \<and> name \<noteq> []) SUBJECTS_BY_MACRO)"

text \<open>
  One \<^verbatim>\<open>UPDATE\<close> per name that is in the table, which together touch every row once: \<open>f\<close> gives the
  value for a name, \<open>None\<close> where no statement is run for it.
\<close>

definition update_by_name :: "(cell \<Rightarrow> bool) \<Rightarrow> (ustr \<Rightarrow> cell option) \<Rightarrow> row list \<Rightarrow> row list" where
  "update_by_name touched f =
     map (\<lambda>r. case r ''region'' of
                Text_cell name \<Rightarrow>
                  (case f name of Some v \<Rightarrow> (if touched (r ''region_id'') then r(''region_id'' := v) else r) | None \<Rightarrow> r)
              | _ \<Rightarrow> r)"

definition v3_to_v4 :: "tables \<Rightarrow> db_error + tables" where
  "v3_to_v4 =
     run_stmts
       [add_column ''lots'' ''region_id'' Null,
        on_rows ''lots'' [''region'', ''region_id''] (update_by_name (\<lambda>_. True) (map_option Int_cell \<circ> name_to_macro)),
        on_rows ''lots'' [''region_id'', ''is_active''] id,
        create_if_absent ''region_subscriptions'' [''region_id'', ''subscribed_at'']]"

definition v4_to_v5 :: "tables \<Rightarrow> db_error + tables" where
  "v4_to_v5 = add_column ''lots'' ''date_registry'' Null"

definition v5_to_v6 :: "tables \<Rightarrow> db_error + tables" where
  "v5_to_v6 = drop_column ''lot_user_state'' ''starred''"

definition v6_to_v7 :: "tables \<Rightarrow> db_error + tables" where
  "v6_to_v7 =
     on_rows ''lots'' [''region'', ''region_id'']
       (update_by_name (\<lambda>v. v = Null) (map_option Int_cell \<circ> name_to_macro))"

text \<open>Every name that is in the table is updated, with \<^verbatim>\<open>NULL\<close> where it is unknown.\<close>

definition v7_to_v8 :: "tables \<Rightarrow> db_error + tables" where
  "v7_to_v8 =
     on_rows ''lots'' [''region'', ''region_id'']
       (update_by_name (\<lambda>_. True)
          (\<lambda>name. Some (case map_of TITLE_TO_SUBJECT_ID name of None \<Rightarrow> Null | Some sid \<Rightarrow> Int_cell sid)))"

definition v8_to_v9 :: "tables \<Rightarrow> db_error + tables" where
  "v8_to_v9 = on_rows ''lots'' [''first_seen''] id"

text \<open>\<^verbatim>\<open>MIN(a, b)\<close>: \<^verbatim>\<open>NULL\<close> if one is, numbers before texts, texts by their code points.\<close>

fun min_cell :: "cell \<Rightarrow> cell \<Rightarrow> cell" where
  "min_cell (Int_cell a) (Int_cell b) = Int_cell (min a b)"
| "min_cell (Int_cell a) (Text_cell b) = Int_cell a"
| "min_cell (Text_cell a) (Int_cell b) = Int_cell b"
| "min_cell (Text_cell a) (Text_cell b) = Text_cell (min a b)"
| "min_cell _ _ = Null"

definition insert_or_ignore :: "int \<Rightarrow> cell \<Rightarrow> row list \<Rightarrow> row list" where
  "insert_or_ignore g t rows =
     (if list_ex (\<lambda>r. r ''region_id'' = Int_cell g) rows then rows
      else rows @ [(\<lambda>_. Null)(''region_id'' := Int_cell g, ''subscribed_at'' := t)])"

definition lower_date :: "int \<Rightarrow> cell \<Rightarrow> row list \<Rightarrow> row list" where
  "lower_date g t =
     map (\<lambda>r. if r ''region_id'' = Int_cell g then r(''subscribed_at'' := min_cell (r ''subscribed_at'') t) else r)"

definition subscribe_subject :: "int \<times> cell \<Rightarrow> row list \<Rightarrow> row list" where
  "subscribe_subject = (\<lambda>(g, t). lower_date g t \<circ> insert_or_ignore g t)"

text \<open>The macro-regions among the rows read at the start, with their dates; then what each stands for.\<close>

definition macro_rows :: "row list \<Rightarrow> (int \<times> cell) list" where
  "macro_rows rows =
     List.map_filter (\<lambda>r. case r ''region_id'' of
         Int_cell g \<Rightarrow> (if map_of SUBJECTS_BY_MACRO g \<noteq> None then Some (g, r ''subscribed_at'') else None)
       | _ \<Rightarrow> None) rows"

definition subjects_of_macro :: "int \<Rightarrow> int list" where
  "subjects_of_macro g = (case map_of SUBJECTS_BY_MACRO g of None \<Rightarrow> [] | Some sids \<Rightarrow> sids)"

definition macro_subjects :: "row list \<Rightarrow> (int \<times> cell) list" where
  "macro_subjects rows = concat (map (\<lambda>(g, t). map (\<lambda>s. (s, t)) (subjects_of_macro g)) (macro_rows rows))"

definition expand_macros :: "row list \<Rightarrow> row list" where
  "expand_macros rows =
     filter (\<lambda>r. \<not> list_ex (\<lambda>(g, _). r ''region_id'' = Int_cell g) (macro_rows rows))
       (fold subscribe_subject (macro_subjects rows) rows)"

definition v9_to_v10 :: "tables \<Rightarrow> db_error + tables" where
  "v9_to_v10 = on_rows ''region_subscriptions'' [''region_id'', ''subscribed_at''] expand_macros"

definition v10_to_v11 :: "tables \<Rightarrow> db_error + tables" where
  "v10_to_v11 tabs =
     (if (case tabs ''lots'' of None \<Rightarrow> False | Some x \<Rightarrow> ''is_backfill'' \<in> set (tab_cols x)) then Inr tabs
      else add_column ''lots'' ''is_backfill'' (Int_cell 0) tabs)"

subsection \<open>The runner\<close>

record migration =
  mig_from :: int
  mig_to :: int
  mig_apply :: "tables \<Rightarrow> db_error + tables"

fun check_unique :: "int set \<Rightarrow> migration list \<Rightarrow> db_error option" where
  "check_unique seen [] = None"
| "check_unique seen (m # ms) =
     (if mig_from m \<in> seen then Some (Duplicate_migration (mig_from m)) else check_unique (insert (mig_from m) seen) ms)"

definition make_runner :: "migration list \<Rightarrow> db_error + migration list" where
  "make_runner ms =
     (let sorted_ms = sort_key mig_from ms
      in case check_unique {} sorted_ms of Some e \<Rightarrow> Inl e | None \<Rightarrow> Inr sorted_ms)"

text \<open>\<^verbatim>\<open>by_from.get(current)\<close>: sources are unique, so the first is the only one.\<close>

fun chain_loop :: "migration list \<Rightarrow> int \<Rightarrow> int \<Rightarrow> nat \<Rightarrow> int \<Rightarrow> migration list \<Rightarrow> db_error + migration list" where
  "chain_loop ms from_v to_v 0 current chain = Inl (Chain_broken from_v to_v)"
| "chain_loop ms from_v to_v (Suc n) current chain =
     (if current = to_v then Inr chain
      else case find (\<lambda>m. mig_from m = current) ms of
             None \<Rightarrow> Inl (Chain_broken from_v to_v)
           | Some m \<Rightarrow>
               (if mig_to m \<le> current then Inl (Chain_broken from_v to_v)
                else chain_loop ms from_v to_v n (mig_to m) (chain @ [m])))"

definition build_chain :: "migration list \<Rightarrow> int \<Rightarrow> int \<Rightarrow> db_error + migration list" where
  "build_chain ms from_v to_v = chain_loop ms from_v to_v (length ms + 1) from_v []"

text \<open>A transaction: every failure leaves the database as it was.\<close>

definition run_pending :: "migration list \<Rightarrow> database \<Rightarrow> int \<Rightarrow> int \<Rightarrow> database \<times> (db_error + unit)" where
  "run_pending ms db from_v to_v =
     (if user_version db \<noteq> from_v then (db, Inl (Concurrent_migration from_v (user_version db)))
      else if from_v = to_v then (db, Inr ())
      else case build_chain ms from_v to_v of
             Inl e \<Rightarrow> (db, Inl e)
           | Inr chain \<Rightarrow>
               (case run_stmts (map mig_apply chain) (db_tables db) of
                  Inl e \<Rightarrow> (db, Inl e)
                | Inr tabs \<Rightarrow> (\<lparr>user_version = to_v, db_tables = tabs\<rparr>, Inr ())))"

definition DEFAULT_MIGRATIONS :: "migration list" where
  "DEFAULT_MIGRATIONS =
     [\<lparr>mig_from = 1, mig_to = 2, mig_apply = v1_to_v2\<rparr>, \<lparr>mig_from = 2, mig_to = 3, mig_apply = v2_to_v3\<rparr>,
      \<lparr>mig_from = 3, mig_to = 4, mig_apply = v3_to_v4\<rparr>, \<lparr>mig_from = 4, mig_to = 5, mig_apply = v4_to_v5\<rparr>,
      \<lparr>mig_from = 5, mig_to = 6, mig_apply = v5_to_v6\<rparr>, \<lparr>mig_from = 6, mig_to = 7, mig_apply = v6_to_v7\<rparr>,
      \<lparr>mig_from = 7, mig_to = 8, mig_apply = v7_to_v8\<rparr>, \<lparr>mig_from = 8, mig_to = 9, mig_apply = v8_to_v9\<rparr>,
      \<lparr>mig_from = 9, mig_to = 10, mig_apply = v9_to_v10\<rparr>, \<lparr>mig_from = 10, mig_to = 11, mig_apply = v10_to_v11\<rparr>]"

subsection \<open>Start-up\<close>

definition LATEST_SCHEMA_VERSION :: int where "LATEST_SCHEMA_VERSION = 11"

text \<open>A schema script: each statement is durable of its own, as no transaction is opened around them.\<close>

datatype script_stmt = Stamp int | Create string "string list"

fun exec_stmt :: "script_stmt \<Rightarrow> database \<Rightarrow> database" where
  "exec_stmt (Stamp v) db = db\<lparr>user_version := v\<rparr>"
| "exec_stmt (Create t cols) db =
     (if db_tables db t \<noteq> None then db else db\<lparr>db_tables := (db_tables db)(t \<mapsto> \<lparr>tab_cols = cols, tab_rows = []\<rparr>)\<rparr>)"

definition exec_script :: "script_stmt list \<Rightarrow> database \<Rightarrow> database" where
  "exec_script = fold exec_stmt"

text \<open>
  \<open>has_tables\<close> is the answer of the catalogue query for the database; \<open>runner\<close> the optional
  argument.
\<close>

definition init_db ::
  "script_stmt list \<Rightarrow> int \<Rightarrow> migration list option \<Rightarrow> bool \<Rightarrow> database \<Rightarrow> database \<times> (db_error + unit)" where
  "init_db schema_sql latest runner has_tables db =
     (let current = user_version db
      in if current = latest then (db, Inr ())
         else if current > latest then (db, Inl Runtime_error)
         else if current = 0 \<and> \<not> has_tables
           then let db' = exec_script schema_sql db
                in (db', if user_version db' \<noteq> latest then Inl Runtime_error else Inr ())
         else case runner of
                None \<Rightarrow> (db, Inl (Migration_required current latest))
              | Some ms \<Rightarrow>
                  (case run_pending ms db current latest of
                     (db', Inl e) \<Rightarrow> (db', Inl e)
                   | (db', Inr _) \<Rightarrow> (db', if user_version db' \<noteq> latest then Inl Runtime_error else Inr ())))"

definition LOT_COLS :: "string list" where
  "LOT_COLS =
     [''id'', ''cadastral_no'', ''area_sqm'', ''region'', ''region_id'', ''municipality'', ''land_category'', ''permitted_use'',
      ''ogv'', ''status'', ''date_create'', ''date_update'', ''date_registry'', ''lat'', ''lon'', ''has_boundaries'',
      ''raw_json'', ''parser_version'', ''first_seen'', ''last_seen'', ''detail_fetched_at'', ''enrichment_status'',
      ''enrichment_retries'', ''enrichment_last_error'', ''last_seen_at'', ''last_status'', ''last_status_at'', ''is_active'',
      ''inactive_reason'', ''inactive_since'', ''inactive_confirmed_at'', ''is_backfill'']"

definition SCHEMA_TABLES :: "(string \<times> string list) list" where
  "SCHEMA_TABLES =
     [(''lots'', LOT_COLS),
      (''lots_history'', [''id'', ''lot_id'', ''field'', ''old_value'', ''new_value'', ''changed_at'']),
      (''lot_html_archive'', [''lot_id'', ''html'', ''fetched_at'', ''parser_version'']),
      (''cycles'', [''id'', ''region'', ''started_at'', ''finished_at'', ''status'', ''lots_fetched'', ''new_lots'', ''error'',
         ''id_schema_check'']),
      (''lot_user_state'', [''lot_id'', ''submitted'', ''submitted_at'', ''note'', ''seen_at'', ''updated_at'']),
      (''notifications'', NOTIFICATION_COLS),
      (''region_subscriptions'', [''region_id'', ''subscribed_at'']),
      (''smtp_credentials'', [''id'', ''smtp_user'', ''smtp_password'', ''smtp_host'', ''smtp_port'', ''use_default'',
         ''smtp_from_name'', ''updated_at'']),
      (''state'', [''key'', ''value'', ''updated_at''])]"

text \<open>\<^verbatim>\<open>docs/db/schema.sql\<close>: the version is stamped before the first table is created.\<close>

definition SCHEMA_SQL :: "script_stmt list" where
  "SCHEMA_SQL = Stamp 11 # map (\<lambda>(t, cols). Create t cols) SCHEMA_TABLES"

subsection \<open>Chains\<close>

fun linked :: "int \<Rightarrow> migration list \<Rightarrow> int \<Rightarrow> bool" where
  "linked a [] b \<longleftrightarrow> a = b"
| "linked a (m # ms) b \<longleftrightarrow> mig_from m = a \<and> a < mig_to m \<and> linked (mig_to m) ms b"

definition unique_sources :: "migration list \<Rightarrow> bool" where
  "unique_sources ms \<longleftrightarrow> distinct (map mig_from ms)"

lemma linked_le: "linked a c b \<Longrightarrow> a \<le> b \<and> (\<forall>m \<in> set c. a \<le> mig_from m)"
proof (induction c arbitrary: a)
  case (Cons m c)
  then have "mig_from m = a" "a < mig_to m" "linked (mig_to m) c b" by auto
  with Cons.IH [of "mig_to m"] show ?case by auto
qed simp

lemma linked_distinct: "linked a c b \<Longrightarrow> distinct (map mig_from c)"
proof (induction c arbitrary: a)
  case (Cons m c)
  then have "\<forall>x \<in> set c. mig_to m \<le> mig_from x" using linked_le [of "mig_to m" c b] by simp
  with Cons show ?case by fastforce
qed simp

lemma chain_loop_sound:
  "chain_loop ms f t n cur acc = Inr c \<Longrightarrow> \<exists>c'. c = acc @ c' \<and> linked cur c' t \<and> set c' \<subseteq> set ms"
proof (induction n arbitrary: cur acc)
  case (Suc n)
  show ?case
  proof (cases "cur = t")
    case True
    with Suc.prems show ?thesis by (intro exI [of _ "[]"]) simp
  next
    case False
    with Suc.prems obtain m where m: "find (\<lambda>m. mig_from m = cur) ms = Some m" "cur < mig_to m"
      and r: "chain_loop ms f t n (mig_to m) (acc @ [m]) = Inr c"
      by (auto split: option.splits if_splits)
    from Suc.IH [OF r] obtain c' where "c = acc @ m # c'" "linked (mig_to m) c' t" "set c' \<subseteq> set ms" by auto
    with m find_SomeD [OF m(1)] show ?thesis by (intro exI [of _ "m # c'"]) auto
  qed
qed simp

lemma find_source:
  assumes "unique_sources ms" "m \<in> set ms"
  shows "find (\<lambda>x. mig_from x = mig_from m) ms = Some m"
  using assms by (induction ms) (auto simp: unique_sources_def)

lemma chain_loop_complete:
  assumes "unique_sources ms"
  shows "linked cur c t \<Longrightarrow> set c \<subseteq> set ms \<Longrightarrow> length c < n \<Longrightarrow> chain_loop ms f t n cur acc = Inr (acc @ c)"
proof (induction c arbitrary: cur acc n)
  case Nil
  then show ?case by (cases n) auto
next
  case (Cons m c)
  then obtain k where n: "n = Suc k" "length c < k" by (cases n) auto
  have "cur < mig_to m" "mig_to m \<le> t" "mig_from m = cur" using Cons.prems linked_le by auto
  moreover have "find (\<lambda>x. mig_from x = cur) ms = Some m" using find_source [OF assms, of m] Cons.prems calculation by simp
  ultimately show ?case using Cons n by simp
qed

lemma build_chain_exact:
  assumes "unique_sources ms"
  shows "build_chain ms a b = Inr c \<longleftrightarrow> linked a c b \<and> set c \<subseteq> set ms"
proof
  assume "build_chain ms a b = Inr c"
  then show "linked a c b \<and> set c \<subseteq> set ms" unfolding build_chain_def using chain_loop_sound by fastforce
next
  assume l: "linked a c b \<and> set c \<subseteq> set ms"
  then have d: "distinct (map mig_from c)" using linked_distinct by blast
  have "length c = card (set (map mig_from c))" using distinct_card [OF d] by simp
  also have "\<dots> \<le> card (set (map mig_from ms))" using l by (intro card_mono) auto
  also have "\<dots> \<le> length ms" using card_length [of "map mig_from ms"] by simp
  finally show "build_chain ms a b = Inr c" unfolding build_chain_def using chain_loop_complete [OF assms, of a c b "length ms + 1" a "[]"] l by simp
qed

lemma build_chain_error: "build_chain ms a b = Inl e \<Longrightarrow> e = Chain_broken a b"
proof -
  have "chain_loop ms a b n cur acc = Inl e \<Longrightarrow> e = Chain_broken a b" for n cur acc
    by (induction n arbitrary: cur acc) (auto split: if_splits option.splits)
  then show "build_chain ms a b = Inl e \<Longrightarrow> e = Chain_broken a b" unfolding build_chain_def by blast
qed

lemma check_unique_exact:
  "check_unique seen ms = None \<longleftrightarrow> unique_sources ms \<and> seen \<inter> set (map mig_from ms) = {}"
  by (induction ms arbitrary: seen) (auto simp: unique_sources_def)

lemma make_runner_exact:
  "make_runner ms = (if unique_sources ms then Inr (sort_key mig_from ms)
     else Inl (the (check_unique {} (sort_key mig_from ms))))"
proof -
  have "unique_sources (sort_key mig_from ms) = unique_sources ms"
    by (simp add: unique_sources_def distinct_map)
  then show ?thesis
    using check_unique_exact [of "{}" "sort_key mig_from ms"]
    by (cases "check_unique {} (sort_key mig_from ms)") (auto simp: make_runner_def Let_def)
qed

lemma default_unique: "unique_sources DEFAULT_MIGRATIONS"
  by (simp add: unique_sources_def DEFAULT_MIGRATIONS_def)

lemma default_chain:
  assumes "1 \<le> a" "a \<le> 11"
  shows "build_chain DEFAULT_MIGRATIONS a 11 = Inr (drop (nat (a - 1)) DEFAULT_MIGRATIONS)"
proof -
  have "a = 1 \<or> a = 2 \<or> a = 3 \<or> a = 4 \<or> a = 5 \<or> a = 6 \<or> a = 7 \<or> a = 8 \<or> a = 9 \<or> a = 10 \<or> a = 11"
    using assms by presburger
  then have "linked a (drop (nat (a - 1)) DEFAULT_MIGRATIONS) 11" by (auto simp: DEFAULT_MIGRATIONS_def)
  then show ?thesis by (simp add: build_chain_exact [OF default_unique] set_drop_subset)
qed

lemma no_chain_from_zero: "a < 1 \<Longrightarrow> build_chain DEFAULT_MIGRATIONS a 11 = Inl (Chain_broken a 11)"
  by (simp add: build_chain_def DEFAULT_MIGRATIONS_def)

subsection \<open>Subscriptions\<close>

definition subs_table :: "row list \<Rightarrow> bool" where
  "subs_table rows \<longleftrightarrow>
     distinct (map (\<lambda>r. r ''region_id'') rows)
     \<and> (\<forall>r \<in> set rows. (\<exists>g. r ''region_id'' = Int_cell g) \<and> (\<exists>t. r ''subscribed_at'' = Text_cell t))"

definition dates :: "int \<Rightarrow> row list \<Rightarrow> ustr set" where
  "dates g rows = {t. \<exists>r \<in> set rows. r ''region_id'' = Int_cell g \<and> r ''subscribed_at'' = Text_cell t}"

lemma finite_dates [simp]: "finite (dates g rows)"
proof -
  have "dates g rows \<subseteq> (\<lambda>r. case r ''subscribed_at'' of Text_cell t \<Rightarrow> t | _ \<Rightarrow> []) ` set rows"
    by (force simp: dates_def)
  then show ?thesis using finite_surj by blast
qed

lemma subs_table_single:
  assumes "subs_table rows" "r \<in> set rows" "r ''region_id'' = Int_cell g" "r ''subscribed_at'' = Text_cell t"
  shows "dates g rows = {t}"
proof -
  have "inj_on (\<lambda>r. r ''region_id'') (set rows)" using assms(1) by (simp add: subs_table_def distinct_map)
  then have one: "\<forall>p \<in> set rows. \<forall>q \<in> set rows. p ''region_id'' = q ''region_id'' \<longrightarrow> p = q" by (simp add: inj_on_def)
  have "r' = r" if "r' \<in> set rows" "r' ''region_id'' = Int_cell g" for r'
  proof -
    have "r' ''region_id'' = r ''region_id''" using that assms(3) by simp
    with one that(1) assms(2) show ?thesis by blast
  qed
  then have "u = t" if "u \<in> dates g rows" for u using that assms(4) by (fastforce simp: dates_def)
  moreover have "t \<in> dates g rows" using assms(2-4) by (auto simp: dates_def)
  ultimately show ?thesis by blast
qed

lemma subs_table_map:
  assumes "subs_table rows" "\<And>r. f r ''region_id'' = r ''region_id''"
    and "\<And>r t. r ''subscribed_at'' = Text_cell t \<Longrightarrow> \<exists>u. f r ''subscribed_at'' = Text_cell u"
  shows "subs_table (map f rows)"
  using assms unfolding subs_table_def by (auto simp: o_def)

lemma subscribe_subject_keeps: "subs_table rows \<Longrightarrow> subs_table (subscribe_subject (s, Text_cell t) rows)"
proof -
  assume a: "subs_table rows"
  then have "subs_table (insert_or_ignore s (Text_cell t) rows)"
    by (auto simp: subs_table_def insert_or_ignore_def list_ex_iff)
  then show ?thesis
    unfolding subscribe_subject_def lower_date_def prod.case o_def by (rule subs_table_map) auto
qed

lemma dates_subscribe:
  assumes "subs_table rows"
  shows "dates g (subscribe_subject (s, Text_cell t) rows) = (if g = s then {Min (insert t (dates s rows))} else dates g rows)"
proof (cases "\<exists>r \<in> set rows. r ''region_id'' = Int_cell s")
  case True
  then obtain r x where r: "r \<in> set rows" "r ''region_id'' = Int_cell s" "r ''subscribed_at'' = Text_cell x"
    using assms by (auto simp: subs_table_def)
  have ins: "insert_or_ignore s (Text_cell t) rows = rows" using True by (auto simp: insert_or_ignore_def list_ex_iff)
  have single: "dates s rows = {x}" by (rule subs_table_single [OF assms r])
  have "r' ''subscribed_at'' = Text_cell x" if "r' \<in> set rows" "r' ''region_id'' = Int_cell s" for r'
  proof -
    obtain y where "r' ''subscribed_at'' = Text_cell y" using assms \<open>r' \<in> set rows\<close> by (auto simp: subs_table_def)
    with subs_table_single [OF assms that this] single show ?thesis by simp
  qed
  note only = this
  have "dates s (lower_date s (Text_cell t) rows)
      = {u. \<exists>r \<in> set rows. r ''region_id'' = Int_cell s \<and> min_cell (r ''subscribed_at'') (Text_cell t) = Text_cell u}"
    unfolding dates_def lower_date_def set_map bex_simps by (rule Collect_cong) (rule bex_cong; simp)
  also have "\<dots> = {min x t}"
  proof (intro set_eqI iffI)
    fix u assume "u \<in> {u. \<exists>r \<in> set rows. r ''region_id'' = Int_cell s \<and> min_cell (r ''subscribed_at'') (Text_cell t) = Text_cell u}"
    then obtain q where q: "q \<in> set rows" "q ''region_id'' = Int_cell s" "min_cell (q ''subscribed_at'') (Text_cell t) = Text_cell u"
      by blast
    from q(3) show "u \<in> {min x t}" unfolding only [OF q(1,2)] by simp
  next
    fix u assume "u \<in> {min x t}"
    then have "min_cell (r ''subscribed_at'') (Text_cell t) = Text_cell u" using r(3) by simp
    with r show "u \<in> {u. \<exists>r \<in> set rows. r ''region_id'' = Int_cell s \<and> min_cell (r ''subscribed_at'') (Text_cell t) = Text_cell u}"
      by blast
  qed
  finally have "dates s (lower_date s (Text_cell t) rows) = {min x t}" .
  moreover have "dates g (lower_date s (Text_cell t) rows) = dates g rows" if "g \<noteq> s"
    using that by (auto simp: dates_def lower_date_def)
  ultimately show ?thesis by (simp add: subscribe_subject_def ins single min.commute)
next
  case False
  then have new: "insert_or_ignore s (Text_cell t) rows
      = rows @ [(\<lambda>_. Null)(''region_id'' := Int_cell s, ''subscribed_at'' := Text_cell t)]"
    and "dates s rows = {}" by (auto simp: insert_or_ignore_def list_ex_iff dates_def)
  moreover have "dates s (lower_date s (Text_cell t) (rows @ [(\<lambda>_. Null)(''region_id'' := Int_cell s, ''subscribed_at'' := Text_cell t)])) = {t}"
    using False by (auto simp: dates_def lower_date_def)
  moreover have "dates g (lower_date s (Text_cell t) (rows @ [(\<lambda>_. Null)(''region_id'' := Int_cell s, ''subscribed_at'' := Text_cell t)])) = dates g rows"
    if "g \<noteq> s" using that by (auto simp: dates_def lower_date_def)
  ultimately show ?thesis by (simp add: subscribe_subject_def)
qed

definition earliest :: "ustr set \<Rightarrow> ustr set" where
  "earliest S = (if S = {} then {} else {Min S})"

lemma earliest_insert: "finite S \<Longrightarrow> earliest (S \<union> T) = earliest (earliest S \<union> T)" if "finite T"
proof (cases "S = {} \<or> T = {}")
  case False
  moreover assume "finite S"
  ultimately show ?thesis using that by (simp add: earliest_def Min_Un)
qed (auto simp: earliest_def)

lemma earliest_single: "subs_table rows \<Longrightarrow> earliest (dates g rows) = dates g rows"
proof (cases "dates g rows = {}")
  case False
  assume a: "subs_table rows"
  from False obtain r t where "r \<in> set rows" "r ''region_id'' = Int_cell g" "r ''subscribed_at'' = Text_cell t"
    by (auto simp: dates_def)
  with subs_table_single [OF a] show ?thesis by (auto simp: earliest_def)
qed (simp add: earliest_def)

lemma dates_fold:
  assumes "subs_table rows" "\<forall>(g, c) \<in> set ps. \<exists>t. c = Text_cell t"
  shows "subs_table (fold subscribe_subject ps rows)
    \<and> dates g (fold subscribe_subject ps rows) = earliest (dates g rows \<union> {t. (g, Text_cell t) \<in> set ps})"
  using assms
proof (induction ps arbitrary: rows)
  case Nil
  then show ?case by (simp add: earliest_single)
next
  case (Cons p ps)
  then obtain s t where p: "p = (s, Text_cell t)" by (cases p) auto
  let ?rows = "subscribe_subject p rows" and ?T = "{t. (g, Text_cell t) \<in> set ps}"
  have T: "finite ?T"
  proof -
    have "?T \<subseteq> (\<lambda>(_, c). case c of Text_cell t \<Rightarrow> t | _ \<Rightarrow> []) ` set ps" by (force)
    then show ?thesis using finite_surj by blast
  qed
  have k: "subs_table ?rows" using Cons.prems p subscribe_subject_keeps by simp
  with Cons.IH Cons.prems have IH: "subs_table (fold subscribe_subject ps ?rows)"
    "dates g (fold subscribe_subject ps ?rows) = earliest (dates g ?rows \<union> ?T)" by auto
  have "earliest (dates g ?rows \<union> ?T) = earliest (dates g rows \<union> {t. (g, Text_cell t) \<in> set (p # ps)})"
  proof (cases "g = s")
    case True
    then have "dates g ?rows = earliest (insert t (dates g rows))"
      using dates_subscribe [OF Cons.prems(1)] by (simp add: p earliest_def)
    moreover have "dates g rows \<union> {t. (g, Text_cell t) \<in> set (p # ps)} = insert t (dates g rows) \<union> ?T"
      using True by (auto simp: p)
    ultimately show ?thesis using earliest_insert [OF T, of "insert t (dates g rows)"] by simp
  next
    case False
    then have "dates g ?rows = dates g rows" using dates_subscribe [OF Cons.prems(1)] by (simp add: p)
    moreover have "{t. (g, Text_cell t) \<in> set (p # ps)} = ?T" using False by (auto simp: p)
    ultimately show ?thesis by simp
  qed
  with IH show ?case by simp
qed

definition is_macro :: "int \<Rightarrow> bool" where
  "is_macro g \<longleftrightarrow> map_of SUBJECTS_BY_MACRO g \<noteq> None"

lemma macro_rows_iff: "(m, c) \<in> set (macro_rows rows) \<longleftrightarrow> is_macro m \<and> (\<exists>r \<in> set rows. r ''region_id'' = Int_cell m \<and> r ''subscribed_at'' = c)"
  by (induction rows) (auto simp: macro_rows_def is_macro_def map_filter_simps split: cell.splits)

lemma macro_subjects_iff:
  "(g, c) \<in> set (macro_subjects rows) \<longleftrightarrow> (\<exists>m. g \<in> set (subjects_of_macro m) \<and> (m, c) \<in> set (macro_rows rows))"
  by (fastforce simp: macro_subjects_def)

lemma on_rows_tables: "on_rows t cols f tabs = Inr tabs' \<Longrightarrow>
    \<exists>x. tabs t = Some x \<and> set cols \<subseteq> set (tab_cols x) \<and> tabs' = tabs(t \<mapsto> x\<lparr>tab_rows := f (tab_rows x)\<rparr>)"
  by (auto simp: on_rows_def on_table_def split: option.splits sum.splits if_splits)

subsection \<open>Properties\<close>

text \<open>
  Migrations are all or nothing, and complete. For any list of migrations with different sources,
  a run that fails leaves version and tables as they were, and fails when another process has
  changed the version since it was read; a run that succeeds has applied, in order, a chain of
  registered migrations from the one version to the other; and where such a chain exists, the run
  finds it, so that it fails only if one of its statements does.
\<close>

theorem migrations_all_or_nothing:
  assumes "unique_sources ms" and "run_pending ms db a b = (db', r)"
  shows "(r \<noteq> Inr () \<longrightarrow> db' = db) \<and> (user_version db \<noteq> a \<longrightarrow> r = Inl (Concurrent_migration a (user_version db)))
    \<and> (r = Inr () \<longrightarrow> user_version db' = b
        \<and> (\<exists>chain. linked a chain b \<and> set chain \<subseteq> set ms \<and> run_stmts (map mig_apply chain) (db_tables db) = Inr (db_tables db')))
    \<and> (\<forall>chain tabs. user_version db = a \<and> linked a chain b \<and> set chain \<subseteq> set ms
        \<and> run_stmts (map mig_apply chain) (db_tables db) = Inr tabs \<longrightarrow> r = Inr () \<and> db_tables db' = tabs)"
proof (cases "user_version db = a \<and> a \<noteq> b")
  case True
  note exact = build_chain_exact [OF assms(1), of a b]
  show ?thesis
  proof (cases "build_chain ms a b")
    case (Inl e)
    with assms(2) True have "db' = db" "r = Inl e" by (simp_all add: run_pending_def)
    moreover have "\<not> (linked a c b \<and> set c \<subseteq> set ms)" for c using exact [of c] Inl by simp
    ultimately show ?thesis using True by auto
  next
    case (Inr chain)
    then have c: "linked a chain b" "set chain \<subseteq> set ms" using exact by auto
    have only: "c' = chain" if "linked a c' b \<and> set c' \<subseteq> set ms" for c' using exact [of c'] that Inr by simp
    show ?thesis
    proof (cases "run_stmts (map mig_apply chain) (db_tables db)")
      case (Inl e)
      with assms(2) True Inr have "db' = db" "r = Inl e" by (simp_all add: run_pending_def)
      with True Inl only show ?thesis by fastforce
    next
      case ran: (Inr tabs)
      with assms(2) True Inr have d: "db' = \<lparr>user_version = b, db_tables = tabs\<rparr>" "r = Inr ()" by (simp_all add: run_pending_def)
      have "r = Inr () \<and> db_tables db' = tabs'"
        if "linked a c' b \<and> set c' \<subseteq> set ms" "run_stmts (map mig_apply c') (db_tables db) = Inr tabs'" for c' tabs'
        using that(2) ran d only [OF that(1)] by simp
      moreover have "\<exists>chain. linked a chain b \<and> set chain \<subseteq> set ms \<and> run_stmts (map mig_apply chain) (db_tables db) = Inr (db_tables db')"
        using c ran d by auto
      ultimately show ?thesis using True d by auto
    qed
  qed
next
  case False
  have "c = []" if "linked a c a" for c using that linked_le [of "mig_to (hd c)" "tl c" a] by (cases c) auto
  then have "run_stmts (map mig_apply c) tabs = Inr tabs' \<Longrightarrow> tabs' = tabs" if "linked a c a" for c tabs tabs' using that by fastforce
  with False assms(2) show ?thesis
    by (cases db; cases db') (auto simp: run_pending_def split: if_splits intro: exI [of _ "[]"])
qed

text \<open>
  Macro-region subscriptions become subject subscriptions. Migration 9 to 10 keeps the table a
  set of dated subscriptions, leaves no macro-region in it, and each subject is subscribed exactly
  if it was or if a macro-region with it was, since the earliest of those dates.
\<close>

theorem macro_subscriptions_expand:
  assumes "v9_to_v10 tabs = Inr tabs'" and "tabs ''region_subscriptions'' = Some t" and "subs_table (tab_rows t)"
    and "rows' = tab_rows (the (tabs' ''region_subscriptions''))"
  shows "subs_table rows' \<and> (\<forall>m. is_macro m \<longrightarrow> dates m rows' = {})
    \<and> (\<forall>g. \<not> is_macro g \<longrightarrow> dates g rows' =
          earliest (dates g (tab_rows t) \<union> (\<Union>m \<in> {m. is_macro m \<and> g \<in> set (subjects_of_macro m)}. dates m (tab_rows t))))
    \<and> (\<forall>u. u \<noteq> ''region_subscriptions'' \<longrightarrow> tabs' u = tabs u)"
proof -
  let ?rows = "tab_rows t" and ?ps = "macro_subjects (tab_rows t)"
  have t': "rows' = expand_macros ?rows" "\<forall>u. u \<noteq> ''region_subscriptions'' \<longrightarrow> tabs' u = tabs u"
    using on_rows_tables [OF assms(1) [unfolded v9_to_v10_def]] assms(2,4) by auto
  have ps: "\<forall>(g, c) \<in> set ?ps. \<exists>t. c = Text_cell t"
    using assms(3) by (auto simp: macro_subjects_iff macro_rows_iff subs_table_def)
  let ?all = "fold subscribe_subject ?ps ?rows"
  have f: "subs_table ?all" "dates g ?all = earliest (dates g ?rows \<union> {t. (g, Text_cell t) \<in> set ?ps})" for g
    using dates_fold [OF assms(3) ps] by auto
  have src: "{t. (g, Text_cell t) \<in> set ?ps} = (\<Union>m \<in> {m. is_macro m \<and> g \<in> set (subjects_of_macro m)}. dates m ?rows)" for g
    by (auto simp: macro_subjects_iff macro_rows_iff dates_def)
  have gone: "\<not> list_ex (\<lambda>(m, _). r ''region_id'' = Int_cell m) (macro_rows ?rows)"
    if "r ''region_id'' = Int_cell g" "\<not> is_macro g" for r g
    using that by (auto simp: list_ex_iff macro_rows_iff)
  have sub: "subs_table rows'" using f(1) by (auto simp: t' expand_macros_def subs_table_def distinct_map_filter)
  moreover have "dates g rows' = dates g ?all" if "\<not> is_macro g" for g
    using gone [OF _ that] by (auto simp: t' expand_macros_def dates_def)
  moreover have "dates m rows' = {}" if "is_macro m" for m
  proof -
    have own: "r ''region_id'' \<noteq> Int_cell m" if "r \<in> set rows'" for r
    proof
      assume r: "r ''region_id'' = Int_cell m"
      have no: "(m, c) \<notin> set (macro_rows ?rows)" for c
        using that r by (auto simp: t' expand_macros_def list_ex_iff)
      have "dates m ?rows = {}" using no \<open>is_macro m\<close> by (auto simp: macro_rows_iff dates_def)
      moreover have "m \<notin> set (subjects_of_macro k)" for k
        using \<open>is_macro m\<close> by (auto simp: is_macro_def subjects_of_macro_def SUBJECTS_BY_MACRO_def split: if_splits option.splits)
      ultimately have "dates m ?all = {}" using f(2) [of m] src [of m] by (simp add: earliest_def)
      moreover have "r \<in> set ?all" using that by (simp add: t' expand_macros_def)
      ultimately show False using r f(1) by (auto simp: subs_table_def dates_def)
    qed
    then show ?thesis by (auto simp: dates_def)
  qed
  ultimately show ?thesis using f(2) src t'(2) by simp
qed

subsection \<open>Versions and schemas\<close>

text \<open>
  The tables of version 1: those of the current script, less what the migrations add, and with the
  column they drop.
\<close>

definition ADDED_COLS :: "(string \<times> string list) list" where
  "ADDED_COLS =
     [(''lots'', [''region_id'', ''date_registry'', ''is_backfill'']),
      (''notifications'', [''status'', ''attempt_no'', ''last_attempt_at'']),
      (''smtp_credentials'', [''smtp_host'', ''smtp_port'', ''smtp_from_name''])]"

definition v1_cols :: "string \<Rightarrow> string list \<Rightarrow> string set" where
  "v1_cols t cols =
     (set cols - (case map_of ADDED_COLS t of None \<Rightarrow> {} | Some added \<Rightarrow> set added))
     \<union> (if t = ''lot_user_state'' then {''starred''} else {})"

definition v1_shape :: "tables \<Rightarrow> bool" where
  "v1_shape tabs \<longleftrightarrow>
     (\<forall>(t, cols) \<in> set SCHEMA_TABLES. if t = ''region_subscriptions'' then tabs t = None
        else \<exists>x. tabs t = Some x \<and> set (tab_cols x) = v1_cols t cols)
     \<and> tabs ''notifications_new'' = None"

lemma run_pending_default:
  "run_pending DEFAULT_MIGRATIONS \<lparr>user_version = 1, db_tables = tabs\<rparr> 1 11 =
     (case run_stmts [v1_to_v2, v2_to_v3, v3_to_v4, v4_to_v5, v5_to_v6, v6_to_v7, v7_to_v8, v8_to_v9, v9_to_v10, v10_to_v11] tabs of
        Inl e \<Rightarrow> (\<lparr>user_version = 1, db_tables = tabs\<rparr>, Inl e)
      | Inr tabs' \<Rightarrow> (\<lparr>user_version = 11, db_tables = tabs'\<rparr>, Inr ()))"
  using default_chain [of 1] by (simp add: run_pending_def DEFAULT_MIGRATIONS_def)

text \<open>The ten steps on a database of version 1, one after the other.\<close>

definition upgrade_lot :: "row \<Rightarrow> row" where
  "upgrade_lot r =
     r(''region_id'' :=
         (case r ''region'' of
            Text_cell name \<Rightarrow> (case map_of TITLE_TO_SUBJECT_ID name of None \<Rightarrow> Null | Some sid \<Rightarrow> Int_cell sid)
          | _ \<Rightarrow> Null),
       ''date_registry'' := Null, ''is_backfill'' := Int_cell 0)"

lemma ten_steps:
  assumes "tabs ''notifications'' = Some nt" "set (tab_cols nt) = {''lot_id'', ''channel'', ''recipient'', ''sent_at''}"
    and "tabs ''notifications_new'' = None" "tabs ''smtp_credentials'' = Some sc" "''smtp_host'' \<notin> set (tab_cols sc)"
    "''smtp_port'' \<notin> set (tab_cols sc)" "''smtp_from_name'' \<notin> set (tab_cols sc)"
    and "tabs ''lots'' = Some lt" "''region_id'' \<notin> set (tab_cols lt)" "''date_registry'' \<notin> set (tab_cols lt)"
    "''is_backfill'' \<notin> set (tab_cols lt)" "''region'' \<in> set (tab_cols lt)" "''first_seen'' \<in> set (tab_cols lt)"
    and "''is_active'' \<in> set (tab_cols lt)"
    and "tabs ''lot_user_state'' = Some ut" "''starred'' \<in> set (tab_cols ut)" "tabs ''region_subscriptions'' = None"
  shows "\<exists>tabs' sc'. run_stmts [v1_to_v2, v2_to_v3, v3_to_v4, v4_to_v5, v5_to_v6, v6_to_v7, v7_to_v8, v8_to_v9, v9_to_v10, v10_to_v11] tabs
      = Inr tabs'
    \<and> tabs' ''notifications'' = Some \<lparr>tab_cols = NOTIFICATION_COLS, tab_rows = map sent_row (tab_rows nt)\<rparr>
    \<and> tabs' ''lots'' = Some \<lparr>tab_cols = tab_cols lt @ [''region_id'', ''date_registry'', ''is_backfill''], tab_rows = map upgrade_lot (tab_rows lt)\<rparr>
    \<and> tabs' ''smtp_credentials'' = Some sc' \<and> tab_cols sc' = tab_cols sc @ [''smtp_host'', ''smtp_port'', ''smtp_from_name'']
    \<and> tabs' ''lot_user_state'' = Some (ut\<lparr>tab_cols := removeAll ''starred'' (tab_cols ut)\<rparr>)
    \<and> tabs' ''region_subscriptions'' = Some \<lparr>tab_cols = [''region_id'', ''subscribed_at''], tab_rows = []\<rparr>
    \<and> (\<forall>u. u \<notin> {''notifications'', ''lots'', ''smtp_credentials'', ''lot_user_state'', ''region_subscriptions'', ''notifications_new''} \<longrightarrow> tabs' u = tabs u)"
proof -
  have rows: "map (\<lambda>r. r(''is_backfill'' := Int_cell 0))
      (update_by_name (\<lambda>_. True)
        (\<lambda>name. Some (case map_of TITLE_TO_SUBJECT_ID name of None \<Rightarrow> Null | Some x \<Rightarrow> Int_cell x))
        (update_by_name (\<lambda>v. v = Null) (map_option Int_cell \<circ> name_to_macro)
          (map (\<lambda>r. r(''date_registry'' := Null))
            (update_by_name (\<lambda>_. True) (map_option Int_cell \<circ> name_to_macro)
              (map (\<lambda>r. r(''region_id'' := Null)) rs))))) = map upgrade_lot rs" for rs
    by (auto simp: update_by_name_def upgrade_lot_def fun_eq_iff split: cell.splits option.splits)
  have "expand_macros [] = []" by (simp add: expand_macros_def macro_subjects_def macro_rows_def map_filter_simps)
  with rows show ?thesis
    by (simp add: assms v1_to_v2_def v2_to_v3_def v3_to_v4_def v4_to_v5_def v5_to_v6_def v6_to_v7_def v7_to_v8_def v8_to_v9_def
      v9_to_v10_def v10_to_v11_def create_table_def create_if_absent_def copy_notifications_def on_rows_def on_table_def
      drop_table_def rename_table_def add_column_def drop_column_def)
qed

definition blank_database :: database where "blank_database = \<lparr>user_version = 0, db_tables = (\<lambda>_. None)\<rparr>"

lemma exec_script_tables:
  assumes "distinct (map fst ts)"
  shows "exec_script (map (\<lambda>(t, cols). Create t cols) ts) db =
    db\<lparr>db_tables := (\<lambda>t. if db_tables db t \<noteq> None then db_tables db t
        else map_option (\<lambda>cols. \<lparr>tab_cols = cols, tab_rows = []\<rparr>) (map_of ts t))\<rparr>"
  using assms
proof (induction ts arbitrary: db)
  case Nil
  then show ?case by (cases db) (auto simp: exec_script_def)
next
  case (Cons p ts)
  obtain t cols where p: "p = (t, cols)" by (cases p) auto
  have "exec_script (map (\<lambda>(t, cols). Create t cols) (p # ts)) db
      = exec_script (map (\<lambda>(t, cols). Create t cols) ts) (exec_stmt (Create t cols) db)"
    by (simp add: exec_script_def p)
  also have "\<dots> = (exec_stmt (Create t cols) db)\<lparr>db_tables := (\<lambda>u. if db_tables (exec_stmt (Create t cols) db) u \<noteq> None
      then db_tables (exec_stmt (Create t cols) db) u else map_option (\<lambda>cols. \<lparr>tab_cols = cols, tab_rows = []\<rparr>) (map_of ts u))\<rparr>"
    by (rule Cons.IH) (use Cons.prems in simp)
  finally show ?case by (cases db) (auto simp: p fun_eq_iff)
qed

lemma schema_distinct: "distinct (map fst SCHEMA_TABLES)"
  by (simp add: SCHEMA_TABLES_def)

lemma script_prefix:
  "exec_script (take (Suc k) SCHEMA_SQL) blank_database =
     \<lparr>user_version = 11, db_tables = (\<lambda>t. map_option (\<lambda>cols. \<lparr>tab_cols = cols, tab_rows = []\<rparr>) (map_of (take k SCHEMA_TABLES) t))\<rparr>"
proof -
  have "distinct (map fst (take k SCHEMA_TABLES))" using schema_distinct by (simp add: take_map [symmetric])
  then have "exec_script (map (\<lambda>(t, cols). Create t cols) (take k SCHEMA_TABLES)) \<lparr>user_version = 11, db_tables = (\<lambda>_. None)\<rparr>
    = \<lparr>user_version = 11, db_tables = (\<lambda>t. map_option (\<lambda>cols. \<lparr>tab_cols = cols, tab_rows = []\<rparr>) (map_of (take k SCHEMA_TABLES) t))\<rparr>"
    by (simp add: exec_script_tables)
  then show ?thesis by (simp add: SCHEMA_SQL_def exec_script_def blank_database_def take_map)
qed

lemma full_script:
  "exec_script SCHEMA_SQL blank_database =
     \<lparr>user_version = 11, db_tables = (\<lambda>t. map_option (\<lambda>cols. \<lparr>tab_cols = cols, tab_rows = []\<rparr>) (map_of SCHEMA_TABLES t))\<rparr>"
  using script_prefix [of "length SCHEMA_TABLES"] by (simp add: SCHEMA_SQL_def)

text \<open>
  An upgraded database is a current one. From a database of version 1, the start-up's migrations
  succeed and end at the version and, table by table, with the columns of a database the script
  creates; every notification of version 1 is there as sent at its time, and every lot with all it
  had and the site-id of its region's name.
\<close>

theorem upgraded_equals_fresh:
  assumes "v1_shape tabs"
  shows "\<exists>tabs'. init_db SCHEMA_SQL LATEST_SCHEMA_VERSION (Some DEFAULT_MIGRATIONS) True \<lparr>user_version = 1, db_tables = tabs\<rparr>
      = (\<lparr>user_version = 11, db_tables = tabs'\<rparr>, Inr ())
    \<and> (\<forall>t x. db_tables (exec_script SCHEMA_SQL blank_database) t = Some x \<longrightarrow> (\<exists>y. tabs' t = Some y \<and> set (tab_cols y) = set (tab_cols x)))
    \<and> tab_rows (the (tabs' ''notifications'')) = map sent_row (tab_rows (the (tabs ''notifications'')))
    \<and> tab_rows (the (tabs' ''lots'')) = map upgrade_lot (tab_rows (the (tabs ''lots'')))"
proof -
  note shape = assms [unfolded v1_shape_def, simplified SCHEMA_TABLES_def, simplified]
  note v1 = v1_cols_def ADDED_COLS_def LOT_COLS_def NOTIFICATION_COLS_def
  obtain nt sc lt ut where t: "tabs ''notifications'' = Some nt" "tabs ''smtp_credentials'' = Some sc" "tabs ''lots'' = Some lt"
    "tabs ''lot_user_state'' = Some ut" using shape by blast
  have cols: "set (tab_cols nt) = v1_cols ''notifications'' NOTIFICATION_COLS" "set (tab_cols lt) = v1_cols ''lots'' LOT_COLS"
    "set (tab_cols sc) = v1_cols ''smtp_credentials'' [''id'', ''smtp_user'', ''smtp_password'', ''smtp_host'', ''smtp_port'', ''use_default'', ''smtp_from_name'', ''updated_at'']"
    "set (tab_cols ut) = v1_cols ''lot_user_state'' [''lot_id'', ''submitted'', ''submitted_at'', ''note'', ''seen_at'', ''updated_at'']"
    using shape t by simp_all
  have ncols: "set (tab_cols nt) = {''lot_id'', ''channel'', ''recipient'', ''sent_at''}" unfolding cols by (auto simp: v1)
  obtain tabs' sc' where run: "run_stmts [v1_to_v2, v2_to_v3, v3_to_v4, v4_to_v5, v5_to_v6, v6_to_v7, v7_to_v8, v8_to_v9, v9_to_v10, v10_to_v11] tabs
      = Inr tabs'"
    and n: "tabs' ''notifications'' = Some \<lparr>tab_cols = NOTIFICATION_COLS, tab_rows = map sent_row (tab_rows nt)\<rparr>"
    and l: "tabs' ''lots'' = Some \<lparr>tab_cols = tab_cols lt @ [''region_id'', ''date_registry'', ''is_backfill''], tab_rows = map upgrade_lot (tab_rows lt)\<rparr>"
    and s: "tabs' ''smtp_credentials'' = Some sc'" "tab_cols sc' = tab_cols sc @ [''smtp_host'', ''smtp_port'', ''smtp_from_name'']"
    and u: "tabs' ''lot_user_state'' = Some (ut\<lparr>tab_cols := removeAll ''starred'' (tab_cols ut)\<rparr>)"
    and r: "tabs' ''region_subscriptions'' = Some \<lparr>tab_cols = [''region_id'', ''subscribed_at''], tab_rows = []\<rparr>"
    and other: "\<forall>u. u \<notin> {''notifications'', ''lots'', ''smtp_credentials'', ''lot_user_state'', ''region_subscriptions'', ''notifications_new''} \<longrightarrow> tabs' u = tabs u"
    using ten_steps [OF t(1) ncols _ t(2) _ _ _ t(3) _ _ _ _ _ _ t(4)] shape by (auto simp: cols v1)
  have changed: "set (tab_cols lt @ [''region_id'', ''date_registry'', ''is_backfill'']) = set LOT_COLS"
    "set (tab_cols sc') = {''id'', ''smtp_user'', ''smtp_password'', ''smtp_host'', ''smtp_port'', ''use_default'', ''smtp_from_name'', ''updated_at''}"
    "set (removeAll ''starred'' (tab_cols ut)) = {''lot_id'', ''submitted'', ''submitted_at'', ''note'', ''seen_at'', ''updated_at''}"
    by (auto simp: s(2) cols v1)
  have kept: "\<exists>y. tabs' t = Some y \<and> set (tab_cols y) = set cols"
    if "t \<in> {''lots_history'', ''lot_html_archive'', ''cycles'', ''state''}" "(t, cols) \<in> set SCHEMA_TABLES" for t cols
  proof -
    from that(1) have four: "t = ''lots_history'' \<or> t = ''lot_html_archive'' \<or> t = ''cycles'' \<or> t = ''state''" by simp
    then have "v1_cols t cols = set cols" by (elim disjE) (simp_all add: v1_cols_def ADDED_COLS_def)
    moreover have "tabs' t = tabs t" using four by (elim disjE) (simp_all add: other)
    moreover have "t \<noteq> ''region_subscriptions''" using four by (elim disjE) simp_all
    moreover have "if t = ''region_subscriptions'' then tabs t = None else \<exists>x. tabs t = Some x \<and> set (tab_cols x) = v1_cols t cols"
      using assms that(2) unfolding v1_shape_def by blast
    ultimately show ?thesis by simp
  qed
  have "list_all (\<lambda>(t, cols). \<exists>y. tabs' t = Some y \<and> set (tab_cols y) = set cols) SCHEMA_TABLES"
    using kept [of "''lots_history''" "[''id'', ''lot_id'', ''field'', ''old_value'', ''new_value'', ''changed_at'']"]
      kept [of "''lot_html_archive''" "[''lot_id'', ''html'', ''fetched_at'', ''parser_version'']"]
      kept [of "''cycles''" "[''id'', ''region'', ''started_at'', ''finished_at'', ''status'', ''lots_fetched'', ''new_lots'', ''error'', ''id_schema_check'']"]
      kept [of "''state''" "[''key'', ''value'', ''updated_at'']"] changed
    by (simp add: SCHEMA_TABLES_def n l s(1) u r)
  then have same: "(t, cols) \<in> set SCHEMA_TABLES \<Longrightarrow> \<exists>y. tabs' t = Some y \<and> set (tab_cols y) = set cols" for t cols
    by (fastforce simp: list_all_iff)
  have "db_tables (exec_script SCHEMA_SQL blank_database) t = Some x \<Longrightarrow> \<exists>y. tabs' t = Some y \<and> set (tab_cols y) = set (tab_cols x)" for t x
    using same by (auto simp: full_script dest: map_of_SomeD)
  then show ?thesis
    using run n l t run_pending_default [of tabs] by (auto simp: init_db_def LATEST_SCHEMA_VERSION_def Let_def)
qed

lemma script_version: "user_version (exec_script (map (\<lambda>(t, cols). Create t cols) ts) db) = user_version db"
  by (induction ts arbitrary: db) (auto simp: exec_script_def)

text \<open>
  How a start ends. The program starts only on a database at the current version; where it does
  not start, the database is untouched; a newer one is refused, and one with tables but without a
  version can never be brought forward, as no migration starts there.
\<close>

theorem start_up_outcomes:
  assumes "init_db SCHEMA_SQL LATEST_SCHEMA_VERSION (Some DEFAULT_MIGRATIONS) has_tables db = (db', r)"
  shows "(r = Inr () \<longrightarrow> user_version db' = 11) \<and> (r \<noteq> Inr () \<longrightarrow> db' = db)
    \<and> (11 < user_version db \<longrightarrow> r = Inl Runtime_error)
    \<and> (user_version db < 0 \<or> user_version db = 0 \<and> has_tables \<longrightarrow> r = Inl (Chain_broken (user_version db) 11))"
proof -
  have script: "user_version (exec_script SCHEMA_SQL db) = 11"
    using script_version [of SCHEMA_TABLES "db\<lparr>user_version := 11\<rparr>"] by (simp add: SCHEMA_SQL_def exec_script_def)
  let ?v = "user_version db"
  obtain d q where run: "run_pending DEFAULT_MIGRATIONS db ?v 11 = (d, q)" by fastforce
  have low: "d = db \<and> q = Inl (Chain_broken ?v 11)" if "?v < 1"
    using run that no_chain_from_zero [of ?v] by (auto simp: run_pending_def)
  have ok: "q = Inr () \<Longrightarrow> user_version d = 11" and bad: "q \<noteq> Inr () \<Longrightarrow> d = db"
    using run by (auto simp: run_pending_def split: if_splits sum.splits)
  have i: "(db', r) = (if ?v = 11 then (db, Inr ()) else if 11 < ?v then (db, Inl Runtime_error)
      else if ?v = 0 \<and> \<not> has_tables then (exec_script SCHEMA_SQL db, Inr ())
      else case q of Inl e \<Rightarrow> (d, Inl e) | Inr _ \<Rightarrow> (d, Inr ()))"
    unfolding assms [symmetric] using ok by (cases q) (simp_all add: init_db_def LATEST_SCHEMA_VERSION_def Let_def run script)
  show ?thesis using i script ok bad low by (cases q) (auto split: if_splits)
qed

theorem start_up_outcomes_witness:
  "init_db SCHEMA_SQL LATEST_SCHEMA_VERSION (Some DEFAULT_MIGRATIONS) True blank_database = (blank_database, Inl (Chain_broken 0 11))"
proof -
  obtain db' r where i: "init_db SCHEMA_SQL LATEST_SCHEMA_VERSION (Some DEFAULT_MIGRATIONS) True blank_database = (db', r)" by fastforce
  from start_up_outcomes [OF i] have "r = Inl (Chain_broken 0 11)" "db' = blank_database" by (simp_all add: blank_database_def)
  with i show ?thesis by simp
qed

text \<open>
  A first start that is cut off is never repaired. The script stamps the version before it
  creates the tables and runs outside a transaction; whatever part of the tables exists when the
  process dies, every later start finds the current version and succeeds without the rest.
\<close>

theorem cut_first_start_stays:
  assumes "k < length SCHEMA_TABLES" and "db = exec_script (take (Suc k) SCHEMA_SQL) blank_database"
  shows "init_db SCHEMA_SQL LATEST_SCHEMA_VERSION runner has_tables db = (db, Inr ())
    \<and> (\<forall>j. k \<le> j \<and> j < length SCHEMA_TABLES \<longrightarrow> db_tables db (fst (SCHEMA_TABLES ! j)) = None)"
proof -
  have "map_of (take k SCHEMA_TABLES) (fst (SCHEMA_TABLES ! j)) = None" if "k \<le> j" "j < length SCHEMA_TABLES" for j
  proof -
    have "fst (SCHEMA_TABLES ! j) \<notin> fst ` set (take k SCHEMA_TABLES)"
    proof
      assume "fst (SCHEMA_TABLES ! j) \<in> fst ` set (take k SCHEMA_TABLES)"
      then obtain i where "i < k" "fst (SCHEMA_TABLES ! i) = fst (SCHEMA_TABLES ! j)"
        using that by (auto simp: set_conv_nth)
      with that schema_distinct show False
        using nth_eq_iff_index_eq [of "map fst SCHEMA_TABLES" i j] by simp
    qed
    then show ?thesis by (simp add: map_of_eq_None_iff)
  qed
  then show ?thesis
    using script_prefix [of k] by (simp add: assms(2) init_db_def LATEST_SCHEMA_VERSION_def)
qed

theorem cut_first_start_stays_witness:
  "let db = exec_script (take 1 SCHEMA_SQL) blank_database
   in init_db SCHEMA_SQL LATEST_SCHEMA_VERSION (Some DEFAULT_MIGRATIONS) False db = (db, Inr ()) \<and> db_tables db ''lots'' = None"
proof -
  have l: "fst (SCHEMA_TABLES ! 0) = ''lots''" "0 < length SCHEMA_TABLES" by (simp_all add: SCHEMA_TABLES_def)
  from cut_first_start_stays [OF l(2) refl, of "Some DEFAULT_MIGRATIONS" False] l show ?thesis
    unfolding Let_def One_nat_def by fastforce
qed

theorem migrations_all_or_nothing_witness:
  "run_pending DEFAULT_MIGRATIONS \<lparr>user_version = 2, db_tables = (\<lambda>_. None)\<rparr> 2 3
     = (\<lparr>user_version = 2, db_tables = (\<lambda>_. None)\<rparr>, Inl Sql_error)"
proof -
  let ?db = "\<lparr>user_version = 2, db_tables = (\<lambda>_. None)\<rparr>"
  have "build_chain DEFAULT_MIGRATIONS 2 3 = Inr [\<lparr>mig_from = 2, mig_to = 3, mig_apply = v2_to_v3\<rparr>]"
    by (simp add: build_chain_exact [OF default_unique]) (simp add: DEFAULT_MIGRATIONS_def)
  then have "snd (run_pending DEFAULT_MIGRATIONS ?db 2 3) = Inl Sql_error"
    by (simp add: run_pending_def v2_to_v3_def add_column_def on_table_def)
  moreover obtain db' r where r: "run_pending DEFAULT_MIGRATIONS ?db 2 3 = (db', r)" by fastforce
  ultimately show ?thesis using migrations_all_or_nothing [OF default_unique r] by simp
qed

definition demo_macro_row :: row where
  "demo_macro_row = (\<lambda>_. Null)(''region_id'' := Int_cell 1, ''subscribed_at'' := Text_cell [50])"

theorem macro_subscriptions_expand_witness:
  "dates 72 (expand_macros [demo_macro_row]) = {[50]} \<and> dates 1 (expand_macros [demo_macro_row]) = {}"
proof -
  let ?t = "\<lparr>tab_cols = [''region_id'', ''subscribed_at''], tab_rows = [demo_macro_row]\<rparr>"
  let ?tabs = "(\<lambda>_. None)(''region_subscriptions'' \<mapsto> ?t)"
  have s: "subs_table (tab_rows ?t)" by (simp add: subs_table_def demo_macro_row_def)
  have r: "v9_to_v10 ?tabs = Inr (?tabs(''region_subscriptions'' \<mapsto> ?t\<lparr>tab_rows := expand_macros (tab_rows ?t)\<rparr>))"
    by (simp add: v9_to_v10_def on_rows_def on_table_def)
  have "{m. is_macro m \<and> 72 \<in> set (subjects_of_macro m)} = {1}"
    by (auto simp: is_macro_def subjects_of_macro_def SUBJECTS_BY_MACRO_def split: if_splits)
  moreover have "dates 72 [demo_macro_row] = {}" "dates 1 [demo_macro_row] = {[50]}" by (auto simp: dates_def demo_macro_row_def)
  moreover have "\<not> is_macro 72" "is_macro 1" by (simp_all add: is_macro_def SUBJECTS_BY_MACRO_def)
  ultimately have "dates 72 (expand_macros [demo_macro_row]) = earliest {[50]} \<and> dates 1 (expand_macros [demo_macro_row]) = {}"
    using macro_subscriptions_expand [OF r _ s refl] by simp
  then show ?thesis by (simp add: earliest_def)
qed

definition demo_v1 :: tables where
  "demo_v1 =
     (\<lambda>t. if t = ''region_subscriptions'' then None
        else map_option (\<lambda>cols. \<lparr>tab_cols = filter (\<lambda>c. c \<notin> set (case map_of ADDED_COLS t of None \<Rightarrow> [] | Some a \<Rightarrow> a)) cols
               @ (if t = ''lot_user_state'' then [''starred''] else []), tab_rows = []\<rparr>) (map_of SCHEMA_TABLES t))"

lemma demo_v1_shape: "v1_shape demo_v1"
proof -
  have "demo_v1 ''notifications_new'' = None" by (simp add: demo_v1_def SCHEMA_TABLES_def)
  moreover have "\<exists>x. demo_v1 t = Some x \<and> set (tab_cols x) = v1_cols t cols"
    if "(t, cols) \<in> set SCHEMA_TABLES" "t \<noteq> ''region_subscriptions''" for t cols
    using that map_of_is_SomeI [OF schema_distinct that(1)]
    by (auto simp: demo_v1_def v1_cols_def split: option.splits)
  ultimately show ?thesis by (auto simp: v1_shape_def demo_v1_def)
qed

theorem upgraded_equals_fresh_witness:
  "\<exists>tabs'. init_db SCHEMA_SQL LATEST_SCHEMA_VERSION (Some DEFAULT_MIGRATIONS) True \<lparr>user_version = 1, db_tables = demo_v1\<rparr>
      = (\<lparr>user_version = 11, db_tables = tabs'\<rparr>, Inr ()) \<and> (\<exists>y. tabs' ''lots'' = Some y \<and> set (tab_cols y) = set LOT_COLS)"
proof -
  have "db_tables (exec_script SCHEMA_SQL blank_database) ''lots'' = Some \<lparr>tab_cols = LOT_COLS, tab_rows = []\<rparr>"
    by (simp add: full_script SCHEMA_TABLES_def)
  with upgraded_equals_fresh [OF demo_v1_shape] show ?thesis by fastforce
qed

end
