(* ===== verification/Spec2Isabelle.thy ===== *)
theory Spec2Isabelle
  imports Regions Dnd Onboarding Session_Email Notif_Repo Dispatcher Lot_Repo Event_Bus Fetcher Full_Scan
    Cycles_Repo Humanize Enrichment Monitor_State Backfill Monitor_Cycle Monitor_System
    Iso_Text Cursor User_State Lot_Query View_Filters
    Sse_Stream Web_Gate Login License License_Expiry
    Smtp_Host Smtp_Mail Config_Source Settings_Routes Wizard_Routes Web_History
    Page_Text List_Parser Detail_Parser Migrations
begin

text \<open>
  Verification of the FIS monitor (\<^verbatim>\<open>src/src/fis_monitor\<close>), a desktop service that polls a
  public auction site for land lots, stores them, and notifies its user in the browser and by
  e-mail.

  \<^bold>\<open>The program and its parts.\<close>  A scheduler thread runs a monitor cycle over the newest list
  page; the cycle upserts the lots into SQLite and hands the new ones to the notification
  dispatcher, whose consumer thread delivers each on every channel, with retries and recovery
  after a crash. A backfill worker walks the first pages of the listing once, and again when
  the site's total grows; a daily full scan walks the whole listing and deactivates the lots
  that left it. All of them publish on one event bus, from which every browser tab has its own
  bounded subscription. Onboarding, do-not-disturb and the session-expired mail are small
  state machines over two key-value tables.

  \<^bold>\<open>Theories and code.\<close>
  \<^item> \<open>Prelude\<close>: strings as lists of code points, times as microseconds, exceptions as the
    datatype \<open>exc\<close>, results as \<open>exc + 'a\<close>, and the clock as a sequence of readings. Shared lemmas.
  \<^item> \<open>Domain\<close>: \<^verbatim>\<open>domain/models.py\<close>, \<^verbatim>\<open>domain/diff.py\<close>: records of the DTOs, events, snapshot diff.
  \<^item> \<open>Regions\<close>: \<^verbatim>\<open>domain/regions.py\<close>, the cutoff predicate and the subject filter.
  \<^item> \<open>Kv_Store\<close>, \<open>Dnd\<close>, \<open>Onboarding\<close>, \<open>Session_Email\<close>: the state and settings tables and the
    three services over them; they meet the locales \<open>settings_repository\<close> and \<open>state_repository\<close>.
  \<^item> \<open>Notif_Repo\<close>, \<open>Dispatcher\<close>: \<^verbatim>\<open>infra/sqlite/repositories/notifications.py\<close> and
    \<^verbatim>\<open>services/notifier_dispatcher.py\<close>. A queue of lots, the notification rows and the record of
    what went over the wire; \<open>send_loop\<close> is the retry loop of a sending, and ten attempts in all end a
    row. The process may die (\<open>de_dies\<close>) after a reserve, before a send, and between an accepted
    delivery and the commit that records it; \<open>d_deaths\<close> counts these.
  \<^item> \<open>Lot_Repo\<close>: \<^verbatim>\<open>infra/sqlite/repositories/lots.py\<close>: rows, history, R-tree and state table, one
    function per method, a rolled-back transaction being the unchanged state.
  \<^item> \<open>Event_Bus\<close>: \<^verbatim>\<open>infra/sse/bus.py\<close>, \<^verbatim>\<open>infra/sse/subscriptions.py\<close>: bounded queues, replay slots.
  \<^item> \<open>Fetcher\<close>: \<^verbatim>\<open>infra/http/client.py\<close>, \<^verbatim>\<open>infra/http/url_builder.py\<close> and
    \<^verbatim>\<open>services/paginated_list_fetcher.py\<close>: the generator is the list of the items it yields and
    the reason it ended.
  \<^item> \<open>Full_Scan\<close>: \<^verbatim>\<open>services/full_scan.py\<close>.
  \<^item> \<open>Cycles_Repo\<close>: \<^verbatim>\<open>infra/sqlite/repositories/cycles.py\<close>; locale \<open>cycle_log\<close>.
  \<^item> \<open>Humanize\<close>, \<open>Enrichment\<close>: \<^verbatim>\<open>services/humanize.py\<close>, \<^verbatim>\<open>services/enrichment.py\<close>.
  \<^item> \<open>Monitor_State\<close>, \<open>Backfill\<close>, \<open>Monitor_Cycle\<close>: \<^verbatim>\<open>services/backfill.py\<close> and
    \<^verbatim>\<open>services/monitor_cycle.py\<close> over one shared state, with the calls to the bus and to the
    dispatcher kept in order.
  \<^item> \<open>User_State\<close>: the region subscriptions, the user's marks and \<^verbatim>\<open>services/lot_user_state.py\<close>.
  \<^item> \<open>Iso_Text\<close>, \<open>Cursor\<close>, \<open>Lot_Query\<close>: \<^verbatim>\<open>services/lot_query.py\<close>, with the order of the stored date
    texts, the base64 page cursor and the page query; locale \<open>keyset\<close>.
  \<^item> \<open>View_Filters\<close>: \<^verbatim>\<open>services/view_filters.py\<close>, \<^verbatim>\<open>services/sse_view_filter.py\<close>,
    \<^verbatim>\<open>web/feed_context.py\<close> and the routes that read the filters.
  \<^item> \<open>Sse_Stream\<close>: \<^verbatim>\<open>infra/sse/sse_stream.py\<close> and the frames of \<^verbatim>\<open>web/sse_encoder.py\<close>, with a
    reference reader of the event-stream format.
  \<^item> \<open>Web_Gate\<close>: \<^verbatim>\<open>web/rate_limit.py\<close>, \<^verbatim>\<open>web/middleware.py\<close>, \<^verbatim>\<open>web/onboarding_gate.py\<close>, stacked as
    \<^verbatim>\<open>app.py\<close> stacks them; every request passes there first.
  \<^item> \<open>Login\<close>: \<^verbatim>\<open>services/session_monitor.py\<close>, \<^verbatim>\<open>services/login.py\<close>, the requests of
    \<^verbatim>\<open>web/routes/auth.py\<close> and the callback of \<^verbatim>\<open>composition.py\<close> that starts the backfill.
  \<^item> \<open>License\<close>, \<open>License_Expiry\<close>: the package \<^verbatim>\<open>licensing\<close>, the start-up check of \<^verbatim>\<open>app.py\<close> and
    \<^verbatim>\<open>services/license_expiry.py\<close>.
  \<^item> \<open>Smtp_Host\<close>, \<open>Smtp_Mail\<close>: \<^verbatim>\<open>infra/smtp/host_policy.py\<close> with the parts of Python's \<^verbatim>\<open>ipaddress\<close>
    it uses, the credential row, \<^verbatim>\<open>infra/smtp/email_notifier.py\<close> as the sequence of its calls to
    the library, and \<^verbatim>\<open>services/smtp_test.py\<close>.
  \<^item> \<open>Config_Source\<close>: the settings model of \<^verbatim>\<open>domain/models.py\<close> and \<^verbatim>\<open>infra/config_source.py\<close>.
  \<^item> \<open>Settings_Routes\<close>, \<open>Wizard_Routes\<close>: \<^verbatim>\<open>web/routes/settings.py\<close> with
    \<^verbatim>\<open>infra/smtp/provider_catalog.py\<close>, and \<^verbatim>\<open>web/routes/onboarding.py\<close>; the state is the stores and
    the configuration, an answer names the page or the redirect.
  \<^item> \<open>Web_History\<close>: histories of these requests, edits of the configuration file and restarts.
  \<^item> \<open>Page_Text\<close>, \<open>List_Parser\<close>, \<open>Detail_Parser\<close>: \<^verbatim>\<open>infra/parsers\<close> and \<^verbatim>\<open>infra/normalize.py\<close> over the
    record \<open>dom\<close>, what the selectors and texts of the HTML library answer.
  \<^item> \<open>Migrations\<close>: \<^verbatim>\<open>infra/sqlite/init_db.py\<close>, the runner of \<^verbatim>\<open>infra/sqlite/migrations.py\<close> and the ten
    migrations, over tables of columns and rows.
  \<^item> \<open>Monitor_System\<close>: histories of interleaved steps of these services, restarts included.

  \<^bold>\<open>What the lemmas show.\<close>  For the repositories: the exact result of every operation, error
  branches included, and invariants (unique keys, the R-tree mirrors the coordinates, terminal
  notification rows are absorbing). For the dispatcher: a row marked sent was accepted, an
  accepted delivery is repeated only after a death between its acceptance and its record, at most
  ten attempts per key over any number of restarts, and one recovery sweep advances every due row
  unless a lot cannot be read, which stops the sweep. For the bus: a critical event is queued or its subscriber removed;
  a normal one never removes anybody. For the walks: they end, and return all rows up to the
  reason they stopped. For the parsers: a page is read as it was written, and whatever it
  says, every row and card that comes out keeps the constraints the storage relies on.
  For the migrations: all or nothing, one chain at most, an
  upgraded database has the tables of a fresh one and keeps its rows. For the web forms: every settings value in force is valid, and the wizard passes its mailbox
  step only after a delivered test mail. For the scan, the backfill and the cycle: what is stored, announced and
  dispatched on every branch; across them, no lot is announced twice and no cycle runs before
  the first backfill is done.

  \<^bold>\<open>Loops, bounds and fuel.\<close>  No definition uses fuel that could run out: the retry loops count
  down the attempts left, the walk counts up to its limit of 1000 pages (\<open>walk_run\<close> does the same walk
  under a budget of iterations, and 1001 are proved enough), the batch loop shrinks
  the active rows beyond its offset, and pruning shrinks the table; each has its termination
  proof. Python's integers are \<open>int\<close>; network addresses are
  words of 32 and 128 bits, with the masks of the address blocks as bit operations on them.

  \<^bold>\<open>Concurrency.\<close>  Each operation that runs under a lock or in one SQLite transaction is one step.
  A thread is a pending step that runs to its end; stop and cancel events are readings supplied
  by the environment at each place the code reads them. A locked database (\<open>ce_locked\<close>) can fail
  the statements of a monitor cycle that open, fill and close it; in the other services an SQLite
  statement succeeds unless its own operation says otherwise. The handling of an expired license
  has an outcome of its own for each call that may raise.

  \<^bold>\<open>Parameters.\<close>  The HTTP wire, the HTML library, the upper-case table of Unicode, the notifiers,
  the time zone database, the configuration readings of the monitor, pydantic's JSON and address
  validation, SHA-256 and HMAC, the DNS resolver, the mail server with \<^verbatim>\<open>smtplib\<close>, the rendering of
  templates and the texts of exceptions are arguments of the definitions. Hypotheses about them
  say which exceptions they raise (\<open>env_raises_ok\<close>, \<open>sends_return\<close>, \<open>env_runs\<close>, \<open>lot_answers\<close>), that an event once set stays
  set (\<open>stop_coherent\<close>), that JSON reads back what it wrote (\<open>json_ok\<close>) and that a digest is 32
  bytes (\<open>mac_ok\<close>).

  \<^bold>\<open>Not modelled.\<close>  Logging, SQL text, indexes and connections, template rendering and its view
  models, the FastAPI routes other than settings, onboarding, filters and feed, the wiring, the browser login driver, the log and
  diagnostics files: they are I/O around the operations above or calls into libraries. A publication on the bus is assumed not to raise, and a
  validated list row converts into a lot, so that branch of the cycle is absent.
\<close>

end
